(* ===== verification/Prelude.thy ===== *)
theory Prelude
  imports Main "HOL-Library.Word"
begin

text \<open>
  Shared vocabulary of the development: the widths of the machine integers, the bit-range
  accessors of the HLS type \<open>ap_uint\<close> (\<open>x(hi, lo)\<close>, read and write), bounds-checked
  arrays, first-in first-out streams, and the generic lemmas on them that the components use.
\<close>

unbundle bit_operations_syntax

named_theorems range_simps \<open>reading back the fields of a packed bit vector\<close>
named_theorems step_defs \<open>the definitions of the one-cycle steps of the hardware modules\<close>

type_synonym u1 = "1 word"
type_synonym u8 = "8 word"
type_synonym u16 = "16 word"
type_synonym u32 = "32 word"
type_synonym u48 = "48 word"
type_synonym u64 = "64 word"
type_synonym u512 = "512 word"

section \<open>Bit ranges of ap_uint values\<close>

definition get_range :: "nat \<Rightarrow> nat \<Rightarrow> 'a::len word \<Rightarrow> 'b::len word" where
  "get_range hi lo w = ucast (take_bit (hi + 1 - lo) (drop_bit lo w))"

definition set_range :: "nat \<Rightarrow> nat \<Rightarrow> 'b::len word \<Rightarrow> 'a::len word \<Rightarrow> 'a word" where
  "set_range hi lo v w =
     (w AND NOT (push_bit lo (mask (hi + 1 - lo))))
       OR push_bit lo (take_bit (hi + 1 - lo) (ucast v))"

lemma bit_get_range:
  "bit (get_range hi lo (w :: 'a::len word) :: 'b::len word) n \<longleftrightarrow>
     n < LENGTH('b) \<and> n + lo \<le> hi \<and> bit w (n + lo)"
  by (auto simp: get_range_def bit_simps not_less ac_simps dest: bit_imp_le_length)

lemma bit_set_range:
  "bit (set_range hi lo (v :: 'b::len word) (w :: 'a::len word)) n \<longleftrightarrow>
     n < LENGTH('a) \<and> (if lo \<le> n \<and> n \<le> hi then bit v (n - lo) else bit w n)"
  by (auto simp: set_range_def bit_simps not_less ac_simps dest: bit_imp_le_length)

lemma get_set_same [range_simps]:
  "hi + 1 = lo + LENGTH('b) \<Longrightarrow> hi < LENGTH('a) \<Longrightarrow>
     get_range hi lo (set_range hi lo (v :: 'b::len word) (w :: 'a::len word)) = v"
  by (rule bit_word_eqI) (auto simp: bit_get_range bit_set_range dest: bit_imp_le_length)

lemma get_set_other [range_simps]:
  "hi < lo' \<or> hi' < lo \<Longrightarrow>
     get_range hi lo (set_range hi' lo' (v :: 'c::len word) (w :: 'a::len word)) = get_range hi lo w"
  by (rule bit_word_eqI) (auto simp: bit_get_range bit_set_range dest: bit_imp_le_length)


text \<open>
  \<open>put_array base w vs x\<close> is the source's loop that writes the elements of an array into
  consecutive ranges of \<open>w\<close> bits, and \<open>get_array\<close> the loop that reads them back.
\<close>

fun put_array :: "nat \<Rightarrow> nat \<Rightarrow> 'b::len word list \<Rightarrow> 'a::len word \<Rightarrow> 'a word" where
  "put_array base k [] w = w"
| "put_array base k (v # vs) w = put_array (base + k) k vs (set_range (base + k - 1) base v w)"

definition get_array :: "nat \<Rightarrow> nat \<Rightarrow> nat \<Rightarrow> 'a::len word \<Rightarrow> 'b::len word list" where
  "get_array base k n w = map (\<lambda>i. get_range (base + k * i + k - 1) (base + k * i) w) [0..<n]"

lemma bit_put_array_below: "n < base \<Longrightarrow> bit (put_array base k vs w) n = bit w n"
  by (induction base k vs w rule: put_array.induct)
    (auto simp: bit_set_range dest: bit_imp_le_length)

lemma bit_put_array_above:
  "base + k * length vs \<le> n \<Longrightarrow> 0 < k \<Longrightarrow> bit (put_array base k vs w) n = bit w n"
  by (induction base k vs w rule: put_array.induct)
    (auto simp: bit_set_range algebra_simps dest: bit_imp_le_length)

lemma get_put_array_other [range_simps]:
  fixes w :: "'a::len word"
  assumes "hi < base \<or> base + k * length vs \<le> lo" and "0 < k"
  shows "get_range hi lo (put_array base k vs w) = (get_range hi lo w :: 'c::len word)"
proof (rule bit_word_eqI)
  fix n
  show "bit (get_range hi lo (put_array base k vs w) :: 'c word) n =
        bit (get_range hi lo w :: 'c word) n"
  proof (cases "hi < base")
    case True
    then show ?thesis by (auto simp: bit_get_range bit_put_array_below)
  next
    case False
    with assms show ?thesis by (auto simp: bit_get_range bit_put_array_above)
  qed
qed

lemma get_put_array_nth:
  fixes vs :: "'b::len word list" and w :: "'a::len word"
  assumes "k = LENGTH('b)" "base + k * length vs \<le> LENGTH('a)" "i < length vs"
  shows "get_range (base + k * i + k - 1) (base + k * i) (put_array base k vs w) = vs ! i"
  using assms
proof (induction base k vs w arbitrary: i rule: put_array.induct)
  case (1 base k w)
  then show ?case by simp
next
  case (2 base k v vs w)
  have k: "0 < k" using 2(2) by simp
  show ?case
  proof (cases i)
    case 0
    have "get_range (base + k - 1) base (put_array (base + k) k vs (set_range (base + k - 1) base v w))
        = (get_range (base + k - 1) base (set_range (base + k - 1) base v w) :: 'b word)"
      using k by (intro get_put_array_other) auto
    also have "\<dots> = v"
    proof (rule get_set_same)
      show "base + k - 1 + 1 = base + LENGTH('b)" using 2(2) k by simp
      have "base + k \<le> LENGTH('a)" using 2(3) by simp
      then show "base + k - 1 < LENGTH('a)" using k by linarith
    qed
    finally show ?thesis using 0 by simp
  next
    case (Suc j)
    have "get_range (base + k + k * j + k - 1) (base + k + k * j)
        (put_array (base + k) k vs (set_range (base + k - 1) base v w)) = vs ! j"
      using 2(2-4) Suc by (intro 2(1)) auto
    then show ?thesis using Suc by (simp add: algebra_simps)
  qed
qed

lemma get_put_array [range_simps]:
  fixes vs :: "'b::len word list" and w :: "'a::len word"
  assumes "k = LENGTH('b)" "base + k * n \<le> LENGTH('a)" "length vs = n"
  shows "get_array base k n (put_array base k vs w) = vs"
proof (rule nth_equalityI)
  show "length (get_array base k n (put_array base k vs w)) = length vs"
    using assms by (simp add: get_array_def)
  fix i assume "i < length (get_array base k n (put_array base k vs w))"
  then have i: "i < n" by (simp add: get_array_def)
  then have "get_array base k n (put_array base k vs w) ! i =
      get_range (base + k * i + k - 1) (base + k * i) (put_array base k vs w)"
    by (simp add: get_array_def)
  also have "\<dots> = vs ! i" using assms i by (intro get_put_array_nth) auto
  finally show "get_array base k n (put_array base k vs w) ! i = vs ! i" .
qed

lemma length_get_array [simp]: "length (get_array base k n w) = n"
  by (simp add: get_array_def)

lemma get_array_set_other [range_simps]:
  fixes w :: "'a::len word"
  assumes "base + k * n \<le> lo \<or> hi < base" and "0 < k"
  shows "get_array base k n (set_range hi lo v w) = (get_array base k n w :: 'c::len word list)"
proof -
  have "(get_range (base + k * i + k - 1) (base + k * i) (set_range hi lo v w) :: 'c word)
      = get_range (base + k * i + k - 1) (base + k * i) w" if "i < n" for i
  proof (rule get_set_other)
    have "k * Suc i \<le> k * n" using that by (intro mult_le_mono) auto
    then show "base + k * i + k - 1 < lo \<or> hi < base + k * i" using assms by auto
  qed
  then show ?thesis by (simp add: get_array_def)
qed

section \<open>Byte order of the network\<close>

text \<open>
  The first byte on the wire is the most significant byte of the payload: the loops of
  \<open>utils.cpp\<close> that copy byte \<open>i\<close> of the wire from or to byte \<open>63 - i\<close> of a 512-bit payload.
  The first argument is the destination before the loop, which is never initialised in the source.
\<close>

definition wire_of_payload :: "u512 \<Rightarrow> u512 \<Rightarrow> u512" where
  "wire_of_payload d0 p =
     fold (\<lambda>i d. set_range ((i + 1) * 8 - 1) (i * 8)
             (get_range (511 - i * 8) (511 - ((i + 1) * 8 - 1)) p :: u8) d) [0..<64] d0"

definition payload_of_wire :: "u512 \<Rightarrow> u512 \<Rightarrow> u512" where
  "payload_of_wire p0 d =
     fold (\<lambda>i p. set_range (511 - i * 8) (511 - ((i + 1) * 8 - 1))
             (get_range ((i + 1) * 8 - 1) (i * 8) d :: u8) p) [0..<64] p0"

definition mirror :: "nat \<Rightarrow> nat" where
  "mirror n = 8 * (63 - n div 8) + n mod 8"

lemma mirror_less: "mirror n < 512"
proof -
  have "n mod 8 < 8" by simp
  then show ?thesis unfolding mirror_def by linarith
qed

lemma mirror_split: "r < 8 \<Longrightarrow> mirror (8 * q + r) = 8 * (63 - q) + r"
  by (simp add: mirror_def)

lemma mirror_mirror:
  assumes "n < 512"
  shows "mirror (mirror n) = n"
proof -
  define q r where "q = n div 8" and "r = n mod 8"
  have n: "n = 8 * q + r" and r: "r < 8" by (simp_all add: q_def r_def)
  with assms have q: "q \<le> 63" by linarith
  from n have "mirror (mirror n) = mirror (8 * (63 - q) + r)" using r by (simp add: mirror_split)
  also have "\<dots> = 8 * (63 - (63 - q)) + r" using r by (rule mirror_split)
  also have "\<dots> = n" using n q by simp
  finally show ?thesis .
qed

text \<open>Each iteration writes one byte: the one the loop index names.\<close>

lemma mirror_in_byte:
  assumes "k < 64" "k * 8 \<le> n" "n \<le> k * 8 + 7"
  shows "mirror n = n - k * 8 + (511 - (k * 8 + 7))"
proof -
  from assms have n: "n = 8 * k + (n - k * 8)" and r: "n - k * 8 < 8" by auto
  from mirror_split [OF r, of k] have "mirror n = 8 * (63 - k) + (n - k * 8)" using n by simp
  then show ?thesis using assms by simp
qed

lemma bit_wire_loop:
  fixes p d0 :: u512
  assumes "k \<le> 64" "n < 512"
  shows "bit (fold (\<lambda>i d. set_range ((i + 1) * 8 - 1) (i * 8)
             (get_range (511 - i * 8) (511 - ((i + 1) * 8 - 1)) p :: u8) d) [0..<k] d0) n
      = (if n < 8 * k then bit p (mirror n) else bit d0 n)"
  using assms(1)
proof (induction k)
  case 0
  then show ?case by simp
next
  case (Suc k)
  show ?case
  proof (cases "k * 8 \<le> n \<and> n \<le> k * 8 + 7")
    case True
    then have "mirror n = n - k * 8 + (511 - (k * 8 + 7))"
      using Suc.prems by (intro mirror_in_byte) auto
    with True Suc.prems assms(2) show ?thesis
      by (auto simp: bit_set_range bit_get_range)
  next
    case False
    then have "n < 8 * k \<longleftrightarrow> n < 8 * Suc k" by auto
    with False Suc assms(2) show ?thesis by (auto simp: bit_set_range)
  qed
qed

lemma mirror_in_top_byte:
  assumes "k < 64" "504 - k * 8 \<le> n" "n \<le> 511 - k * 8"
  shows "mirror n = n - (504 - k * 8) + k * 8"
proof -
  from assms have n: "n = 8 * (63 - k) + (n - (504 - k * 8))" and r: "n - (504 - k * 8) < 8"
    by auto
  from mirror_split [OF r, of "63 - k"] show ?thesis using n assms by simp
qed

lemma bit_payload_loop:
  fixes p0 d :: u512
  assumes "k \<le> 64" "n < 512"
  shows "bit (fold (\<lambda>i p. set_range (511 - i * 8) (511 - ((i + 1) * 8 - 1))
             (get_range ((i + 1) * 8 - 1) (i * 8) d :: u8) p) [0..<k] p0) n
      = (if 512 \<le> n + 8 * k then bit d (mirror n) else bit p0 n)"
  using assms(1)
proof (induction k)
  case 0
  then show ?case using assms(2) by simp
next
  case (Suc k)
  show ?case
  proof (cases "504 - k * 8 \<le> n \<and> n \<le> 511 - k * 8")
    case True
    then have "mirror n = n - (504 - k * 8) + k * 8"
      using Suc.prems by (intro mirror_in_top_byte) auto
    with True Suc.prems assms(2) show ?thesis
      by (auto simp: bit_set_range bit_get_range)
  next
    case False
    then have "512 \<le> n + 8 * k \<longleftrightarrow> 512 \<le> n + 8 * Suc k" using Suc.prems by auto
    with False Suc assms(2) show ?thesis by (auto simp: bit_set_range)
  qed
qed

lemma bit_wire_of_payload: "bit (wire_of_payload d0 p) n \<longleftrightarrow> n < 512 \<and> bit p (mirror n)"
  using bit_wire_loop [of 64 n p d0]
  by (cases "n < 512") (auto simp: wire_of_payload_def dest: bit_imp_le_length)

lemma bit_payload_of_wire: "bit (payload_of_wire p0 d) n \<longleftrightarrow> n < 512 \<and> bit d (mirror n)"
  using bit_payload_loop [of 64 n d p0]
  by (cases "n < 512") (auto simp: payload_of_wire_def dest: bit_imp_le_length)

lemma payload_of_wire_of_payload [simp]: "payload_of_wire p0 (wire_of_payload d0 p) = p"
  by (rule bit_word_eqI)
    (simp add: bit_payload_of_wire bit_wire_of_payload mirror_less mirror_mirror)

section \<open>Bytes\<close>

lemma bit_put_array:
  fixes vs :: "'b::len word list" and w :: "'a::len word"
  assumes k: "k = LENGTH('b)" and len: "base + k * length vs \<le> LENGTH('a)"
  shows "bit (put_array base k vs w) n =
     (if base \<le> n \<and> n < base + k * length vs then bit (vs ! ((n - base) div k)) ((n - base) mod k) else bit w n)"
proof (cases "base \<le> n \<and> n < base + k * length vs")
  case True
  let ?i = "(n - base) div k" and ?j = "(n - base) mod k"
  have kpos: "0 < k" using k by simp
  have "n - base < length vs * k" using True by (auto simp: mult.commute)
  then have i: "?i < length vs" by (rule less_mult_imp_div_less)
  have n: "n = ?j + (base + k * ?i)" using True by (simp add: algebra_simps)
  have j: "?j < k" using kpos by simp
  have "bit (vs ! ?i) ?j = bit (get_range (base + k * ?i + k - 1) (base + k * ?i) (put_array base k vs w) :: 'b word) ?j"
    using get_put_array_nth [OF k len i] by simp
  also have "\<dots> = bit (put_array base k vs w) (?j + (base + k * ?i))"
  proof -
    have "?j + (base + k * ?i) \<le> base + k * ?i + k - 1" using j by linarith
    moreover have "?j < LENGTH('b)" using j k by simp
    ultimately show ?thesis unfolding bit_get_range by blast
  qed
  also have "\<dots> = bit (put_array base k vs w) n" using n by simp
  finally show ?thesis using True by simp
next
  case False
  with k show ?thesis by (auto simp: not_le not_less bit_put_array_below bit_put_array_above)
qed

text \<open>Little-endian: the first byte is the least significant.\<close>

definition bytes_of :: "nat \<Rightarrow> 'a::len word \<Rightarrow> u8 list" where
  "bytes_of n v = get_array 0 8 n v"

definition of_bytes :: "u8 list \<Rightarrow> 'a::len word" where
  "of_bytes bs = put_array 0 8 bs 0"

lemma length_bytes_of [simp]: "length (bytes_of n v) = n"
  by (simp add: bytes_of_def)

lemma bytes_of_of_bytes: "8 * length bs \<le> LENGTH('a) \<Longrightarrow> bytes_of (length bs) (of_bytes bs :: 'a::len word) = bs"
  by (simp add: bytes_of_def of_bytes_def get_put_array)

lemma nth_bytes_of: "i < n \<Longrightarrow> bytes_of n v ! i = get_range (8 * i + 7) (8 * i) v"
  by (simp add: bytes_of_def get_array_def add.commute)

lemma bit_of_bytes:
  "8 * length bs \<le> LENGTH('a) \<Longrightarrow>
     bit (of_bytes bs :: 'a::len word) n \<longleftrightarrow> n < 8 * length bs \<and> bit (bs ! (n div 8)) (n mod 8)"
  by (auto simp: of_bytes_def bit_put_array)

lemma of_bytes_slice:
  fixes w :: "'a::len word"
  assumes "8 * n = LENGTH('b)" "off + n \<le> N"
  shows "(of_bytes (take n (drop off (bytes_of N w))) :: 'b::len word) = get_range (8 * off + 8 * n - 1) (8 * off) w"
proof (rule bit_word_eqI)
  fix i assume i: "i < LENGTH('b)"
  have len: "length (take n (drop off (bytes_of N w))) = n" using assms by simp
  have idx: "i div 8 < n" using i assms(1) by simp
  have split: "8 * (i div 8) + i mod 8 = i" by simp
  have "bit (of_bytes (take n (drop off (bytes_of N w))) :: 'b word) i
      \<longleftrightarrow> bit (bytes_of N w ! (off + i div 8)) (i mod 8)"
    using i assms idx by (subst bit_of_bytes) (simp_all add: len)
  also have "\<dots> \<longleftrightarrow> bit w (i mod 8 + 8 * (off + i div 8))"
    using assms idx by (subst nth_bytes_of) (auto simp: bit_get_range)
  also have "i mod 8 + 8 * (off + i div 8) = i + 8 * off"
    using split by (simp add: algebra_simps)
  finally show "bit (of_bytes (take n (drop off (bytes_of N w))) :: 'b word) i
      = bit (get_range (8 * off + 8 * n - 1) (8 * off) w :: 'b word) i"
    using i assms(1) by (auto simp: bit_get_range)
qed

lemma of_bytes_bytes_of: "8 * n = LENGTH('a) \<Longrightarrow> of_bytes (bytes_of n (v :: 'a::len word)) = v"
proof -
  assume n: "8 * n = LENGTH('a)"
  have "of_bytes (take n (drop 0 (bytes_of n v))) = (get_range (8 * 0 + 8 * n - 1) (8 * 0) v :: 'a word)"
    using n by (intro of_bytes_slice) auto
  also have "\<dots> = v" using n by (intro bit_word_eqI) (auto simp: bit_get_range)
  finally show ?thesis by simp
qed

lemma get_array_slice:
  fixes w :: "'a::len word"
  assumes "off + n \<le> N"
  shows "get_array (8 * off) 8 n w = take n (drop off (bytes_of N w))"
  using assms by (intro nth_equalityI) (auto simp: get_array_def nth_bytes_of algebra_simps)

end
