(* ===== verification/Messages.thy ===== *)
theory Messages
  imports Prelude
begin

text \<open>
  The wire vocabulary of the system: the message types and directory states shared by the host
  (\<open>soft_multi_node/include/Common.h\<close>) and the FPGA (\<open>hls/highPara/src/dsmtype.hpp\<close>), the
  structures the hardware modules exchange (\<open>io.hpp\<close>, \<open>utils.hpp\<close>), and the conversions
  between them (\<open>utils.cpp\<close>). The lemmas show that every pair of encoder and decoder is a
  round trip on the fields it carries.

  A conversion of the source that fills a structure passed by reference is a function from the
  structure before the call to the structure after it: a field it does not assign keeps the value
  it had, which for a local variable of the caller is an uninitialised one.
\<close>

section \<open>Enumerations\<close>

datatype RawMessageType =
    R_DEBUG | R_READ_MISS | R_WRITE_MISS | R_WRITE_SHARED | R_EVICT_SHARED | R_EVICT_DIRTY
  | DIR_2_APP_READ_MISS_ACKDATA | DIR_2_APP_WRITE_MISS_ACKDATA | DIR_2_APP_WRITE_MISS_SHAREDDATA
  | DIR_2_APP_WRITE_SHARED_ONLYACK | DIR_2_APP_EVICT_SHARED_ACK | DIR_2_APP_EVICT_DIRTY_ACK
  | DIR_2_APP_M_CHECK_FAIL | DIR_2_APP_BITMAP_CHECK_FAIL
  | DIR_2_AGENT_READ_MISS_DIRTY | DIR_2_AGENT_WRITE_MISS_DIRTY | DIR_2_AGENT_WRITE_MISS_SHARED
  | DIR_2_AGENT_WRITE_SHARED_NOTONLY
  | AGENT_2_DIR_READ_MISS_DIRTY_ACKDATA | AGENT_2_DIR_WRITE_MISS_DIRTY_ACK
  | AGENT_2_DIR_WRITE_MISS_SHARED_ACK | AGENT_2_DIR_WRITE_SHARED_NOTONLY_ACK
  | AGENT_2_DIR_M_CHECK_FAIL
  | AGENT_2_APP_READ_MISS_DIRTY_ACKDATA | AGENT_2_APP_WRITE_MISS_DIRTY_ACKDATA
  | DIR_2_APP_WRITE_MISS_SHARED_AGGACK_ACK | DIR_2_APP_WRITE_SHARED_NOTONLY_AGGACK_ACK
  | INIT_DIR | INIT_NET

text \<open>The value of each enumerator: explicit ones as written, the others one more than the last.\<close>

primrec mtype_code :: "RawMessageType \<Rightarrow> u8" where
  "mtype_code R_DEBUG = 0"
| "mtype_code R_READ_MISS = 1"
| "mtype_code R_WRITE_MISS = 2"
| "mtype_code R_WRITE_SHARED = 3"
| "mtype_code R_EVICT_SHARED = 4"
| "mtype_code R_EVICT_DIRTY = 5"
| "mtype_code DIR_2_APP_READ_MISS_ACKDATA = 11"
| "mtype_code DIR_2_APP_WRITE_MISS_ACKDATA = 12"
| "mtype_code DIR_2_APP_WRITE_MISS_SHAREDDATA = 13"
| "mtype_code DIR_2_APP_WRITE_SHARED_ONLYACK = 14"
| "mtype_code DIR_2_APP_EVICT_SHARED_ACK = 15"
| "mtype_code DIR_2_APP_EVICT_DIRTY_ACK = 16"
| "mtype_code DIR_2_APP_M_CHECK_FAIL = 17"
| "mtype_code DIR_2_APP_BITMAP_CHECK_FAIL = 18"
| "mtype_code DIR_2_AGENT_READ_MISS_DIRTY = 21"
| "mtype_code DIR_2_AGENT_WRITE_MISS_DIRTY = 22"
| "mtype_code DIR_2_AGENT_WRITE_MISS_SHARED = 23"
| "mtype_code DIR_2_AGENT_WRITE_SHARED_NOTONLY = 24"
| "mtype_code AGENT_2_DIR_READ_MISS_DIRTY_ACKDATA = 31"
| "mtype_code AGENT_2_DIR_WRITE_MISS_DIRTY_ACK = 32"
| "mtype_code AGENT_2_DIR_WRITE_MISS_SHARED_ACK = 33"
| "mtype_code AGENT_2_DIR_WRITE_SHARED_NOTONLY_ACK = 34"
| "mtype_code AGENT_2_DIR_M_CHECK_FAIL = 35"
| "mtype_code AGENT_2_APP_READ_MISS_DIRTY_ACKDATA = 41"
| "mtype_code AGENT_2_APP_WRITE_MISS_DIRTY_ACKDATA = 42"
| "mtype_code DIR_2_APP_WRITE_MISS_SHARED_AGGACK_ACK = 51"
| "mtype_code DIR_2_APP_WRITE_SHARED_NOTONLY_AGGACK_ACK = 52"
| "mtype_code INIT_DIR = 53"
| "mtype_code INIT_NET = 54"

definition all_mtypes :: "RawMessageType list" where
  "all_mtypes =
    [R_DEBUG, R_READ_MISS, R_WRITE_MISS, R_WRITE_SHARED, R_EVICT_SHARED, R_EVICT_DIRTY,
     DIR_2_APP_READ_MISS_ACKDATA, DIR_2_APP_WRITE_MISS_ACKDATA, DIR_2_APP_WRITE_MISS_SHAREDDATA,
     DIR_2_APP_WRITE_SHARED_ONLYACK, DIR_2_APP_EVICT_SHARED_ACK, DIR_2_APP_EVICT_DIRTY_ACK,
     DIR_2_APP_M_CHECK_FAIL, DIR_2_APP_BITMAP_CHECK_FAIL, DIR_2_AGENT_READ_MISS_DIRTY,
     DIR_2_AGENT_WRITE_MISS_DIRTY, DIR_2_AGENT_WRITE_MISS_SHARED, DIR_2_AGENT_WRITE_SHARED_NOTONLY,
     AGENT_2_DIR_READ_MISS_DIRTY_ACKDATA, AGENT_2_DIR_WRITE_MISS_DIRTY_ACK,
     AGENT_2_DIR_WRITE_MISS_SHARED_ACK, AGENT_2_DIR_WRITE_SHARED_NOTONLY_ACK,
     AGENT_2_DIR_M_CHECK_FAIL, AGENT_2_APP_READ_MISS_DIRTY_ACKDATA,
     AGENT_2_APP_WRITE_MISS_DIRTY_ACKDATA, DIR_2_APP_WRITE_MISS_SHARED_AGGACK_ACK,
     DIR_2_APP_WRITE_SHARED_NOTONLY_AGGACK_ACK, INIT_DIR, INIT_NET]"

text \<open>The case a \<open>switch\<close> on a message type takes; \<open>None\<close> is a value no enumerator has.\<close>

definition mtype_of :: "u8 \<Rightarrow> RawMessageType option" where
  "mtype_of w = find (\<lambda>t. mtype_code t = w) all_mtypes"

lemma mtype_of_code [simp]: "mtype_of (mtype_code t) = Some t"
  by (cases t) (simp_all add: mtype_of_def all_mtypes_def)

lemma mtype_of_SomeD: "mtype_of w = Some t \<Longrightarrow> w = mtype_code t"
  by (auto simp: mtype_of_def find_Some_iff)

lemma mtype_of_eq_Some [simp]: "mtype_of w = Some t \<longleftrightarrow> w = mtype_code t"
  using mtype_of_SomeD by auto

lemma mtype_code_inj [simp]: "mtype_code s = mtype_code t \<longleftrightarrow> s = t"
  by (metis mtype_of_code option.inject)

text \<open>Message types are ordered by their values, as the deparser's range tests compare them.\<close>

instantiation RawMessageType :: linorder
begin

definition less_eq_RawMessageType :: "RawMessageType \<Rightarrow> RawMessageType \<Rightarrow> bool" where
  "less_eq_RawMessageType s t \<longleftrightarrow> mtype_code s \<le> mtype_code t"

definition less_RawMessageType :: "RawMessageType \<Rightarrow> RawMessageType \<Rightarrow> bool" where
  "less_RawMessageType s t \<longleftrightarrow> mtype_code s < mtype_code t"

instance
  by standard
    (auto simp: less_eq_RawMessageType_def less_RawMessageType_def order.strict_iff_order)

end

datatype RawState = S_UNSHARED | S_SHARED | S_DIRTY | S_TO_UNSHARED | S_TO_SHARED | S_TO_DIRTY

primrec state_code :: "RawState \<Rightarrow> u8" where
  "state_code S_UNSHARED = 0"
| "state_code S_SHARED = 1"
| "state_code S_DIRTY = 2"
| "state_code S_TO_UNSHARED = 3"
| "state_code S_TO_SHARED = 4"
| "state_code S_TO_DIRTY = 5"

definition state_of :: "u8 \<Rightarrow> RawState option" where
  "state_of w = find (\<lambda>t. state_code t = w)
     [S_UNSHARED, S_SHARED, S_DIRTY, S_TO_UNSHARED, S_TO_SHARED, S_TO_DIRTY]"

lemma state_of_code [simp]: "state_of (state_code t) = Some t"
  by (cases t) (simp_all add: state_of_def)

lemma state_of_eq_Some [simp]: "state_of w = Some t \<longleftrightarrow> w = state_code t"
proof
  assume "state_of w = Some t"
  then show "w = state_code t" by (auto simp: state_of_def split: if_splits)
qed simp

lemma state_code_inj [simp]: "state_code s = state_code t \<longleftrightarrow> s = t"
  by (metis state_of_code option.inject)

text \<open>Proofs reason about enumerators, not about their values.\<close>

lemmas code_values = mtype_code.simps state_code.simps

declare mtype_code.simps [simp del] state_code.simps [simp del]

section \<open>Constants\<close>

definition max_node_num :: nat where "max_node_num = 8"
definition max_appt_num_per_node :: nat where "max_appt_num_per_node = 24"
definition max_syst_num_per_node :: nat where "max_syst_num_per_node = 8"
definition max_msg_num_per_q :: nat where "max_msg_num_per_q = 64"
definition max_msg_length :: nat where "max_msg_length = 64"
definition DSM_CACHE_LINE_WIDTH :: nat where "DSM_CACHE_LINE_WIDTH = 12"
definition DSM_CACHE_LINE_SIZE :: nat where "DSM_CACHE_LINE_SIZE = 2 ^ DSM_CACHE_LINE_WIDTH"

lemma line_size_value [simp]: "DSM_CACHE_LINE_SIZE = 4096"
  by (simp add: DSM_CACHE_LINE_SIZE_def DSM_CACHE_LINE_WIDTH_def)

section \<open>Structures\<close>

record net_rxtx =
  nt_data :: u512
  nt_keep :: u64
  nt_last :: u1

record ddr_aw =
  aw_addr :: "34 word"
  aw_burst :: "2 word"
  aw_cache :: "4 word"
  aw_id :: "6 word"
  aw_len :: u8
  aw_lock :: "2 word"
  aw_prot :: "3 word"
  aw_qos :: "4 word"
  aw_size :: "3 word"

record ddr_w =
  w_data :: u512
  w_last :: u1
  w_strb :: u64

record ddr_ar =
  ar_addr :: "34 word"
  ar_burst :: "2 word"
  ar_cache :: "4 word"
  ar_id :: "6 word"
  ar_len :: u8
  ar_lock :: "2 word"
  ar_prot :: "3 word"
  ar_qos :: "4 word"
  ar_size :: "3 word"

record ddr_r =
  r_data :: u512
  r_last :: u1
  r_resp :: "2 word"
  r_id :: "6 word"

record ddr_b =
  b_resp :: "2 word"
  b_id :: "6 word"

record h2c_cmd =
  hc_addr :: u64
  hc_len :: u32
  hc_qid :: "11 word"

record h2c_data =
  hd_data :: u512
  hd_tuser_qid :: "11 word"
  hd_last :: u1

record c2h_cmd =
  cc_addr :: u64
  cc_len :: u32
  cc_qid :: "11 word"

record c2h_data =
  cd_data :: u512
  cd_ctrl_qid :: "11 word"
  cd_last :: u1

record h2c_w =
  hw_data :: u512
  hw_last :: u1
  hw_strb :: u64

record dir_ack =
  da_ack :: u8

record dir_cmd =
  dc_gblock_index :: u32

record dir_data =
  dd_gblock_addr :: u64
  dd_gblock_index :: u32
  dd_gblock_bitmap :: "u8 list"
  dd_state :: u8
  dd_replica_count :: u8

record dir_data_e =
  de_gblock_addr :: u64
  de_gblock_index :: u32
  de_gblock_bitmap :: "u8 list"
  de_state :: u8
  de_replica_count :: u8
  de_agent_cline_addr :: "u64 list"

record net_init_msg =
  ni_node_id :: u8
  ni_node_mac :: u48

record data_msg =
  dm_data :: u512
  dm_keep :: u64
  dm_last :: u1

record ctrl_msg =
  cm_mtype :: u8
  cm_req_cline_nodeID :: u8
  cm_req_cline_appThreadID :: u8
  cm_req_cline_addr :: u64
  cm_req_cline_index :: u32
  cm_cline_tag :: u64
  cm_agent_cline_nodeID :: u8
  cm_agent_cline_addr :: u64
  cm_dir_gblock_addr :: u64
  cm_dir_gblock_index :: u32
  cm_dir_gblock_bitmap :: "u8 list"
  cm_dir_gblock_nodeID :: u8
  cm_general_c2h_owner :: u8
  cm_init_state :: u8
  cm_init_mac :: u48
  cm_data_msg_length :: u16
  cm_dst_thread_type :: u8
  cm_dst_node_id :: u8
  cm_lock_position :: u8

text \<open>The arrays of a structure have the length their declarations give them.\<close>

definition ctrl_msg_wf :: "ctrl_msg \<Rightarrow> bool" where
  "ctrl_msg_wf m \<longleftrightarrow> length (cm_dir_gblock_bitmap m) = max_node_num"

definition dir_data_e_wf :: "dir_data_e \<Rightarrow> bool" where
  "dir_data_e_wf d \<longleftrightarrow>
     length (de_gblock_bitmap d) = max_node_num \<and> length (de_agent_cline_addr d) = max_node_num"

section \<open>Conversions\<close>

abbreviation all_ones :: u64 where "all_ones \<equiv> 0xffffffffffffffff"

definition set_mac :: "u512 \<Rightarrow> net_rxtx \<Rightarrow> u48 \<Rightarrow> u48 \<Rightarrow> net_rxtx" where
  "set_mac tmp_l2payload tmp_net_tx src_mac dst_mac =
     (let p = set_range 463 416 src_mac (set_range 511 464 dst_mac tmp_l2payload)
      in tmp_net_tx\<lparr>nt_data := wire_of_payload (nt_data tmp_net_tx) p,
                    nt_keep := all_ones, nt_last := 0\<rparr>)"

definition get_dst_mac :: "u512 \<Rightarrow> net_rxtx \<Rightarrow> u48" where
  "get_dst_mac tmp_l2payload tmp_net_rx =
     get_range 511 464 (payload_of_wire tmp_l2payload (nt_data tmp_net_rx))"

text \<open>The fields every packed form of a control message begins with.\<close>

definition put_ctrl_fields :: "ctrl_msg \<Rightarrow> u512 \<Rightarrow> u512" where
  "put_ctrl_fields m p =
    (let p = set_range 7 0 (cm_mtype m) p;
         p = set_range 15 8 (cm_req_cline_nodeID m) p;
         p = set_range 23 16 (cm_req_cline_appThreadID m) p;
         p = set_range 87 24 (cm_req_cline_addr m) p;
         p = set_range 119 88 (cm_req_cline_index m) p;
         p = set_range 183 120 (cm_cline_tag m) p;
         p = set_range 191 184 (cm_agent_cline_nodeID m) p;
         p = set_range 255 192 (cm_agent_cline_addr m) p;
         p = set_range 319 256 (cm_dir_gblock_addr m) p;
         p = set_range 351 320 (cm_dir_gblock_index m) p;
         p = put_array 352 8 (cm_dir_gblock_bitmap m) p
     in set_range 423 416 (cm_dir_gblock_nodeID m) p)"

definition get_ctrl_fields :: "u512 \<Rightarrow> ctrl_msg \<Rightarrow> ctrl_msg" where
  "get_ctrl_fields p m = m\<lparr>
     cm_mtype := get_range 7 0 p,
     cm_req_cline_nodeID := get_range 15 8 p,
     cm_req_cline_appThreadID := get_range 23 16 p,
     cm_req_cline_addr := get_range 87 24 p,
     cm_req_cline_index := get_range 119 88 p,
     cm_cline_tag := get_range 183 120 p,
     cm_agent_cline_nodeID := get_range 191 184 p,
     cm_agent_cline_addr := get_range 255 192 p,
     cm_dir_gblock_addr := get_range 319 256 p,
     cm_dir_gblock_index := get_range 351 320 p,
     cm_dir_gblock_bitmap := get_array 352 8 max_node_num p,
     cm_dir_gblock_nodeID := get_range 423 416 p\<rparr>"

definition ctrl_msg_to_net_tx :: "u512 \<Rightarrow> ctrl_msg \<Rightarrow> net_rxtx \<Rightarrow> net_rxtx" where
  "ctrl_msg_to_net_tx tmp_l2payload m tmp_net_tx =
     (let p = set_range 439 424 (cm_data_msg_length m) (put_ctrl_fields m tmp_l2payload)
      in tmp_net_tx\<lparr>nt_data := wire_of_payload (nt_data tmp_net_tx) p,
                    nt_keep := all_ones,
                    nt_last := (if cm_data_msg_length m = 0 then 1 else 0)\<rparr>)"

definition data_msg_to_net_tx :: "data_msg \<Rightarrow> net_rxtx \<Rightarrow> net_rxtx" where
  "data_msg_to_net_tx d tmp_net_tx =
     tmp_net_tx\<lparr>nt_data := wire_of_payload (nt_data tmp_net_tx) (dm_data d),
                nt_keep := all_ones, nt_last := dm_last d\<rparr>"

definition net_rx_to_c2h_data :: "u512 \<Rightarrow> net_rxtx \<Rightarrow> c2h_data \<Rightarrow> c2h_data" where
  "net_rx_to_c2h_data tmp_l2payload r c =
     c\<lparr>cd_data := payload_of_wire tmp_l2payload (nt_data r), cd_ctrl_qid := 2,
       cd_last := nt_last r\<rparr>"

definition net_rx_to_ctrl_msg :: "u512 \<Rightarrow> net_rxtx \<Rightarrow> ctrl_msg \<Rightarrow> ctrl_msg" where
  "net_rx_to_ctrl_msg tmp_l2payload r m =
     (let p = payload_of_wire tmp_l2payload (nt_data r)
      in (get_ctrl_fields p m)\<lparr>cm_data_msg_length := get_range 439 424 p\<rparr>)"

definition h2c_data_to_data_msg :: "h2c_data \<Rightarrow> data_msg \<Rightarrow> data_msg" where
  "h2c_data_to_data_msg h d =
     d\<lparr>dm_data := hd_data h, dm_keep := all_ones, dm_last := hd_last h\<rparr>"

text \<open>The source also sets the owner byte of the message it packs.\<close>

definition ctrl_msg_to_c2h_data :: "ctrl_msg \<Rightarrow> c2h_data \<Rightarrow> nat \<Rightarrow> ctrl_msg \<times> c2h_data" where
  "ctrl_msg_to_c2h_data m c tmp_qid =
     (let m = m\<lparr>cm_general_c2h_owner := 1\<rparr>;
          p = set_range 431 424 (cm_general_c2h_owner m) (put_ctrl_fields m (cd_data c))
      in (m, c\<lparr>cd_data := p, cd_last := 1, cd_ctrl_qid := of_nat tmp_qid\<rparr>))"

definition h2c_w_to_ctrl_msg :: "h2c_w \<Rightarrow> ctrl_msg \<Rightarrow> ctrl_msg" where
  "h2c_w_to_ctrl_msg h m =
     (get_ctrl_fields (hw_data h) m)\<lparr>cm_init_state := get_range 439 432 (hw_data h),
                                     cm_init_mac := get_range 487 440 (hw_data h)\<rparr>"

definition h2c_w_to_net_init_msg :: "h2c_w \<Rightarrow> net_init_msg \<Rightarrow> net_init_msg" where
  "h2c_w_to_net_init_msg h n =
     n\<lparr>ni_node_id := get_range 423 416 (hw_data h), ni_node_mac := get_range 487 440 (hw_data h)\<rparr>"

definition h2c_w_to_dir_data :: "h2c_w \<Rightarrow> dir_data \<Rightarrow> dir_data" where
  "h2c_w_to_dir_data h d =
     d\<lparr>dd_gblock_addr := get_range 319 256 (hw_data h),
       dd_gblock_index := get_range 351 320 (hw_data h),
       dd_gblock_bitmap := get_array 352 8 max_node_num (hw_data h),
       dd_state := get_range 439 432 (hw_data h),
       dd_replica_count := 0\<rparr>"

definition ctrl_msg_to_h2c_w :: "ctrl_msg \<Rightarrow> h2c_w \<Rightarrow> h2c_w" where
  "ctrl_msg_to_h2c_w m h =
     h\<lparr>hw_data := set_range 487 440 (cm_init_mac m)
                    (set_range 439 432 (cm_init_state m) (put_ctrl_fields m (hw_data h))),
       hw_strb := all_ones, hw_last := 1\<rparr>"

text \<open>
  A directory entry occupies two beats of the DDR memory. The second beat's ranges
  \<open>(64 * (i+1), 64 * i)\<close> are one bit wider than an address: the extra bit of range \<open>i\<close> is the
  first bit of range \<open>i + 1\<close>, written again by the next iteration, and the extra bit of the last
  range lies outside the 512-bit word and is dropped.
\<close>

definition dir_data_e_to_ddr_w_part1 :: "dir_data_e \<Rightarrow> ddr_w \<Rightarrow> ddr_w" where
  "dir_data_e_to_ddr_w_part1 d w =
     (let p = set_range 63 0 (de_gblock_addr d) (w_data w);
          p = set_range 95 64 (de_gblock_index d) p;
          p = put_array 96 8 (de_gblock_bitmap d) p;
          p = set_range 167 160 (de_state d) p;
          p = set_range 175 168 (de_replica_count d) p
      in w\<lparr>w_data := p, w_strb := all_ones, w_last := 0\<rparr>)"

definition put_agent_addrs :: "nat \<Rightarrow> u64 list \<Rightarrow> u512 \<Rightarrow> u512" where
  "put_agent_addrs n as p = fold (\<lambda>i p. set_range (64 * (i + 1)) (64 * i) (as ! i) p) [0..<n] p"

definition dir_data_e_to_ddr_w_part2 :: "dir_data_e \<Rightarrow> ddr_w \<Rightarrow> ddr_w" where
  "dir_data_e_to_ddr_w_part2 d w =
     w\<lparr>w_data := put_agent_addrs max_node_num (de_agent_cline_addr d) (w_data w),
       w_strb := all_ones, w_last := 1\<rparr>"

definition ddr_r_to_dir_data_e_part1 :: "ddr_r \<Rightarrow> dir_data_e \<Rightarrow> dir_data_e" where
  "ddr_r_to_dir_data_e_part1 r d =
     d\<lparr>de_gblock_addr := get_range 63 0 (r_data r),
       de_gblock_index := get_range 95 64 (r_data r),
       de_gblock_bitmap := get_array 96 8 max_node_num (r_data r),
       de_state := get_range 167 160 (r_data r),
       de_replica_count := get_range 175 168 (r_data r)\<rparr>"

definition ddr_r_to_dir_data_e_part2 :: "ddr_r \<Rightarrow> dir_data_e \<Rightarrow> dir_data_e" where
  "ddr_r_to_dir_data_e_part2 r d =
     d\<lparr>de_agent_cline_addr :=
         map (\<lambda>i. get_range (64 * (i + 1)) (64 * i) (r_data r)) [0..<max_node_num]\<rparr>"

definition dir_data_to_dir_data_e :: "dir_data \<Rightarrow> dir_data_e \<Rightarrow> dir_data_e" where
  "dir_data_to_dir_data_e d e =
     e\<lparr>de_gblock_addr := dd_gblock_addr d, de_gblock_index := dd_gblock_index d,
       de_gblock_bitmap := dd_gblock_bitmap d, de_state := dd_state d,
       de_replica_count := dd_replica_count d\<rparr>"

definition extract_mtype_from_h2c_w :: "h2c_w \<Rightarrow> u8" where
  "extract_mtype_from_h2c_w h = get_range 7 0 (hw_data h)"

text \<open>The feedback register is a static variable: it is the state of the generator.\<close>

definition gen_21bit_pseudo_random_num :: "u32 \<Rightarrow> u32" where
  "gen_21bit_pseudo_random_num lfsr =
     (let lsb = lfsr AND 1; lfsr = drop_bit 1 lfsr
      in if lsb = 1 then lfsr XOR (push_bit 20 1 OR push_bit 18 1) else lfsr)"

section \<open>Round trips\<close>

lemmas conversion_defs =
  set_mac_def get_dst_mac_def put_ctrl_fields_def get_ctrl_fields_def ctrl_msg_to_net_tx_def
  data_msg_to_net_tx_def net_rx_to_c2h_data_def net_rx_to_ctrl_msg_def h2c_data_to_data_msg_def
  ctrl_msg_to_c2h_data_def h2c_w_to_ctrl_msg_def h2c_w_to_net_init_msg_def h2c_w_to_dir_data_def
  ctrl_msg_to_h2c_w_def

lemmas ddr_defs =
  dir_data_e_to_ddr_w_part1_def dir_data_e_to_ddr_w_part2_def ddr_r_to_dir_data_e_part1_def
  ddr_r_to_dir_data_e_part2_def dir_data_to_dir_data_e_def

text \<open>What a receiver sees of a message: its own values in the fields that are not packed.\<close>

definition unpacked :: "ctrl_msg \<Rightarrow> ctrl_msg \<Rightarrow> ctrl_msg" where
  "unpacked m j = m\<lparr>
      cm_general_c2h_owner := cm_general_c2h_owner j, cm_init_state := cm_init_state j,
      cm_init_mac := cm_init_mac j, cm_data_msg_length := cm_data_msg_length j,
      cm_dst_thread_type := cm_dst_thread_type j, cm_dst_node_id := cm_dst_node_id j,
      cm_lock_position := cm_lock_position j\<rparr>"

lemma get_put_ctrl_fields [simp]:
  "ctrl_msg_wf m \<Longrightarrow> get_ctrl_fields (put_ctrl_fields m p) j = unpacked m j"
  by (simp add: get_ctrl_fields_def put_ctrl_fields_def unpacked_def Let_def range_simps
      ctrl_msg_wf_def max_node_num_def)

lemma get_ctrl_fields_set_high [simp]:
  "423 < lo \<Longrightarrow> get_ctrl_fields (set_range hi lo v p) j = get_ctrl_fields p j"
  by (simp add: get_ctrl_fields_def range_simps max_node_num_def)

lemma bit_put_agent_addrs:
  assumes "k \<le> 8" "length as = 8" "n < 512"
  shows "bit (put_agent_addrs k as p) n =
    (if n < 64 * k then bit (as ! (n div 64)) (n mod 64)
     else if k > 0 \<and> n = 64 * k then False else bit p n)"
  using assms(1)
proof (induction k)
  case 0
  then show ?case by (simp add: put_agent_addrs_def)
next
  case (Suc k)
  have step: "put_agent_addrs (Suc k) as p =
      set_range (64 * (k + 1)) (64 * k) (as ! k) (put_agent_addrs k as p)"
    by (simp add: put_agent_addrs_def)
  consider (low) "n < 64 * k" | (here) "64 * k \<le> n" "n < 64 * Suc k" | (edge) "n = 64 * Suc k"
    | (high) "64 * Suc k < n" by linarith
  then show ?case
  proof cases
    case here
    then have "n div 64 = k" by auto
    then have "n mod 64 = n - 64 * k" by (metis minus_mult_div_eq_mod)
    with here \<open>n div 64 = k\<close> assms(3) show ?thesis by (auto simp: step bit_set_range)
  qed (use Suc assms(3) in \<open>auto simp: step bit_set_range dest: bit_imp_le_length\<close>)
qed

lemma get_agent_addrs:
  assumes "length as = 8"
  shows "map (\<lambda>i. get_range (64 * (i + 1)) (64 * i) (put_agent_addrs 8 as p)) [0..<8] = as"
proof (rule nth_equalityI)
  fix i assume "i < length (map (\<lambda>i. get_range (64 * (i + 1)) (64 * i)
    (put_agent_addrs 8 as p) :: u64) [0..<8])"
  then have i: "i < 8" by simp
  have "get_range (64 * (i + 1)) (64 * i) (put_agent_addrs 8 as p) = as ! i"
  proof (rule bit_word_eqI)
    fix n assume n: "n < LENGTH(64)"
    then have "(n + 64 * i) div 64 = i" "(n + 64 * i) mod 64 = n" by auto
    with n i assms show "bit (get_range (64 * (i + 1)) (64 * i) (put_agent_addrs 8 as p) :: u64) n =
        bit (as ! i) n"
      by (auto simp: bit_get_range bit_put_agent_addrs)
  qed
  with i show "map (\<lambda>i. get_range (64 * (i + 1)) (64 * i) (put_agent_addrs 8 as p)) [0..<8] ! i = as ! i"
    by simp
qed (use assms in simp)

text \<open>Blank values of the structures, for concrete runs.\<close>

definition blank_ctrl_msg :: ctrl_msg where
  "blank_ctrl_msg = \<lparr>cm_mtype = 0, cm_req_cline_nodeID = 0, cm_req_cline_appThreadID = 0,
     cm_req_cline_addr = 0, cm_req_cline_index = 0, cm_cline_tag = 0, cm_agent_cline_nodeID = 0,
     cm_agent_cline_addr = 0, cm_dir_gblock_addr = 0, cm_dir_gblock_index = 0,
     cm_dir_gblock_bitmap = replicate 8 0, cm_dir_gblock_nodeID = 0, cm_general_c2h_owner = 0,
     cm_init_state = 0, cm_init_mac = 0, cm_data_msg_length = 0, cm_dst_thread_type = 0,
     cm_dst_node_id = 0, cm_lock_position = 0\<rparr>"

definition blank_dir_data_e :: dir_data_e where
  "blank_dir_data_e = \<lparr>de_gblock_addr = 0, de_gblock_index = 0, de_gblock_bitmap = replicate 8 0,
     de_state = 0, de_replica_count = 0, de_agent_cline_addr = replicate 8 0\<rparr>"

definition blank_net :: net_rxtx where
  "blank_net = \<lparr>nt_data = 0, nt_keep = 0, nt_last = 0\<rparr>"

definition blank_h2c_w :: h2c_w where
  "blank_h2c_w = \<lparr>hw_data = 0, hw_last = 0, hw_strb = 0\<rparr>"

definition blank_ddr_w :: ddr_w where
  "blank_ddr_w = \<lparr>w_data = 0, w_last = 0, w_strb = 0\<rparr>"

definition blank_ddr_r :: ddr_r where
  "blank_ddr_r = \<lparr>r_data = 0, r_last = 0, r_resp = 0, r_id = 0\<rparr>"

definition blank_c2h_data :: c2h_data where
  "blank_c2h_data = \<lparr>cd_data = 0, cd_ctrl_qid = 0, cd_last = 0\<rparr>"

lemmas blank_defs = blank_ctrl_msg_def blank_dir_data_e_def blank_net_def blank_h2c_w_def
  blank_ddr_w_def blank_ddr_r_def blank_c2h_data_def

lemma blank_wf [simp]: "ctrl_msg_wf blank_ctrl_msg" "dir_data_e_wf blank_dir_data_e"
  by (simp_all add: blank_defs ctrl_msg_wf_def dir_data_e_wf_def max_node_num_def)

section \<open>Properties\<close>

lemma net_ctrl_msg_decode:
  "ctrl_msg_wf m \<Longrightarrow> net_rx_to_ctrl_msg p0 (ctrl_msg_to_net_tx q0 m t) j =
     (unpacked m j)\<lparr>cm_data_msg_length := cm_data_msg_length m\<rparr>"
  by (simp add: net_rx_to_ctrl_msg_def ctrl_msg_to_net_tx_def Let_def range_simps)

text \<open>A control message put on the network by one FPGA and parsed by another arrives with
  every field it is sent with, whatever the uninitialised buffers of both sides held.\<close>

theorem net_ctrl_msg_roundtrip:
  assumes "ctrl_msg_wf m"
  shows "net_rx_to_ctrl_msg p0 (ctrl_msg_to_net_tx q0 m t) j =
           (unpacked m j)\<lparr>cm_data_msg_length := cm_data_msg_length m\<rparr>"
  using assms by (rule net_ctrl_msg_decode)

theorem net_ctrl_msg_roundtrip_witness:
  "cm_req_cline_addr (net_rx_to_ctrl_msg 7 (ctrl_msg_to_net_tx 9
     (blank_ctrl_msg\<lparr>cm_req_cline_addr := 0x123456789\<rparr>) blank_net) blank_ctrl_msg) = 0x123456789"
proof -
  have wf: "ctrl_msg_wf (blank_ctrl_msg\<lparr>cm_req_cline_addr := 0x123456789\<rparr>)"
    by (simp add: ctrl_msg_wf_def blank_ctrl_msg_def max_node_num_def)
  show ?thesis
    using net_ctrl_msg_roundtrip [OF wf, of 7 9 blank_net blank_ctrl_msg]
    by (simp add: unpacked_def)
qed

text \<open>A control message the host writes to the bridge is decoded with all its fields, the
  initialisation fields included.\<close>

theorem h2c_ctrl_msg_roundtrip:
  assumes "ctrl_msg_wf m"
  shows "h2c_w_to_ctrl_msg (ctrl_msg_to_h2c_w m h) j =
           (unpacked m j)\<lparr>cm_init_state := cm_init_state m, cm_init_mac := cm_init_mac m\<rparr>"
  using assms by (simp add: h2c_w_to_ctrl_msg_def ctrl_msg_to_h2c_w_def range_simps)

theorem h2c_ctrl_msg_roundtrip_witness:
  "cm_init_mac (h2c_w_to_ctrl_msg (ctrl_msg_to_h2c_w (blank_ctrl_msg\<lparr>cm_init_mac := 0xabcdef\<rparr>)
     blank_h2c_w) blank_ctrl_msg) = 0xabcdef"
proof -
  have wf: "ctrl_msg_wf (blank_ctrl_msg\<lparr>cm_init_mac := 0xabcdef\<rparr>)"
    by (simp add: ctrl_msg_wf_def blank_ctrl_msg_def max_node_num_def)
  show ?thesis
    using h2c_ctrl_msg_roundtrip [OF wf, of blank_h2c_w blank_ctrl_msg] by simp
qed

text \<open>A directory entry written to the DDR memory as two beats and read back as two beats is
  the entry that was written, in spite of the overlapping ranges of the second beat.\<close>

theorem dir_entry_ddr_roundtrip:
  assumes "dir_data_e_wf d"
    and "r_data r1 = w_data (dir_data_e_to_ddr_w_part1 d w1)"
    and "r_data r2 = w_data (dir_data_e_to_ddr_w_part2 d w2)"
  shows "ddr_r_to_dir_data_e_part2 r2 (ddr_r_to_dir_data_e_part1 r1 j) = d"
  using assms
  by (cases d) (simp add: ddr_defs Let_def range_simps dir_data_e_wf_def max_node_num_def
      get_agent_addrs [simplified])

theorem dir_entry_ddr_roundtrip_witness:
  "ddr_r_to_dir_data_e_part2
     (blank_ddr_r\<lparr>r_data := w_data (dir_data_e_to_ddr_w_part2 blank_dir_data_e blank_ddr_w)\<rparr>)
     (ddr_r_to_dir_data_e_part1
       (blank_ddr_r\<lparr>r_data := w_data (dir_data_e_to_ddr_w_part1 blank_dir_data_e blank_ddr_w)\<rparr>)
       (blank_dir_data_e\<lparr>de_state := 5\<rparr>)) = blank_dir_data_e"
  by (rule dir_entry_ddr_roundtrip) simp_all

lemma mac_roundtrip: "get_dst_mac p0 (set_mac q0 t src dst) = dst"
  by (simp add: get_dst_mac_def set_mac_def Let_def range_simps)

lemma data_roundtrip:
  "net_rx_to_c2h_data p0 (data_msg_to_net_tx d t) c =
     c\<lparr>cd_data := dm_data d, cd_ctrl_qid := 2, cd_last := dm_last d\<rparr>"
  by (simp add: net_rx_to_c2h_data_def data_msg_to_net_tx_def)

end
