(* ===== verification/Directory.thy ===== *)
theory Directory
  imports Messages "HOL-Library.Monad_Syntax"
begin

text \<open>
  The directory controller of a home node (\<open>hls/highPara/src/dir\<close>): the front half that locks a
  block and requests its entry (\<open>dirCtrlHLS_from_net\<close>), the back half that decides a request
  against the entry (\<open>dirCtrlHLS_to_net\<close>), and the four adapters to the DDR memory
  (\<open>ddrInstHLS_*\<close>). One call of a module is one clock cycle: a function from its registers and
  the contents of its input streams to its new registers, what is left of the inputs, and what it
  appended to its outputs. An array access outside its bounds, which the source does not check,
  is the result \<open>None\<close>. The debug ports repeat registers and are left out.
\<close>

section \<open>Front half: locking\<close>

definition LOCK_BKT_SIZE :: nat where "LOCK_BKT_SIZE = 1"
definition LOCK_BKT_NUM :: nat where "LOCK_BKT_NUM = 256"

abbreviation no_block :: u32 where "no_block \<equiv> 0xffffffff"

record dir_from_net_regs =
  df_init_flag :: u8
  df_retry_flag :: u8
  df_retry_ctrl_msg :: ctrl_msg
  df_gb_index_arr :: "u32 list list"
  df_source_flag :: u1

record dir_from_net_io =
  fn_regs :: dir_from_net_regs
  fn_msg_in :: "ctrl_msg list"
  fn_ack_in :: "dir_ack list"
  fn_w_in :: "ctrl_msg list"
  fn_cmd_out :: "dir_cmd list"
  fn_r_out :: "ctrl_msg list"

text \<open>The bucket of a block: the low \<open>LOCK_BKT_WIDTH\<close> bits of its index.\<close>

definition bucket_of :: "u32 \<Rightarrow> nat" where
  "bucket_of idx = unat (get_range 7 0 idx :: u8)"

text \<open>The search loop over a bucket: the conflict flag and the position of a free slot.\<close>

definition lock_scan :: "u32 \<Rightarrow> u32 list \<Rightarrow> u8 \<times> u8" where
  "lock_scan idx bkt =
     fold (\<lambda>i (conflict, free). (if idx = bkt ! i then 1 else conflict,
                                 if bkt ! i = no_block then of_nat i else free))
       [0..<LOCK_BKT_SIZE] (0, 0xff)"

definition from_net_lock :: "ctrl_msg \<Rightarrow> dir_from_net_io \<Rightarrow> dir_from_net_io" where
  "from_net_lock m s =
     (let r = fn_regs s; bid = bucket_of (cm_dir_gblock_index m);
          bkt = df_gb_index_arr r ! bid;
          (conflict, free) = lock_scan (cm_dir_gblock_index m) bkt
      in if conflict = 1 \<or> free = 0xff then
           s\<lparr>fn_regs := r\<lparr>df_retry_flag := 1, df_retry_ctrl_msg := m\<rparr>\<rparr>
         else
           (let m' = m\<lparr>cm_lock_position := free\<rparr>
            in s\<lparr>fn_regs := r\<lparr>df_retry_flag := 0,
                   df_gb_index_arr := (df_gb_index_arr r)
                     [bid := bkt[unat free := cm_dir_gblock_index m]]\<rparr>,
                 fn_r_out := fn_r_out s @ [m'],
                 fn_cmd_out := fn_cmd_out s @ [\<lparr>dc_gblock_index = cm_dir_gblock_index m'\<rparr>]\<rparr>))"

definition from_net_unlock :: "dir_from_net_io \<Rightarrow> dir_from_net_io option" where
  "from_net_unlock s =
     (case (fn_ack_in s, fn_w_in s) of
        (a # as, m # ms) \<Rightarrow>
          (let r = fn_regs s; bid = bucket_of (cm_dir_gblock_index m); pos = unat (cm_lock_position m)
           in if pos < LOCK_BKT_SIZE then
                Some (s\<lparr>fn_regs := r\<lparr>df_gb_index_arr := (df_gb_index_arr r)
                           [bid := (df_gb_index_arr r ! bid)[pos := no_block]]\<rparr>,
                        fn_ack_in := as, fn_w_in := ms\<rparr>)
              else None)
      | _ \<Rightarrow> Some s)"

definition dirCtrlHLS_from_net :: "dir_from_net_io \<Rightarrow> dir_from_net_io option" where
  "dirCtrlHLS_from_net s =
     (let r = fn_regs s in
      if df_init_flag r \<noteq> 0 then
        Some (s\<lparr>fn_regs := r\<lparr>
          df_gb_index_arr := replicate LOCK_BKT_NUM (replicate LOCK_BKT_SIZE no_block),
          df_init_flag := 0\<rparr>\<rparr>)
      else if df_source_flag r \<noteq> 0 then
        from_net_unlock (s\<lparr>fn_regs := r\<lparr>df_source_flag := 0\<rparr>\<rparr>)
      else
        (let s' = s\<lparr>fn_regs := r\<lparr>df_source_flag := 1\<rparr>\<rparr> in
         if df_retry_flag r = 1 then Some (from_net_lock (df_retry_ctrl_msg r) s')
         else case fn_msg_in s of
                m # ms \<Rightarrow> Some (from_net_lock m (s'\<lparr>fn_msg_in := ms\<rparr>))
              | [] \<Rightarrow> Some s'))"

section \<open>Back half: deciding a request\<close>

text \<open>What a handler leaves behind: the entry to write back, the message as modified, the messages
  sent, and the copy registers when it starts a multicast.\<close>

record dir_res =
  dr_entry :: dir_data_e
  dr_msg :: ctrl_msg
  dr_out :: "ctrl_msg list"
  dr_copy :: "(ctrl_msg \<times> dir_data_e) option"

abbreviation node_of :: "u8 \<Rightarrow> nat" where "node_of \<equiv> unat"

definition bm_read :: "dir_data_e \<Rightarrow> u8 \<Rightarrow> u8 option" where
  "bm_read e n = (if node_of n < max_node_num then Some (de_gblock_bitmap e ! node_of n) else None)"

definition bm_write :: "u8 \<Rightarrow> u8 \<Rightarrow> dir_data_e \<Rightarrow> dir_data_e option" where
  "bm_write n v e =
     (if node_of n < max_node_num
      then Some (e\<lparr>de_gblock_bitmap := (de_gblock_bitmap e)[node_of n := v]\<rparr>) else None)"

text \<open>Stores in arrays indexed by the requester, whose index the branch has read before.\<close>

definition set_bit_req :: "ctrl_msg \<Rightarrow> u8 \<Rightarrow> dir_data_e \<Rightarrow> dir_data_e" where
  "set_bit_req m v e =
     e\<lparr>de_gblock_bitmap := (de_gblock_bitmap e)[node_of (cm_req_cline_nodeID m) := v]\<rparr>"

definition set_addr_req :: "ctrl_msg \<Rightarrow> dir_data_e \<Rightarrow> dir_data_e" where
  "set_addr_req m e =
     e\<lparr>de_agent_cline_addr := (de_agent_cline_addr e)
          [node_of (cm_req_cline_nodeID m) := cm_req_cline_addr m]\<rparr>"

definition to_req :: "RawMessageType \<Rightarrow> ctrl_msg \<Rightarrow> ctrl_msg" where
  "to_req t m = m\<lparr>cm_mtype := mtype_code t, cm_dst_node_id := cm_req_cline_nodeID m\<rparr>"

definition to_agent :: "RawMessageType \<Rightarrow> u8 \<Rightarrow> dir_data_e \<Rightarrow> ctrl_msg \<Rightarrow> ctrl_msg" where
  "to_agent t n e m = m\<lparr>cm_mtype := mtype_code t, cm_agent_cline_nodeID := n,
     cm_agent_cline_addr := de_agent_cline_addr e ! node_of n, cm_dst_node_id := n\<rparr>"

definition reply :: "RawMessageType \<Rightarrow> ctrl_msg \<Rightarrow> dir_data_e \<Rightarrow> dir_res" where
  "reply t m e = \<lparr>dr_entry = e, dr_msg = to_req t m, dr_out = [to_req t m], dr_copy = None\<rparr>"

definition forward :: "RawMessageType \<Rightarrow> u8 \<Rightarrow> ctrl_msg \<Rightarrow> dir_data_e \<Rightarrow> dir_res" where
  "forward t n m e =
     \<lparr>dr_entry = e, dr_msg = to_agent t n e m, dr_out = [to_agent t n e m], dr_copy = None\<rparr>"

definition silent :: "ctrl_msg \<Rightarrow> dir_data_e \<Rightarrow> dir_res" where
  "silent m e = \<lparr>dr_entry = e, dr_msg = m, dr_out = [], dr_copy = None\<rparr>"

abbreviation set_state :: "RawState \<Rightarrow> dir_data_e \<Rightarrow> dir_data_e" where
  "set_state st e \<equiv> e\<lparr>de_state := state_code st\<rparr>"

abbreviation set_count :: "u8 \<Rightarrow> dir_data_e \<Rightarrow> dir_data_e" where
  "set_count n e \<equiv> e\<lparr>de_replica_count := n\<rparr>"

text \<open>The loop over the bitmap that remembers the last node whose byte is one.\<close>

definition last_sharer :: "u8 \<Rightarrow> u8 list \<Rightarrow> u8" where
  "last_sharer n0 bm = fold (\<lambda>i n. if bm ! i = 1 then of_nat i else n) [0..<max_node_num] n0"

definition dir_read_miss :: "ctrl_msg \<Rightarrow> dir_data_e \<Rightarrow> u8 \<Rightarrow> dir_res option" where
  "dir_read_miss m e agent =
     (case state_of (de_state e) of
        Some st \<Rightarrow>
          (if st = S_UNSHARED \<or> st = S_SHARED then do {
             b \<leftarrow> bm_read e (cm_req_cline_nodeID m);
             Some (if b = 0 then
               reply DIR_2_APP_READ_MISS_ACKDATA m
                 (set_addr_req m (set_bit_req m 1
                   (set_count (de_replica_count e + 1) (set_state S_SHARED e))))
             else reply DIR_2_APP_BITMAP_CHECK_FAIL m e) }
           else if st = S_DIRTY then do {
             b \<leftarrow> bm_read e (cm_req_cline_nodeID m);
             Some (if b = 0 then
               forward DIR_2_AGENT_READ_MISS_DIRTY agent m (set_addr_req m (set_state S_TO_SHARED e))
             else reply DIR_2_APP_BITMAP_CHECK_FAIL m e) }
           else Some (reply DIR_2_APP_M_CHECK_FAIL m e))
      | None \<Rightarrow> Some (reply DIR_2_APP_M_CHECK_FAIL m e))"

definition dir_write_miss :: "ctrl_msg \<Rightarrow> dir_data_e \<Rightarrow> u8 \<Rightarrow> dir_res option" where
  "dir_write_miss m e agent =
     (case state_of (de_state e) of
        Some S_UNSHARED \<Rightarrow> do {
          b \<leftarrow> bm_read e (cm_req_cline_nodeID m);
          Some (if b = 0 then
            reply DIR_2_APP_WRITE_MISS_ACKDATA m
              (set_addr_req m (set_bit_req m 1 (set_count 1 (set_state S_DIRTY e))))
          else reply DIR_2_APP_BITMAP_CHECK_FAIL m e) }
      | Some S_SHARED \<Rightarrow> do {
          b \<leftarrow> bm_read e (cm_req_cline_nodeID m);
          Some (if b = 0 then
            (reply DIR_2_APP_WRITE_MISS_SHAREDDATA m (set_addr_req m (set_state S_TO_DIRTY e)))
              \<lparr>dr_copy := Some (m, e)\<rparr>
          else reply DIR_2_APP_BITMAP_CHECK_FAIL m e) }
      | Some S_DIRTY \<Rightarrow> do {
          b \<leftarrow> bm_read e (cm_req_cline_nodeID m);
          Some (if b = 0 then
            forward DIR_2_AGENT_WRITE_MISS_DIRTY agent m (set_addr_req m (set_state S_TO_DIRTY e))
          else reply DIR_2_APP_BITMAP_CHECK_FAIL m e) }
      | _ \<Rightarrow> Some (reply DIR_2_APP_M_CHECK_FAIL m e))"

definition dir_write_shared :: "ctrl_msg \<Rightarrow> dir_data_e \<Rightarrow> dir_res option" where
  "dir_write_shared m e =
     (case state_of (de_state e) of
        Some S_SHARED \<Rightarrow> do {
          b \<leftarrow> bm_read e (cm_req_cline_nodeID m);
          Some (if b = 0 then reply DIR_2_APP_BITMAP_CHECK_FAIL m e
          else if de_replica_count e > 1 then
            (silent m (set_state S_TO_DIRTY e))\<lparr>dr_copy := Some (m, e)\<rparr>
          else
            reply DIR_2_APP_WRITE_SHARED_ONLYACK m
              (set_bit_req m 1 (set_count 1 (set_state S_DIRTY e)))) }
      | _ \<Rightarrow> Some (reply DIR_2_APP_M_CHECK_FAIL m e))"

definition dir_evict_shared :: "ctrl_msg \<Rightarrow> dir_data_e \<Rightarrow> dir_res option" where
  "dir_evict_shared m e =
     (case state_of (de_state e) of
        Some S_SHARED \<Rightarrow> do {
          b \<leftarrow> bm_read e (cm_req_cline_nodeID m);
          Some (if b = 0 then reply DIR_2_APP_BITMAP_CHECK_FAIL m e
          else reply DIR_2_APP_EVICT_SHARED_ACK m
            (set_count (de_replica_count e - 1) (set_bit_req m 0
              (set_state (if de_replica_count e = 1 then S_UNSHARED else S_SHARED) e)))) }
      | _ \<Rightarrow> Some (reply DIR_2_APP_M_CHECK_FAIL m e))"

definition dir_evict_dirty :: "ctrl_msg \<Rightarrow> dir_data_e \<Rightarrow> dir_res option" where
  "dir_evict_dirty m e =
     (case state_of (de_state e) of
        Some S_DIRTY \<Rightarrow> do {
          b \<leftarrow> bm_read e (cm_req_cline_nodeID m);
          Some (if b = 0 then reply DIR_2_APP_BITMAP_CHECK_FAIL m e
          else reply DIR_2_APP_EVICT_DIRTY_ACK m
            (set_count (de_replica_count e - 1) (set_bit_req m 0 (set_state S_UNSHARED e)))) }
      | _ \<Rightarrow> Some (reply DIR_2_APP_M_CHECK_FAIL m e))"

definition dir_read_miss_dirty_ack :: "ctrl_msg \<Rightarrow> dir_data_e \<Rightarrow> dir_res option" where
  "dir_read_miss_dirty_ack m e =
     (if state_of (de_state e) = Some S_TO_SHARED then do {
        e' \<leftarrow> bm_write (cm_req_cline_nodeID m) 1 (set_state S_SHARED e);
        Some (silent m (set_count (de_replica_count e + 1) e')) }
      else Some (silent m e))"

definition dir_write_miss_dirty_ack :: "ctrl_msg \<Rightarrow> dir_data_e \<Rightarrow> dir_res option" where
  "dir_write_miss_dirty_ack m e =
     (if state_of (de_state e) = Some S_TO_DIRTY then do {
        e1 \<leftarrow> bm_write (cm_req_cline_nodeID m) 1 (set_state S_DIRTY e);
        e2 \<leftarrow> bm_write (cm_agent_cline_nodeID m) 0 e1;
        Some (silent m (set_count 1 e2)) }
      else Some (silent m e))"

definition dir_write_miss_shared_ack :: "ctrl_msg \<Rightarrow> dir_data_e \<Rightarrow> dir_res option" where
  "dir_write_miss_shared_ack m e =
     (if state_of (de_state e) = Some S_TO_DIRTY then do {
        e1 \<leftarrow> bm_write (cm_req_cline_nodeID m) 1 e;
        e2 \<leftarrow> bm_write (cm_agent_cline_nodeID m) 0 e1;
        Some (if de_replica_count e = 1 then
          reply DIR_2_APP_WRITE_MISS_SHARED_AGGACK_ACK m (set_state S_DIRTY e2)
        else silent m (set_count (de_replica_count e - 1) e2)) }
      else Some (silent m e))"

definition dir_write_shared_notonly_ack :: "ctrl_msg \<Rightarrow> dir_data_e \<Rightarrow> dir_res option" where
  "dir_write_shared_notonly_ack m e =
     (if state_of (de_state e) = Some S_TO_DIRTY then do {
        e1 \<leftarrow> bm_write (cm_req_cline_nodeID m) 1 e;
        e2 \<leftarrow> bm_write (cm_agent_cline_nodeID m) 0 e1;
        Some (if de_replica_count e = 2 then
          reply DIR_2_APP_WRITE_SHARED_NOTONLY_AGGACK_ACK m (set_count 1 (set_state S_DIRTY e2))
        else silent m (set_count (de_replica_count e - 1) e2)) }
      else Some (silent m e))"

text \<open>The message as the handlers see it: the block's address, and its bitmap unless the message
  acknowledges an invalidation.\<close>

definition dir_annotate :: "ctrl_msg \<Rightarrow> dir_data_e \<Rightarrow> ctrl_msg" where
  "dir_annotate m e =
     (let m = m\<lparr>cm_dir_gblock_addr := de_gblock_addr e\<rparr> in
      if cm_mtype m \<noteq> mtype_code AGENT_2_DIR_WRITE_MISS_SHARED_ACK
         \<and> cm_mtype m \<noteq> mtype_code AGENT_2_DIR_WRITE_SHARED_NOTONLY_ACK
      then m\<lparr>cm_dir_gblock_bitmap := de_gblock_bitmap e\<rparr> else m)"

definition dir_handle :: "ctrl_msg \<Rightarrow> dir_data_e \<Rightarrow> dir_res option" where
  "dir_handle m0 e =
     (let m = dir_annotate m0 e; agent = last_sharer 0 (de_gblock_bitmap e)
      in case mtype_of (cm_mtype m) of
           Some R_READ_MISS \<Rightarrow> dir_read_miss m e agent
         | Some R_WRITE_MISS \<Rightarrow> dir_write_miss m e agent
         | Some R_WRITE_SHARED \<Rightarrow> dir_write_shared m e
         | Some R_EVICT_SHARED \<Rightarrow> dir_evict_shared m e
         | Some R_EVICT_DIRTY \<Rightarrow> dir_evict_dirty m e
         | Some AGENT_2_DIR_READ_MISS_DIRTY_ACKDATA \<Rightarrow> dir_read_miss_dirty_ack m e
         | Some AGENT_2_DIR_WRITE_MISS_DIRTY_ACK \<Rightarrow> dir_write_miss_dirty_ack m e
         | Some AGENT_2_DIR_WRITE_MISS_SHARED_ACK \<Rightarrow> dir_write_miss_shared_ack m e
         | Some AGENT_2_DIR_WRITE_SHARED_NOTONLY_ACK \<Rightarrow> dir_write_shared_notonly_ack m e
         | _ \<Rightarrow> Some (silent m e))"

section \<open>Back half: multicast and the whole cycle\<close>

record dir_to_net_regs =
  dt_copy_flag :: u8
  dt_ctrl_msg :: ctrl_msg
  dt_dir_data :: dir_data_e

record dir_to_net_io =
  tn_regs :: dir_to_net_regs
  tn_init_in :: "dir_data list"
  tn_r_in :: "ctrl_msg list"
  tn_dd_in :: "dir_data_e list"
  tn_cmc_out :: "ctrl_msg list"
  tn_dd_out :: "dir_data_e list"
  tn_w_out :: "ctrl_msg list"

text \<open>One cycle of a multicast: the highest remaining node of the copied bitmap is notified and
  struck out; when none is left the copy flag is cleared.\<close>

definition clear_copied :: "u8 \<Rightarrow> dir_to_net_regs \<Rightarrow> dir_to_net_regs" where
  "clear_copied n r = r\<lparr>dt_dir_data := (dt_dir_data r)
     \<lparr>de_gblock_bitmap := (de_gblock_bitmap (dt_dir_data r))[node_of n := 0]\<rparr>\<rparr>"

definition copy_write_miss :: "dir_to_net_regs \<Rightarrow> dir_to_net_regs \<times> ctrl_msg list" where
  "copy_write_miss r =
     (let n = last_sharer 0xff (de_gblock_bitmap (dt_dir_data r)) in
      if n = 0xff then (r\<lparr>dt_copy_flag := 0\<rparr>, [])
      else (clear_copied n r,
            [to_agent DIR_2_AGENT_WRITE_MISS_SHARED n (dt_dir_data r) (dt_ctrl_msg r)]))"

definition copy_write_shared :: "dir_to_net_regs \<Rightarrow> dir_to_net_regs \<times> ctrl_msg list" where
  "copy_write_shared r =
     (let n = last_sharer 0xff (de_gblock_bitmap (dt_dir_data r)) in
      if n = 0xff then (r\<lparr>dt_copy_flag := 0\<rparr>, [])
      else if n = cm_req_cline_nodeID (dt_ctrl_msg r) then (clear_copied n r, [])
      else (clear_copied n r,
            [to_agent DIR_2_AGENT_WRITE_SHARED_NOTONLY n (dt_dir_data r) (dt_ctrl_msg r)]))"

definition copy_step :: "dir_to_net_regs \<Rightarrow> dir_to_net_regs \<times> ctrl_msg list" where
  "copy_step r =
     (case mtype_of (cm_mtype (dt_ctrl_msg r)) of
        Some R_WRITE_MISS \<Rightarrow>
          (if state_of (de_state (dt_dir_data r)) = Some S_SHARED then copy_write_miss r else (r, []))
      | Some R_WRITE_SHARED \<Rightarrow>
          (if state_of (de_state (dt_dir_data r)) = Some S_SHARED then copy_write_shared r else (r, []))
      | _ \<Rightarrow> (r, []))"

text \<open>The first two arguments are the uninitialised locals of the initialisation branch.\<close>

definition dirCtrlHLS_to_net ::
    "ctrl_msg \<Rightarrow> dir_data_e \<Rightarrow> dir_to_net_io \<Rightarrow> dir_to_net_io option" where
  "dirCtrlHLS_to_net m0 e0 s =
     (case tn_init_in s of
        d # ds \<Rightarrow>
          Some (s\<lparr>tn_init_in := ds,
                  tn_dd_out := tn_dd_out s @ [dir_data_to_dir_data_e d e0],
                  tn_w_out := tn_w_out s @ [m0\<lparr>cm_mtype := mtype_code INIT_DIR,
                                              cm_dir_gblock_index := dd_gblock_index d\<rparr>]\<rparr>)
      | [] \<Rightarrow>
          if dt_copy_flag (tn_regs s) = 0 then
            (case (tn_r_in s, tn_dd_in s) of
               (m # ms, e # es) \<Rightarrow> do {
                 res \<leftarrow> dir_handle m e;
                 Some (s\<lparr>tn_r_in := ms, tn_dd_in := es,
                   tn_regs := (case dr_copy res of
                       None \<Rightarrow> tn_regs s
                     | Some (cm, ce) \<Rightarrow> (tn_regs s)\<lparr>dt_copy_flag := 1, dt_ctrl_msg := cm, dt_dir_data := ce\<rparr>),
                   tn_cmc_out := tn_cmc_out s @ dr_out res,
                   tn_dd_out := tn_dd_out s @ [dr_entry res],
                   tn_w_out := tn_w_out s @ [dr_msg res]\<rparr>) }
             | _ \<Rightarrow> Some s)
          else (let (r, out) = copy_step (tn_regs s)
                in Some (s\<lparr>tn_regs := r, tn_cmc_out := tn_cmc_out s @ out\<rparr>)))"

section \<open>Adapters to the DDR memory\<close>

definition ddrInstHLS_ar :: "ddr_ar \<Rightarrow> dir_cmd list \<Rightarrow> ddr_ar list \<Rightarrow> dir_cmd list \<times> ddr_ar list" where
  "ddrInstHLS_ar a0 cmds ars =
     (case cmds of
        [] \<Rightarrow> ([], ars)
      | c # cs \<Rightarrow> (cs, ars @ [a0\<lparr>ar_addr := ucast (dc_gblock_index c) * 128, ar_burst := 1,
          ar_cache := 0, ar_id := 1, ar_len := 1, ar_lock := 0, ar_prot := 0, ar_qos := 0,
          ar_size := 6\<rparr>]))"

record ddr_aw_w_state =
  ww_end_flag :: u1
  ww_dir_data :: dir_data_e
  ww_dd_in :: "dir_data_e list"
  ww_aw_out :: "ddr_aw list"
  ww_w_out :: "ddr_w list"

definition ddrInstHLS_aw_w :: "ddr_aw \<Rightarrow> ddr_w \<Rightarrow> ddr_aw_w_state \<Rightarrow> ddr_aw_w_state" where
  "ddrInstHLS_aw_w a0 w0 s =
     (if ww_end_flag s = 1 then
        (case ww_dd_in s of
           [] \<Rightarrow> s
         | d # ds \<Rightarrow> s\<lparr>ww_dd_in := ds,
             ww_aw_out := ww_aw_out s @ [a0\<lparr>aw_addr := ucast (de_gblock_index d) * 128, aw_burst := 1,
               aw_cache := 0, aw_id := 1, aw_len := 1, aw_lock := 0, aw_prot := 0, aw_qos := 0,
               aw_size := 6\<rparr>],
             ww_w_out := ww_w_out s @ [dir_data_e_to_ddr_w_part1 d w0],
             ww_dir_data := d, ww_end_flag := 0\<rparr>)
      else s\<lparr>ww_w_out := ww_w_out s @ [dir_data_e_to_ddr_w_part2 (ww_dir_data s) w0],
             ww_end_flag := 1\<rparr>)"

definition ddrInstHLS_b :: "dir_ack \<Rightarrow> ddr_b list \<Rightarrow> dir_ack list \<Rightarrow> ddr_b list \<times> dir_ack list" where
  "ddrInstHLS_b a0 bs acks =
     (case bs of [] \<Rightarrow> ([], acks) | b # bs \<Rightarrow> (bs, acks @ [a0\<lparr>da_ack := ucast (b_id b)\<rparr>]))"

record ddr_r_state =
  rr_end_flag :: u1
  rr_dir_data :: dir_data_e
  rr_in :: "ddr_r list"
  rr_dd_out :: "dir_data_e list"

definition ddrInstHLS_r :: "ddr_r_state \<Rightarrow> ddr_r_state" where
  "ddrInstHLS_r s =
     (case rr_in s of
        [] \<Rightarrow> s
      | x # xs \<Rightarrow>
          if rr_end_flag s = 1 then
            s\<lparr>rr_in := xs, rr_dir_data := ddr_r_to_dir_data_e_part1 x (rr_dir_data s), rr_end_flag := 0\<rparr>
          else
            s\<lparr>rr_in := xs,
              rr_dd_out := rr_dd_out s @ [ddr_r_to_dir_data_e_part2 x (rr_dir_data s)],
              rr_end_flag := 1\<rparr>)"

end
