(* ===== verification/Dir_Protocol.thy ===== *)
theory Dir_Protocol
  imports Directory
begin

text \<open>
  What the directory promises: an abstract state machine over sets of nodes (who has a copy, who
  owns it, whose acknowledgements are outstanding), and the proof that the handlers of
  \<open>dirCtrlHLS_to_net\<close> implement it on the packed entry with its bitmap and replica count. The
  multicast of invalidations is shown to reach each sharer exactly once.
\<close>

section \<open>The abstract directory\<close>

datatype dir_abs =
    Unshared
  | Shared "nat set"              \<comment> \<open>read copies\<close>
  | Dirty nat                     \<comment> \<open>one writer\<close>
  | To_Shared nat nat             \<comment> \<open>owner asked to share with a reader\<close>
  | To_Dirty nat nat              \<comment> \<open>owner asked to hand over to a writer\<close>
  | Collect_Miss nat "nat set"    \<comment> \<open>writer without a copy, invalidations outstanding\<close>
  | Collect_Upgrade nat "nat set" \<comment> \<open>writer with a copy, invalidations outstanding\<close>

type_synonym spec_out = "dir_abs \<times> (RawMessageType \<times> nat) list \<times> nat set"

text \<open>The answer to a request: the next state, the messages sent at once with their destinations,
  and the set of nodes to invalidate.\<close>

definition refuse :: "RawMessageType \<Rightarrow> dir_abs \<Rightarrow> nat \<Rightarrow> spec_out" where
  "refuse t a r = (a, [(t, r)], {})"

fun spec_read_miss :: "dir_abs \<Rightarrow> nat \<Rightarrow> spec_out" where
  "spec_read_miss Unshared r = (Shared {r}, [(DIR_2_APP_READ_MISS_ACKDATA, r)], {})"
| "spec_read_miss (Shared S) r =
     (if r \<in> S then refuse DIR_2_APP_BITMAP_CHECK_FAIL (Shared S) r
      else (Shared (insert r S), [(DIR_2_APP_READ_MISS_ACKDATA, r)], {}))"
| "spec_read_miss (Dirty w) r =
     (if r = w then refuse DIR_2_APP_BITMAP_CHECK_FAIL (Dirty w) r
      else (To_Shared w r, [(DIR_2_AGENT_READ_MISS_DIRTY, w)], {}))"
| "spec_read_miss a r = refuse DIR_2_APP_M_CHECK_FAIL a r"

fun spec_write_miss :: "dir_abs \<Rightarrow> nat \<Rightarrow> spec_out" where
  "spec_write_miss Unshared r = (Dirty r, [(DIR_2_APP_WRITE_MISS_ACKDATA, r)], {})"
| "spec_write_miss (Shared S) r =
     (if r \<in> S then refuse DIR_2_APP_BITMAP_CHECK_FAIL (Shared S) r
      else (Collect_Miss r S, [(DIR_2_APP_WRITE_MISS_SHAREDDATA, r)], S))"
| "spec_write_miss (Dirty w) r =
     (if r = w then refuse DIR_2_APP_BITMAP_CHECK_FAIL (Dirty w) r
      else (To_Dirty w r, [(DIR_2_AGENT_WRITE_MISS_DIRTY, w)], {}))"
| "spec_write_miss a r = refuse DIR_2_APP_M_CHECK_FAIL a r"

fun spec_write_shared :: "dir_abs \<Rightarrow> nat \<Rightarrow> spec_out" where
  "spec_write_shared (Shared S) r =
     (if r \<notin> S then refuse DIR_2_APP_BITMAP_CHECK_FAIL (Shared S) r
      else if S = {r} then (Dirty r, [(DIR_2_APP_WRITE_SHARED_ONLYACK, r)], {})
      else (Collect_Upgrade r (S - {r}), [], S - {r}))"
| "spec_write_shared a r = refuse DIR_2_APP_M_CHECK_FAIL a r"

fun spec_evict_shared :: "dir_abs \<Rightarrow> nat \<Rightarrow> spec_out" where
  "spec_evict_shared (Shared S) r =
     (if r \<notin> S then refuse DIR_2_APP_BITMAP_CHECK_FAIL (Shared S) r
      else (if S = {r} then Unshared else Shared (S - {r}), [(DIR_2_APP_EVICT_SHARED_ACK, r)], {}))"
| "spec_evict_shared a r = refuse DIR_2_APP_M_CHECK_FAIL a r"

fun spec_evict_dirty :: "dir_abs \<Rightarrow> nat \<Rightarrow> spec_out" where
  "spec_evict_dirty (Dirty w) r =
     (if r \<noteq> w then refuse DIR_2_APP_BITMAP_CHECK_FAIL (Dirty w) r
      else (Unshared, [(DIR_2_APP_EVICT_DIRTY_ACK, r)], {}))"
| "spec_evict_dirty a r = refuse DIR_2_APP_M_CHECK_FAIL a r"

text \<open>An acknowledgement from agent \<open>g\<close>; \<open>None\<close> when nothing in this state asked for it.\<close>

fun spec_ack :: "dir_abs \<Rightarrow> RawMessageType \<Rightarrow> nat \<Rightarrow> nat \<Rightarrow> spec_out option" where
  "spec_ack (To_Shared w r') t r g =
     (if t = AGENT_2_DIR_READ_MISS_DIRTY_ACKDATA \<and> r = r' then Some (Shared {w, r}, [], {}) else None)"
| "spec_ack (To_Dirty w r') t r g =
     (if t = AGENT_2_DIR_WRITE_MISS_DIRTY_ACK \<and> r = r' \<and> g = w then Some (Dirty r, [], {}) else None)"
| "spec_ack (Collect_Miss r' P) t r g =
     (if t = AGENT_2_DIR_WRITE_MISS_SHARED_ACK \<and> r = r' \<and> g \<in> P then
        Some (if P = {g} then (Dirty r, [(DIR_2_APP_WRITE_MISS_SHARED_AGGACK_ACK, r)], {})
              else (Collect_Miss r (P - {g}), [], {}))
      else None)"
| "spec_ack (Collect_Upgrade r' P) t r g =
     (if t = AGENT_2_DIR_WRITE_SHARED_NOTONLY_ACK \<and> r = r' \<and> g \<in> P then
        Some (if P = {g} then (Dirty r, [(DIR_2_APP_WRITE_SHARED_NOTONLY_AGGACK_ACK, r)], {})
              else (Collect_Upgrade r (P - {g}), [], {}))
      else None)"
| "spec_ack a t r g = None"

definition dir_spec :: "dir_abs \<Rightarrow> RawMessageType \<Rightarrow> nat \<Rightarrow> nat \<Rightarrow> spec_out option" where
  "dir_spec a t r g =
     (case t of
        R_READ_MISS \<Rightarrow> Some (spec_read_miss a r)
      | R_WRITE_MISS \<Rightarrow> Some (spec_write_miss a r)
      | R_WRITE_SHARED \<Rightarrow> Some (spec_write_shared a r)
      | R_EVICT_SHARED \<Rightarrow> Some (spec_evict_shared a r)
      | R_EVICT_DIRTY \<Rightarrow> Some (spec_evict_dirty a r)
      | _ \<Rightarrow> spec_ack a t r g)"

section \<open>Sharers of a bitmap\<close>

definition sharers :: "u8 list \<Rightarrow> nat set" where
  "sharers bm = {i. i < length bm \<and> bm ! i = 1}"

definition bytes01 :: "u8 list \<Rightarrow> bool" where
  "bytes01 bm \<longleftrightarrow> (\<forall>b \<in> set bm. b = 0 \<or> b = 1)"

lemma finite_sharers [simp, intro]: "finite (sharers bm)"
  by (rule finite_subset [of _ "{..<length bm}"]) (auto simp: sharers_def)

lemma sharers_less: "i \<in> sharers bm \<Longrightarrow> i < length bm"
  by (simp add: sharers_def)

lemma sharers_set_one [simp]: "i < length bm \<Longrightarrow> sharers (bm[i := 1]) = insert i (sharers bm)"
  by (auto simp: sharers_def nth_list_update split: if_splits)

lemma sharers_set_zero [simp]: "sharers (bm[i := 0]) = sharers bm - {i}"
  by (cases "i < length bm")
    (auto simp: sharers_def nth_list_update list_update_beyond split: if_splits)

lemma bytes01_update [simp]:
  assumes "bytes01 bm" "b = 0 \<or> b = 1"
  shows "bytes01 (bm[i := b])"
  using assms set_update_subset_insert [of bm i b] unfolding bytes01_def by auto

lemma byte_zero_iff: "bytes01 bm \<Longrightarrow> i < length bm \<Longrightarrow> bm ! i = 0 \<longleftrightarrow> i \<notin> sharers bm"
  unfolding bytes01_def sharers_def by (metis (mono_tags, lifting) mem_Collect_eq nth_mem zero_neq_one)

lemma card_sharers_le: "card (sharers bm) \<le> length bm"
proof -
  have "card (sharers bm) \<le> card {..<length bm}"
    by (rule card_mono) (auto simp: sharers_def)
  then show ?thesis by simp
qed

lemma last_sharer_upto:
  "fold (\<lambda>i n. if bm ! i = 1 then of_nat i else n) [0..<k] n0 =
     (if {i. i < k \<and> bm ! i = 1} = {} then n0 else of_nat (Max {i. i < k \<and> bm ! i = (1::u8)}))"
proof (induction k)
  case 0
  then show ?case by simp
next
  case (Suc k)
  show ?case
  proof (cases "bm ! k = 1")
    case True
    then have "{i. i < Suc k \<and> bm ! i = 1} = insert k {i. i < k \<and> bm ! i = 1}" by auto
    moreover have "Max (insert k {i. i < k \<and> bm ! i = 1}) = k" by (rule Max_eqI) auto
    ultimately show ?thesis using True by simp
  next
    case False
    then have "{i. i < Suc k \<and> bm ! i = 1} = {i. i < k \<and> bm ! i = 1}"
      by (auto simp: less_Suc_eq)
    with False Suc show ?thesis by auto
  qed
qed

lemma last_sharer_eq:
  "length bm = max_node_num \<Longrightarrow>
     last_sharer n0 bm = (if sharers bm = {} then n0 else of_nat (Max (sharers bm)))"
  using last_sharer_upto [of bm max_node_num n0] by (auto simp: last_sharer_def sharers_def)

lemma last_sharer_singleton: "length bm = max_node_num \<Longrightarrow> sharers bm = {w} \<Longrightarrow> last_sharer n0 bm = of_nat w"
  by (simp add: last_sharer_eq)

section \<open>The refinement relation\<close>

definition entry_shape :: "dir_data_e \<Rightarrow> RawState \<Rightarrow> nat set \<Rightarrow> nat \<Rightarrow> bool" where
  "entry_shape e st B n \<longleftrightarrow>
     dir_data_e_wf e \<and> bytes01 (de_gblock_bitmap e) \<and> de_state e = state_code st
     \<and> sharers (de_gblock_bitmap e) = B \<and> unat (de_replica_count e) = n"

text \<open>While invalidations are collected for a write miss, the requester's byte is set by the first
  acknowledgement, so it may or may not be there.\<close>

fun dir_rel :: "dir_data_e \<Rightarrow> dir_abs \<Rightarrow> bool" where
  "dir_rel e Unshared \<longleftrightarrow> entry_shape e S_UNSHARED {} 0"
| "dir_rel e (Shared S) \<longleftrightarrow> entry_shape e S_SHARED S (card S) \<and> S \<noteq> {}"
| "dir_rel e (Dirty w) \<longleftrightarrow> entry_shape e S_DIRTY {w} 1"
| "dir_rel e (To_Shared w r) \<longleftrightarrow> entry_shape e S_TO_SHARED {w} 1 \<and> r \<noteq> w"
| "dir_rel e (To_Dirty w r) \<longleftrightarrow> entry_shape e S_TO_DIRTY {w} 1 \<and> r \<noteq> w"
| "dir_rel e (Collect_Miss r P) \<longleftrightarrow>
     (entry_shape e S_TO_DIRTY P (card P) \<or> entry_shape e S_TO_DIRTY (insert r P) (card P))
     \<and> P \<noteq> {} \<and> r \<notin> P"
| "dir_rel e (Collect_Upgrade r P) \<longleftrightarrow>
     entry_shape e S_TO_DIRTY (insert r P) (card P + 1) \<and> P \<noteq> {} \<and> r \<notin> P"

lemma shape_node_less: "entry_shape e st B n \<Longrightarrow> i \<in> B \<Longrightarrow> i < max_node_num"
  by (auto simp: entry_shape_def dir_data_e_wf_def dest: sharers_less)

lemma shape_finite: "entry_shape e st B n \<Longrightarrow> finite B"
  by (auto simp: entry_shape_def)

lemma shape_card: "entry_shape e st B n \<Longrightarrow> card B \<le> 8"
  using card_sharers_le [of "de_gblock_bitmap e"]
  by (auto simp: entry_shape_def dir_data_e_wf_def max_node_num_def)

lemma shape_bit:
  "entry_shape e st B n \<Longrightarrow> node_of r < max_node_num \<Longrightarrow>
     \<exists>b. bm_read e r = Some b \<and> (b = 0 \<longleftrightarrow> node_of r \<notin> B)"
  by (auto simp: entry_shape_def bm_read_def byte_zero_iff dir_data_e_wf_def)

section \<open>The handlers implement the abstract directory\<close>

definition implements :: "ctrl_msg \<Rightarrow> dir_data_e \<Rightarrow> dir_res \<Rightarrow> spec_out \<Rightarrow> bool" where
  "implements m e res out \<longleftrightarrow>
     (case out of (a', ms, mc) \<Rightarrow>
        dir_rel (dr_entry res) a'
        \<and> map (\<lambda>x. (cm_mtype x, node_of (cm_dst_node_id x))) (dr_out res)
            = map (\<lambda>(t, n). (mtype_code t, n)) ms
        \<and> dr_copy res = (if mc = {} then None else Some (m, e))
        \<and> (mc \<noteq> {} \<longrightarrow> mc = sharers (de_gblock_bitmap e) - {node_of (cm_req_cline_nodeID m)})
        \<and> de_gblock_addr (dr_entry res) = de_gblock_addr e
        \<and> de_gblock_index (dr_entry res) = de_gblock_index e
        \<and> cm_dir_gblock_index (dr_msg res) = cm_dir_gblock_index m
        \<and> cm_lock_position (dr_msg res) = cm_lock_position m)"

lemma count_inc: "unat (c :: u8) \<le> 8 \<Longrightarrow> unat (c + 1) = Suc (unat c)"
  by (simp add: unat_word_ariths)

lemma count_dec: "0 < unat (c :: u8) \<Longrightarrow> unat (c - 1) = unat c - 1"
  by (metis One_nat_def gr_implies_not_zero unat_0 unat_minus_one)

lemma count_one: "(c :: u8) = 1 \<longleftrightarrow> unat c = 1"
  by (metis unat_1 word_unat_eq_iff)

lemma count_two: "(c :: u8) = 2 \<longleftrightarrow> unat c = 2"
  by (simp add: word_unat_eq_iff)

lemma count_gt_one: "1 < (c :: u8) \<longleftrightarrow> 1 < unat c"
  by (simp add: word_less_nat_alt)

lemma unat_of_nat_node: "n < max_node_num \<Longrightarrow> unat (of_nat n :: u8) = n"
  by (simp add: unat_of_nat max_node_num_def)

lemmas handler_defs = reply_def forward_def silent_def to_req_def to_agent_def set_bit_req_def
  set_addr_req_def implements_def refuse_def

lemmas shape_defs = entry_shape_def dir_data_e_wf_def

lemma card_insert_shape:
  "entry_shape e st B n \<Longrightarrow> i \<notin> B \<Longrightarrow> card (insert i B) = Suc (card B)"
  by (simp add: shape_finite)

lemma card_remove_shape:
  "entry_shape e st B n \<Longrightarrow> i \<in> B \<Longrightarrow> card B = Suc (card (B - {i}))"
  by (metis card.remove shape_finite)

lemma shape_last_sharer:
  "entry_shape e st {w} n \<Longrightarrow> last_sharer 0 (de_gblock_bitmap e) = of_nat w"
  by (simp add: shape_defs last_sharer_singleton)

lemma read_miss_implements:
  assumes rel: "dir_rel e a" and r: "node_of (cm_req_cline_nodeID m) < max_node_num"
  shows "\<exists>res. dir_read_miss m e (last_sharer 0 (de_gblock_bitmap e)) = Some res
           \<and> implements m e res (spec_read_miss a (node_of (cm_req_cline_nodeID m)))"
proof (cases a)
  case Unshared
  with rel have sh: "entry_shape e S_UNSHARED {} 0" by simp
  from shape_bit [OF sh r] obtain b where b: "bm_read e (cm_req_cline_nodeID m) = Some b" "b = 0"
    by auto
  with sh r Unshared show ?thesis
    by (auto simp: dir_read_miss_def handler_defs shape_defs count_inc)
next
  case (Shared S)
  with rel have sh: "entry_shape e S_SHARED S (card S)" by simp
  from shape_bit [OF sh r] obtain b where b: "bm_read e (cm_req_cline_nodeID m) = Some b"
    "b = 0 \<longleftrightarrow> node_of (cm_req_cline_nodeID m) \<notin> S" by auto
  with sh rel r Shared shape_card [OF sh] card_insert_shape [OF sh] show ?thesis
    by (auto simp: dir_read_miss_def handler_defs shape_defs count_inc)
next
  case (Dirty w)
  with rel have sh: "entry_shape e S_DIRTY {w} 1" by simp
  from shape_bit [OF sh r] obtain b where b: "bm_read e (cm_req_cline_nodeID m) = Some b"
    "b = 0 \<longleftrightarrow> node_of (cm_req_cline_nodeID m) \<noteq> w" by auto
  with sh rel r Dirty shape_last_sharer [OF sh] shape_node_less [OF sh, of w] show ?thesis
    by (auto simp: dir_read_miss_def handler_defs shape_defs unat_of_nat_node)
qed (use rel in \<open>auto simp: dir_read_miss_def handler_defs shape_defs\<close>)

lemma write_miss_implements:
  assumes rel: "dir_rel e a" and r: "node_of (cm_req_cline_nodeID m) < max_node_num"
  shows "\<exists>res. dir_write_miss m e (last_sharer 0 (de_gblock_bitmap e)) = Some res
           \<and> implements m e res (spec_write_miss a (node_of (cm_req_cline_nodeID m)))"
proof (cases a)
  case Unshared
  with rel have sh: "entry_shape e S_UNSHARED {} 0" by simp
  from shape_bit [OF sh r] obtain b where b: "bm_read e (cm_req_cline_nodeID m) = Some b" "b = 0"
    by auto
  with sh r Unshared show ?thesis
    by (auto simp: dir_write_miss_def handler_defs shape_defs)
next
  case (Shared S)
  with rel have sh: "entry_shape e S_SHARED S (card S)" by simp
  from shape_bit [OF sh r] obtain b where b: "bm_read e (cm_req_cline_nodeID m) = Some b"
    "b = 0 \<longleftrightarrow> node_of (cm_req_cline_nodeID m) \<notin> S" by auto
  with sh rel r Shared show ?thesis
    by (auto simp: dir_write_miss_def handler_defs shape_defs)
next
  case (Dirty w)
  with rel have sh: "entry_shape e S_DIRTY {w} 1" by simp
  from shape_bit [OF sh r] obtain b where b: "bm_read e (cm_req_cline_nodeID m) = Some b"
    "b = 0 \<longleftrightarrow> node_of (cm_req_cline_nodeID m) \<noteq> w" by auto
  with sh rel r Dirty shape_last_sharer [OF sh] shape_node_less [OF sh, of w] show ?thesis
    by (auto simp: dir_write_miss_def handler_defs shape_defs unat_of_nat_node)
qed (use rel in \<open>auto simp: dir_write_miss_def handler_defs shape_defs\<close>)

lemma card_gt_one_iff:
  assumes "entry_shape e st S n" "r \<in> S"
  shows "1 < card S \<longleftrightarrow> S \<noteq> {r}"
proof -
  have "card S = 1 \<longleftrightarrow> S = {r}" using assms(2) by (metis card_1_singletonE is_singletonI
    is_singleton_altdef singletonD)
  moreover have "0 < card S" using assms shape_finite by (auto simp: card_gt_0_iff)
  ultimately show ?thesis by linarith
qed

lemma write_shared_implements:
  assumes rel: "dir_rel e a" and r: "node_of (cm_req_cline_nodeID m) < max_node_num"
  shows "\<exists>res. dir_write_shared m e = Some res
           \<and> implements m e res (spec_write_shared a (node_of (cm_req_cline_nodeID m)))"
proof (cases a)
  case (Shared S)
  let ?r = "node_of (cm_req_cline_nodeID m)"
  from Shared rel have sh: "entry_shape e S_SHARED S (card S)" by simp
  from shape_bit [OF sh r] obtain b where b: "bm_read e (cm_req_cline_nodeID m) = Some b"
    "b = 0 \<longleftrightarrow> ?r \<notin> S" by auto
  have gt: "1 < de_replica_count e \<longleftrightarrow> S \<noteq> {?r}" if "?r \<in> S"
    using sh card_gt_one_iff [OF sh that] by (simp add: count_gt_one entry_shape_def)
  have card: "card S = card (S - {?r}) + 1" if "?r \<in> S"
    using card_remove_shape [OF sh that] by simp
  from b sh rel r Shared gt card show ?thesis
    by (auto simp: dir_write_shared_def handler_defs shape_defs insert_absorb)
qed (use rel in \<open>auto simp: dir_write_shared_def handler_defs shape_defs\<close>)

lemma evict_shared_implements:
  assumes rel: "dir_rel e a" and r: "node_of (cm_req_cline_nodeID m) < max_node_num"
  shows "\<exists>res. dir_evict_shared m e = Some res
           \<and> implements m e res (spec_evict_shared a (node_of (cm_req_cline_nodeID m)))"
proof (cases a)
  case (Shared S)
  let ?r = "node_of (cm_req_cline_nodeID m)"
  from Shared rel have sh: "entry_shape e S_SHARED S (card S)" by simp
  from shape_bit [OF sh r] obtain b where b: "bm_read e (cm_req_cline_nodeID m) = Some b"
    "b = 0 \<longleftrightarrow> ?r \<notin> S" by auto
  show ?thesis
  proof (cases "?r \<in> S")
    case True
    have c: "card S = Suc (card (S - {?r}))" using card_remove_shape [OF sh True] .
    then have n: "unat (de_replica_count e) = Suc (card (S - {?r}))"
      using sh by (simp add: entry_shape_def)
    then have "unat (de_replica_count e - 1) = card (S - {?r})" by (simp add: count_dec)
    moreover have "de_replica_count e = 1 \<longleftrightarrow> S = {?r}"
      using n c card_gt_one_iff [OF sh True] unfolding count_one by linarith
    ultimately show ?thesis
      using b sh rel r Shared True by (auto simp: dir_evict_shared_def handler_defs shape_defs)
  next
    case False
    with b rel Shared show ?thesis by (auto simp: dir_evict_shared_def handler_defs shape_defs)
  qed
qed (use rel in \<open>auto simp: dir_evict_shared_def handler_defs shape_defs\<close>)

lemma evict_dirty_implements:
  assumes rel: "dir_rel e a" and r: "node_of (cm_req_cline_nodeID m) < max_node_num"
  shows "\<exists>res. dir_evict_dirty m e = Some res
           \<and> implements m e res (spec_evict_dirty a (node_of (cm_req_cline_nodeID m)))"
proof (cases a)
  case (Dirty w)
  with rel have sh: "entry_shape e S_DIRTY {w} 1" by simp
  from shape_bit [OF sh r] obtain b where b: "bm_read e (cm_req_cline_nodeID m) = Some b"
    "b = 0 \<longleftrightarrow> node_of (cm_req_cline_nodeID m) \<noteq> w" by auto
  with sh rel r Dirty show ?thesis
    by (auto simp: dir_evict_dirty_def handler_defs shape_defs count_dec)
qed (use rel in \<open>auto simp: dir_evict_dirty_def handler_defs shape_defs\<close>)

lemma bm_write_node:
  "node_of n < max_node_num \<Longrightarrow>
     bm_write n v e = Some (e\<lparr>de_gblock_bitmap := (de_gblock_bitmap e)[node_of n := v]\<rparr>)"
  by (simp add: bm_write_def)

text \<open>Collecting an acknowledgement: the requester's byte is set, the agent's is cleared.\<close>

lemma shape_collect:
  assumes "entry_shape e st B n" "r < max_node_num" "g \<noteq> r"
  shows "entry_shape (e\<lparr>de_gblock_bitmap := (de_gblock_bitmap e)[r := 1, g := 0],
      de_state := state_code st', de_replica_count := c\<rparr>) st' (insert r B - {g}) (unat c)"
  using assms by (simp add: shape_defs)

lemma read_ack_implements:
  assumes rel: "dir_rel e (To_Shared w r')" and r: "node_of (cm_req_cline_nodeID m) < max_node_num"
    and "node_of (cm_req_cline_nodeID m) = r'"
  shows "\<exists>res. dir_read_miss_dirty_ack m e = Some res
           \<and> implements m e res (Shared {w, node_of (cm_req_cline_nodeID m)}, [], {})"
  using assms
  by (auto simp: dir_read_miss_dirty_ack_def handler_defs shape_defs bm_write_node count_inc)

lemma write_dirty_ack_implements:
  assumes rel: "dir_rel e (To_Dirty w r')" and r: "node_of (cm_req_cline_nodeID m) < max_node_num"
    and "node_of (cm_req_cline_nodeID m) = r'" and "node_of (cm_agent_cline_nodeID m) = w"
  shows "\<exists>res. dir_write_miss_dirty_ack m e = Some res
           \<and> implements m e res (Dirty (node_of (cm_req_cline_nodeID m)), [], {})"
proof -
  from rel have "w < max_node_num" by (auto dest: shape_node_less)
  with assms show ?thesis
    by (auto simp: dir_write_miss_dirty_ack_def handler_defs shape_defs bm_write_node)
qed

lemma singleton_iff: "finite P \<Longrightarrow> g \<in> P \<Longrightarrow> P = {g} \<longleftrightarrow> card P = 1"
  by (metis One_nat_def card_1_singletonE card.empty card.insert empty_iff finite.emptyI singletonD)

lemma write_miss_ack_implements:
  assumes rel: "dir_rel e (Collect_Miss r P)" and r: "node_of (cm_req_cline_nodeID m) = r"
    and rn: "r < max_node_num" and g: "node_of (cm_agent_cline_nodeID m) \<in> P"
  shows "\<exists>res. dir_write_miss_shared_ack m e = Some res
           \<and> implements m e res
               (the (spec_ack (Collect_Miss r P) AGENT_2_DIR_WRITE_MISS_SHARED_ACK r
                  (node_of (cm_agent_cline_nodeID m))))"
proof -
  let ?g = "node_of (cm_agent_cline_nodeID m)"
  obtain B where sh: "entry_shape e S_TO_DIRTY B (card P)" and B: "insert r B = insert r P"
    and rP: "r \<notin> P" and gB: "?g \<in> B"
    using rel g by auto
  from sh gB have gn: "?g < max_node_num" by (rule shape_node_less)
  from B have "finite P" using shape_finite [OF sh] by (metis finite_insert)
  then have card: "card (P - {?g}) = card P - 1" "0 < card P"
    using g by (auto simp: card_gt_0_iff)
  have one: "de_replica_count e = 1 \<longleftrightarrow> P = {?g}"
    using sh singleton_iff [OF \<open>finite P\<close> g] by (simp add: count_one entry_shape_def)
  have dec: "unat (de_replica_count e - 1) = card (P - {?g})"
    using sh card by (simp add: count_dec entry_shape_def)
  have ins: "insert r B - {?g} = insert r (P - {?g})" using B g rP by auto
  have "?g \<noteq> r" using g rP by auto
  with sh gn rn r g rP one dec ins card show ?thesis
    by (cases "P = {?g}")
      (auto simp: dir_write_miss_shared_ack_def handler_defs shape_defs bm_write_node)
qed

lemma write_shared_ack_implements:
  assumes rel: "dir_rel e (Collect_Upgrade r P)" and r: "node_of (cm_req_cline_nodeID m) = r"
    and rn: "r < max_node_num" and g: "node_of (cm_agent_cline_nodeID m) \<in> P"
  shows "\<exists>res. dir_write_shared_notonly_ack m e = Some res
           \<and> implements m e res
               (the (spec_ack (Collect_Upgrade r P) AGENT_2_DIR_WRITE_SHARED_NOTONLY_ACK r
                  (node_of (cm_agent_cline_nodeID m))))"
proof -
  let ?g = "node_of (cm_agent_cline_nodeID m)"
  from rel have sh: "entry_shape e S_TO_DIRTY (insert r P) (card P + 1)" and rP: "r \<notin> P" by auto
  have gn: "?g < max_node_num" using sh g by (auto dest: shape_node_less)
  have "finite P" using shape_finite [OF sh] by simp
  then have card: "card (P - {?g}) = card P - 1" "0 < card P"
    using g by (auto simp: card_gt_0_iff)
  have two: "de_replica_count e = 2 \<longleftrightarrow> P = {?g}"
    using sh singleton_iff [OF \<open>finite P\<close> g] by (simp add: count_two entry_shape_def)
  have dec: "unat (de_replica_count e - 1) = card (P - {?g}) + 1"
    using sh card by (simp add: count_dec entry_shape_def)
  have ins: "insert r P - {?g} = insert r (P - {?g})" using g rP by auto
  have "?g \<noteq> r" using g rP by auto
  with sh gn rn r g rP two dec ins card show ?thesis
    by (cases "P = {?g}")
      (auto simp: dir_write_shared_notonly_ack_def handler_defs shape_defs bm_write_node)
qed

lemma spec_ack_cases:
  assumes "spec_ack a t r g = Some out"
  obtains (rd_ack) w where "a = To_Shared w r" "t = AGENT_2_DIR_READ_MISS_DIRTY_ACKDATA"
      "out = (Shared {w, r}, [], {})"
    | (wr_ack) "a = To_Dirty g r" "t = AGENT_2_DIR_WRITE_MISS_DIRTY_ACK" "out = (Dirty r, [], {})"
    | (miss_ack) P where "a = Collect_Miss r P" "t = AGENT_2_DIR_WRITE_MISS_SHARED_ACK" "g \<in> P"
    | (up_ack) P where "a = Collect_Upgrade r P" "t = AGENT_2_DIR_WRITE_SHARED_NOTONLY_ACK" "g \<in> P"
  using assms by (cases a) (auto split: if_splits)

lemma ack_implements:
  assumes rel: "dir_rel e a" and r: "node_of (cm_req_cline_nodeID m) < max_node_num"
    and spec: "spec_ack a t (node_of (cm_req_cline_nodeID m)) (node_of (cm_agent_cline_nodeID m)) = Some out"
    and t: "cm_mtype m0 = mtype_code t" and m: "m = dir_annotate m0 e"
  shows "\<exists>res. dir_handle m0 e = Some res \<and> implements m e res out"
proof -
  have mt: "cm_mtype m = mtype_code t" using t m by (simp add: dir_annotate_def Let_def)
  from spec show ?thesis
  proof (cases rule: spec_ack_cases)
    case (rd_ack w)
    from read_ack_implements [of e w _ m] rel r rd_ack show ?thesis
      by (simp add: dir_handle_def Let_def mt flip: m)
  next
    case wr_ack
    from write_dirty_ack_implements [of e "node_of (cm_agent_cline_nodeID m)" _ m, OF _ r] rel wr_ack
    show ?thesis by (simp add: dir_handle_def Let_def mt flip: m)
  next
    case (miss_ack P)
    from write_miss_ack_implements [of e "node_of (cm_req_cline_nodeID m)" P m] rel r miss_ack spec
    show ?thesis by (simp add: dir_handle_def Let_def mt flip: m)
  next
    case (up_ack P)
    from write_shared_ack_implements [of e "node_of (cm_req_cline_nodeID m)" P m] rel r up_ack spec
    show ?thesis by (simp add: dir_handle_def Let_def mt flip: m)
  qed
qed

lemma annotate_ids [simp]:
  "cm_mtype (dir_annotate m e) = cm_mtype m"
  "cm_req_cline_nodeID (dir_annotate m e) = cm_req_cline_nodeID m"
  "cm_agent_cline_nodeID (dir_annotate m e) = cm_agent_cline_nodeID m"
  "cm_dir_gblock_index (dir_annotate m e) = cm_dir_gblock_index m"
  "cm_lock_position (dir_annotate m e) = cm_lock_position m"
  by (simp_all add: dir_annotate_def Let_def)

lemma handle_implements:
  assumes rel: "dir_rel e a" and r: "node_of (cm_req_cline_nodeID m) < max_node_num"
    and t: "cm_mtype m = mtype_code t"
    and spec: "dir_spec a t (node_of (cm_req_cline_nodeID m)) (node_of (cm_agent_cline_nodeID m)) = Some out"
  shows "\<exists>res. dir_handle m e = Some res \<and> implements (dir_annotate m e) e res out"
proof (cases "spec_ack a t (node_of (cm_req_cline_nodeID m)) (node_of (cm_agent_cline_nodeID m)) = Some out")
  case True
  with ack_implements [of e a "dir_annotate m e" t out m] rel r t show ?thesis by simp
next
  case False
  let ?m = "dir_annotate m e"
  have r': "node_of (cm_req_cline_nodeID ?m) < max_node_num" using r by simp
  from False spec consider "t = R_READ_MISS" | "t = R_WRITE_MISS" | "t = R_WRITE_SHARED"
    | "t = R_EVICT_SHARED" | "t = R_EVICT_DIRTY"
    by (auto simp: dir_spec_def split: RawMessageType.splits)
  then show ?thesis
    using spec t read_miss_implements [OF rel r'] write_miss_implements [OF rel r']
      write_shared_implements [OF rel r'] evict_shared_implements [OF rel r']
      evict_dirty_implements [OF rel r']
    by cases (auto simp: dir_handle_def dir_spec_def Let_def)
qed

section \<open>Runs of the directory on one block\<close>

text \<open>Deciding a sequence of messages: the entries written back, without the messages sent.\<close>

fun dir_run :: "dir_data_e \<Rightarrow> ctrl_msg list \<Rightarrow> dir_data_e option" where
  "dir_run e [] = Some e"
| "dir_run e (m # ms) = (case dir_handle m e of None \<Rightarrow> None | Some res \<Rightarrow> dir_run (dr_entry res) ms)"

fun spec_run :: "dir_abs \<Rightarrow> ctrl_msg list \<Rightarrow> dir_abs option" where
  "spec_run a [] = Some a"
| "spec_run a (m # ms) =
     (case mtype_of (cm_mtype m) of
        None \<Rightarrow> None
      | Some t \<Rightarrow>
          if node_of (cm_req_cline_nodeID m) < max_node_num then
            (case dir_spec a t (node_of (cm_req_cline_nodeID m)) (node_of (cm_agent_cline_nodeID m)) of
               None \<Rightarrow> None
             | Some (a', _) \<Rightarrow> spec_run a' ms)
          else None)"

lemma run_refines:
  "dir_rel e a \<Longrightarrow> spec_run a ms = Some a' \<Longrightarrow> \<exists>e'. dir_run e ms = Some e' \<and> dir_rel e' a'"
proof (induction ms arbitrary: e a)
  case Nil
  then show ?case by simp
next
  case (Cons m ms)
  from Cons.prems(2) obtain t a1 outs mc where
    t: "cm_mtype m = mtype_code t" and r: "node_of (cm_req_cline_nodeID m) < max_node_num"
    and sp: "dir_spec a t (node_of (cm_req_cline_nodeID m)) (node_of (cm_agent_cline_nodeID m))
      = Some (a1, outs, mc)"
    and run: "spec_run a1 ms = Some a'"
    by (auto split: option.splits if_splits)
  from handle_implements [OF Cons.prems(1) r t sp] obtain res where
    "dir_handle m e = Some res" "dir_rel (dr_entry res) a1"
    by (auto simp: implements_def)
  with Cons.IH [OF _ run] show ?case by simp
qed

text \<open>The invariant of a directory entry that a run keeps.\<close>

definition entry_inv :: "dir_data_e \<Rightarrow> bool" where
  "entry_inv e \<longleftrightarrow>
     dir_data_e_wf e \<and> bytes01 (de_gblock_bitmap e)
     \<and> (case state_of (de_state e) of
          Some S_UNSHARED \<Rightarrow> sharers (de_gblock_bitmap e) = {} \<and> de_replica_count e = 0
        | Some S_SHARED \<Rightarrow> sharers (de_gblock_bitmap e) \<noteq> {}
            \<and> unat (de_replica_count e) = card (sharers (de_gblock_bitmap e))
        | Some S_DIRTY \<Rightarrow> is_singleton (sharers (de_gblock_bitmap e)) \<and> de_replica_count e = 1
        | Some S_TO_SHARED \<Rightarrow> is_singleton (sharers (de_gblock_bitmap e)) \<and> de_replica_count e = 1
        | Some S_TO_DIRTY \<Rightarrow> sharers (de_gblock_bitmap e) \<noteq> {} \<and> 1 \<le> de_replica_count e
        | _ \<Rightarrow> False)"

lemma unat_zero_iff: "unat (c :: u8) = 0 \<longleftrightarrow> c = 0"
  by (simp add: unat_eq_0)

lemma le_one_iff: "1 \<le> (c :: u8) \<longleftrightarrow> 1 \<le> unat c"
  by (simp add: word_le_nat_alt)

lemma rel_entry_inv: "dir_rel e a \<Longrightarrow> entry_inv e"
proof (cases a)
  case (Collect_Miss r P)
  assume rel: "dir_rel e a"
  with Collect_Miss have "finite P" "P \<noteq> {}" by (auto dest: shape_finite)
  then have "1 \<le> card P" by (simp add: Suc_leI card_gt_0_iff)
  with rel Collect_Miss show ?thesis by (auto simp: entry_inv_def shape_defs le_one_iff)
qed (auto simp: entry_inv_def shape_defs count_one unat_zero_iff le_one_iff)

lemma fresh_rel:
  "dir_data_e_wf e \<Longrightarrow> de_gblock_bitmap e = replicate 8 0 \<Longrightarrow> de_state e = state_code S_UNSHARED
     \<Longrightarrow> de_replica_count e = 0 \<Longrightarrow> dir_rel e Unshared"
  by (auto simp: shape_defs bytes01_def sharers_def)

section \<open>Multicast\<close>

fun copy_run :: "nat \<Rightarrow> dir_to_net_regs \<Rightarrow> dir_to_net_regs \<times> ctrl_msg list" where
  "copy_run 0 r = (r, [])"
| "copy_run (Suc n) r =
     (if dt_copy_flag r = 0 then (r, [])
      else (let (r1, o1) = copy_step r; (r2, o2) = copy_run n r1 in (r2, o1 @ o2)))"

text \<open>The notice to one sharer, if it gets one.\<close>

definition notice :: "dir_to_net_regs \<Rightarrow> nat \<Rightarrow> ctrl_msg list" where
  "notice r n =
     (if cm_mtype (dt_ctrl_msg r) = mtype_code R_WRITE_SHARED then
        (if of_nat n = cm_req_cline_nodeID (dt_ctrl_msg r) then []
         else [to_agent DIR_2_AGENT_WRITE_SHARED_NOTONLY (of_nat n) (dt_dir_data r) (dt_ctrl_msg r)])
      else [to_agent DIR_2_AGENT_WRITE_MISS_SHARED (of_nat n) (dt_dir_data r) (dt_ctrl_msg r)])"

definition copying :: "dir_to_net_regs \<Rightarrow> bool" where
  "copying r \<longleftrightarrow>
     dt_copy_flag r \<noteq> 0 \<and> length (de_gblock_bitmap (dt_dir_data r)) = max_node_num
     \<and> de_state (dt_dir_data r) = state_code S_SHARED
     \<and> (cm_mtype (dt_ctrl_msg r) = mtype_code R_WRITE_MISS
        \<or> cm_mtype (dt_ctrl_msg r) = mtype_code R_WRITE_SHARED)"

abbreviation remaining :: "dir_to_net_regs \<Rightarrow> nat set" where
  "remaining r \<equiv> sharers (de_gblock_bitmap (dt_dir_data r))"

lemma sorted_list_of_set_Max:
  assumes "finite (S :: nat set)" "S \<noteq> {}"
  shows "sorted_list_of_set S = sorted_list_of_set (S - {Max S}) @ [Max S]"
proof (rule sorted_distinct_set_unique)
  have "\<forall>x \<in> S - {Max S}. x \<le> Max S" using assms by auto
  then show "sorted (sorted_list_of_set (S - {Max S}) @ [Max S])"
    using assms by (simp add: sorted_append)
  show "set (sorted_list_of_set S) = set (sorted_list_of_set (S - {Max S}) @ [Max S])"
    using assms by (simp add: insert_absorb)
qed (use assms in simp_all)

lemma copy_step_remaining:
  assumes c: "copying r" and ne: "remaining r \<noteq> {}"
  shows "copy_step r = (clear_copied (of_nat (Max (remaining r))) r, notice r (Max (remaining r)))"
proof -
  let ?n = "Max (remaining r)"
  have "?n \<in> remaining r" using ne by (intro Max_in) auto
  then have lt: "?n < max_node_num" using c by (auto simp: copying_def dest: sharers_less)
  have "unat (of_nat ?n :: u8) < unat (0xff :: u8)"
    using lt by (simp add: unat_of_nat_node) (simp add: max_node_num_def)
  then have "(of_nat ?n :: u8) \<noteq> 0xff" by auto
  with c ne show ?thesis
    by (auto simp: copy_step_def copying_def copy_write_miss_def copy_write_shared_def notice_def
        last_sharer_eq Let_def)
qed

lemma copy_step_done:
  "copying r \<Longrightarrow> remaining r = {} \<Longrightarrow> copy_step r = (r\<lparr>dt_copy_flag := 0\<rparr>, [])"
  by (auto simp: copy_step_def copying_def copy_write_miss_def copy_write_shared_def
      last_sharer_eq Let_def)

lemma clear_copied_simps:
  assumes "copying r" "n \<in> remaining r"
  shows "copying (clear_copied (of_nat n) r)"
    and "remaining (clear_copied (of_nat n) r) = remaining r - {n}"
    and "notice (clear_copied (of_nat n) r) = notice r"
proof -
  from assms have "n < max_node_num" by (auto simp: copying_def dest: sharers_less)
  then show "copying (clear_copied (of_nat n) r)"
    and "remaining (clear_copied (of_nat n) r) = remaining r - {n}"
    and "notice (clear_copied (of_nat n) r) = notice r"
    using assms by (auto simp: copying_def clear_copied_def notice_def to_agent_def unat_of_nat_node fun_eq_iff)
qed

lemma copy_run_notices:
  assumes "copying r"
  shows "\<exists>r'. copy_run (Suc (card (remaining r))) r =
           (r', concat (map (notice r) (rev (sorted_list_of_set (remaining r)))))
         \<and> dt_copy_flag r' = 0"
  using assms
proof (induction "card (remaining r)" arbitrary: r)
  case 0
  then have "remaining r = {}" by simp
  with 0 show ?case by (simp add: copy_step_done copying_def)
next
  case (Suc k)
  let ?n = "Max (remaining r)" and ?r = "clear_copied (of_nat (Max (remaining r))) r"
  from Suc.hyps(2) have ne: "remaining r \<noteq> {}" by auto
  then have n: "?n \<in> remaining r" by (intro Max_in) auto
  note cl = clear_copied_simps [OF Suc.prems n]
  have "k = card (remaining ?r)" using Suc.hyps(2) n cl(2) by (simp add: card_Diff_singleton)
  from Suc.hyps(1) [OF this cl(1)] obtain r' where
    "copy_run (Suc k) ?r = (r', concat (map (notice r) (rev (sorted_list_of_set (remaining r - {?n})))))"
    "dt_copy_flag r' = 0" using \<open>k = card (remaining ?r)\<close> by (auto simp: cl)
  moreover have "dt_copy_flag r \<noteq> 0" using Suc.prems by (simp add: copying_def)
  ultimately show ?case
    unfolding Suc.hyps(2) [symmetric]
    by (subst copy_run.simps)
      (simp add: copy_step_remaining [OF Suc.prems ne] sorted_list_of_set_Max [OF _ ne])
qed

section \<open>Properties\<close>

text \<open>Messages of the example runs: a type, the requester and the acknowledging agent.\<close>

definition sample_msg :: "RawMessageType \<Rightarrow> u8 \<Rightarrow> u8 \<Rightarrow> ctrl_msg" where
  "sample_msg t r g =
     blank_ctrl_msg\<lparr>cm_mtype := mtype_code t, cm_req_cline_nodeID := r, cm_agent_cline_nodeID := g\<rparr>"

lemma sample_msg_simps [simp]:
  "cm_mtype (sample_msg t r g) = mtype_code t"
  "cm_req_cline_nodeID (sample_msg t r g) = r"
  "cm_agent_cline_nodeID (sample_msg t r g) = g"
  by (simp_all add: sample_msg_def)

lemma blank_rel: "dir_rel blank_dir_data_e Unshared"
  by (rule fresh_rel) (simp_all add: blank_dir_data_e_def max_node_num_def dir_data_e_wf_def state_code.simps)

text \<open>(C1) Every message the abstract directory has an answer to is handled without an access
  outside an array, and the handler's new entry, the messages it sends with their destinations and
  the multicast it starts are those of the abstract directory.\<close>

theorem dir_handle_refines_spec:
  assumes "dir_rel e a"
    and "node_of (cm_req_cline_nodeID m) < max_node_num"
    and "cm_mtype m = mtype_code t"
    and "dir_spec a t (node_of (cm_req_cline_nodeID m)) (node_of (cm_agent_cline_nodeID m)) = Some out"
  shows "\<exists>res. dir_handle m e = Some res \<and> implements (dir_annotate m e) e res out"
  using assms by (rule handle_implements)

theorem dir_handle_refines_spec_witness:
  "\<exists>res. dir_handle (sample_msg R_WRITE_MISS 3 0) blank_dir_data_e = Some res
     \<and> implements (dir_annotate (sample_msg R_WRITE_MISS 3 0) blank_dir_data_e) blank_dir_data_e res
         (Dirty 3, [(DIR_2_APP_WRITE_MISS_ACKDATA, 3)], {})"
  by (rule dir_handle_refines_spec [OF blank_rel, where t = R_WRITE_MISS])
    (simp_all add: dir_spec_def max_node_num_def)

text \<open>(C9) A directory entry that starts unshared and is fed any sequence of requests and expected
  acknowledgements never goes out of its arrays, follows the abstract directory, and keeps its
  invariant: the replica count agrees with the bitmap, and a dirty block has exactly one holder.\<close>

theorem dir_run_invariant:
  assumes "dir_data_e_wf e" and "de_gblock_bitmap e = replicate 8 0"
    and "de_state e = state_code S_UNSHARED" and "de_replica_count e = 0"
    and "spec_run Unshared ms = Some a"
  shows "\<exists>e'. dir_run e ms = Some e' \<and> dir_rel e' a \<and> entry_inv e'"
  using run_refines [OF fresh_rel [OF assms(1-4)] assms(5)] rel_entry_inv by blast

theorem dir_run_invariant_witness:
  "\<exists>e'. dir_run blank_dir_data_e
      [sample_msg R_READ_MISS 2 0, sample_msg R_READ_MISS 5 0, sample_msg R_WRITE_SHARED 2 0,
       sample_msg AGENT_2_DIR_WRITE_SHARED_NOTONLY_ACK 2 5] = Some e'
     \<and> dir_rel e' (Dirty 2) \<and> entry_inv e'"
  by (rule dir_run_invariant)
    (simp_all add: blank_dir_data_e_def max_node_num_def dir_data_e_wf_def state_code.simps dir_spec_def insert_commute)

text \<open>(C11) A multicast ends: within one cycle more than there are sharers it has notified each
  sharer of the copied bitmap exactly once, the requester of an upgrade left out, and has cleared
  its copy flag.\<close>

theorem multicast_reaches_each_sharer_once:
  assumes "copying r"
  shows "\<exists>r'. copy_run (Suc (card (remaining r))) r =
           (r', concat (map (notice r) (rev (sorted_list_of_set (remaining r)))))
         \<and> dt_copy_flag r' = 0"
  using assms by (rule copy_run_notices)

definition sample_copy :: dir_to_net_regs where
  "sample_copy = \<lparr>dt_copy_flag = 1, dt_ctrl_msg = sample_msg R_WRITE_SHARED 2 0,
     dt_dir_data = blank_dir_data_e\<lparr>de_gblock_bitmap := [0, 0, 1, 0, 0, 1, 1, 0],
       de_state := state_code S_SHARED\<rparr>\<rparr>"

lemma sample_copy_remaining: "remaining sample_copy = {2, 5, 6}"
  by (auto simp: sample_copy_def sharers_def less_Suc_eq numeral_eq_Suc)

lemma sample_copy_notice:
  "notice sample_copy 2 = []"
  "map (node_of \<circ> cm_dst_node_id) (notice sample_copy 5) = [5]"
  "map (node_of \<circ> cm_dst_node_id) (notice sample_copy 6) = [6]"
  by (simp_all add: notice_def to_agent_def sample_copy_def)

theorem multicast_reaches_each_sharer_once_witness:
  "map (node_of \<circ> cm_dst_node_id) (snd (copy_run 4 sample_copy)) = [6, 5]"
proof -
  have "copying sample_copy"
    by (simp add: copying_def sample_copy_def blank_dir_data_e_def max_node_num_def)
  moreover have "Suc (card (remaining sample_copy)) = 4" by (simp add: sample_copy_remaining)
  ultimately obtain r' where
    "copy_run 4 sample_copy =
       (r', concat (map (notice sample_copy) (rev (sorted_list_of_set (remaining sample_copy)))))"
    using multicast_reaches_each_sharer_once [of sample_copy] by metis
  then show ?thesis unfolding sample_copy_remaining by (simp add: sample_copy_notice)
qed

end
