(* ===== verification/Dir_Lock.thy ===== *)
theory Dir_Lock
  imports Directory
begin

text \<open>
  The lock table of \<open>dirCtrlHLS_from_net\<close>. The interface a client of a lock relies on is the
  locale \<open>ticket_lock\<close>; the table of buckets is shown to provide it, and the two operations of
  the module are reduced to the table's.
\<close>

section \<open>The interface of a table of locks\<close>

locale ticket_lock =
  fixes ok :: "'s \<Rightarrow> bool"
    and held :: "'s \<Rightarrow> 'k set"
    and acquire :: "'k \<Rightarrow> 's \<Rightarrow> 's option"
    and release :: "'k \<Rightarrow> 's \<Rightarrow> 's"
  assumes acquire_fresh: "ok s \<Longrightarrow> acquire k s = Some s' \<Longrightarrow> k \<notin> held s"
    and acquire_held: "ok s \<Longrightarrow> acquire k s = Some s' \<Longrightarrow> held s' = insert k (held s)"
    and acquire_ok: "ok s \<Longrightarrow> acquire k s = Some s' \<Longrightarrow> ok s'"
    and release_held: "ok s \<Longrightarrow> k \<in> held s \<Longrightarrow> held (release k s) = held s - {k}"
    and release_ok: "ok s \<Longrightarrow> k \<in> held s \<Longrightarrow> ok (release k s)"
begin

text \<open>A list of tickets, in the order they were handed out, that accounts for all locks held.\<close>

definition tracks :: "'s \<Rightarrow> 'k list \<Rightarrow> bool" where
  "tracks s ks \<longleftrightarrow> ok s \<and> distinct ks \<and> set ks = held s"

lemma tracks_acquire: "tracks s ks \<Longrightarrow> acquire k s = Some s' \<Longrightarrow> tracks s' (ks @ [k])"
  using acquire_fresh [of s k s'] acquire_held [of s k s'] acquire_ok [of s k s']
  by (auto simp: tracks_def)

lemma tracks_release: "tracks s (k # ks) \<Longrightarrow> tracks (release k s) ks"
  using release_held [of s k] release_ok [of s k] by (auto simp: tracks_def)

lemma tracks_distinct: "tracks s ks \<Longrightarrow> distinct ks"
  by (simp add: tracks_def)

lemma tracks_refused: "tracks s ks \<Longrightarrow> k \<in> set ks \<Longrightarrow> acquire k s = None"
  using acquire_fresh [of s k] by (cases "acquire k s") (auto simp: tracks_def)

end

section \<open>The table of buckets\<close>

definition table_ok :: "u32 list list \<Rightarrow> bool" where
  "table_ok arr \<longleftrightarrow> length arr = LOCK_BKT_NUM
     \<and> (\<forall>b < LOCK_BKT_NUM. \<exists>x. arr ! b = [x] \<and> (x = no_block \<or> bucket_of x = b))"

definition table_held :: "u32 list list \<Rightarrow> u32 set" where
  "table_held arr = {x. x \<noteq> no_block \<and> arr ! bucket_of x = [x]}"

definition table_acquire :: "u32 \<Rightarrow> u32 list list \<Rightarrow> u32 list list option" where
  "table_acquire idx arr =
     (let bkt = arr ! bucket_of idx; (conflict, free) = lock_scan idx bkt
      in if conflict = 1 \<or> free = 0xff then None
         else Some (arr[bucket_of idx := bkt[unat free := idx]]))"

definition table_release :: "u32 \<Rightarrow> u32 list list \<Rightarrow> u32 list list" where
  "table_release idx arr = arr[bucket_of idx := (arr ! bucket_of idx)[0 := no_block]]"

definition table_init :: "u32 list list" where
  "table_init = replicate LOCK_BKT_NUM (replicate LOCK_BKT_SIZE no_block)"

lemma bucket_less [simp]: "bucket_of idx < LOCK_BKT_NUM"
  using unsigned_less [where 'a = nat, of "get_range 7 0 idx :: u8"]
  by (simp add: bucket_of_def LOCK_BKT_NUM_def)

lemma table_init_ok: "table_ok table_init" "table_held table_init = {}"
  by (auto simp: table_ok_def table_held_def table_init_def LOCK_BKT_SIZE_def)

lemma lock_scan_single:
  "lock_scan idx [x] = (if idx = x then 1 else 0, if x = no_block then 0 else 0xff)"
  by (simp add: lock_scan_def LOCK_BKT_SIZE_def)

lemma bucket_single:
  assumes "table_ok arr" obtains x where "arr ! bucket_of idx = [x]" "x = no_block \<or> bucket_of x = bucket_of idx"
  using assms unfolding table_ok_def by (meson bucket_less)

lemma table_acquire_Some:
  assumes ok: "table_ok arr" and acq: "table_acquire idx arr = Some arr'"
  shows "arr ! bucket_of idx = [no_block]" "idx \<noteq> no_block" "arr' = arr[bucket_of idx := [idx]]"
proof -
  obtain x where "arr ! bucket_of idx = [x]" using bucket_single [OF ok] .
  with acq show "arr ! bucket_of idx = [no_block]" "idx \<noteq> no_block" "arr' = arr[bucket_of idx := [idx]]"
    by (auto simp: table_acquire_def lock_scan_single split: if_splits)
qed

lemma table_ok_update:
  "table_ok arr \<Longrightarrow> x = no_block \<or> bucket_of x = b \<Longrightarrow> table_ok (arr[b := [x]])"
  unfolding table_ok_def by (cases "b < length arr") (auto simp: nth_list_update)

lemma table_ok_bucket: "table_ok arr \<Longrightarrow> arr ! bucket_of idx = [x] \<Longrightarrow> x \<noteq> no_block \<Longrightarrow> bucket_of x = bucket_of idx"
  unfolding table_ok_def by (metis bucket_less list.inject)

lemma table_held_update:
  assumes "table_ok arr" "arr ! bucket_of idx = [x]"
  shows "table_held (arr[bucket_of idx := [y]]) =
           (table_held arr - {x}) \<union> (if y \<noteq> no_block \<and> bucket_of y = bucket_of idx then {y} else {})"
proof -
  have len: "length arr = LOCK_BKT_NUM" using assms by (simp add: table_ok_def)
  have "z \<in> table_held (arr[bucket_of idx := [y]]) \<longleftrightarrow>
          z \<in> (table_held arr - {x}) \<union> (if y \<noteq> no_block \<and> bucket_of y = bucket_of idx then {y} else {})" for z
  proof (cases "bucket_of z = bucket_of idx")
    case True
    then show ?thesis using assms len by (auto simp: table_held_def)
  next
    case False
    with table_ok_bucket [OF assms] show ?thesis by (auto simp: table_held_def)
  qed
  then show ?thesis by blast
qed

lemma table_release_single:
  assumes "table_ok arr" "idx \<in> table_held arr"
  shows "table_release idx arr = arr[bucket_of idx := [no_block]]" "arr ! bucket_of idx = [idx]"
  using assms by (auto simp: table_release_def table_held_def)

interpretation bucket_locks: ticket_lock table_ok table_held table_acquire table_release
proof unfold_locales
  fix s s' k
  assume ok: "table_ok s"
  {
    assume acq: "table_acquire k s = Some s'"
    note eq = table_acquire_Some [OF ok acq]
    show "k \<notin> table_held s" using eq by (auto simp: table_held_def)
    show "table_held s' = insert k (table_held s)"
      unfolding eq(3) table_held_update [OF ok eq(1)] using eq(2) by (auto simp: table_held_def)
    show "table_ok s'" unfolding eq(3) by (rule table_ok_update [OF ok]) simp
  }
  assume held: "k \<in> table_held s"
  note eq = table_release_single [OF ok held]
  show "table_held (table_release k s) = table_held s - {k}"
    unfolding eq(1) table_held_update [OF ok eq(2)] by simp
  show "table_ok (table_release k s)"
    unfolding eq(1) by (rule table_ok_update [OF ok]) simp
qed

section \<open>The module's operations on the table\<close>

abbreviation idx_of :: "ctrl_msg \<Rightarrow> u32" where "idx_of \<equiv> cm_dir_gblock_index"

lemma from_net_lock_table:
  "from_net_lock m s =
     (case table_acquire (idx_of m) (df_gb_index_arr (fn_regs s)) of
        None \<Rightarrow> s\<lparr>fn_regs := (fn_regs s)\<lparr>df_retry_flag := 1, df_retry_ctrl_msg := m\<rparr>\<rparr>
      | Some arr \<Rightarrow>
          s\<lparr>fn_regs := (fn_regs s)\<lparr>df_retry_flag := 0, df_gb_index_arr := arr\<rparr>,
            fn_r_out := fn_r_out s @
              [m\<lparr>cm_lock_position := snd (lock_scan (idx_of m) (df_gb_index_arr (fn_regs s) ! bucket_of (idx_of m)))\<rparr>],
            fn_cmd_out := fn_cmd_out s @ [\<lparr>dc_gblock_index = idx_of m\<rparr>]\<rparr>)"
  by (auto simp: from_net_lock_def table_acquire_def Let_def split: prod.splits)

lemma acquire_position:
  assumes "table_ok arr" "table_acquire idx arr = Some arr'"
  shows "snd (lock_scan idx (arr ! bucket_of idx)) = 0"
  using table_acquire_Some [OF assms] by (simp add: lock_scan_single)

lemma from_net_unlock_table:
  assumes "fn_ack_in s = a # as" "fn_w_in s = m # ms" "cm_lock_position m = 0"
  shows "from_net_unlock s =
     Some (s\<lparr>fn_regs := (fn_regs s)\<lparr>df_gb_index_arr := table_release (idx_of m) (df_gb_index_arr (fn_regs s))\<rparr>,
             fn_ack_in := as, fn_w_in := ms\<rparr>)"
  using assms by (simp add: from_net_unlock_def table_release_def Let_def LOCK_BKT_SIZE_def)

end
