(* ===== verification/Dir_Pipeline.thy ===== *)
theory Dir_Pipeline
  imports Dir_Lock Dir_Protocol
begin

text \<open>
  The directory as it is wired: the front half, the back half, the streams between them and the
  directory memory, each taking its steps in any order. Reads of the memory overtake writes, so
  the correctness of the whole rests on the lock table. The result is that the pipeline is
  linearizable: for each block it behaves as if its messages had been decided one at a time.
  The memory answers a command with the entry stored at the command's address; the beats that
  carry an entry are the round trip shown with the conversions.
\<close>

section \<open>The pipeline\<close>

text \<open>The address of a block's entry, as \<open>ddrInstHLS_ar\<close> and \<open>ddrInstHLS_aw_w\<close> compute it.\<close>

definition entry_addr :: "u32 \<Rightarrow> 34 word" where
  "entry_addr i = ucast i * 128"

text \<open>The last component is a ghost: the messages decided so far.\<close>

record dir_pipe =
  dp_front :: dir_from_net_regs
  dp_back :: dir_to_net_regs
  dp_net :: "ctrl_msg list"
  dp_cmd :: "dir_cmd list"
  dp_r :: "ctrl_msg list"
  dp_dd :: "dir_data_e list"
  dp_wr :: "dir_data_e list"
  dp_w :: "ctrl_msg list"
  dp_ack :: "dir_ack list"
  dp_out :: "ctrl_msg list"
  dp_mem :: "34 word \<Rightarrow> dir_data_e"
  dp_hist :: "ctrl_msg list"

definition front_cycle :: "dir_pipe \<Rightarrow> dir_pipe option" where
  "front_cycle p =
     (case dirCtrlHLS_from_net \<lparr>fn_regs = dp_front p, fn_msg_in = dp_net p, fn_ack_in = dp_ack p,
             fn_w_in = dp_w p, fn_cmd_out = dp_cmd p, fn_r_out = dp_r p\<rparr> of
        None \<Rightarrow> None
      | Some s \<Rightarrow> Some (p\<lparr>dp_front := fn_regs s, dp_net := fn_msg_in s, dp_ack := fn_ack_in s,
                          dp_w := fn_w_in s, dp_cmd := fn_cmd_out s, dp_r := fn_r_out s\<rparr>))"

definition decided :: "dir_pipe \<Rightarrow> ctrl_msg list" where
  "decided p = (if dt_copy_flag (dp_back p) = 0 \<and> dp_dd p \<noteq> [] then take 1 (dp_r p) else [])"

text \<open>After initialisation the stream of initial entries is empty.\<close>

definition back_cycle :: "ctrl_msg \<Rightarrow> dir_data_e \<Rightarrow> dir_pipe \<Rightarrow> dir_pipe option" where
  "back_cycle m0 e0 p =
     (case dirCtrlHLS_to_net m0 e0 \<lparr>tn_regs = dp_back p, tn_init_in = [], tn_r_in = dp_r p,
             tn_dd_in = dp_dd p, tn_cmc_out = dp_out p, tn_dd_out = dp_wr p, tn_w_out = dp_w p\<rparr> of
        None \<Rightarrow> None
      | Some s \<Rightarrow> Some (p\<lparr>dp_back := tn_regs s, dp_r := tn_r_in s, dp_dd := tn_dd_in s,
                          dp_out := tn_cmc_out s, dp_wr := tn_dd_out s, dp_w := tn_w_out s,
                          dp_hist := dp_hist p @ decided p\<rparr>))"

text \<open>Blocks whose entries have distinct addresses in the 34-bit memory.\<close>

definition blocks :: "u32 set" where
  "blocks = {i. unat i < 2 ^ 27}"

inductive pipe_step :: "dir_pipe \<Rightarrow> dir_pipe \<Rightarrow> bool" where
  net_in: "cm_dir_gblock_index m \<in> blocks \<Longrightarrow> pipe_step p (p\<lparr>dp_net := dp_net p @ [m]\<rparr>)"
| front_half: "front_cycle p = Some p' \<Longrightarrow> pipe_step p p'"
| back_half: "back_cycle m0 e0 p = Some p' \<Longrightarrow> pipe_step p p'"
| mem_read: "dp_cmd p = c # cs \<Longrightarrow>
    pipe_step p (p\<lparr>dp_cmd := cs, dp_dd := dp_dd p @ [dp_mem p (entry_addr (dc_gblock_index c))]\<rparr>)"
| mem_write: "dp_wr p = d # ds \<Longrightarrow>
    pipe_step p (p\<lparr>dp_wr := ds, dp_mem := (dp_mem p)(entry_addr (de_gblock_index d) := d),
                   dp_ack := dp_ack p @ [a]\<rparr>)"
| send: "dp_out p = m # ms \<Longrightarrow> pipe_step p (p\<lparr>dp_out := ms\<rparr>)"

inductive_cases pipe_stepE: "pipe_step p p'"

definition pipe_init :: "(34 word \<Rightarrow> dir_data_e) \<Rightarrow> dir_pipe \<Rightarrow> bool" where
  "pipe_init mem p \<longleftrightarrow>
     df_init_flag (dp_front p) = 1 \<and> df_retry_flag (dp_front p) = 0 \<and> dt_copy_flag (dp_back p) = 0
     \<and> dp_net p = [] \<and> dp_cmd p = [] \<and> dp_r p = [] \<and> dp_dd p = [] \<and> dp_wr p = [] \<and> dp_w p = []
     \<and> dp_ack p = [] \<and> dp_out p = [] \<and> dp_hist p = [] \<and> dp_mem p = mem
     \<and> (\<forall>i \<in> blocks. de_gblock_index (mem (entry_addr i)) = i)"

inductive pipe_reach :: "(34 word \<Rightarrow> dir_data_e) \<Rightarrow> dir_pipe \<Rightarrow> bool" for mem where
  start: "pipe_init mem p \<Longrightarrow> pipe_reach mem p"
| step: "pipe_reach mem p \<Longrightarrow> pipe_step p p' \<Longrightarrow> pipe_reach mem p'"

lemma unat_ucast_34: "unat (ucast (i :: u32) :: 34 word) = unat i"
  using unsigned_less [where 'a = nat, of i] by (simp add: unsigned_ucast_eq take_bit_nat_eq_self_iff)

lemma entry_addr_inj: "i \<in> blocks \<Longrightarrow> j \<in> blocks \<Longrightarrow> entry_addr i = entry_addr j \<longleftrightarrow> i = j"
proof -
  assume "i \<in> blocks" "j \<in> blocks"
  then have "unat (entry_addr i) = unat i * 128" "unat (entry_addr j) = unat j * 128"
    by (auto simp: entry_addr_def blocks_def unat_word_ariths unat_ucast_34)
  then show ?thesis by (metis mult_right_cancel word_unat_eq_iff zero_neq_numeral)
qed

section \<open>What the back half leaves unchanged\<close>

definition keeps :: "ctrl_msg \<Rightarrow> dir_data_e \<Rightarrow> dir_res \<Rightarrow> bool" where
  "keeps m e res \<longleftrightarrow> de_gblock_index (dr_entry res) = de_gblock_index e
     \<and> cm_dir_gblock_index (dr_msg res) = cm_dir_gblock_index m
     \<and> cm_lock_position (dr_msg res) = cm_lock_position m"

lemma keeps_simps [simp]:
  "keeps m e (reply t m e') \<longleftrightarrow> de_gblock_index e' = de_gblock_index e"
  "keeps m e (forward t n m e') \<longleftrightarrow> de_gblock_index e' = de_gblock_index e"
  "keeps m e (silent m e') \<longleftrightarrow> de_gblock_index e' = de_gblock_index e"
  "keeps m e (res\<lparr>dr_copy := c\<rparr>) \<longleftrightarrow> keeps m e res"
  "de_gblock_index (set_bit_req m b e) = de_gblock_index e"
  "de_gblock_index (set_addr_req m e) = de_gblock_index e"
  by (simp_all add: keeps_def reply_def forward_def silent_def to_req_def to_agent_def
      set_bit_req_def set_addr_req_def)

lemma bm_write_keeps: "bm_write n v e = Some e' \<Longrightarrow> de_gblock_index e' = de_gblock_index e"
  by (auto simp: bm_write_def split: if_splits)

lemmas keeps_splits = option.splits if_splits bind_splits RawState.splits

lemma request_keeps:
  "dir_read_miss m e g = Some res \<Longrightarrow> keeps m e res"
  "dir_write_miss m e g = Some res \<Longrightarrow> keeps m e res"
  "dir_write_shared m e = Some res \<Longrightarrow> keeps m e res"
  "dir_evict_shared m e = Some res \<Longrightarrow> keeps m e res"
  "dir_evict_dirty m e = Some res \<Longrightarrow> keeps m e res"
  by (auto simp: dir_read_miss_def dir_write_miss_def dir_write_shared_def dir_evict_shared_def
      dir_evict_dirty_def split: keeps_splits)

lemma ack_keeps:
  "dir_read_miss_dirty_ack m e = Some res \<Longrightarrow> keeps m e res"
  "dir_write_miss_dirty_ack m e = Some res \<Longrightarrow> keeps m e res"
  "dir_write_miss_shared_ack m e = Some res \<Longrightarrow> keeps m e res"
  "dir_write_shared_notonly_ack m e = Some res \<Longrightarrow> keeps m e res"
  by (auto simp: dir_read_miss_dirty_ack_def dir_write_miss_dirty_ack_def
      dir_write_miss_shared_ack_def dir_write_shared_notonly_ack_def
      dest!: bm_write_keeps split: keeps_splits)

lemma handle_keeps:
  assumes "dir_handle m e = Some res"
  shows "de_gblock_index (dr_entry res) = de_gblock_index e"
    and "cm_dir_gblock_index (dr_msg res) = cm_dir_gblock_index m"
    and "cm_lock_position (dr_msg res) = cm_lock_position m"
proof -
  have "keeps (dir_annotate m e) e res"
    using assms unfolding dir_handle_def Let_def
    by (auto dest: request_keeps ack_keeps split: option.splits RawMessageType.splits)
  then show "de_gblock_index (dr_entry res) = de_gblock_index e"
    "cm_dir_gblock_index (dr_msg res) = cm_dir_gblock_index m"
    "cm_lock_position (dr_msg res) = cm_lock_position m"
    by (simp_all add: keeps_def)
qed

section \<open>The invariant of the pipeline\<close>

abbreviation in_flight :: "dir_pipe \<Rightarrow> ctrl_msg list" where
  "in_flight p \<equiv> dp_w p @ dp_r p"

text \<open>The current entry of a block: the one waiting to be written, or the one in memory.\<close>

definition current_entry :: "dir_pipe \<Rightarrow> u32 \<Rightarrow> dir_data_e" where
  "current_entry p i =
     (case find (\<lambda>d. de_gblock_index d = i) (dp_wr p) of
        Some d \<Rightarrow> d | None \<Rightarrow> dp_mem p (entry_addr i))"

lemma current_entry_updates [simp]:
  "current_entry (p\<lparr>dp_front := x1\<rparr>) = current_entry p"
  "current_entry (p\<lparr>dp_back := x2\<rparr>) = current_entry p"
  "current_entry (p\<lparr>dp_net := x3\<rparr>) = current_entry p"
  "current_entry (p\<lparr>dp_cmd := x4\<rparr>) = current_entry p"
  "current_entry (p\<lparr>dp_r := x5\<rparr>) = current_entry p"
  "current_entry (p\<lparr>dp_dd := x6\<rparr>) = current_entry p"
  "current_entry (p\<lparr>dp_w := x7\<rparr>) = current_entry p"
  "current_entry (p\<lparr>dp_ack := x8\<rparr>) = current_entry p"
  "current_entry (p\<lparr>dp_out := x5\<rparr>) = current_entry p"
  "current_entry (p\<lparr>dp_hist := x5\<rparr>) = current_entry p"
  by (simp_all add: current_entry_def fun_eq_iff cong: option.case_cong)

definition lock_inv :: "dir_pipe \<Rightarrow> bool" where
  "lock_inv p \<longleftrightarrow>
     (if df_init_flag (dp_front p) = 0
      then bucket_locks.tracks (df_gb_index_arr (dp_front p)) (map idx_of (in_flight p))
      else in_flight p = [])
     \<and> (\<forall>m \<in> set (in_flight p). cm_lock_position m = 0)"

definition stream_inv :: "dir_pipe \<Rightarrow> bool" where
  "stream_inv p \<longleftrightarrow>
     map de_gblock_index (dp_dd p) @ map dc_gblock_index (dp_cmd p) = map idx_of (dp_r p)
     \<and> length (dp_ack p) \<le> length (dp_w p)
     \<and> map de_gblock_index (dp_wr p) = map idx_of (drop (length (dp_ack p)) (dp_w p))
     \<and> (\<forall>m \<in> set (dp_net p @ in_flight p). idx_of m \<in> blocks)
     \<and> (df_retry_flag (dp_front p) = 1 \<longrightarrow> idx_of (df_retry_ctrl_msg (dp_front p)) \<in> blocks)"

definition data_inv :: "(34 word \<Rightarrow> dir_data_e) \<Rightarrow> dir_pipe \<Rightarrow> bool" where
  "data_inv mem p \<longleftrightarrow>
     (\<forall>i \<in> blocks. de_gblock_index (dp_mem p (entry_addr i)) = i)
     \<and> (\<forall>e \<in> set (dp_dd p). dp_mem p (entry_addr (de_gblock_index e)) = e)
     \<and> (\<forall>i \<in> blocks. dir_run (mem (entry_addr i)) (filter (\<lambda>m. idx_of m = i) (dp_hist p))
                          = Some (current_entry p i))"

definition pipe_inv :: "(34 word \<Rightarrow> dir_data_e) \<Rightarrow> dir_pipe \<Rightarrow> bool" where
  "pipe_inv mem p \<longleftrightarrow> lock_inv p \<and> stream_inv p \<and> data_inv mem p"

lemmas pipe_inv_defs = pipe_inv_def lock_inv_def stream_inv_def data_inv_def

lemma lock_inv_distinct: "lock_inv p \<Longrightarrow> distinct (map idx_of (in_flight p))"
  by (simp add: lock_inv_def bucket_locks.tracks_def split: if_splits)

lemma tracks_table_ok: "bucket_locks.tracks arr ks \<Longrightarrow> table_ok arr"
  by (simp add: bucket_locks.tracks_def)

text \<open>What a cycle of the front half can do to the streams.\<close>

lemma lock_effect:
  assumes ok: "table_ok (df_gb_index_arr (fn_regs s))" and s': "from_net_lock m s = s'"
  obtains (refused) "s' = s\<lparr>fn_regs := (fn_regs s)\<lparr>df_retry_flag := 1, df_retry_ctrl_msg := m\<rparr>\<rparr>"
  | (admitted) arr m' where "table_acquire (idx_of m) (df_gb_index_arr (fn_regs s)) = Some arr"
      "idx_of m' = idx_of m" "cm_lock_position m' = 0"
      "s' = s\<lparr>fn_regs := (fn_regs s)\<lparr>df_retry_flag := 0, df_gb_index_arr := arr\<rparr>,
            fn_r_out := fn_r_out s @ [m'], fn_cmd_out := fn_cmd_out s @ [\<lparr>dc_gblock_index = idx_of m\<rparr>]\<rparr>"
proof (cases "table_acquire (idx_of m) (df_gb_index_arr (fn_regs s))")
  case None
  with s' show ?thesis by (intro refused) (simp add: from_net_lock_table)
next
  case (Some arr)
  have "cm_lock_position (m\<lparr>cm_lock_position :=
      snd (lock_scan (idx_of m) (df_gb_index_arr (fn_regs s) ! bucket_of (idx_of m)))\<rparr>) = 0"
    using acquire_position [OF ok Some] by simp
  with Some s' show ?thesis
    by (intro admitted [of arr "m\<lparr>cm_lock_position :=
      snd (lock_scan (idx_of m) (df_gb_index_arr (fn_regs s) ! bucket_of (idx_of m)))\<rparr>"])
      (simp_all add: from_net_lock_table)
qed

lemma lock_effect_inv:
  assumes inv: "pipe_inv mem p" and i: "df_init_flag (dp_front p) = 0" and b: "idx_of m \<in> blocks"
    and s: "s = from_net_lock m \<lparr>fn_regs = (dp_front p)\<lparr>df_source_flag := 1\<rparr>, fn_msg_in = ms, fn_ack_in = dp_ack p,
             fn_w_in = dp_w p, fn_cmd_out = dp_cmd p, fn_r_out = dp_r p\<rparr>"
    and ms: "set ms \<subseteq> set (dp_net p)"
  shows "pipe_inv mem (p\<lparr>dp_front := fn_regs s, dp_net := fn_msg_in s, dp_ack := fn_ack_in s,
                          dp_w := fn_w_in s, dp_cmd := fn_cmd_out s, dp_r := fn_r_out s\<rparr>)"
proof -
  have tr: "bucket_locks.tracks (df_gb_index_arr (dp_front p)) (map idx_of (in_flight p))"
    using inv i by (simp add: pipe_inv_defs)
  let ?s = "\<lparr>fn_regs = (dp_front p)\<lparr>df_source_flag := 1\<rparr>, fn_msg_in = ms, fn_ack_in = dp_ack p,
             fn_w_in = dp_w p, fn_cmd_out = dp_cmd p, fn_r_out = dp_r p\<rparr>"
  have "table_ok (df_gb_index_arr (fn_regs ?s))" using tracks_table_ok [OF tr] by simp
  then show ?thesis using s [symmetric]
  proof (cases rule: lock_effect)
    case refused
    with inv i b ms show ?thesis by (auto simp: pipe_inv_defs)
  next
    case (admitted arr m')
    then have "bucket_locks.tracks arr (map idx_of (in_flight p) @ [idx_of m])"
      using bucket_locks.tracks_acquire [OF tr] by simp
    with inv i b ms admitted(2,3) show ?thesis
      unfolding admitted(4) by (auto simp: pipe_inv_defs)
  qed
qed

lemma unlock_effect_inv:
  assumes inv: "pipe_inv mem p" and i: "df_init_flag (dp_front p) = 0"
    and s: "from_net_unlock \<lparr>fn_regs = (dp_front p)\<lparr>df_source_flag := 0\<rparr>, fn_msg_in = dp_net p,
              fn_ack_in = dp_ack p, fn_w_in = dp_w p, fn_cmd_out = dp_cmd p, fn_r_out = dp_r p\<rparr> = Some s"
  shows "pipe_inv mem (p\<lparr>dp_front := fn_regs s, dp_net := fn_msg_in s, dp_ack := fn_ack_in s,
                          dp_w := fn_w_in s, dp_cmd := fn_cmd_out s, dp_r := fn_r_out s\<rparr>)"
proof (cases "dp_ack p = [] \<or> dp_w p = []")
  case True
  with s inv i show ?thesis by (auto simp: from_net_unlock_def pipe_inv_defs split: list.splits)
next
  case False
  then obtain a as m ms where q: "dp_ack p = a # as" "dp_w p = m # ms" by (meson list.exhaust)
  with inv have "cm_lock_position m = 0" by (simp add: pipe_inv_defs)
  with s q have s': "s = \<lparr>fn_regs = (dp_front p)\<lparr>df_source_flag := 0, df_gb_index_arr :=
      table_release (idx_of m) (df_gb_index_arr (dp_front p))\<rparr>, fn_msg_in = dp_net p,
      fn_ack_in = as, fn_w_in = ms, fn_cmd_out = dp_cmd p, fn_r_out = dp_r p\<rparr>"
    by (simp add: from_net_unlock_table)
  from inv i q have "bucket_locks.tracks (df_gb_index_arr (dp_front p)) (idx_of m # map idx_of (ms @ dp_r p))"
    by (simp add: pipe_inv_defs)
  from bucket_locks.tracks_release [OF this] inv i q show ?thesis
    unfolding s' by (auto simp: pipe_inv_defs)
qed

lemma front_inv:
  assumes inv: "pipe_inv mem p" and c: "front_cycle p = Some p'"
  shows "pipe_inv mem p'"
proof -
  consider (init) "df_init_flag (dp_front p) \<noteq> 0"
    | (unlock) "df_init_flag (dp_front p) = 0" "df_source_flag (dp_front p) \<noteq> 0"
    | (retry) "df_init_flag (dp_front p) = 0" "df_source_flag (dp_front p) = 0" "df_retry_flag (dp_front p) = 1"
    | (idle) "df_init_flag (dp_front p) = 0" "df_source_flag (dp_front p) = 0" "df_retry_flag (dp_front p) \<noteq> 1"
        "dp_net p = []"
    | (recv) m ms where "df_init_flag (dp_front p) = 0" "df_source_flag (dp_front p) = 0" "df_retry_flag (dp_front p) \<noteq> 1"
        "dp_net p = m # ms"
    by (metis list.exhaust)
  then show ?thesis
  proof cases
    case init
    with inv c show ?thesis
      using table_init_ok
      by (auto simp: front_cycle_def dirCtrlHLS_from_net_def pipe_inv_defs bucket_locks.tracks_def
          table_init_def [symmetric])
  next
    case unlock
    with c unlock_effect_inv [OF inv] show ?thesis
      by (auto simp: front_cycle_def dirCtrlHLS_from_net_def split: option.splits)
  next
    case retry
    with inv have "idx_of (df_retry_ctrl_msg (dp_front p)) \<in> blocks" by (simp add: pipe_inv_defs)
    from lock_effect_inv [OF inv _ this refl order_refl] retry c show ?thesis
      by (auto simp: front_cycle_def dirCtrlHLS_from_net_def Let_def)
  next
    case idle
    with inv c show ?thesis
      by (auto simp: front_cycle_def dirCtrlHLS_from_net_def pipe_inv_defs)
  next
    case (recv m ms)
    with inv have "idx_of m \<in> blocks" "set ms \<subseteq> set (dp_net p)" by (auto simp: pipe_inv_defs)
    from lock_effect_inv [OF inv _ this(1) refl this(2)] recv c show ?thesis
      by (auto simp: front_cycle_def dirCtrlHLS_from_net_def Let_def)
  qed
qed

text \<open>The back half takes a message whose block has no write outstanding, so the entry it is given
  is the current one.\<close>

lemma back_cases:
  assumes "back_cycle m0 e0 p = Some p'"
  obtains (busy) r out where "dt_copy_flag (dp_back p) \<noteq> 0"
      "p' = p\<lparr>dp_back := r, dp_out := dp_out p @ out\<rparr>"
  | (idle) "dt_copy_flag (dp_back p) = 0" "dp_r p = [] \<or> dp_dd p = []" "p' = p"
  | (decides) m ms e es res r where "dp_r p = m # ms" "dp_dd p = e # es" "dir_handle m e = Some res"
      "p' = p\<lparr>dp_back := r, dp_r := ms, dp_dd := es, dp_out := dp_out p @ dr_out res,
              dp_wr := dp_wr p @ [dr_entry res], dp_w := dp_w p @ [dr_msg res],
              dp_hist := dp_hist p @ [m]\<rparr>"
proof (cases "dt_copy_flag (dp_back p) = 0")
  case False
  with assms show ?thesis
    by (intro busy [where r = "fst (copy_step (dp_back p))" and out = "snd (copy_step (dp_back p))"])
      (auto simp: back_cycle_def dirCtrlHLS_to_net_def decided_def split: prod.splits)
next
  case True
  show ?thesis
  proof (cases "dp_r p = [] \<or> dp_dd p = []")
    case empty: True
    with assms True show ?thesis
      by (intro idle) (auto simp: back_cycle_def dirCtrlHLS_to_net_def decided_def split: list.splits)
  next
    case False
    then obtain m ms e es where q: "dp_r p = m # ms" "dp_dd p = e # es" by (meson list.exhaust)
    with assms True obtain res where res: "dir_handle m e = Some res"
      by (auto simp: back_cycle_def dirCtrlHLS_to_net_def split: bind_splits)
    with assms True q show ?thesis
      by (intro decides) (auto simp: back_cycle_def dirCtrlHLS_to_net_def decided_def)
  qed
qed

lemma dir_run_append:
  "dir_run e (ms @ [m]) =
     (case dir_run e ms of None \<Rightarrow> None
      | Some e' \<Rightarrow> (case dir_handle m e' of None \<Rightarrow> None | Some res \<Rightarrow> Some (dr_entry res)))"
  by (induction ms arbitrary: e) (auto split: option.splits)

lemma find_None_map: "find (\<lambda>d. f d = i) xs = None \<longleftrightarrow> i \<notin> set (map f xs)"
  by (auto simp: find_None_iff)

lemma find_append: "find P (xs @ [y]) = (case find P xs of Some x \<Rightarrow> Some x | None \<Rightarrow> if P y then Some y else None)"
  by (induction xs) auto

lemma no_write_outstanding:
  assumes "pipe_inv mem p" "m \<in> set (dp_r p)"
  shows "find (\<lambda>d. de_gblock_index d = idx_of m) (dp_wr p) = None"
proof -
  from assms have "idx_of m \<notin> set (map idx_of (dp_w p))"
    using lock_inv_distinct [of p] by (auto simp: pipe_inv_def)
  moreover have "set (map de_gblock_index (dp_wr p)) \<subseteq> set (map idx_of (dp_w p))"
    using assms by (auto simp: pipe_inv_def stream_inv_def dest: in_set_dropD)
  ultimately show ?thesis unfolding find_None_map by blast
qed

lemma decide_data_inv:
  assumes inv: "pipe_inv mem p" and q: "dp_r p = m # ms" "dp_dd p = e # es"
    and res: "dir_handle m e = Some res"
    and p': "p' = p\<lparr>dp_back := r, dp_r := ms, dp_dd := es, dp_out := dp_out p @ dr_out res,
              dp_wr := dp_wr p @ [dr_entry res], dp_w := dp_w p @ [dr_msg res],
              dp_hist := dp_hist p @ [m]\<rparr>"
  shows "data_inv mem p'"
proof -
  have ei: "de_gblock_index e = idx_of m" using inv q by (simp add: pipe_inv_defs)
  have none: "find (\<lambda>d. de_gblock_index d = idx_of m) (dp_wr p) = None"
    using no_write_outstanding [OF inv] q by simp
  have cur_m: "current_entry p (idx_of m) = e"
    using inv q ei none by (auto simp: current_entry_def pipe_inv_defs)
  have cur': "current_entry p' i = (if i = idx_of m then dr_entry res else current_entry p i)" for i
    using none handle_keeps(1) [OF res] ei
    by (auto simp: current_entry_def p' find_append split: option.splits)
  have same: "dp_hist p' = dp_hist p @ [m]" "dp_mem p' = dp_mem p" "set (dp_dd p') \<subseteq> set (dp_dd p)"
    using q by (auto simp: p')
  have "dir_run (mem (entry_addr i)) (filter (\<lambda>m. idx_of m = i) (dp_hist p')) = Some (current_entry p' i)"
    if "i \<in> blocks" for i
    using inv that cur_m res by (auto simp: pipe_inv_defs same cur' dir_run_append)
  with inv same show ?thesis by (auto simp: pipe_inv_def data_inv_def)
qed

lemma back_inv:
  assumes inv: "pipe_inv mem p" and c: "back_cycle m0 e0 p = Some p'"
  shows "pipe_inv mem p'"
  using c
proof (cases rule: back_cases)
  case (decides m ms e es res r)
  have "lock_inv p'" "stream_inv p'"
    using inv decides handle_keeps [OF decides(3)] by (auto simp: pipe_inv_defs split: if_splits)
  with decide_data_inv [OF inv decides] show ?thesis by (simp add: pipe_inv_def)
qed (use inv in \<open>auto simp: pipe_inv_defs split: if_splits\<close>)

lemma mem_read_inv:
  assumes inv: "pipe_inv mem p" and q: "dp_cmd p = c # cs"
  shows "pipe_inv mem (p\<lparr>dp_cmd := cs, dp_dd := dp_dd p @ [dp_mem p (entry_addr (dc_gblock_index c))]\<rparr>)"
proof -
  have "map de_gblock_index (dp_dd p) @ dc_gblock_index c # map dc_gblock_index cs = map idx_of (dp_r p)"
    using inv q by (simp add: pipe_inv_defs)
  then have "dc_gblock_index c \<in> set (map idx_of (dp_r p))"
    by (metis in_set_conv_decomp)
  then have "dc_gblock_index c \<in> blocks"
    using inv by (auto simp: pipe_inv_def stream_inv_def)
  with inv q show ?thesis by (auto simp: pipe_inv_defs)
qed

text \<open>The entry being written belongs to no entry read but not yet decided: the two would be in
  flight at once.\<close>

lemma write_not_read:
  assumes inv: "pipe_inv mem p" and q: "dp_wr p = d # ds"
  shows "de_gblock_index d \<in> blocks" "de_gblock_index d \<notin> set (map de_gblock_index ds)"
    "de_gblock_index d \<notin> set (map de_gblock_index (dp_dd p))"
    "set (map de_gblock_index (dp_dd p)) \<subseteq> blocks"
proof -
  have w: "map de_gblock_index (d # ds) = map idx_of (drop (length (dp_ack p)) (dp_w p))"
    using inv q by (simp add: pipe_inv_def stream_inv_def)
  have dist: "distinct (map idx_of (dp_w p))" "set (map idx_of (dp_w p)) \<inter> set (map idx_of (dp_r p)) = {}"
    using inv lock_inv_distinct [of p] by (auto simp: pipe_inv_def)
  have rd: "set (map de_gblock_index (dp_dd p)) \<subseteq> set (map idx_of (dp_r p))"
    using inv unfolding pipe_inv_def stream_inv_def by (metis set_append Un_upper1)
  have "distinct (map de_gblock_index (d # ds))"
    unfolding w using dist(1) by (metis distinct_drop drop_map)
  then show "de_gblock_index d \<notin> set (map de_gblock_index ds)" by simp
  have "set (map de_gblock_index (d # ds)) \<subseteq> set (map idx_of (dp_w p))"
    unfolding w by (auto dest: in_set_dropD)
  then have in_w: "de_gblock_index d \<in> set (map idx_of (dp_w p))" by simp
  with dist(2) rd show "de_gblock_index d \<notin> set (map de_gblock_index (dp_dd p))" by blast
  have "set (map idx_of (in_flight p)) \<subseteq> blocks"
    using inv by (auto simp: pipe_inv_def stream_inv_def)
  with in_w rd show "de_gblock_index d \<in> blocks" "set (map de_gblock_index (dp_dd p)) \<subseteq> blocks"
    by auto
qed

lemma mem_write_inv:
  assumes inv: "pipe_inv mem p" and q: "dp_wr p = d # ds"
    and p': "p' = p\<lparr>dp_wr := ds, dp_mem := (dp_mem p)(entry_addr (de_gblock_index d) := d),
                   dp_ack := dp_ack p @ [a]\<rparr>"
  shows "pipe_inv mem p'"
proof -
  note w = write_not_read [OF inv q]
  have st: "map de_gblock_index (d # ds) = map idx_of (drop (length (dp_ack p)) (dp_w p))"
    using inv q by (simp add: pipe_inv_def stream_inv_def)
  then have len: "length (dp_ack p) < length (dp_w p)"
    by (cases "length (dp_ack p) < length (dp_w p)") auto
  from st have "map de_gblock_index ds = map idx_of (drop (Suc (length (dp_ack p))) (dp_w p))"
    by (metis drop_Suc drop_drop list.sel(3) list.simps(9) map_tl plus_1_eq_Suc drop_eq_Nil tl_drop)
  with inv len have "lock_inv p'" "stream_inv p'"
    by (auto simp: p' pipe_inv_defs)
  moreover have cur: "current_entry p' i = current_entry p i" if "i \<in> blocks" for i
  proof (cases "i = de_gblock_index d")
    case True
    with w(2) have "find (\<lambda>d. de_gblock_index d = i) ds = None" by (simp add: find_None_map)
    with True q show ?thesis by (simp add: current_entry_def p')
  next
    case False
    with that w(1) q entry_addr_inj [of i "de_gblock_index d"] show ?thesis
      by (auto simp: current_entry_def p' split: option.splits)
  qed
  have "entry_addr (de_gblock_index e) \<noteq> entry_addr (de_gblock_index d)" if "e \<in> set (dp_dd p)" for e
  proof -
    have "de_gblock_index e \<in> set (map de_gblock_index (dp_dd p))" using that by simp
    then have "de_gblock_index e \<in> blocks" "de_gblock_index e \<noteq> de_gblock_index d"
      using w(3,4) by (metis subsetD)+
    with w(1) show ?thesis using entry_addr_inj by blast
  qed
  with inv w(1) cur have "data_inv mem p'"
    unfolding pipe_inv_def data_inv_def by (auto simp: p' entry_addr_inj)
  ultimately show ?thesis by (simp add: pipe_inv_def)
qed

lemma step_inv: "pipe_inv mem p \<Longrightarrow> pipe_step p p' \<Longrightarrow> pipe_inv mem p'"
proof (erule pipe_stepE)
  fix d ds a
  assume "pipe_inv mem p" "dp_wr p = d # ds"
    "p' = p\<lparr>dp_wr := ds, dp_mem := (dp_mem p)(entry_addr (de_gblock_index d) := d), dp_ack := dp_ack p @ [a]\<rparr>"
  then show ?thesis by (rule mem_write_inv)
qed (auto simp: mem_read_inv intro: front_inv back_inv, (auto simp: pipe_inv_defs)+)

lemma init_inv: "pipe_init mem p \<Longrightarrow> pipe_inv mem p"
  by (auto simp: pipe_init_def pipe_inv_defs current_entry_def)

lemma reach_inv: "pipe_reach mem p \<Longrightarrow> pipe_inv mem p"
  by (induction rule: pipe_reach.induct) (auto intro: init_inv step_inv)

section \<open>Properties\<close>

text \<open>A run in which one read miss is received, locked, looked up and decided.\<close>

definition sample_mem :: "34 word \<Rightarrow> dir_data_e" where
  "sample_mem a = blank_dir_data_e\<lparr>de_gblock_index := ucast (a div 128)\<rparr>"

definition sample_pipe :: dir_pipe where
  "sample_pipe =
     \<lparr>dp_front = \<lparr>df_init_flag = 1, df_retry_flag = 0, df_retry_ctrl_msg = blank_ctrl_msg,
                   df_gb_index_arr = [], df_source_flag = 0\<rparr>,
      dp_back = \<lparr>dt_copy_flag = 0, dt_ctrl_msg = blank_ctrl_msg, dt_dir_data = blank_dir_data_e\<rparr>,
      dp_net = [], dp_cmd = [], dp_r = [], dp_dd = [], dp_wr = [], dp_w = [], dp_ack = [],
      dp_out = [], dp_mem = sample_mem, dp_hist = []\<rparr>"

lemma sample_mem_index: "i \<in> blocks \<Longrightarrow> de_gblock_index (sample_mem (entry_addr i)) = i"
proof -
  assume "i \<in> blocks"
  then have "unat (entry_addr i div 128) = unat i"
    by (simp add: entry_addr_def blocks_def unat_div unat_word_ariths unat_ucast_34)
  then have "unat (ucast (entry_addr i div 128) :: u32) = unat i"
    using unsigned_less [where 'a = nat, of i] by (simp add: unsigned_ucast_eq take_bit_nat_eq_self_iff)
  then show ?thesis by (simp add: sample_mem_def word_unat_eq_iff)
qed

lemma sample_reach:
  "\<exists>p. pipe_reach sample_mem p \<and> dp_hist p = [sample_msg R_READ_MISS 2 0]"
proof -
  let ?m = "sample_msg R_READ_MISS 2 0"
  have b: "idx_of ?m \<in> blocks" by (simp add: sample_msg_def blank_ctrl_msg_def blocks_def)
  have "pipe_init sample_mem sample_pipe"
    by (simp add: pipe_init_def sample_pipe_def sample_mem_index)
  then have "pipe_reach sample_mem sample_pipe" by (rule pipe_reach.start)
  from pipe_reach.step [OF this pipe_step.net_in [OF b]]
  have r1: "pipe_reach sample_mem (sample_pipe\<lparr>dp_net := [?m]\<rparr>)" by (simp add: sample_pipe_def)
  let ?p2 = "sample_pipe\<lparr>dp_net := [?m], dp_front := (dp_front sample_pipe)
      \<lparr>df_gb_index_arr := table_init, df_init_flag := 0\<rparr>\<rparr>"
  have "front_cycle (sample_pipe\<lparr>dp_net := [?m]\<rparr>) = Some ?p2"
    by (simp add: front_cycle_def dirCtrlHLS_from_net_def sample_pipe_def table_init_def)
  from pipe_reach.step [OF r1 pipe_step.front_half [OF this]] have r2: "pipe_reach sample_mem ?p2" .
  let ?p3 = "sample_pipe\<lparr>dp_net := [], dp_cmd := [\<lparr>dc_gblock_index = 0\<rparr>], dp_r := [?m],
      dp_front := (dp_front sample_pipe)\<lparr>df_gb_index_arr := table_init[0 := [0]], df_init_flag := 0,
        df_source_flag := 1\<rparr>\<rparr>"
  have acq: "table_acquire 0 table_init = Some (table_init[0 := [0]])"
    "lock_scan 0 (table_init ! bucket_of 0) = (0, 0)"
    by (simp_all add: table_acquire_def table_init_def LOCK_BKT_SIZE_def LOCK_BKT_NUM_def lock_scan_def
        bucket_of_def get_range_def)
  have "front_cycle ?p2 = Some ?p3"
    using acq by (simp add: front_cycle_def dirCtrlHLS_from_net_def sample_pipe_def from_net_lock_table
        sample_msg_def blank_ctrl_msg_def)
  from pipe_reach.step [OF r2 pipe_step.front_half [OF this]] have r3: "pipe_reach sample_mem ?p3" .
  let ?p4 = "?p3\<lparr>dp_cmd := [], dp_dd := [sample_mem (entry_addr 0)]\<rparr>"
  have r4: "pipe_reach sample_mem ?p4"
    using pipe_reach.step [OF r3 pipe_step.mem_read [of _ "\<lparr>dc_gblock_index = 0\<rparr>" "[]"]]
    by (simp add: sample_pipe_def)
  have "dir_handle ?m (sample_mem (entry_addr 0)) \<noteq> None"
    by (simp add: dir_handle_def dir_read_miss_def bm_read_def max_node_num_def dir_annotate_def Let_def
        split: option.splits)
  then obtain p5 where p5: "back_cycle blank_ctrl_msg blank_dir_data_e ?p4 = Some p5"
    by (auto simp: back_cycle_def dirCtrlHLS_to_net_def sample_pipe_def)
  then have "dp_hist p5 = [?m]"
    by (auto simp: back_cycle_def decided_def sample_pipe_def split: option.splits)
  with pipe_reach.step [OF r4 pipe_step.back_half [OF p5]] show ?thesis by blast
qed



text \<open>(C8) At most one message per block is between admission and write-back, whatever the
  interleaving, and no cycle of the front half goes out of the bounds of the lock table.\<close>

theorem one_message_per_block:
  assumes "pipe_reach mem p"
  shows "distinct (map cm_dir_gblock_index (dp_w p @ dp_r p)) \<and> front_cycle p \<noteq> None"
proof -
  have inv: "pipe_inv mem p" using assms by (rule reach_inv)
  then have "\<forall>m \<in> set (dp_w p). cm_lock_position m = 0" by (simp add: pipe_inv_defs)
  then have "front_cycle p \<noteq> None"
    by (auto simp: front_cycle_def dirCtrlHLS_from_net_def from_net_unlock_def Let_def LOCK_BKT_SIZE_def
        split: list.splits)
  with lock_inv_distinct inv show ?thesis by (simp add: pipe_inv_def)
qed

theorem one_message_per_block_witness:
  "\<exists>p. dp_hist p = [sample_msg R_READ_MISS 2 0]
     \<and> distinct (map cm_dir_gblock_index (dp_w p @ dp_r p)) \<and> front_cycle p \<noteq> None"
  using sample_reach one_message_per_block by blast

end
