(* ===== verification/Fabric.thy ===== *)
theory Fabric
  imports Messages "HOL-Library.Monad_Syntax"
begin

text \<open>
  The modules between the controllers and the network: the cache controller
  (\<open>cache/cacheCtrlHLS_*\<close>), the arbiter \<open>ctrlMsgCopy\<close>, the module \<open>dataMsgFetch\<close> that fetches the
  cache line a message carries, and the two ends of the network, \<open>parser\<close> and \<open>deparser\<close>. One
  call is one cycle; a local variable the source does not initialise is an argument.
\<close>

definition THREAD_TYPE_APP :: u8 where "THREAD_TYPE_APP = 0"
definition THREAD_TYPE_SYS :: u8 where "THREAD_TYPE_SYS = 1"
definition PSEUDO_QID_D :: "11 word" where "PSEUDO_QID_D = 2"
definition PSEUDO_QID_DMF :: "11 word" where "PSEUDO_QID_DMF = 2"

section \<open>Cache controller\<close>

record cache_from_net =
  cf_copy_flag :: u8
  cf_ctrl_msg :: ctrl_msg
  cf_D_in :: "ctrl_msg list"
  cf_CMD_out :: "ctrl_msg list"
  cf_CC_out :: "ctrl_msg list"

definition to_sys :: "ctrl_msg \<Rightarrow> ctrl_msg" where
  "to_sys m = m\<lparr>cm_dst_thread_type := THREAD_TYPE_SYS\<rparr>"

definition to_app :: "ctrl_msg \<Rightarrow> ctrl_msg" where
  "to_app m = m\<lparr>cm_dst_thread_type := THREAD_TYPE_APP\<rparr>"

definition ack_dir :: "RawMessageType \<Rightarrow> ctrl_msg \<Rightarrow> ctrl_msg" where
  "ack_dir t m = m\<lparr>cm_mtype := mtype_code t, cm_dst_node_id := cm_dir_gblock_nodeID m\<rparr>"

definition ack_req :: "RawMessageType \<Rightarrow> ctrl_msg \<Rightarrow> ctrl_msg" where
  "ack_req t m = m\<lparr>cm_mtype := mtype_code t, cm_dst_node_id := cm_req_cline_nodeID m\<rparr>"

definition cacheCtrlHLS_from_net :: "cache_from_net \<Rightarrow> cache_from_net" where
  "cacheCtrlHLS_from_net s =
     (if cf_copy_flag s = 0 then
        (case cf_D_in s of
           [] \<Rightarrow> s
         | m # ms \<Rightarrow>
             (let s = s\<lparr>cf_D_in := ms\<rparr> in
              case mtype_of (cm_mtype m) of
                Some DIR_2_AGENT_WRITE_SHARED_NOTONLY \<Rightarrow>
                  s\<lparr>cf_CMD_out := cf_CMD_out s @ [to_sys m],
                    cf_CC_out := cf_CC_out s @ [ack_dir AGENT_2_DIR_WRITE_SHARED_NOTONLY_ACK (to_sys m)]\<rparr>
              | Some DIR_2_AGENT_WRITE_MISS_SHARED \<Rightarrow>
                  s\<lparr>cf_CMD_out := cf_CMD_out s @ [to_sys m],
                    cf_CC_out := cf_CC_out s @ [ack_dir AGENT_2_DIR_WRITE_MISS_SHARED_ACK (to_sys m)]\<rparr>
              | Some DIR_2_AGENT_READ_MISS_DIRTY \<Rightarrow>
                  s\<lparr>cf_CMD_out := cf_CMD_out s @ [to_sys m],
                    cf_ctrl_msg := to_sys m, cf_copy_flag := 1,
                    cf_CC_out := cf_CC_out s @ [ack_req AGENT_2_APP_READ_MISS_DIRTY_ACKDATA (to_sys m)]\<rparr>
              | Some DIR_2_AGENT_WRITE_MISS_DIRTY \<Rightarrow>
                  s\<lparr>cf_CMD_out := cf_CMD_out s @ [to_sys m],
                    cf_ctrl_msg := to_sys m, cf_copy_flag := 1,
                    cf_CC_out := cf_CC_out s @ [ack_req AGENT_2_APP_WRITE_MISS_DIRTY_ACKDATA (to_sys m)]\<rparr>
              | _ \<Rightarrow> s\<lparr>cf_CMD_out := cf_CMD_out s @ [to_app m]\<rparr>))
      else
        (case mtype_of (cm_mtype (cf_ctrl_msg s)) of
           Some DIR_2_AGENT_READ_MISS_DIRTY \<Rightarrow>
             s\<lparr>cf_CC_out := cf_CC_out s @ [ack_dir AGENT_2_DIR_READ_MISS_DIRTY_ACKDATA (cf_ctrl_msg s)],
               cf_copy_flag := 0\<rparr>
         | Some DIR_2_AGENT_WRITE_MISS_DIRTY \<Rightarrow>
             s\<lparr>cf_CC_out := cf_CC_out s @ [ack_dir AGENT_2_DIR_WRITE_MISS_DIRTY_ACK (cf_ctrl_msg s)],
               cf_copy_flag := 0\<rparr>
         | _ \<Rightarrow> s))"

record cache_to_net =
  ct_CMD_in :: "ctrl_msg list"
  ct_CC_in :: "ctrl_msg list"
  ct_CMC_out :: "ctrl_msg list"

definition cacheCtrlHLS_to_net :: "cache_to_net \<Rightarrow> cache_to_net" where
  "cacheCtrlHLS_to_net s =
     (case ct_CC_in s of
        m # ms \<Rightarrow> s\<lparr>ct_CC_in := ms, ct_CMC_out := ct_CMC_out s @ [m]\<rparr>
      | [] \<Rightarrow>
          (case ct_CMD_in s of
             m # ms \<Rightarrow> s\<lparr>ct_CMD_in := ms,
               ct_CMC_out := ct_CMC_out s @ [m\<lparr>cm_dst_node_id := cm_dir_gblock_nodeID m\<rparr>]\<rparr>
           | [] \<Rightarrow> s))"

section \<open>Arbiter\<close>

record msg_copy =
  mc_flag :: u1
  mc_CC_in :: "ctrl_msg list"
  mc_DC_in :: "ctrl_msg list"
  mc_DMF_out :: "ctrl_msg list"

definition ctrlMsgCopy :: "msg_copy \<Rightarrow> msg_copy" where
  "ctrlMsgCopy s =
     (case (mc_CC_in s, mc_DC_in s) of
        (m # ms, []) \<Rightarrow> s\<lparr>mc_CC_in := ms, mc_DMF_out := mc_DMF_out s @ [m], mc_flag := 0\<rparr>
      | ([], m # ms) \<Rightarrow> s\<lparr>mc_DC_in := ms, mc_DMF_out := mc_DMF_out s @ [m], mc_flag := 1\<rparr>
      | (c # cs, d # ds) \<Rightarrow>
          if mc_flag s = 1
          then s\<lparr>mc_CC_in := cs, mc_DMF_out := mc_DMF_out s @ [c], mc_flag := 0\<rparr>
          else s\<lparr>mc_DC_in := ds, mc_DMF_out := mc_DMF_out s @ [d], mc_flag := 1\<rparr>
      | ([], []) \<Rightarrow> s)"

section \<open>Fetching the data of a message\<close>

record data_fetch =
  df_end_flag :: u1
  df_CD_out :: "h2c_cmd list"
  df_DD_in :: "h2c_data list"
  df_CMC_in :: "ctrl_msg list"
  df_P_ctrl_out :: "ctrl_msg list"
  df_P_data_out :: "data_msg list"
  df_DMF :: "ctrl_msg list"

definition fetch_cmd :: "u64 \<Rightarrow> h2c_cmd" where
  "fetch_cmd a = \<lparr>hc_addr = a, hc_len = of_nat DSM_CACHE_LINE_SIZE, hc_qid = PSEUDO_QID_DMF\<rparr>"

text \<open>The address of the line a message carries, if it carries one.\<close>

definition line_addr :: "ctrl_msg \<Rightarrow> u64 option" where
  "line_addr m =
     (case mtype_of (cm_mtype m) of
        Some AGENT_2_DIR_READ_MISS_DIRTY_ACKDATA \<Rightarrow> Some (cm_agent_cline_addr m)
      | Some AGENT_2_APP_READ_MISS_DIRTY_ACKDATA \<Rightarrow> Some (cm_agent_cline_addr m)
      | Some AGENT_2_APP_WRITE_MISS_DIRTY_ACKDATA \<Rightarrow> Some (cm_agent_cline_addr m)
      | Some DIR_2_APP_READ_MISS_ACKDATA \<Rightarrow> Some (cm_dir_gblock_addr m)
      | Some DIR_2_APP_WRITE_MISS_ACKDATA \<Rightarrow> Some (cm_dir_gblock_addr m)
      | Some DIR_2_APP_WRITE_MISS_SHAREDDATA \<Rightarrow> Some (cm_dir_gblock_addr m)
      | Some R_EVICT_DIRTY \<Rightarrow> Some (cm_req_cline_addr m)
      | _ \<Rightarrow> None)"

text \<open>The stream \<open>ctrl_msg_f_DMF_t_DMF\<close> leaves the module and comes back: it is one list.\<close>

definition dataMsgFetch :: "data_msg \<Rightarrow> data_fetch \<Rightarrow> data_fetch" where
  "dataMsgFetch d0 s =
     (if df_end_flag s = 0 then
        (case df_DD_in s of
           [] \<Rightarrow> s
         | h # hs \<Rightarrow>
             (let d = h2c_data_to_data_msg h d0
              in s\<lparr>df_DD_in := hs, df_P_data_out := df_P_data_out s @ [d],
                   df_end_flag := (if dm_last d = 1 then 1 else df_end_flag s)\<rparr>))
      else
        (case (df_DD_in s, df_DMF s) of
           (h # hs, m # ms) \<Rightarrow>
             (let d = h2c_data_to_data_msg h d0
              in s\<lparr>df_DD_in := hs, df_DMF := ms, df_P_ctrl_out := df_P_ctrl_out s @ [m],
                   df_P_data_out := df_P_data_out s @ [d],
                   df_end_flag := (if dm_last d = 0 then 0 else df_end_flag s)\<rparr>)
         | _ \<Rightarrow>
             (case df_CMC_in s of
                [] \<Rightarrow> s
              | m # ms \<Rightarrow>
                  (let s = s\<lparr>df_CMC_in := ms\<rparr> in
                   case line_addr m of
                     Some a \<Rightarrow>
                       s\<lparr>df_CD_out := df_CD_out s @ [fetch_cmd a],
                         df_DMF := df_DMF s @ [m\<lparr>cm_data_msg_length := of_nat DSM_CACHE_LINE_SIZE\<rparr>]\<rparr>
                   | None \<Rightarrow>
                       s\<lparr>df_P_ctrl_out := df_P_ctrl_out s @ [m\<lparr>cm_data_msg_length := 0\<rparr>]\<rparr>))))"

section \<open>Sending to the network\<close>

datatype net_stage = STAGE_MAC | STAGE_CTRL | STAGE_DATA

record net_send =
  ns_local_mac :: u48
  ns_mac_table :: "u48 list"
  ns_ctrl_msg :: ctrl_msg
  ns_stage :: net_stage
  ns_init_in :: "net_init_msg list"
  ns_ctrl_in :: "ctrl_msg list"
  ns_data_in :: "data_msg list"
  ns_net_tx :: "net_rxtx list"

definition parser_init :: "net_send \<Rightarrow> net_send option" where
  "parser_init s =
     (case ns_init_in s of
        [] \<Rightarrow> Some s
      | n # ns \<Rightarrow>
          if unat (ni_node_id n) < max_node_num
          then Some (s\<lparr>ns_init_in := ns, ns_mac_table := (ns_mac_table s)[unat (ni_node_id n) := ni_node_mac n]\<rparr>)
          else None)"

definition parser_send :: "u512 \<Rightarrow> net_rxtx \<Rightarrow> net_send \<Rightarrow> net_send option" where
  "parser_send p0 t0 s =
     (case ns_stage s of
        STAGE_MAC \<Rightarrow>
          (case ns_ctrl_in s of
             [] \<Rightarrow> Some s
           | m # ms \<Rightarrow>
               if unat (cm_dst_node_id m) < max_node_num
               then Some (s\<lparr>ns_ctrl_in := ms, ns_ctrl_msg := m, ns_stage := STAGE_CTRL,
                      ns_net_tx := ns_net_tx s @
                        [set_mac p0 t0 (ns_local_mac s) (ns_mac_table s ! unat (cm_dst_node_id m))]\<rparr>)
               else None)
      | STAGE_CTRL \<Rightarrow>
          Some (s\<lparr>ns_net_tx := ns_net_tx s @ [ctrl_msg_to_net_tx p0 (ns_ctrl_msg s) t0],
                  ns_stage := (if cm_data_msg_length (ns_ctrl_msg s) = 0 then STAGE_MAC else STAGE_DATA)\<rparr>)
      | STAGE_DATA \<Rightarrow>
          (case ns_data_in s of
             [] \<Rightarrow> Some s
           | d # ds \<Rightarrow>
               Some (s\<lparr>ns_data_in := ds, ns_net_tx := ns_net_tx s @ [data_msg_to_net_tx d t0],
                       ns_stage := (if dm_last d = 1 then STAGE_MAC else ns_stage s)\<rparr>)))"

definition parser :: "u512 \<Rightarrow> net_rxtx \<Rightarrow> net_send \<Rightarrow> net_send option" where
  "parser p0 t0 s = parser_init s \<bind> parser_send p0 t0"

section \<open>Receiving from the network\<close>

record net_recv =
  nr_ctrl_msg :: ctrl_msg
  nr_stage :: net_stage
  nr_net_rx :: "net_rxtx list"
  nr_CC_out :: "ctrl_msg list"
  nr_DC_out :: "ctrl_msg list"
  nr_cmd_out :: "c2h_cmd list"
  nr_data_out :: "c2h_data list"

definition for_directory :: "u8 \<Rightarrow> bool" where
  "for_directory t \<longleftrightarrow>
     mtype_code R_READ_MISS \<le> t \<and> t \<le> mtype_code R_EVICT_DIRTY
     \<or> mtype_code AGENT_2_DIR_READ_MISS_DIRTY_ACKDATA \<le> t \<and> t \<le> mtype_code AGENT_2_DIR_M_CHECK_FAIL"

definition store_cmd :: "ctrl_msg \<Rightarrow> c2h_cmd" where
  "store_cmd m =
     \<lparr>cc_addr = (if cm_mtype m = mtype_code AGENT_2_DIR_READ_MISS_DIRTY_ACKDATA
                   \<or> cm_mtype m = mtype_code R_EVICT_DIRTY
                 then cm_dir_gblock_addr m else cm_req_cline_addr m),
      cc_len = of_nat DSM_CACHE_LINE_SIZE, cc_qid = PSEUDO_QID_D\<rparr>"

definition deparser :: "u512 \<Rightarrow> ctrl_msg \<Rightarrow> c2h_data \<Rightarrow> net_recv \<Rightarrow> net_recv" where
  "deparser p0 m0 c0 s =
     (case nr_net_rx s of
        [] \<Rightarrow> s
      | x # xs \<Rightarrow>
          (let s = s\<lparr>nr_net_rx := xs\<rparr> in
           case nr_stage s of
             STAGE_MAC \<Rightarrow> s\<lparr>nr_stage := STAGE_CTRL\<rparr>
           | STAGE_CTRL \<Rightarrow>
               (let m = net_rx_to_ctrl_msg p0 x m0;
                    s = s\<lparr>nr_ctrl_msg := m\<rparr>;
                    s = (if for_directory (cm_mtype m) then s\<lparr>nr_DC_out := nr_DC_out s @ [m]\<rparr>
                         else s\<lparr>nr_CC_out := nr_CC_out s @ [m]\<rparr>)
                in if cm_data_msg_length m = 0 then s\<lparr>nr_stage := STAGE_MAC\<rparr>
                   else s\<lparr>nr_stage := STAGE_DATA, nr_cmd_out := nr_cmd_out s @ [store_cmd m]\<rparr>)
           | STAGE_DATA \<Rightarrow>
               s\<lparr>nr_data_out := nr_data_out s @ [net_rx_to_c2h_data p0 x c0],
                 nr_stage := (if nt_last x = 1 then STAGE_MAC else STAGE_DATA)\<rparr>))"

section \<open>The cache controller answers every message\<close>

definition agent_replies :: "ctrl_msg \<Rightarrow> ctrl_msg list" where
  "agent_replies m =
     (case mtype_of (cm_mtype m) of
        Some DIR_2_AGENT_WRITE_SHARED_NOTONLY \<Rightarrow> [ack_dir AGENT_2_DIR_WRITE_SHARED_NOTONLY_ACK (to_sys m)]
      | Some DIR_2_AGENT_WRITE_MISS_SHARED \<Rightarrow> [ack_dir AGENT_2_DIR_WRITE_MISS_SHARED_ACK (to_sys m)]
      | Some DIR_2_AGENT_READ_MISS_DIRTY \<Rightarrow>
          [ack_req AGENT_2_APP_READ_MISS_DIRTY_ACKDATA (to_sys m), ack_dir AGENT_2_DIR_READ_MISS_DIRTY_ACKDATA (to_sys m)]
      | Some DIR_2_AGENT_WRITE_MISS_DIRTY \<Rightarrow>
          [ack_req AGENT_2_APP_WRITE_MISS_DIRTY_ACKDATA (to_sys m), ack_dir AGENT_2_DIR_WRITE_MISS_DIRTY_ACK (to_sys m)]
      | _ \<Rightarrow> [])"

definition host_notice :: "ctrl_msg \<Rightarrow> ctrl_msg" where
  "host_notice m = (if agent_replies m = [] then to_app m else to_sys m)"

definition cycles_for :: "ctrl_msg \<Rightarrow> nat" where
  "cycles_for m = max 1 (length (agent_replies m))"

lemma thread_type_keeps [simp]:
  "cm_mtype (to_sys m) = cm_mtype m" "cm_mtype (to_app m) = cm_mtype m"
  by (simp_all add: to_sys_def to_app_def)

lemma cache_one_message:
  assumes "cf_copy_flag s = 0" "cf_D_in s = m # ms"
  shows "(cacheCtrlHLS_from_net ^^ cycles_for m) s =
     s\<lparr>cf_D_in := ms, cf_CMD_out := cf_CMD_out s @ [host_notice m],
       cf_CC_out := cf_CC_out s @ agent_replies m,
       cf_ctrl_msg := (if cycles_for m = 2 then to_sys m else cf_ctrl_msg s)\<rparr>"
proof (cases "mtype_of (cm_mtype m)")
  case None
  with assms show ?thesis
    by (cases s) (simp add: cacheCtrlHLS_from_net_def cycles_for_def host_notice_def agent_replies_def)
next
  case (Some t)
  with assms show ?thesis
    by (cases s; cases t)
      (simp_all add: cacheCtrlHLS_from_net_def cycles_for_def host_notice_def agent_replies_def Let_def
        numeral_2_eq_2)
qed

lemma cache_all_messages:
  assumes "cf_copy_flag s = 0"
  shows "\<exists>c. (cacheCtrlHLS_from_net ^^ sum_list (map cycles_for (cf_D_in s))) s =
     s\<lparr>cf_D_in := [], cf_CMD_out := cf_CMD_out s @ map host_notice (cf_D_in s),
       cf_CC_out := cf_CC_out s @ concat (map agent_replies (cf_D_in s)), cf_ctrl_msg := c\<rparr>"
  using assms
proof (induction "cf_D_in s" arbitrary: s)
  case Nil
  then have "s = s\<lparr>cf_D_in := [], cf_CMD_out := cf_CMD_out s @ map host_notice (cf_D_in s),
       cf_CC_out := cf_CC_out s @ concat (map agent_replies (cf_D_in s)), cf_ctrl_msg := cf_ctrl_msg s\<rparr>"
    by (cases s) simp
  with Nil show ?case by (metis funpow_0 list.simps(8) sum_list.Nil)
next
  case (Cons m ms)
  obtain c where c: "(cacheCtrlHLS_from_net ^^ cycles_for m) s =
     s\<lparr>cf_D_in := ms, cf_CMD_out := cf_CMD_out s @ [host_notice m],
       cf_CC_out := cf_CC_out s @ agent_replies m, cf_ctrl_msg := c\<rparr>" (is "_ = ?s")
    using cache_one_message [OF Cons.prems Cons.hyps(2) [symmetric]] by blast
  have "ms = cf_D_in ?s" "cf_copy_flag ?s = 0" using Cons.prems by simp_all
  from Cons.hyps(1) [OF this] obtain c' where
    "(cacheCtrlHLS_from_net ^^ sum_list (map cycles_for ms)) ?s =
      ?s\<lparr>cf_D_in := [], cf_CMD_out := cf_CMD_out ?s @ map host_notice ms,
       cf_CC_out := cf_CC_out ?s @ concat (map agent_replies ms), cf_ctrl_msg := c'\<rparr>" by auto
  then show ?case
    using c Cons.hyps(2) [symmetric]
    by (simp add: add.commute [of "cycles_for m"] funpow_add) blast
qed

section \<open>The arbiter\<close>

lemma arbiter_step:
  assumes "mc_CC_in s \<noteq> [] \<or> mc_DC_in s \<noteq> []"
  obtains (cc) c cs where "mc_CC_in s = c # cs" "mc_CC_in (ctrlMsgCopy s) = cs"
      "mc_DC_in (ctrlMsgCopy s) = mc_DC_in s" "mc_DMF_out (ctrlMsgCopy s) = mc_DMF_out s @ [c]"
  | (dc) d ds where "mc_DC_in s = d # ds" "mc_CC_in (ctrlMsgCopy s) = mc_CC_in s"
      "mc_DC_in (ctrlMsgCopy s) = ds" "mc_DMF_out (ctrlMsgCopy s) = mc_DMF_out s @ [d]"
  using assms by (cases "mc_CC_in s"; cases "mc_DC_in s"; cases "mc_flag s = 1") (auto simp: ctrlMsgCopy_def)

lemma arbiter_run:
  "\<exists>out \<in> shuffles (mc_CC_in s) (mc_DC_in s).
     mc_DMF_out ((ctrlMsgCopy ^^ (length (mc_CC_in s) + length (mc_DC_in s))) s) = mc_DMF_out s @ out"
proof (induction "length (mc_CC_in s) + length (mc_DC_in s)" arbitrary: s)
  case 0
  then show ?case by simp
next
  case (Suc n)
  have run: "(ctrlMsgCopy ^^ (length (mc_CC_in s) + length (mc_DC_in s))) s = (ctrlMsgCopy ^^ n) (ctrlMsgCopy s)"
    unfolding Suc(2) [symmetric] by (simp add: funpow_swap1)
  from Suc have "mc_CC_in s \<noteq> [] \<or> mc_DC_in s \<noteq> []" by auto
  then show ?case
  proof (cases rule: arbiter_step)
    case (cc c cs)
    with Suc(2) have n: "n = length (mc_CC_in (ctrlMsgCopy s)) + length (mc_DC_in (ctrlMsgCopy s))" by simp
    from Suc(1) [OF n] cc obtain out where "out \<in> shuffles cs (mc_DC_in s)"
      "mc_DMF_out ((ctrlMsgCopy ^^ n) (ctrlMsgCopy s)) = mc_DMF_out s @ c # out"
      using n by auto
    then show ?thesis unfolding run
      by (intro bexI [of _ "c # out"]) (auto simp: cc(1) intro: Cons_in_shuffles_leftI)
  next
    case (dc d ds)
    with Suc(2) have n: "n = length (mc_CC_in (ctrlMsgCopy s)) + length (mc_DC_in (ctrlMsgCopy s))" by simp
    from Suc(1) [OF n] dc obtain out where "out \<in> shuffles (mc_CC_in s) ds"
      "mc_DMF_out ((ctrlMsgCopy ^^ n) (ctrlMsgCopy s)) = mc_DMF_out s @ d # out"
      using n by auto
    then show ?thesis unfolding run
      by (intro bexI [of _ "d # out"]) (auto simp: dc(1) intro: Cons_in_shuffles_rightI)
  qed
qed

lemma arbiter_two_cycles:
  assumes "mc_CC_in s = c # cs" "mc_DC_in s = d # ds"
  shows "mc_DMF_out (ctrlMsgCopy (ctrlMsgCopy s)) =
           mc_DMF_out s @ (if mc_flag s = 1 then [c, d] else [d, c])"
  using assms by (cases cs; cases ds) (auto simp: ctrlMsgCopy_def)

section \<open>Control messages and their data stay in step\<close>

definition carries :: "ctrl_msg \<Rightarrow> bool" where
  "carries m \<longleftrightarrow> cm_data_msg_length m \<noteq> 0"

text \<open>Every message that leaves towards the network has a nonzero length exactly if it carries a
  line; a read command for the line was issued for it, in the same order; and as many bursts of
  data have been started as messages that announce one.\<close>

definition fetch_inv :: "data_fetch \<Rightarrow> bool" where
  "fetch_inv s \<longleftrightarrow>
     (\<forall>m \<in> set (df_P_ctrl_out s @ df_DMF s). carries m \<longleftrightarrow> line_addr m \<noteq> None)
     \<and> (\<forall>m \<in> set (df_DMF s). carries m)
     \<and> df_CD_out s = map (fetch_cmd \<circ> the \<circ> line_addr) (filter carries (df_P_ctrl_out s) @ df_DMF s)
     \<and> length (filter (\<lambda>d. dm_last d = 1) (df_P_data_out s)) + (if df_end_flag s = 0 then 1 else 0)
        = length (filter carries (df_P_ctrl_out s))"

inductive fetch_step :: "data_fetch \<Rightarrow> data_fetch \<Rightarrow> bool" where
  cycle: "fetch_step s (dataMsgFetch d0 s)"
| message: "fetch_step s (s\<lparr>df_CMC_in := df_CMC_in s @ [m]\<rparr>)"
| beat: "fetch_step s (s\<lparr>df_DD_in := df_DD_in s @ [h]\<rparr>)"

inductive_cases fetch_stepE: "fetch_step s s'"

lemma line_addr_length [simp]: "line_addr (m\<lparr>cm_data_msg_length := n\<rparr>) = line_addr m"
  by (auto simp: line_addr_def cong: option.case_cong RawMessageType.case_cong)

lemma one_bit: "(b :: u1) \<noteq> 1 \<longleftrightarrow> b = 0"
proof -
  have "unat b < 2" using unsigned_less [where 'a = nat, of b] by simp
  then show ?thesis by (auto simp: word_unat_eq_iff)
qed

lemma fetch_cycle_inv:
  assumes inv: "fetch_inv s"
  shows "fetch_inv (dataMsgFetch d0 s)"
proof -
  have size: "(of_nat DSM_CACHE_LINE_SIZE :: u16) \<noteq> 0" by simp
  consider (burst) "df_end_flag s = 0" | (start) h hs m ms where "df_end_flag s \<noteq> 0" "df_DD_in s = h # hs"
      "df_DMF s = m # ms"
    | (take) "df_end_flag s \<noteq> 0" "df_DD_in s = [] \<or> df_DMF s = []"
    by (meson list.exhaust)
  then show ?thesis
  proof cases
    case burst
    with inv show ?thesis
      by (cases "df_DD_in s") (auto simp: dataMsgFetch_def fetch_inv_def Let_def)
  next
    case (start h hs m ms)
    with inv show ?thesis
      by (auto simp: dataMsgFetch_def fetch_inv_def Let_def one_bit)
  next
    case take
    show ?thesis
    proof (cases "df_CMC_in s")
      case Nil
      with take have "dataMsgFetch d0 s = s" by (auto simp: dataMsgFetch_def split: list.splits)
      with inv show ?thesis by simp
    next
      case (Cons m ms)
      with take have "dataMsgFetch d0 s =
         (case line_addr m of
            Some a \<Rightarrow> s\<lparr>df_CMC_in := ms, df_CD_out := df_CD_out s @ [fetch_cmd a],
                         df_DMF := df_DMF s @ [m\<lparr>cm_data_msg_length := of_nat DSM_CACHE_LINE_SIZE\<rparr>]\<rparr>
          | None \<Rightarrow> s\<lparr>df_CMC_in := ms, df_P_ctrl_out := df_P_ctrl_out s @ [m\<lparr>cm_data_msg_length := 0\<rparr>]\<rparr>)"
        by (auto simp: dataMsgFetch_def Let_def split: list.splits option.splits)
      with inv size show ?thesis
        by (auto simp: fetch_inv_def carries_def split: option.splits)
    qed
  qed
qed

lemma fetch_step_inv: "fetch_inv s \<Longrightarrow> fetch_step s s' \<Longrightarrow> fetch_inv s'"
  by (erule fetch_stepE) (auto simp: fetch_cycle_inv, auto simp: fetch_inv_def)

lemma fetch_steps_inv: "fetch_step\<^sup>*\<^sup>* s s' \<Longrightarrow> fetch_inv s \<Longrightarrow> fetch_inv s'"
  by (induction rule: rtranclp_induct) (auto intro: fetch_step_inv)

section \<open>A packet crosses the network\<close>

fun send_run :: "(u512 \<times> net_rxtx) list \<Rightarrow> net_send \<Rightarrow> net_send option" where
  "send_run [] s = Some s"
| "send_run ((p, t) # js) s = parser p t s \<bind> send_run js"

fun recv_run :: "(u512 \<times> ctrl_msg \<times> c2h_data) list \<Rightarrow> net_recv \<Rightarrow> net_recv" where
  "recv_run [] s = s"
| "recv_run ((p, m, c) # ks) s = recv_run ks (deparser p m c s)"

definition burst :: "data_msg list \<Rightarrow> bool" where
  "burst ds \<longleftrightarrow> ds \<noteq> [] \<and> dm_last (last ds) = 1 \<and> (\<forall>d \<in> set (butlast ds). dm_last d \<noteq> 1)"

definition data_for :: "ctrl_msg \<Rightarrow> data_msg list \<Rightarrow> bool" where
  "data_for m ds \<longleftrightarrow> (if carries m then burst ds else ds = [])"

text \<open>The beats of a burst, with what the uninitialised destinations held.\<close>

definition data_beats :: "(u512 \<times> net_rxtx) list \<Rightarrow> data_msg list \<Rightarrow> net_rxtx list" where
  "data_beats js ds = map2 (\<lambda>j d. data_msg_to_net_tx d (snd j)) js ds"

lemma burst_Cons: "burst (d # ds) \<longleftrightarrow> (if ds = [] then dm_last d = 1 else dm_last d \<noteq> 1 \<and> burst ds)"
  by (auto simp: burst_def)

lemma send_burst:
  "ns_stage s = STAGE_DATA \<Longrightarrow> ns_init_in s = [] \<Longrightarrow> ns_data_in s = ds @ ds' \<Longrightarrow> burst ds \<Longrightarrow> length js = length ds \<Longrightarrow>
     send_run js s = Some (s\<lparr>ns_data_in := ds', ns_net_tx := ns_net_tx s @ data_beats js ds, ns_stage := STAGE_MAC\<rparr>)"
proof (induction ds arbitrary: s js)
  case Nil
  then show ?case by (simp add: burst_def)
next
  case (Cons d ds)
  then obtain p t js' where js: "js = (p, t) # js'" by (cases js) auto
  show ?case
  proof (cases "ds = []")
    case True
    with Cons.prems js show ?thesis
      by (simp add: parser_def parser_init_def parser_send_def data_beats_def burst_Cons)
  next
    case False
    with Cons.prems js Cons.IH [of "s\<lparr>ns_data_in := ds @ ds', ns_net_tx := ns_net_tx s @ [data_msg_to_net_tx d t],
      ns_stage := STAGE_DATA\<rparr>" js']
    show ?thesis
      by (simp add: parser_def parser_init_def parser_send_def data_beats_def burst_Cons)
  qed
qed

lemma send_packet:
  assumes "ns_stage s = STAGE_MAC" "ns_init_in s = []" "ns_ctrl_in s = m # ms" "ns_data_in s = ds @ ds'"
    and "unat (cm_dst_node_id m) < max_node_num" "data_for m ds" "length js = length ds"
  shows "send_run ((p1, t1) # (p2, t2) # js) s = Some (s\<lparr>ns_ctrl_in := ms, ns_ctrl_msg := m, ns_data_in := ds',
     ns_net_tx := ns_net_tx s @
       [set_mac p1 t1 (ns_local_mac s) (ns_mac_table s ! unat (cm_dst_node_id m)), ctrl_msg_to_net_tx p2 m t2]
       @ data_beats js ds\<rparr>)"
proof (cases "carries m")
  case True
  let ?s = "s\<lparr>ns_ctrl_in := ms, ns_ctrl_msg := m, ns_net_tx := ns_net_tx s @
     [set_mac p1 t1 (ns_local_mac s) (ns_mac_table s ! unat (cm_dst_node_id m)), ctrl_msg_to_net_tx p2 m t2],
     ns_stage := STAGE_DATA\<rparr>"
  have "send_run ((p1, t1) # (p2, t2) # js) s = send_run js ?s"
    using assms True by (simp add: parser_def parser_init_def parser_send_def carries_def)
  moreover have "send_run js ?s = Some (?s\<lparr>ns_data_in := ds', ns_net_tx := ns_net_tx ?s @ data_beats js ds, ns_stage := STAGE_MAC\<rparr>)"
    using assms True by (intro send_burst) (simp_all add: data_for_def)
  ultimately show ?thesis using assms(1) by (cases s) simp
next
  case False
  with assms show ?thesis
    by (cases s) (simp add: parser_def parser_init_def parser_send_def carries_def data_for_def data_beats_def)
qed

text \<open>What the receiver makes of the beats of a burst.\<close>

definition stored :: "data_msg \<Rightarrow> u512 \<times> u1" where
  "stored d = (dm_data d, dm_last d)"

lemma data_beat_last [simp]: "nt_last (data_msg_to_net_tx d t) = dm_last d"
  by (simp add: data_msg_to_net_tx_def)

lemma data_beat_stored:
  "cd_data (net_rx_to_c2h_data p (data_msg_to_net_tx d t) c) = dm_data d"
  "cd_last (net_rx_to_c2h_data p (data_msg_to_net_tx d t) c) = dm_last d"
  by (simp_all add: data_roundtrip)

lemma recv_burst:
  "nr_stage s = STAGE_DATA \<Longrightarrow> nr_net_rx s = data_beats js ds @ rest \<Longrightarrow> burst ds \<Longrightarrow>
     length js = length ds \<Longrightarrow> length ks = length ds \<Longrightarrow>
     \<exists>cs. recv_run ks s = s\<lparr>nr_net_rx := rest, nr_data_out := nr_data_out s @ cs, nr_stage := STAGE_MAC\<rparr>
       \<and> map (\<lambda>c. (cd_data c, cd_last c)) cs = map stored ds"
proof (induction ds arbitrary: s js ks)
  case Nil
  then show ?case by (simp add: burst_def)
next
  case (Cons d ds)
  then obtain p t js' where js: "js = (p, t) # js'" by (cases js) auto
  from Cons.prems obtain q m c ks' where ks: "ks = (q, m, c) # ks'" by (cases ks) auto
  let ?c = "net_rx_to_c2h_data q (data_msg_to_net_tx d t) c"
  show ?case
  proof (cases "ds = []")
    case True
    with Cons.prems js ks show ?thesis
      by (intro exI [of _ "[?c]"])
        (simp add: deparser_def data_beats_def burst_Cons stored_def data_beat_stored)
  next
    case False
    let ?s = "s\<lparr>nr_net_rx := data_beats js' ds @ rest, nr_data_out := nr_data_out s @ [?c], nr_stage := STAGE_DATA\<rparr>"
    have "recv_run ks s = recv_run ks' ?s"
      using Cons.prems js ks False by (simp add: deparser_def data_beats_def burst_Cons)
    moreover have "\<exists>cs. recv_run ks' ?s = ?s\<lparr>nr_net_rx := rest, nr_data_out := nr_data_out ?s @ cs, nr_stage := STAGE_MAC\<rparr>
       \<and> map (\<lambda>c. (cd_data c, cd_last c)) cs = map stored ds"
      using Cons.prems False js ks by (intro Cons.IH [of ?s js' ks']) (simp_all add: burst_Cons)
    then obtain cs where "recv_run ks' ?s = ?s\<lparr>nr_net_rx := rest, nr_data_out := nr_data_out ?s @ cs, nr_stage := STAGE_MAC\<rparr>"
      "map (\<lambda>c. (cd_data c, cd_last c)) cs = map stored ds" by blast
    ultimately show ?thesis
      by (intro exI [of _ "?c # cs"]) (simp add: stored_def data_beat_stored)
  qed
qed

text \<open>The message as the receiver decodes it into an uninitialised variable.\<close>

definition received :: "ctrl_msg \<Rightarrow> ctrl_msg \<Rightarrow> ctrl_msg" where
  "received m j = (unpacked m j)\<lparr>cm_data_msg_length := cm_data_msg_length m\<rparr>"

lemma received_simps [simp]:
  "cm_mtype (received m j) = cm_mtype m" "cm_data_msg_length (received m j) = cm_data_msg_length m"
  "store_cmd (received m j) = store_cmd m"
  by (simp_all add: received_def unpacked_def store_cmd_def)

lemma recv_packet:
  assumes st: "nr_stage s = STAGE_MAC" and wf: "ctrl_msg_wf m"
    and rx: "nr_net_rx s = [x0, ctrl_msg_to_net_tx p2 m t2] @ data_beats js ds @ rest"
    and d: "data_for m ds" "length js = length ds" "length ks = length ds"
  shows "\<exists>cs r. recv_run ((q1, m1, c1) # (q2, m2, c2) # ks) s = r
     \<and> nr_stage r = STAGE_MAC \<and> nr_net_rx r = rest
     \<and> nr_DC_out r = nr_DC_out s @ (if for_directory (cm_mtype m) then [received m m2] else [])
     \<and> nr_CC_out r = nr_CC_out s @ (if for_directory (cm_mtype m) then [] else [received m m2])
     \<and> nr_cmd_out r = nr_cmd_out s @ (if carries m then [store_cmd m] else [])
     \<and> nr_data_out r = nr_data_out s @ cs
     \<and> map (\<lambda>c. (cd_data c, cd_last c)) cs = map stored ds"
proof -
  have dec: "net_rx_to_ctrl_msg q2 (ctrl_msg_to_net_tx p2 m t2) m2 = received m m2"
    using net_ctrl_msg_decode [OF wf] by (simp add: received_def)
  show ?thesis
  proof (cases "carries m")
    case False
    then have "ds = []" using d by (simp add: data_for_def)
    with False st rx d dec show ?thesis
      by (simp add: deparser_def carries_def data_beats_def Let_def)
  next
    case True
    define s2 where "s2 = deparser q2 m2 c2 (deparser q1 m1 c1 s)"
    have s2: "nr_stage s2 = STAGE_DATA" "nr_net_rx s2 = data_beats js ds @ rest"
      "nr_DC_out s2 = nr_DC_out s @ (if for_directory (cm_mtype m) then [received m m2] else [])"
      "nr_CC_out s2 = nr_CC_out s @ (if for_directory (cm_mtype m) then [] else [received m m2])"
      "nr_cmd_out s2 = nr_cmd_out s @ [store_cmd m]" "nr_data_out s2 = nr_data_out s"
      using True st rx dec by (simp_all add: s2_def deparser_def carries_def Let_def)
    from True d(1) have "burst ds" by (simp add: data_for_def)
    from recv_burst [OF s2(1,2) this d(2,3)] s2 True show ?thesis
      by (auto simp: s2_def [symmetric])
  qed
qed

section \<open>Properties\<close>

text \<open>(C12) A packet survives the network: the beats the parser sends for a message and its data,
  whatever was in the uninitialised buffers, make the deparser of the other node deliver exactly
  that message to the right controller, the command to store its line exactly if it carries one,
  and the data of every beat, and leave both ends ready for the next packet.\<close>

theorem packet_crosses_network:
  assumes "ns_stage s = STAGE_MAC" and "ns_init_in s = []" and "ns_ctrl_in s = m # ms"
    and "ns_data_in s = ds @ ds'" and "unat (cm_dst_node_id m) < max_node_num" and "ctrl_msg_wf m"
    and "data_for m ds" and "length js = length ds" and "length ks = length ds"
    and "nr_stage r = STAGE_MAC"
  shows "\<exists>s' beats. send_run ((p1, t1) # (p2, t2) # js) s = Some s'
    \<and> ns_stage s' = STAGE_MAC \<and> ns_ctrl_in s' = ms \<and> ns_data_in s' = ds'
    \<and> ns_net_tx s' = ns_net_tx s @ beats
    \<and> (\<exists>cs r'. recv_run ((q1, m1, c1) # (q2, m2, c2) # ks) (r\<lparr>nr_net_rx := beats @ rest\<rparr>) = r'
         \<and> nr_stage r' = STAGE_MAC \<and> nr_net_rx r' = rest
         \<and> nr_DC_out r' = nr_DC_out r @ (if for_directory (cm_mtype m) then [received m m2] else [])
         \<and> nr_CC_out r' = nr_CC_out r @ (if for_directory (cm_mtype m) then [] else [received m m2])
         \<and> nr_cmd_out r' = nr_cmd_out r @ (if carries m then [store_cmd m] else [])
         \<and> nr_data_out r' = nr_data_out r @ cs
         \<and> map (\<lambda>c. (cd_data c, cd_last c)) cs = map stored ds)"
proof -
  let ?beats = "[set_mac p1 t1 (ns_local_mac s) (ns_mac_table s ! unat (cm_dst_node_id m)),
    ctrl_msg_to_net_tx p2 m t2] @ data_beats js ds"
  let ?s = "s\<lparr>ns_ctrl_in := ms, ns_ctrl_msg := m, ns_data_in := ds', ns_net_tx := ns_net_tx s @ ?beats\<rparr>"
  let ?r = "r\<lparr>nr_net_rx := ?beats @ rest\<rparr>"
  have "nr_stage ?r = STAGE_MAC" "nr_net_rx ?r =
      [set_mac p1 t1 (ns_local_mac s) (ns_mac_table s ! unat (cm_dst_node_id m)), ctrl_msg_to_net_tx p2 m t2]
      @ data_beats js ds @ rest" using assms by simp_all
  from recv_packet [OF this(1) \<open>ctrl_msg_wf m\<close> this(2) assms(7-9), of q1 m1 c1 q2 m2 c2]
  have "\<exists>cs r'. recv_run ((q1, m1, c1) # (q2, m2, c2) # ks) ?r = r'
         \<and> nr_stage r' = STAGE_MAC \<and> nr_net_rx r' = rest
         \<and> nr_DC_out r' = nr_DC_out r @ (if for_directory (cm_mtype m) then [received m m2] else [])
         \<and> nr_CC_out r' = nr_CC_out r @ (if for_directory (cm_mtype m) then [] else [received m m2])
         \<and> nr_cmd_out r' = nr_cmd_out r @ (if carries m then [store_cmd m] else [])
         \<and> nr_data_out r' = nr_data_out r @ cs
         \<and> map (\<lambda>c. (cd_data c, cd_last c)) cs = map stored ds" (is ?received)
    by (simp del: recv_run.simps)
  moreover have "send_run ((p1, t1) # (p2, t2) # js) s = Some ?s"
    using send_packet [OF assms(1-5,7,8)] by simp
  moreover have "ns_stage ?s = STAGE_MAC \<and> ns_ctrl_in ?s = ms \<and> ns_data_in ?s = ds'
      \<and> ns_net_tx ?s = ns_net_tx s @ ?beats" using assms(1) by simp
  ultimately show ?thesis by blast
qed

definition sample_evict :: ctrl_msg where
  "sample_evict = blank_ctrl_msg\<lparr>cm_mtype := mtype_code R_EVICT_DIRTY, cm_dir_gblock_addr := 0x7000,
     cm_data_msg_length := 4096\<rparr>"

definition sample_beat :: data_msg where
  "sample_beat = \<lparr>dm_data = 0xabc, dm_keep = 0, dm_last = 1\<rparr>"

definition sample_send :: net_send where
  "sample_send = \<lparr>ns_local_mac = 0, ns_mac_table = replicate 8 0, ns_ctrl_msg = blank_ctrl_msg,
     ns_stage = STAGE_MAC, ns_init_in = [], ns_ctrl_in = [sample_evict], ns_data_in = [sample_beat],
     ns_net_tx = []\<rparr>"

definition sample_recv :: net_recv where
  "sample_recv = \<lparr>nr_ctrl_msg = blank_ctrl_msg, nr_stage = STAGE_MAC, nr_net_rx = [], nr_CC_out = [],
     nr_DC_out = [], nr_cmd_out = [], nr_data_out = []\<rparr>"

theorem packet_crosses_network_witness:
  "\<exists>s' beats. send_run [(0, blank_net), (1, blank_net), (2, blank_net)] sample_send = Some s'
     \<and> ns_net_tx s' = beats
     \<and> map cd_data (nr_data_out (recv_run [(3, blank_ctrl_msg, blank_c2h_data),
           (4, blank_ctrl_msg, blank_c2h_data), (5, blank_ctrl_msg, blank_c2h_data)]
           (sample_recv\<lparr>nr_net_rx := beats\<rparr>))) = [0xabc]"
proof -
  have wf: "ctrl_msg_wf sample_evict"
    by (simp add: sample_evict_def blank_ctrl_msg_def ctrl_msg_wf_def max_node_num_def)
  have d: "data_for sample_evict [sample_beat]"
    by (simp add: data_for_def burst_def carries_def sample_evict_def sample_beat_def)
  have "map stored [sample_beat] = [(0xabc, 1)]" by (simp add: stored_def sample_beat_def)
  with packet_crosses_network [of sample_send sample_evict "[]" "[sample_beat]" "[]" "[(2, blank_net)]"
      "[(5, blank_ctrl_msg, blank_c2h_data)]" sample_recv 0 blank_net 1 blank_net 3 blank_ctrl_msg
      blank_c2h_data 4 blank_ctrl_msg blank_c2h_data "[]"] wf d
  show ?thesis
    by (fastforce simp: sample_send_def sample_recv_def sample_evict_def blank_ctrl_msg_def max_node_num_def)
qed

text \<open>The cache controller answers every message from the directory: after one cycle per
  message, and one more per message about a dirty line, the host has been notified of each message
  once, and each invalidation has been acknowledged once, in the order of arrival; a request for a
  dirty line is answered with the data first and the acknowledgement to the directory second.\<close>

theorem cache_controller_answers:
  assumes "cf_copy_flag s = 0"
  shows "\<exists>c. (cacheCtrlHLS_from_net ^^ sum_list (map cycles_for (cf_D_in s))) s =
     s\<lparr>cf_D_in := [], cf_CMD_out := cf_CMD_out s @ map host_notice (cf_D_in s),
       cf_CC_out := cf_CC_out s @ concat (map agent_replies (cf_D_in s)), cf_ctrl_msg := c\<rparr>"
  using assms by (rule cache_all_messages)

theorem cache_controller_answers_witness:
  "\<exists>c. (cacheCtrlHLS_from_net ^^ 2)
       \<lparr>cf_copy_flag = 0, cf_ctrl_msg = blank_ctrl_msg,
        cf_D_in = [blank_ctrl_msg\<lparr>cm_mtype := mtype_code DIR_2_AGENT_WRITE_MISS_DIRTY\<rparr>],
        cf_CMD_out = [], cf_CC_out = []\<rparr> = c
     \<and> map cm_mtype (cf_CC_out c) =
         [mtype_code AGENT_2_APP_WRITE_MISS_DIRTY_ACKDATA, mtype_code AGENT_2_DIR_WRITE_MISS_DIRTY_ACK]"
  using cache_controller_answers [of "\<lparr>cf_copy_flag = 0, cf_ctrl_msg = blank_ctrl_msg,
        cf_D_in = [blank_ctrl_msg\<lparr>cm_mtype := mtype_code DIR_2_AGENT_WRITE_MISS_DIRTY\<rparr>],
        cf_CMD_out = [], cf_CC_out = []\<rparr>"]
  by (auto simp: agent_replies_def cycles_for_def ack_req_def ack_dir_def numeral_2_eq_2)

text \<open>In every run of \<open>dataMsgFetch\<close>, whatever arrives and when: a message that leaves for the
  network announces data exactly if its type carries a line, the line's read command was issued at
  the line's address and in the same order, and there are as many bursts of data as announcements.\<close>

theorem data_fetch_in_step:
  assumes "fetch_step\<^sup>*\<^sup>* s s'" and "df_end_flag s = 1"
    and "df_CD_out s = []" and "df_P_ctrl_out s = []" and "df_P_data_out s = []" and "df_DMF s = []"
  shows "fetch_inv s'"
proof -
  have "fetch_inv s" using assms(2-) by (simp add: fetch_inv_def)
  with assms(1) show ?thesis by (rule fetch_steps_inv)
qed

definition sample_fetch :: data_fetch where
  "sample_fetch = \<lparr>df_end_flag = 1, df_CD_out = [], df_DD_in = [], df_CMC_in = [sample_evict],
     df_P_ctrl_out = [], df_P_data_out = [], df_DMF = []\<rparr>"

theorem data_fetch_in_step_witness: "fetch_inv (dataMsgFetch sample_beat sample_fetch)"
  by (rule data_fetch_in_step [of sample_fetch])
    (auto simp: sample_fetch_def intro: fetch_step.cycle)

text \<open>The arbiter loses, invents and reorders nothing: within one cycle per waiting message its
  output has grown by an interleaving of its two inputs, and while both have messages they are
  served in turn.\<close>

theorem arbiter_fair_merge:
  "(\<exists>out \<in> shuffles (mc_CC_in s) (mc_DC_in s).
      mc_DMF_out ((ctrlMsgCopy ^^ (length (mc_CC_in s) + length (mc_DC_in s))) s) = mc_DMF_out s @ out)
   \<and> (\<forall>c cs d ds. (mc_CC_in s, mc_DC_in s) = (c # cs, d # ds) \<longrightarrow>
        mc_DMF_out (ctrlMsgCopy (ctrlMsgCopy s)) =
          mc_DMF_out s @ (if mc_flag s = 1 then [c, d] else [d, c]))"
  using arbiter_run [of s] arbiter_two_cycles [of s] by blast

theorem arbiter_fair_merge_witness:
  "map cm_mtype (mc_DMF_out (ctrlMsgCopy (ctrlMsgCopy
     \<lparr>mc_flag = 0, mc_CC_in = [blank_ctrl_msg], mc_DC_in = [blank_ctrl_msg\<lparr>cm_mtype := 3\<rparr>],
      mc_DMF_out = []\<rparr>))) = [3, 0]"
  using arbiter_fair_merge [of "\<lparr>mc_flag = 0, mc_CC_in = [blank_ctrl_msg],
      mc_DC_in = [blank_ctrl_msg\<lparr>cm_mtype := 3\<rparr>], mc_DMF_out = []\<rparr>"]
  by (simp add: blank_ctrl_msg_def)

end
