(* ===== verification/Host_Types.thy ===== *)
theory Host_Types
  imports Messages
begin

text \<open>
  The types and small functions every part of the host software uses: the constants of
  \<open>Common.h\<close>, the macros of \<open>qdma_include/common.h\<close>, global addresses, the configuration, the
  counters of \<open>CacheStat\<close>, and the message layout the host shares with the FPGA.
\<close>

section \<open>Constants and enumerations\<close>

definition KB :: u64 where "KB = 1024"
definition MB :: u64 where "MB = 1024 * 1024"
definition GB :: u64 where "GB = 1024 * MB"
definition kChunkSize :: u64 where "kChunkSize = MB * 32"

definition DSM_CACHE_INDEX_WIDTH :: nat where "DSM_CACHE_INDEX_WIDTH = 16"
definition DSM_CACHE_INDEX_SIZE :: nat where "DSM_CACHE_INDEX_SIZE = 2 ^ DSM_CACHE_INDEX_WIDTH"
definition CACHE_WAYS :: nat where "CACHE_WAYS = 8"

definition max_cline_num_per_node :: int where "max_cline_num_per_node = 5000000"
definition max_gblock_num_per_node :: int where "max_gblock_num_per_node = 5000000"

datatype CacheStatus =
  C_INVALID | C_SHARED | C_MODIFIED | C_TO_INVALID | C_TO_SHARED | C_TO_MODIFIED | C_PRESERVED | C_TO_PRESERVED

primrec status_code :: "CacheStatus \<Rightarrow> u8" where
  "status_code C_INVALID = 0"
| "status_code C_SHARED = 1"
| "status_code C_MODIFIED = 2"
| "status_code C_TO_INVALID = 3"
| "status_code C_TO_SHARED = 4"
| "status_code C_TO_MODIFIED = 5"
| "status_code C_PRESERVED = 6"
| "status_code C_TO_PRESERVED = 7"

datatype EvictType = EVICT_SHARED | EVICT_DIRTY

text \<open>What a call of the host software does: it returns, waits for another thread or for a message
  that is not there yet, loops forever, or fails an assertion.\<close>

datatype 'a outcome = Returned 'a | Waits | Hangs | Aborts

text \<open>\<open>ADD_ROUND(x, n)\<close> and the arithmetic macros of \<open>common.h\<close> on 64-bit operands.\<close>

definition ADD_ROUND :: "u32 \<Rightarrow> u32 \<Rightarrow> u32" where "ADD_ROUND x n = (x + 1) mod n"
definition ALIGN_MASK :: "u64 \<Rightarrow> u64 \<Rightarrow> u64" where "ALIGN_MASK x m = (x + m) AND NOT m"
definition ALIGN :: "u64 \<Rightarrow> u64 \<Rightarrow> u64" where "ALIGN x a = ALIGN_MASK x (a - 1)"
definition OFF_MASK :: u64 where "OFF_MASK = 0xFFFFFFFFFFFF"
definition WID :: "u64 \<Rightarrow> u64" where "WID g = drop_bit 48 g"
definition OFF :: "u64 \<Rightarrow> u64" where "OFF g = g AND OFF_MASK"
definition TO_GLOB :: "u64 \<Rightarrow> u64 \<Rightarrow> u64 \<Rightarrow> u64" where "TO_GLOB addr base wid = addr - base + push_bit 48 wid"
definition TO_LOCAL :: "u64 \<Rightarrow> u64 \<Rightarrow> u64" where "TO_LOCAL g base = base + OFF g"
definition EMPTY_GLOB :: "u64 \<Rightarrow> u64" where "EMPTY_GLOB wid = push_bit 48 wid"
definition is_log2 :: "u64 \<Rightarrow> bool" where "is_log2 v \<longleftrightarrow> v AND (v - 1) = 0"
definition round_up :: "u64 \<Rightarrow> u64 \<Rightarrow> u64" where
  "round_up num factor = num + factor - 1 - (num + factor - 1) mod factor"

section \<open>Global addresses\<close>

record GlobalAddress =
  ga_addr :: u64
  ga_nodeID :: u8
  ga_org :: u8

definition Null :: GlobalAddress where
  "Null = \<lparr>ga_addr = 0, ga_nodeID = 0, ga_org = 0\<rparr>"

definition getTag :: "GlobalAddress \<Rightarrow> u64" where
  "getTag a = push_bit 8 (drop_bit DSM_CACHE_LINE_WIDTH (ga_addr a)) + ucast (ga_nodeID a)"

definition getIndex :: "GlobalAddress \<Rightarrow> u64" where
  "getIndex a = drop_bit DSM_CACHE_LINE_WIDTH (ga_addr a)"

text \<open>\<open>operator==\<close>, which does not look at the organisation byte.\<close>

definition ga_eq :: "GlobalAddress \<Rightarrow> GlobalAddress \<Rightarrow> bool" where
  "ga_eq a b \<longleftrightarrow> ga_addr a = ga_addr b \<and> ga_nodeID a = ga_nodeID b"

text \<open>The offset is a signed 32-bit integer.\<close>

definition GADD :: "GlobalAddress \<Rightarrow> u32 \<Rightarrow> GlobalAddress" where
  "GADD a off = a\<lparr>ga_addr := ga_addr a + scast off\<rparr>"

text \<open>The address of the line an address lies in, and the position in the line.\<close>

definition line_of :: "GlobalAddress \<Rightarrow> u64 \<times> u8" where
  "line_of a = (getIndex a, ga_nodeID a)"

lemma getTag_bits:
  "bit (getTag a) n \<longleftrightarrow> n < 64 \<and> (if n < 8 then bit (ga_nodeID a) n else bit (ga_addr a) (n + 4))"
proof -
  have disj: "push_bit 8 (drop_bit DSM_CACHE_LINE_WIDTH (ga_addr a)) AND ucast (ga_nodeID a) = (0 :: u64)"
    by (rule bit_word_eqI) (auto simp: bit_simps not_le dest: bit_imp_le_length)
  show ?thesis
    unfolding getTag_def disjunctive_add_eq_or [OF disj]
    by (auto simp: bit_simps DSM_CACHE_LINE_WIDTH_def not_less ac_simps dest: bit_imp_le_length)
qed

lemma getTag_eq_iff: "getTag a = getTag b \<longleftrightarrow> line_of a = line_of b"
proof
  assume eq: "getTag a = getTag b"
  have "ga_nodeID a = ga_nodeID b"
  proof (rule bit_word_eqI)
    fix n assume "n < LENGTH(8)"
    then show "bit (ga_nodeID a) n = bit (ga_nodeID b) n"
      using getTag_bits [of a n] getTag_bits [of b n] eq by auto
  qed
  moreover have "getIndex a = getIndex b"
  proof (rule bit_word_eqI)
    fix n assume n: "n < LENGTH(64)"
    show "bit (getIndex a) n = bit (getIndex b) n"
    proof (cases "n + 12 < 64")
      case True
      then show ?thesis
        using getTag_bits [of a "n + 8"] getTag_bits [of b "n + 8"] eq
        by (simp add: getIndex_def bit_simps DSM_CACHE_LINE_WIDTH_def add.commute)
    next
      case False
      then show ?thesis by (auto simp: getIndex_def bit_simps DSM_CACHE_LINE_WIDTH_def dest: bit_imp_le_length)
    qed
  qed
  ultimately show "line_of a = line_of b" by (simp add: line_of_def)
next
  assume "line_of a = line_of b"
  then show "getTag a = getTag b" by (simp add: line_of_def getTag_def getIndex_def)
qed

section \<open>Configuration\<close>

text \<open>The fields the constructor sets, and those with a default initialiser. A negative result of a
  narrowing conversion is a negative \<open>int\<close>.\<close>

record dsm_config =
  cf_node_id :: int
  cf_node_num :: int
  cf_appt_num_per_node :: int
  cf_syst_num_per_node :: int
  cf_mac_vec :: "u8 list list"
  cf_gmem_size_per_node :: u64
  cf_cache_size_per_node :: u64
  cf_cline_num_per_node :: int
  cf_gblock_num_per_node :: int
  cf_fpga_pci_bus :: u8
  cf_fpga_bridge_bar_size :: u64
  cf_cpu_pool_size :: u64

definition to_int32 :: "u64 \<Rightarrow> int" where
  "to_int32 w = sint (ucast w :: 32 word)"

text \<open>At least 200 MB, rounded up to the next multiple of a megabyte.\<close>

definition region_size :: "u64 \<Rightarrow> u64" where
  "region_size u =
     (let s = (if u > MB * 200 then u else MB * 200) in (s div (MB * 1) + 1) * (MB * 1))"

text \<open>The constructor: a store past the end of \<open>mac_vec\<close>, which happens before the assertion that
  would exclude it, and a failed assertion are the result \<open>None\<close>. The conversion of the sum of two
  \<open>int\<close>s in the last assertion is a product of unsigned 64-bit numbers.\<close>

definition DSMConfig :: "int \<Rightarrow> int \<Rightarrow> int \<Rightarrow> int \<Rightarrow> u64 \<Rightarrow> u64 \<Rightarrow> u8 \<Rightarrow> u8 list list \<Rightarrow> dsm_config option" where
  "DSMConfig node_id node_num appt syst gmem cache bus macs =
     (let c = \<lparr>cf_node_id = node_id, cf_node_num = node_num, cf_appt_num_per_node = appt,
           cf_syst_num_per_node = syst,
           cf_mac_vec = take (nat node_num) macs @ replicate (max_node_num - nat node_num) (replicate 6 0),
           cf_gmem_size_per_node = region_size gmem, cf_cache_size_per_node = region_size cache,
           cf_cline_num_per_node = to_int32 (cache div of_nat DSM_CACHE_LINE_SIZE),
           cf_gblock_num_per_node = to_int32 (gmem div of_nat DSM_CACHE_LINE_SIZE),
           cf_fpga_pci_bus = bus, cf_fpga_bridge_bar_size = MB * 4,
           cf_cpu_pool_size = 0 + 1 * GB + region_size gmem + region_size cache + 1 * GB\<rparr>
      in if node_num \<le> int max_node_num \<and> appt \<le> int max_appt_num_per_node
            \<and> syst \<le> int max_syst_num_per_node
            \<and> cf_cline_num_per_node c \<le> max_cline_num_per_node
            \<and> cf_gblock_num_per_node c \<le> max_gblock_num_per_node
            \<and> cf_gmem_size_per_node c + cf_cache_size_per_node c + 1 * GB \<le> cf_cpu_pool_size c
            \<and> 1 * (of_int (appt + syst) :: u64) * 64 \<le> cf_fpga_bridge_bar_size c
         then Some c else None)"

lemma region_size_unat:
  assumes "unat u < 2 ^ 62"
  shows "unat (region_size u) = ((max (unat u) (200 * 2 ^ 20)) div 2 ^ 20 + 1) * 2 ^ 20"
proof -
  let ?s = "if u > MB * 200 then u else MB * 200"
  have s: "unat ?s = max (unat u) (200 * 2 ^ 20)"
    by (simp add: MB_def word_less_nat_alt max_def)
  have "unat ?s < 2 ^ 62" using s assms by simp
  then have "unat ?s div 2 ^ 20 \<le> 2 ^ 42" by (simp add: less_mult_imp_div_less)
  then have "(unat ?s div 2 ^ 20 + 1) * 2 ^ 20 < (2 :: nat) ^ 64" by simp
  then show ?thesis
    unfolding region_size_def Let_def s [symmetric]
    by (simp add: MB_def unat_word_ariths unat_div)
qed

lemma region_size_bounds:
  assumes "unat u < 2 ^ 62"
  shows "unat u < unat (region_size u)" "200 * 2 ^ 20 < unat (region_size u)"
    "2 ^ 20 dvd unat (region_size u)" "unat (region_size u) \<le> max (unat u) (200 * 2 ^ 20) + 2 ^ 20"
proof -
  have *: "x < (x div 2 ^ 20 + 1) * 2 ^ 20" for x :: nat
    using div_mult_mod_eq [of x "2 ^ 20"] by simp
  show "unat u < unat (region_size u)" "200 * 2 ^ 20 < unat (region_size u)"
    using * [of "max (unat u) (200 * 2 ^ 20)"] unfolding region_size_unat [OF assms] by linarith+
  show "2 ^ 20 dvd unat (region_size u)" unfolding region_size_unat [OF assms] by simp
  show "unat (region_size u) \<le> max (unat u) (200 * 2 ^ 20) + 2 ^ 20"
    unfolding region_size_unat [OF assms] by simp
qed

lemma to_int32_small: "unat w < 2 ^ 31 \<Longrightarrow> to_int32 w = int (unat w)"
proof -
  assume w: "unat w < 2 ^ 31"
  then have "int (unat w) < 2 ^ 31" by (metis of_nat_less_iff of_nat_numeral of_nat_power)
  then have lt: "uint w < 2 ^ 31" by (simp only: uint_nat)
  have "uint (ucast w :: 32 word) = take_bit 32 (uint w)" by (simp add: unsigned_ucast_eq)
  also have "\<dots> = uint w" using lt by (intro take_bit_int_eq_self) auto
  finally have "sint (ucast w :: 32 word) = signed_take_bit 31 (uint w)" by (simp add: sint_uint)
  also have "\<dots> = uint w" using lt uint_ge_0 [of w] by (intro signed_take_bit_int_eq_self) linarith+
  finally show ?thesis by (simp only: to_int32_def uint_nat)
qed

section \<open>Messages in memory\<close>

record RawMessage =
  rm_mtype :: u8
  rm_req_cline_nodeID :: u8
  rm_req_cline_appThreadID :: u8
  rm_req_cline_addr :: u64
  rm_req_cline_index :: u32
  rm_cline_tag :: u64
  rm_agent_cline_nodeID :: u8
  rm_agent_cline_addr :: u64
  rm_dir_gblock_addr :: u64
  rm_dir_gblock_index :: u32
  rm_dir_gblock_bitmap :: "u8 list"
  rm_dir_gblock_nodeID :: u8
  rm_general_c2h_owner :: u8
  rm_init_state :: u8
  rm_init_mac :: "u8 list"
  rm_padding_0 :: u8
  rm_padding_1 :: u16

definition raw_wf :: "RawMessage \<Rightarrow> bool" where
  "raw_wf m \<longleftrightarrow> length (rm_dir_gblock_bitmap m) = max_node_num \<and> length (rm_init_mac m) = 6"

text \<open>The packed structure, byte by byte on a little-endian machine.\<close>

definition raw_bytes :: "RawMessage \<Rightarrow> u8 list" where
  "raw_bytes m =
     [rm_mtype m, rm_req_cline_nodeID m, rm_req_cline_appThreadID m] @ bytes_of 8 (rm_req_cline_addr m)
     @ bytes_of 4 (rm_req_cline_index m) @ bytes_of 8 (rm_cline_tag m) @ [rm_agent_cline_nodeID m]
     @ bytes_of 8 (rm_agent_cline_addr m) @ bytes_of 8 (rm_dir_gblock_addr m)
     @ bytes_of 4 (rm_dir_gblock_index m) @ rm_dir_gblock_bitmap m @ [rm_dir_gblock_nodeID m,
     rm_general_c2h_owner m, rm_init_state m] @ rm_init_mac m @ [rm_padding_0 m] @ bytes_of 2 (rm_padding_1 m)"

definition raw_of_bytes :: "u8 list \<Rightarrow> RawMessage" where
  "raw_of_bytes bs =
     \<lparr>rm_mtype = of_bytes (take 1 (drop 0 bs)), rm_req_cline_nodeID = of_bytes (take 1 (drop 1 bs)),
      rm_req_cline_appThreadID = of_bytes (take 1 (drop 2 bs)), rm_req_cline_addr = of_bytes (take 8 (drop 3 bs)),
      rm_req_cline_index = of_bytes (take 4 (drop 11 bs)), rm_cline_tag = of_bytes (take 8 (drop 15 bs)),
      rm_agent_cline_nodeID = of_bytes (take 1 (drop 23 bs)), rm_agent_cline_addr = of_bytes (take 8 (drop 24 bs)),
      rm_dir_gblock_addr = of_bytes (take 8 (drop 32 bs)), rm_dir_gblock_index = of_bytes (take 4 (drop 40 bs)),
      rm_dir_gblock_bitmap = take 8 (drop 44 bs), rm_dir_gblock_nodeID = of_bytes (take 1 (drop 52 bs)),
      rm_general_c2h_owner = of_bytes (take 1 (drop 53 bs)), rm_init_state = of_bytes (take 1 (drop 54 bs)),
      rm_init_mac = take 6 (drop 55 bs), rm_padding_0 = of_bytes (take 1 (drop 61 bs)),
      rm_padding_1 = of_bytes (take 2 (drop 62 bs))\<rparr>"

text \<open>The eight values of \<open>RawMessageUnion\<close>, and the 512-bit word the bridge makes of them.\<close>

definition union_values :: "RawMessage \<Rightarrow> u64 list" where
  "union_values m = map (\<lambda>k. of_bytes (take 8 (drop (8 * k) (raw_bytes m)))) [0..<8]"

definition bridge_word :: "u64 list \<Rightarrow> u512" where
  "bridge_word vs = put_array 0 64 vs 0"

definition bits_in :: "u8 list \<Rightarrow> nat" where
  "bits_in bitmap = fold (\<lambda>i c. if bitmap ! i \<noteq> 0 then c + 1 else c) [0..<max_node_num] 0"

lemma length_raw_bytes [simp]: "raw_wf m \<Longrightarrow> length (raw_bytes m) = 64"
  by (simp add: raw_wf_def raw_bytes_def max_node_num_def)

lemma of_bytes_single [simp]: "of_bytes [b] = (b :: u8)"
  by (rule bit_word_eqI) (simp add: bit_of_bytes)

lemma raw_roundtrip: "raw_wf m \<Longrightarrow> raw_of_bytes (raw_bytes m) = m"
  by (cases m) (simp add: raw_of_bytes_def raw_bytes_def raw_wf_def max_node_num_def of_bytes_bytes_of)

lemma bits_in_card: "bits_in bm = card {i. i < max_node_num \<and> bm ! i \<noteq> 0}"
proof -
  have "fold (\<lambda>i c. if bm ! i \<noteq> 0 then c + 1 else c) [0..<k] 0 = card {i. i < k \<and> bm ! i \<noteq> 0}" for k
  proof (induction k)
    case 0
    then show ?case by simp
  next
    case (Suc k)
    have "{i. i < Suc k \<and> bm ! i \<noteq> 0} = (if bm ! k \<noteq> 0 then insert k {i. i < k \<and> bm ! i \<noteq> 0} else {i. i < k \<and> bm ! i \<noteq> 0})"
      by (auto simp: less_Suc_eq)
    with Suc show ?case by simp
  qed
  then show ?thesis by (simp add: bits_in_def)
qed

text \<open>The bridge word carries the bytes of the structure in order.\<close>

lemma bridge_word_bytes:
  assumes "length bs = 64"
  shows "bridge_word (map (\<lambda>k. of_bytes (take 8 (drop (8 * k) bs))) [0..<8]) = of_bytes bs"
proof (rule bit_word_eqI)
  fix n assume n: "n < LENGTH(512)"
  define k j where "k = n div 64" and "j = n mod 64"
  have k: "k < 8" using n by (simp add: k_def)
  have j: "j < 64" and nkj: "n = 64 * k + j" by (simp_all add: j_def k_def)
  have "bit (bridge_word (map (\<lambda>k. of_bytes (take 8 (drop (8 * k) bs))) [0..<8])) n
      = bit (of_bytes (take 8 (drop (8 * k) bs)) :: u64) j"
    using n k by (simp add: bridge_word_def bit_put_array k_def j_def)
  also have "\<dots> = bit (bs ! (8 * k + j div 8)) (j mod 8)"
    using assms k j by (subst bit_of_bytes) auto
  also have "8 * k + j div 8 = n div 8" using nkj by simp
  also have "j mod 8 = n mod 8" using nkj by (simp add: mod_add_eq [symmetric])
  finally show "bit (bridge_word (map (\<lambda>k. of_bytes (take 8 (drop (8 * k) bs))) [0..<8])) n = bit (of_bytes bs :: u512) n"
    using n assms by (simp add: bit_of_bytes)
qed

text \<open>What the FPGA reads in the ranges of a word is what the host reads in the bytes.\<close>

lemma ranges_are_fields:
  fixes w :: u512
  defines "m \<equiv> raw_of_bytes (bytes_of 64 w)"
  shows "get_ctrl_fields w j = j\<lparr>
      cm_mtype := rm_mtype m, cm_req_cline_nodeID := rm_req_cline_nodeID m,
      cm_req_cline_appThreadID := rm_req_cline_appThreadID m, cm_req_cline_addr := rm_req_cline_addr m,
      cm_req_cline_index := rm_req_cline_index m, cm_cline_tag := rm_cline_tag m,
      cm_agent_cline_nodeID := rm_agent_cline_nodeID m, cm_agent_cline_addr := rm_agent_cline_addr m,
      cm_dir_gblock_addr := rm_dir_gblock_addr m, cm_dir_gblock_index := rm_dir_gblock_index m,
      cm_dir_gblock_bitmap := rm_dir_gblock_bitmap m, cm_dir_gblock_nodeID := rm_dir_gblock_nodeID m\<rparr>"
    and "(get_range 431 424 w :: u8) = rm_general_c2h_owner m"
    and "(get_range 439 432 w :: u8) = rm_init_state m"
    and "(get_range 487 440 w :: u48) = of_bytes (rm_init_mac m)"
  using get_array_slice [of 44 8 64 w] of_bytes_slice [where 'b = 8 and n = 1 and off = 0 and N = 64, of w]
  by (simp_all add: m_def raw_of_bytes_def of_bytes_slice get_ctrl_fields_def max_node_num_def)

lemma bridge_decodes:
  assumes "raw_wf m" "hw_data h = bridge_word (union_values m)"
  shows "raw_of_bytes (bytes_of 64 (hw_data h)) = m"
proof -
  have len: "length (raw_bytes m) = 64" using assms(1) by simp
  have "hw_data h = of_bytes (raw_bytes m)"
    using assms(2) bridge_word_bytes [OF len] by (simp add: union_values_def)
  moreover have "bytes_of 64 (of_bytes (raw_bytes m) :: u512) = raw_bytes m"
    using bytes_of_of_bytes [of "raw_bytes m", where 'a = 512] len by simp
  ultimately show ?thesis using raw_roundtrip [OF assms(1)] by simp
qed

section \<open>Properties\<close>

text \<open>(C22) The host's packed structure and the FPGA's bit ranges are the same layout: a message
  written through the eight values of \<open>RawMessageUnion\<close> is decoded by the FPGA with every field.\<close>

theorem host_message_layout:
  assumes "raw_wf m" and "hw_data h = bridge_word (union_values m)"
  shows "h2c_w_to_ctrl_msg h j = j\<lparr>
      cm_mtype := rm_mtype m, cm_req_cline_nodeID := rm_req_cline_nodeID m,
      cm_req_cline_appThreadID := rm_req_cline_appThreadID m, cm_req_cline_addr := rm_req_cline_addr m,
      cm_req_cline_index := rm_req_cline_index m, cm_cline_tag := rm_cline_tag m,
      cm_agent_cline_nodeID := rm_agent_cline_nodeID m, cm_agent_cline_addr := rm_agent_cline_addr m,
      cm_dir_gblock_addr := rm_dir_gblock_addr m, cm_dir_gblock_index := rm_dir_gblock_index m,
      cm_dir_gblock_bitmap := rm_dir_gblock_bitmap m, cm_dir_gblock_nodeID := rm_dir_gblock_nodeID m,
      cm_init_state := rm_init_state m, cm_init_mac := of_bytes (rm_init_mac m)\<rparr>"
  using ranges_are_fields [of "hw_data h"] bridge_decodes [OF assms]
  by (simp add: h2c_w_to_ctrl_msg_def)

definition sample_raw :: RawMessage where
  "sample_raw = raw_of_bytes (map of_nat [1..<65])"

theorem host_message_layout_witness:
  "cm_req_cline_addr (h2c_w_to_ctrl_msg (blank_h2c_w\<lparr>hw_data := bridge_word (union_values sample_raw)\<rparr>)
     blank_ctrl_msg) = rm_req_cline_addr sample_raw"
proof -
  have "raw_wf sample_raw" by (simp add: sample_raw_def raw_of_bytes_def raw_wf_def max_node_num_def)
  from host_message_layout [OF this, of "blank_h2c_w\<lparr>hw_data := bridge_word (union_values sample_raw)\<rparr>"]
  show ?thesis by simp
qed

text \<open>Two global addresses have the same tag exactly if they lie in the same cache line of the
  same node: the tag loses nothing and confuses nothing.\<close>

theorem tag_identifies_line: "getTag a = getTag b \<longleftrightarrow> getIndex a = getIndex b \<and> ga_nodeID a = ga_nodeID b"
  using getTag_eq_iff [of a b] by (simp add: line_of_def)

text \<open>A configuration that passes its assertions fits: below \<open>2^43\<close> bytes per region, the cache
  lines and the blocks it counts lie inside the regions it reserves, the regions are whole megabytes,
  and the pool holds both and the two gigabytes around them.\<close>

theorem config_fits:
  assumes "DSMConfig node_id node_num appt syst gmem cache bus macs = Some c"
    and "unat gmem < 2 ^ 43" and "unat cache < 2 ^ 43"
  shows "0 \<le> cf_cline_num_per_node c
    \<and> cf_cline_num_per_node c * 4096 \<le> int (unat (cf_cache_size_per_node c))
    \<and> cf_gblock_num_per_node c * 4096 \<le> int (unat (cf_gmem_size_per_node c))
    \<and> 2 ^ 20 dvd unat (cf_cache_size_per_node c) \<and> 2 ^ 20 dvd unat (cf_gmem_size_per_node c)
    \<and> unat (cf_cpu_pool_size c) = 2 * 2 ^ 30 + unat (cf_gmem_size_per_node c) + unat (cf_cache_size_per_node c)"
proof -
  have c: "cf_cline_num_per_node c = to_int32 (cache div 4096)" "cf_gblock_num_per_node c = to_int32 (gmem div 4096)"
    "cf_cache_size_per_node c = region_size cache" "cf_gmem_size_per_node c = region_size gmem"
    "cf_cpu_pool_size c = 0 + 1 * GB + region_size gmem + region_size cache + 1 * GB"
    using assms(1) by (auto simp: DSMConfig_def Let_def split: if_splits)
  have small: "unat (u div 4096) < 2 ^ 31 \<and> to_int32 (u div 4096) * 4096 \<le> int (unat u)"
    if "unat u < 2 ^ 43" for u :: u64
  proof -
    have "unat (u div 4096) = unat u div 4096" by (simp add: unat_div)
    moreover from this that have "unat (u div 4096) < 2 ^ 31" by (simp add: less_mult_imp_div_less)
    moreover have "int (unat u div 4096 * 4096) \<le> int (unat u)"
      by (simp only: of_nat_le_iff div_times_less_eq_dividend)
    ultimately show ?thesis by (simp add: to_int32_small)
  qed
  have b: "unat u < 2 ^ 62" if "unat u < 2 ^ 43" for u :: u64 using that by simp
  note rc = region_size_bounds [OF b [OF assms(3)]] and rg = region_size_bounds [OF b [OF assms(2)]]
  have "unat (region_size cache) \<le> 2 ^ 44" "unat (region_size gmem) \<le> 2 ^ 44"
    using rc(4) rg(4) assms(2,3) by auto
  then have pool: "unat (cf_cpu_pool_size c) = 2 * 2 ^ 30 + unat (region_size gmem) + unat (region_size cache)"
    unfolding c by (simp add: GB_def MB_def unat_word_ariths)
  have "0 \<le> to_int32 (cache div 4096)" using small [OF assms(3)] by (simp add: to_int32_small)
  moreover have "to_int32 (cache div 4096) * 4096 \<le> int (unat (region_size cache))"
    "to_int32 (gmem div 4096) * 4096 \<le> int (unat (region_size gmem))"
    using small [OF assms(2)] small [OF assms(3)] rc(1) rg(1) by linarith+
  ultimately show ?thesis using pool rc(3) rg(3) unfolding c by blast
qed

definition sample_config_args :: "u8 list list" where
  "sample_config_args = replicate 8 [2, 0, 0, 0, 0, 1]"

theorem config_fits_witness:
  "\<exists>c. DSMConfig 0 2 4 2 0x40000000 0x20000000 0x43 sample_config_args = Some c
     \<and> cf_cline_num_per_node c * 4096 \<le> int (unat (cf_cache_size_per_node c))"
proof -
  have "DSMConfig 0 2 4 2 0x40000000 0x20000000 0x43 sample_config_args \<noteq> None"
    by (simp add: DSMConfig_def Let_def max_node_num_def max_appt_num_per_node_def max_syst_num_per_node_def
        to_int32_small max_cline_num_per_node_def max_gblock_num_per_node_def region_size_def MB_def GB_def)
  then obtain c where "DSMConfig 0 2 4 2 0x40000000 0x20000000 0x43 sample_config_args = Some c" by blast
  with config_fits [OF this] show ?thesis by simp
qed

end
