(* ===== verification/Ring.thy ===== *)
theory Ring
  imports Host_Types
begin

text \<open>
  The message rings of the host (\<open>qdma_include/ring_buffer.h\<close>) and the channels built on them
  (\<open>qdma_include/channel_context.h\<close>). A device register is a value of a register file, a function
  from register numbers; a polling loop is given one iteration at a time, with what it observes.
\<close>

section \<open>Ring buffers\<close>

record ring =
  rb_head :: u32
  rb_tail :: u32
  rb_addr :: u64
  rb_size :: u32

definition is_empty :: "('z) ring_scheme \<Rightarrow> bool" where
  "is_empty r \<longleftrightarrow> rb_head r = rb_tail r"

definition is_full :: "('z) ring_scheme \<Rightarrow> bool" where
  "is_full r \<longleftrightarrow> (rb_tail r + 1) mod rb_size r = rb_head r"

definition ring_length :: "('z) ring_scheme \<Rightarrow> u32" where
  "ring_length r = (rb_tail r + rb_size r - rb_head r) mod rb_size r"

type_synonym regs = "u32 \<Rightarrow> u32"

definition MAX_LOOP_SIZE :: nat where "MAX_LOOP_SIZE = 1000"

subsection \<open>Sending\<close>

record tx_ring = ring +
  tx_send_reg :: u32
  tx_recv_reg :: u32
  tx_send_cnt :: u32
  tx_recv_cnt :: u32

definition tx_update_head :: "regs \<Rightarrow> tx_ring \<Rightarrow> tx_ring" where
  "tx_update_head regs r = r\<lparr>tx_recv_cnt := regs (tx_recv_reg r + 512)\<rparr>"

definition tx_update_tail :: "tx_ring \<Rightarrow> regs \<Rightarrow> regs" where
  "tx_update_tail r regs = regs(tx_send_reg r := tx_send_cnt r)"

function tx_poll :: "nat \<Rightarrow> regs \<Rightarrow> tx_ring \<Rightarrow> nat \<times> tx_ring" where
  "tx_poll i regs r =
     (if is_full r \<and> i < MAX_LOOP_SIZE then tx_poll (i + 1) regs (tx_update_head regs r) else (i, r))"
  by auto
termination by (relation "measure (\<lambda>(i, _, _). MAX_LOOP_SIZE - i)") auto

declare tx_poll.simps [simp del]

text \<open>The slot's index; \<open>None\<close> when \<open>rt_assert\<close> throws.\<close>

definition get_tail_element :: "regs \<Rightarrow> tx_ring \<Rightarrow> (u32 \<times> tx_ring) option" where
  "get_tail_element regs r =
     (let (i, r) = tx_poll 0 regs r in if i \<noteq> MAX_LOOP_SIZE then Some (rb_tail r, r) else None)"

definition tx_step_tail :: "regs \<Rightarrow> tx_ring \<Rightarrow> regs \<times> tx_ring" where
  "tx_step_tail regs r =
     (let r = r\<lparr>rb_tail := (rb_tail r + 1) mod rb_size r\<rparr>;
          r = r\<lparr>rb_head := rb_tail r, tx_send_cnt := tx_send_cnt r + 1\<rparr>
      in if tx_send_cnt r mod 1024 = 0
         then (let regs = tx_update_tail r regs in (regs, tx_update_head regs r))
         else (regs, r))"

subsection \<open>Receiving\<close>

record rx_ring = ring +
  rx_head_reg :: u32
  rx_tail_reg :: u32
  rx_last_updated_head :: u32

definition rx_update_head :: "regs \<Rightarrow> rx_ring \<Rightarrow> regs \<times> rx_ring" where
  "rx_update_head regs r =
     (regs(rx_head_reg r := rb_head r), r\<lparr>rx_last_updated_head := rb_head r\<rparr>)"

definition get_head_element :: "rx_ring \<Rightarrow> u64" where
  "get_head_element r = rb_addr r + 64 * ucast (rb_head r)"

definition rx_step_head :: "regs \<Rightarrow> rx_ring \<Rightarrow> regs \<times> rx_ring" where
  "rx_step_head regs r =
     (let count = (rb_head r + rb_size r - rx_last_updated_head r) mod rb_size r;
          (regs, r) = (if 16 \<le> count then rx_update_head regs r else (regs, r));
          (regs, r) = rx_update_head regs r
      in (regs, r\<lparr>rb_head := (rb_head r + 1) mod rb_size r\<rparr>))"

definition new_rx_ring :: "regs \<Rightarrow> u32 \<Rightarrow> u32 \<Rightarrow> u64 \<Rightarrow> u32 \<Rightarrow> rx_ring" where
  "new_rx_ring regs head_index tail_index buffer sz =
     \<lparr>rb_head = regs (tail_index + 512), rb_tail = 0, rb_addr = buffer, rb_size = sz,
      rx_head_reg = head_index, rx_tail_reg = tail_index, rx_last_updated_head = 0\<rparr>"

definition new_tx_ring :: "u32 \<Rightarrow> u32 \<Rightarrow> u64 \<Rightarrow> u32 \<Rightarrow> tx_ring" where
  "new_tx_ring send_index recv_index buffer sz =
     \<lparr>rb_head = 0, rb_tail = 0, rb_addr = buffer, rb_size = sz, tx_send_reg = send_index,
      tx_recv_reg = recv_index, tx_send_cnt = 0, tx_recv_cnt = 0\<rparr>"

section \<open>Channels\<close>

definition FPGA_REG_OFFSET :: u32 where "FPGA_REG_OFFSET = 128"
definition tx_depth :: u32 where "tx_depth = 64"
definition rx_depth :: u32 where "rx_depth = 64"

definition tx_cpu_send_reg :: "u32 \<Rightarrow> u32" where "tx_cpu_send_reg ch = FPGA_REG_OFFSET + ch * 8 + 2"
definition tx_fpga_recv_reg :: "u32 \<Rightarrow> u32" where "tx_fpga_recv_reg ch = FPGA_REG_OFFSET + ch * 8 + 3"
definition rx_head_reg_index :: "u32 \<Rightarrow> u32" where "rx_head_reg_index ch = FPGA_REG_OFFSET + ch * 8 + 6"
definition rx_tail_reg_index :: "u32 \<Rightarrow> u32" where "rx_tail_reg_index ch = FPGA_REG_OFFSET + ch * 8 + 7"

text \<open>Host memory, one 512-bit word per 64-byte slot, and the device's registers and bridge.\<close>

record channel_context =
  ch_index :: u32
  ch_tx_ring :: tx_ring
  ch_rx_ring :: rx_ring
  ch_tx_writeBridge_idx :: u32

record device =
  dv_regs :: regs
  dv_mem :: "u64 \<Rightarrow> u512"
  dv_bridge :: "(u32 \<times> u64 list) list"

text \<open>The two buffers are what the slab allocator and the bridge's base address give.\<close>

definition new_channel :: "u32 \<Rightarrow> u64 \<Rightarrow> u64 \<Rightarrow> device \<Rightarrow> channel_context \<times> device" where
  "new_channel ch bridge_base rx_buffer dv =
     (let tx_buffer = bridge_base + ucast (ch * tx_depth) * 64;
          c = \<lparr>ch_index = ch,
               ch_tx_ring = new_tx_ring (tx_cpu_send_reg ch) (tx_fpga_recv_reg ch) tx_buffer tx_depth,
               ch_rx_ring = new_rx_ring (dv_regs dv) (rx_head_reg_index ch) (rx_tail_reg_index ch) rx_buffer rx_depth,
               ch_tx_writeBridge_idx = ch * tx_depth\<rparr>;
          mem = fold (\<lambda>i m. m(rx_buffer + 64 * of_nat i := 0)) [0..<unat rx_depth] (dv_mem dv);
          regs = (dv_regs dv)
            (FPGA_REG_OFFSET + ch * 8 := ch * tx_depth,
             FPGA_REG_OFFSET + ch * 8 + 1 := (ch + 1) * tx_depth - 1,
             FPGA_REG_OFFSET + ch * 8 + 4 := ucast rx_buffer,
             FPGA_REG_OFFSET + ch * 8 + 5 := ucast (drop_bit 32 rx_buffer))
      in (c, dv\<lparr>dv_mem := mem, dv_regs := regs\<rparr>))"

definition send :: "channel_context \<Rightarrow> RawMessage \<Rightarrow> device \<Rightarrow> device" where
  "send c m dv = dv\<lparr>dv_bridge := dv_bridge dv @ [(ch_tx_writeBridge_idx c, union_values m)]\<rparr>"

definition owner_of :: "u512 \<Rightarrow> u8" where "owner_of w = get_range 431 424 w"

definition clear_owner :: "u512 \<Rightarrow> u512" where "clear_owner w = set_range 431 424 (0 :: u8) w"

datatype 'a poll = Again | Stopped | Got 'a

definition take_head :: "channel_context \<Rightarrow> device \<Rightarrow> u64 \<times> channel_context \<times> device" where
  "take_head c dv =
     (let a = get_head_element (ch_rx_ring c);
          dv = dv\<lparr>dv_mem := (dv_mem dv)(a := clear_owner (dv_mem dv a))\<rparr>;
          (regs, r) = rx_step_head (dv_regs dv) (ch_rx_ring c)
      in (a, c\<lparr>ch_rx_ring := r\<rparr>, dv\<lparr>dv_regs := regs\<rparr>))"

text \<open>One iteration of \<open>recv(stop)\<close>: the result is the address of the slot, not a copy of it.\<close>

definition recv_stop :: "bool \<Rightarrow> channel_context \<Rightarrow> device \<Rightarrow> u64 poll \<times> channel_context \<times> device" where
  "recv_stop stop c dv =
     (let flag = owner_of (dv_mem dv (get_head_element (ch_rx_ring c))) in
      if stop then (Stopped, c, dv)
      else if flag = 0 then (Again, c, dv)
      else (let (a, c, dv) = take_head c dv in (Got a, c, dv)))"

text \<open>One iteration of \<open>recv()\<close>, where running out of time ends the process, and of
  \<open>recv_msg()\<close>, where it returns a message of type \<open>0xff\<close>.\<close>

definition recv :: "bool \<Rightarrow> channel_context \<Rightarrow> device \<Rightarrow> u64 poll \<times> channel_context \<times> device" where
  "recv timed_out c dv =
     (let flag = owner_of (dv_mem dv (get_head_element (ch_rx_ring c))) in
      if timed_out then (Stopped, c, dv)
      else if flag = 0 then (Again, c, dv)
      else (let (a, c, dv) = take_head c dv in (Got a, c, dv)))"

definition recv_msg :: "RawMessage \<Rightarrow> bool \<Rightarrow> channel_context \<Rightarrow> device \<Rightarrow>
    RawMessage poll \<times> channel_context \<times> device" where
  "recv_msg m0 timed_out c dv =
     (let a = get_head_element (ch_rx_ring c); flag = owner_of (dv_mem dv a) in
      if timed_out then (Got (m0\<lparr>rm_mtype := 0xff\<rparr>), c, dv)
      else if flag = 0 then (Again, c, dv)
      else (let m = raw_of_bytes (bytes_of 64 (dv_mem dv a)); (_, c, dv) = take_head c dv
            in (Got m, c, dv)))"

section \<open>Lemmas\<close>

text \<open>A sender's ring is never full: every step leaves head and tail equal.\<close>

lemma tx_step_not_full:
  assumes "2 \<le> rb_size r" "tx_step_tail regs r = (regs', r')"
  shows "\<not> is_full r'" "rb_head r' = rb_tail r'" "rb_size r' = rb_size r"
proof -
  have *: "rb_head r' = (rb_tail r + 1) mod rb_size r" "rb_tail r' = (rb_tail r + 1) mod rb_size r"
    "rb_size r' = rb_size r"
    using assms(2) by (auto simp: tx_step_tail_def tx_update_head_def Let_def split: if_splits)
  then show "rb_head r' = rb_tail r'" "rb_size r' = rb_size r" by simp_all
  have "x \<noteq> (x + 1) mod n" if "2 \<le> n" "x < n" for x n :: u32
  proof (cases "x + 1 < n")
    case True
    then show ?thesis by (simp add: mod_word_less)
  next
    case False
    with that have "x + 1 = n"
      by (metis linorder_neqE inc_le leD)
    then show ?thesis using that by (auto simp: word_le_nat_alt)
  qed
  moreover have "(rb_tail r + 1) mod rb_size r < rb_size r"
    using assms(1) by (intro word_mod_less_divisor) (auto simp: word_le_nat_alt word_less_nat_alt)
  ultimately show "\<not> is_full r'" using assms(1) unfolding is_full_def * by metis
qed

lemma rx_step_head_eq:
  "rx_step_head regs r =
     (regs(rx_head_reg r := rb_head r),
      r\<lparr>rx_last_updated_head := rb_head r, rb_head := (rb_head r + 1) mod rb_size r\<rparr>)"
  by (simp add: rx_step_head_def rx_update_head_def Let_def)

end
