(* ===== verification/Qdma.thy ===== *)
theory Qdma
  imports Messages "HOL-Library.Monad_Syntax"
begin

text \<open>
  The modules between the controllers and the DMA engine of the host (\<open>hls/highPara/src/qdma\<close>):
  the two managers of the message rings in host memory, which are one program at two sizes, the
  module that hands control messages to them, the one that merges their traffic with the data
  written to cache lines, and the three that take what the host sends.
\<close>

definition PSEUDO_QID_BMAPP :: "11 word" where "PSEUDO_QID_BMAPP = 0"
definition PSEUDO_QID_BMSYS :: "11 word" where "PSEUDO_QID_BMSYS = 1"

section \<open>Managers of the rings in host memory\<close>

text \<open>The tail registers, the message that found its ring full, and the streams. The addresses and
  the heads of the rings are inputs, read every cycle.\<close>

record buf_mgr =
  bm_tidx :: "u32 list"
  bm_retry_flag :: u1
  bm_retry_data :: c2h_data
  bm_data_in :: "c2h_data list"
  bm_cmd_out :: "c2h_cmd list"
  bm_data_out :: "c2h_data list"
  bm_count :: u32

definition tidx_plus1 :: "u8 \<Rightarrow> u8" where
  "tidx_plus1 t = (if t = of_nat max_msg_num_per_q - 1 then 0 else t + 1)"

definition mgr_cmd :: "11 word \<Rightarrow> u64 \<Rightarrow> u8 \<Rightarrow> c2h_cmd" where
  "mgr_cmd qid addr t =
     \<lparr>cc_addr = addr + of_nat max_msg_length * ucast t, cc_len = of_nat max_msg_length, cc_qid = qid\<rparr>"

definition mgr_put :: "11 word \<Rightarrow> u64 list \<Rightarrow> u32 list \<Rightarrow> c2h_data \<Rightarrow> buf_mgr \<Rightarrow> buf_mgr option" where
  "mgr_put qid addrs hidxs d s =
     (let s = s\<lparr>bm_retry_data := d\<rparr>; q = unat (ucast (cd_ctrl_qid d) :: u8) in
      if q < length addrs then
        (let t = ucast (bm_tidx s ! q) :: u8; h = ucast (hidxs ! q) :: u8 in
         Some (if tidx_plus1 t \<noteq> h then
                 s\<lparr>bm_cmd_out := bm_cmd_out s @ [mgr_cmd qid (addrs ! q) t],
                   bm_data_out := bm_data_out s @ [d\<lparr>cd_ctrl_qid := qid\<rparr>],
                   bm_tidx := (bm_tidx s)[q := ucast (tidx_plus1 t)],
                   bm_retry_flag := 0, bm_count := bm_count s + 1\<rparr>
               else s\<lparr>bm_retry_flag := 1\<rparr>))
      else None)"

definition c2hMultiBufferMgr :: "11 word \<Rightarrow> u64 list \<Rightarrow> u32 list \<Rightarrow> buf_mgr \<Rightarrow> buf_mgr option" where
  "c2hMultiBufferMgr qid addrs hidxs s =
     (if bm_retry_flag s \<noteq> 0 then mgr_put qid addrs hidxs (bm_retry_data s) s
      else case bm_data_in s of
             d # ds \<Rightarrow> mgr_put qid addrs hidxs d (s\<lparr>bm_data_in := ds\<rparr>)
           | [] \<Rightarrow> Some s)"

definition c2hAppMultiBufferMgrHLS :: "u64 list \<Rightarrow> u32 list \<Rightarrow> buf_mgr \<Rightarrow> buf_mgr option" where
  "c2hAppMultiBufferMgrHLS = c2hMultiBufferMgr PSEUDO_QID_BMAPP"

definition c2hSysMultiBufferMgrHLS :: "u64 list \<Rightarrow> u32 list \<Rightarrow> buf_mgr \<Rightarrow> buf_mgr option" where
  "c2hSysMultiBufferMgrHLS = c2hMultiBufferMgr PSEUDO_QID_BMSYS"

section \<open>Handing control messages to the rings\<close>

record ctrl_deliver =
  cv_q_id :: u32
  cv_msg_in :: "ctrl_msg list"
  cv_ABM_out :: "c2h_data list"
  cv_SBM_out :: "c2h_data list"

definition next_sys_queue :: "u32 \<Rightarrow> u32 \<Rightarrow> u32 \<times> u32" where
  "next_sys_queue q_num q = (if uint q_num - 1 \<le> uint q then (0, 0) else (q, q + 1))"

definition c2hCtrlMsgDeliverHLS :: "u32 \<Rightarrow> c2h_data \<Rightarrow> ctrl_deliver \<Rightarrow> ctrl_deliver" where
  "c2hCtrlMsgDeliverHLS q_num c0 s =
     (case cv_msg_in s of
        [] \<Rightarrow> s
      | m # ms \<Rightarrow>
          (let s = s\<lparr>cv_msg_in := ms\<rparr> in
           if cm_dst_thread_type m = 0 then
             (let (m, c) = ctrl_msg_to_c2h_data m c0 (unat PSEUDO_QID_BMAPP)
              in s\<lparr>cv_ABM_out := cv_ABM_out s @ [c\<lparr>cd_ctrl_qid := ucast (cm_req_cline_appThreadID m)\<rparr>]\<rparr>)
           else
             (let (q, q') = next_sys_queue q_num (cv_q_id s);
                  (m, c) = ctrl_msg_to_c2h_data m c0 (unat PSEUDO_QID_BMSYS)
              in s\<lparr>cv_q_id := q', cv_SBM_out := cv_SBM_out s @ [c\<lparr>cd_ctrl_qid := ucast q\<rparr>]\<rparr>)))"

section \<open>Merging the traffic to the host\<close>

text \<open>Three sources of commands and data, numbered as in the ready flag: the application rings, the
  system rings, and the cache lines of the deparser.\<close>

datatype source = ABM | SBM | Dpr

primrec source_code :: "source \<Rightarrow> u32" where
  "source_code ABM = 0" | "source_code SBM = 1" | "source_code Dpr = 2"

record cmd_data_deliver =
  cd_ready_idx :: u32
  cd_end_flag :: u1
  cd_c2h_cmd :: c2h_cmd
  cd_cmd_in :: "source \<Rightarrow> c2h_cmd list"
  cd_data_in :: "source \<Rightarrow> c2h_data list"
  cd_cmd_out :: "c2h_cmd list"
  cd_data_out :: "c2h_data list"
  cd_count :: u32

definition valid_flag :: "cmd_data_deliver \<Rightarrow> source \<Rightarrow> bool" where
  "valid_flag s x \<longleftrightarrow> cd_cmd_in s x \<noteq> [] \<and> cd_data_in s x \<noteq> []"

definition ready_idx :: "bool \<Rightarrow> bool \<Rightarrow> bool \<Rightarrow> u32 \<Rightarrow> u32" where
  "ready_idx app sys d r =
     (case (d, sys, app) of
        (False, False, False) \<Rightarrow> 0xffff
      | (False, False, True) \<Rightarrow> 0
      | (False, True, False) \<Rightarrow> 1
      | (True, False, False) \<Rightarrow> 2
      | (True, True, True) \<Rightarrow> if r = 2 then 0 else r + 1
      | (False, True, True) \<Rightarrow> if r = 0 then 1 else 0
      | (True, False, True) \<Rightarrow> if r = 2 then 0 else 2
      | (True, True, False) \<Rightarrow> if r = 1 then 2 else 1)"

definition deliver_first :: "source \<Rightarrow> cmd_data_deliver \<Rightarrow> cmd_data_deliver" where
  "deliver_first x s =
     (let c = hd (cd_cmd_in s x); d = hd (cd_data_in s x);
          s = s\<lparr>cd_cmd_in := (cd_cmd_in s)(x := tl (cd_cmd_in s x)),
                cd_data_in := (cd_data_in s)(x := tl (cd_data_in s x))\<rparr>;
          s = (if cd_last d = 0 then s\<lparr>cd_end_flag := 0, cd_c2h_cmd := c\<rparr> else s)
      in s\<lparr>cd_cmd_out := cd_cmd_out s @ [c\<lparr>cc_qid := 0\<rparr>],
           cd_data_out := cd_data_out s @ [d\<lparr>cd_ctrl_qid := 0\<rparr>], cd_count := cd_count s + 1\<rparr>)"

definition deliver_next :: "source \<Rightarrow> cmd_data_deliver \<Rightarrow> cmd_data_deliver" where
  "deliver_next x s =
     (let d = hd (cd_data_in s x);
          s = s\<lparr>cd_data_in := (cd_data_in s)(x := tl (cd_data_in s x)),
                cd_data_out := cd_data_out s @ [d\<lparr>cd_ctrl_qid := 0\<rparr>]\<rparr>
      in if cd_last d = 1 then s\<lparr>cd_end_flag := 1\<rparr> else s)"

definition c2hCmdDataDeliverHLS :: "cmd_data_deliver \<Rightarrow> cmd_data_deliver" where
  "c2hCmdDataDeliverHLS s =
     (if cd_end_flag s = 1 then
        (let i = ready_idx (valid_flag s ABM) (valid_flag s SBM) (valid_flag s Dpr) (cd_ready_idx s);
             s = s\<lparr>cd_ready_idx := i\<rparr>
         in if i = 0 then deliver_first ABM s
            else if i = 1 then deliver_first SBM s
            else if i = 2 then deliver_first Dpr s
            else s)
      else if cc_qid (cd_c2h_cmd s) = PSEUDO_QID_BMAPP \<and> cd_data_in s ABM \<noteq> [] then deliver_next ABM s
      else if cc_qid (cd_c2h_cmd s) = PSEUDO_QID_BMSYS \<and> cd_data_in s SBM \<noteq> [] then deliver_next SBM s
      else if cc_qid (cd_c2h_cmd s) = 2 \<and> cd_data_in s Dpr \<noteq> [] then deliver_next Dpr s
      else s)"

section \<open>Taking what the host sends\<close>

definition h2cCmdDeliverHLS :: "h2c_cmd list \<Rightarrow> h2c_cmd list \<Rightarrow> h2c_cmd list \<times> h2c_cmd list" where
  "h2cCmdDeliverHLS cs out = (case cs of [] \<Rightarrow> ([], out) | c # cs \<Rightarrow> (cs, out @ [c\<lparr>hc_qid := 0\<rparr>]))"

definition h2cDataDeliverHLS :: "h2c_data list \<Rightarrow> h2c_data list \<Rightarrow> h2c_data list \<times> h2c_data list" where
  "h2cDataDeliverHLS ds out = (case ds of [] \<Rightarrow> ([], out) | d # ds \<Rightarrow> (ds, out @ [d]))"

record host_ctrl =
  ho_w_in :: "h2c_w list"
  ho_ctrl_out :: "ctrl_msg list"
  ho_net_init_out :: "net_init_msg list"
  ho_dir_init_out :: "dir_data list"

definition h2cCtrlMsgDeliverHLS :: "ctrl_msg \<Rightarrow> net_init_msg \<Rightarrow> dir_data \<Rightarrow> host_ctrl \<Rightarrow> host_ctrl" where
  "h2cCtrlMsgDeliverHLS m0 n0 d0 s =
     (case ho_w_in s of
        [] \<Rightarrow> s
      | h # hs \<Rightarrow>
          (let s = s\<lparr>ho_w_in := hs\<rparr> in
           if extract_mtype_from_h2c_w h = mtype_code INIT_DIR then
             s\<lparr>ho_dir_init_out := ho_dir_init_out s @ [h2c_w_to_dir_data h d0]\<rparr>
           else if extract_mtype_from_h2c_w h = mtype_code INIT_NET then
             s\<lparr>ho_net_init_out := ho_net_init_out s @ [h2c_w_to_net_init_msg h n0]\<rparr>
           else s\<lparr>ho_ctrl_out := ho_ctrl_out s @ [h2c_w_to_ctrl_msg h m0]\<rparr>))"

section \<open>Bursts are not interleaved\<close>

definition closed_burst :: "c2h_data list \<Rightarrow> bool" where
  "closed_burst b \<longleftrightarrow> b \<noteq> [] \<and> cd_last (last b) = 1 \<and> (\<forall>d \<in> set (butlast b). cd_last d = 0)"

text \<open>What was sent is a sequence of closed bursts, one command each, and perhaps an open one.\<close>

definition framed :: "cmd_data_deliver \<Rightarrow> bool" where
  "framed s \<longleftrightarrow>
     (\<exists>bs cur. cd_data_out s = concat bs @ cur \<and> (\<forall>b \<in> set bs. closed_burst b)
        \<and> (\<forall>d \<in> set cur. cd_last d = 0)
        \<and> (cur = [] \<longleftrightarrow> cd_end_flag s = 1)
        \<and> length (cd_cmd_out s) = length bs + (if cur = [] then 0 else 1))"

lemma bit_cases: "(b :: u1) = 0 \<or> b = 1"
proof -
  have "unat b < 2" using unsigned_less [where 'a = nat, of b] by simp
  then show ?thesis by (auto simp: word_unat_eq_iff)
qed

lemma framedI_closed:
  assumes "cd_data_out s = concat bs @ cur @ [d]" "\<forall>b \<in> set bs. closed_burst b" "\<forall>d \<in> set cur. cd_last d = 0"
    "cd_last d = 1" "cd_end_flag s = 1" "length (cd_cmd_out s) = Suc (length bs)"
  shows "framed s"
  unfolding framed_def using assms
  by (intro exI [of _ "bs @ [cur @ [d]]"] exI [of _ "[]"]) (auto simp: closed_burst_def)

lemma framedI_open:
  assumes "cd_data_out s = concat bs @ cur @ [d]" "\<forall>b \<in> set bs. closed_burst b" "\<forall>d \<in> set cur. cd_last d = 0"
    "cd_last d = 0" "cd_end_flag s = 0" "length (cd_cmd_out s) = Suc (length bs)"
  shows "framed s"
  unfolding framed_def using assms by (intro exI [of _ bs] exI [of _ "cur @ [d]"]) auto

lemma framed_first:
  assumes "framed s" "cd_end_flag s = 1"
  shows "framed (deliver_first x s)"
proof -
  from assms obtain bs where bs: "cd_data_out s = concat bs" "\<forall>b \<in> set bs. closed_burst b"
    "length (cd_cmd_out s) = length bs" by (auto simp: framed_def)
  let ?d = "hd (cd_data_in s x)\<lparr>cd_ctrl_qid := 0\<rparr>"
  show ?thesis
  proof (cases "cd_last (hd (cd_data_in s x)) = 0")
    case True
    with bs assms show ?thesis
      by (intro framedI_open [of _ bs "[]" ?d]) (simp_all add: deliver_first_def Let_def)
  next
    case False
    then have "cd_last (hd (cd_data_in s x)) = 1" using bit_cases by blast
    with bs assms show ?thesis
      by (intro framedI_closed [of _ bs "[]" ?d]) (simp_all add: deliver_first_def Let_def)
  qed
qed

lemma framed_next:
  assumes "framed s" "cd_end_flag s \<noteq> 1"
  shows "framed (deliver_next x s)"
proof -
  from assms obtain bs cur where bs: "cd_data_out s = concat bs @ cur" "\<forall>b \<in> set bs. closed_burst b"
    "\<forall>d \<in> set cur. cd_last d = 0" "length (cd_cmd_out s) = Suc (length bs)"
    by (auto simp: framed_def split: if_splits)
  have z: "cd_end_flag s = 0" using assms(2) bit_cases by blast
  let ?d = "hd (cd_data_in s x)\<lparr>cd_ctrl_qid := 0\<rparr>"
  show ?thesis
  proof (cases "cd_last (hd (cd_data_in s x)) = 1")
    case True
    with bs show ?thesis
      by (intro framedI_closed [of _ bs cur ?d]) (simp_all add: deliver_next_def Let_def)
  next
    case False
    then have "cd_last (hd (cd_data_in s x)) = 0" using bit_cases by blast
    with bs z show ?thesis
      by (intro framedI_open [of _ bs cur ?d]) (simp_all add: deliver_next_def Let_def)
  qed
qed

lemma framed_ready_idx [simp]: "framed (s\<lparr>cd_ready_idx := i\<rparr>) = framed s"
  by (simp add: framed_def)

lemma framed_cycle: "framed s \<Longrightarrow> framed (c2hCmdDataDeliverHLS s)"
  by (simp add: c2hCmdDataDeliverHLS_def Let_def framed_first framed_next)

inductive deliver_step :: "cmd_data_deliver \<Rightarrow> cmd_data_deliver \<Rightarrow> bool" where
  cycle: "deliver_step s (c2hCmdDataDeliverHLS s)"
| command: "cc_qid c = ucast (source_code x) \<Longrightarrow> deliver_step s (s\<lparr>cd_cmd_in := (cd_cmd_in s)(x := cd_cmd_in s x @ [c])\<rparr>)"
| beat: "deliver_step s (s\<lparr>cd_data_in := (cd_data_in s)(x := cd_data_in s x @ [d])\<rparr>)"

inductive_cases deliver_stepE: "deliver_step s s'"

lemma framed_step: "framed s \<Longrightarrow> deliver_step s s' \<Longrightarrow> framed s'"
  by (erule deliver_stepE) (simp_all add: framed_cycle, simp_all add: framed_def)

lemma framed_steps: "deliver_step\<^sup>*\<^sup>* s s' \<Longrightarrow> framed s \<Longrightarrow> framed s'"
  by (induction rule: rtranclp_induct) (auto intro: framed_step)

text \<open>An open burst reads only the stream of the source that opened it.\<close>

lemma open_burst_reads:
  assumes "cd_end_flag s \<noteq> 1" "cc_qid (cd_c2h_cmd s) = ucast (source_code x)" "y \<noteq> x"
  shows "cd_data_in (c2hCmdDataDeliverHLS s) y = cd_data_in s y"
    and "cd_cmd_in (c2hCmdDataDeliverHLS s) = cd_cmd_in s"
  using assms
  by (cases x; simp add: c2hCmdDataDeliverHLS_def deliver_next_def Let_def PSEUDO_QID_BMAPP_def
      PSEUDO_QID_BMSYS_def)+

section \<open>An idle cycle starves all three sources\<close>

lemma stuck_step:
  assumes "cd_end_flag s = 1" "\<forall>x. valid_flag s x" "3 \<le> unat (cd_ready_idx s + 1)"
    "cd_ready_idx s \<noteq> 2"
  shows "c2hCmdDataDeliverHLS s = s\<lparr>cd_ready_idx := cd_ready_idx s + 1\<rparr>"
proof -
  have "cd_ready_idx s + 1 \<noteq> 0" "cd_ready_idx s + 1 \<noteq> 1" "cd_ready_idx s + 1 \<noteq> 2"
    using assms(3) by auto
  with assms show ?thesis by (simp add: c2hCmdDataDeliverHLS_def ready_idx_def Let_def)
qed

lemma unat_ready_add: "unat (r :: u32) + n < 2 ^ 32 \<Longrightarrow> unat (r + of_nat n) = unat r + n"
  by (simp add: unat_word_ariths unat_of_nat)

lemma stuck_run:
  assumes "cd_end_flag s = 1" "\<forall>x. valid_flag s x" "3 \<le> unat (cd_ready_idx s)"
    "unat (cd_ready_idx s) + n < 2 ^ 32"
  shows "(c2hCmdDataDeliverHLS ^^ n) s = s\<lparr>cd_ready_idx := cd_ready_idx s + of_nat n\<rparr>"
  using assms(4)
proof (induction n)
  case 0
  then show ?case by simp
next
  case (Suc n)
  let ?s = "s\<lparr>cd_ready_idx := cd_ready_idx s + of_nat n\<rparr>"
  have u: "unat (cd_ready_idx ?s) = unat (cd_ready_idx s) + n"
    "unat (cd_ready_idx ?s + 1) = unat (cd_ready_idx s) + Suc n"
    using Suc.prems unat_ready_add [of "cd_ready_idx s" n] unat_ready_add [of "cd_ready_idx s" "Suc n"]
    by (simp_all add: add.assoc add.commute [of 1])
  then have "cd_ready_idx ?s \<noteq> 2" using assms(3) by auto
  then have "c2hCmdDataDeliverHLS ?s = ?s\<lparr>cd_ready_idx := cd_ready_idx ?s + 1\<rparr>"
    using assms u by (intro stuck_step) (simp_all add: valid_flag_def)
  then show ?case using Suc by (simp add: add.assoc add.commute [of 1])
qed

section \<open>Properties\<close>

text \<open>The commands of a source carry its queue number, so an open burst knows its source.\<close>

definition tagged :: "cmd_data_deliver \<Rightarrow> bool" where
  "tagged s \<longleftrightarrow> (\<forall>x. \<forall>c \<in> set (cd_cmd_in s x). cc_qid c = ucast (source_code x))
     \<and> (cd_end_flag s \<noteq> 1 \<longrightarrow> (\<exists>x. cc_qid (cd_c2h_cmd s) = ucast (source_code x)))"

lemma tagged_first:
  assumes "tagged s" "valid_flag s x" "cd_end_flag s = 1"
  shows "tagged (deliver_first x s)"
proof -
  have "hd (cd_cmd_in s x) \<in> set (cd_cmd_in s x)" using assms(2) by (simp add: valid_flag_def)
  moreover have "set (tl (cd_cmd_in s x)) \<subseteq> set (cd_cmd_in s x)" by (cases "cd_cmd_in s x") auto
  ultimately show ?thesis using assms unfolding tagged_def deliver_first_def Let_def by auto
qed

lemma ready_source:
  "ready_idx a b c r = 0 \<Longrightarrow> a" "ready_idx a b c r = 1 \<Longrightarrow> b" "ready_idx a b c r = 2 \<Longrightarrow> c"
  by (simp_all add: ready_idx_def split: bool.splits if_splits)

lemma tagged_ready_idx [simp]: "tagged (s\<lparr>cd_ready_idx := i\<rparr>) = tagged s"
  by (simp add: tagged_def)

lemma valid_ready_idx [simp]: "valid_flag (s\<lparr>cd_ready_idx := i\<rparr>) = valid_flag s"
  by (simp add: valid_flag_def fun_eq_iff)

lemma tagged_next: "tagged s \<Longrightarrow> cd_end_flag s \<noteq> 1 \<Longrightarrow> tagged (deliver_next x s)"
  by (simp add: tagged_def deliver_next_def Let_def)

lemma tagged_cycle: "tagged s \<Longrightarrow> tagged (c2hCmdDataDeliverHLS s)"
  by (auto simp: c2hCmdDataDeliverHLS_def Let_def intro!: tagged_first tagged_next dest: ready_source)

lemma tagged_step: "tagged s \<Longrightarrow> deliver_step s s' \<Longrightarrow> tagged s'"
  by (erule deliver_stepE) (simp_all add: tagged_cycle, simp_all add: tagged_def)

lemma tagged_steps: "deliver_step\<^sup>*\<^sup>* s s' \<Longrightarrow> tagged s \<Longrightarrow> tagged s'"
  by (induction rule: rtranclp_induct) (auto intro: tagged_step)

definition deliver_start :: "cmd_data_deliver \<Rightarrow> bool" where
  "deliver_start s \<longleftrightarrow> cd_end_flag s = 1 \<and> cd_cmd_out s = [] \<and> cd_data_out s = []
     \<and> (\<forall>x. cd_cmd_in s x = [] \<and> cd_data_in s x = [])"


definition sample_deliver :: cmd_data_deliver where
  "sample_deliver = \<lparr>cd_ready_idx = 0xffff, cd_end_flag = 1, cd_c2h_cmd = \<lparr>cc_addr = 0, cc_len = 0, cc_qid = 0\<rparr>,
     cd_cmd_in = \<lambda>_. [], cd_data_in = \<lambda>_. [], cd_cmd_out = [], cd_data_out = [], cd_count = 0\<rparr>"

definition sample_busy :: cmd_data_deliver where
  "sample_busy = sample_deliver\<lparr>
     cd_cmd_in := (\<lambda>x. [\<lparr>cc_addr = 64, cc_len = 64, cc_qid = ucast (source_code x)\<rparr>]),
     cd_data_in := (\<lambda>x. [\<lparr>cd_data = 5, cd_ctrl_qid = 0, cd_last = 0\<rparr>])\<rparr>"

lemma sample_burst:
  "deliver_step\<^sup>*\<^sup>* sample_deliver
     (sample_deliver\<lparr>cd_cmd_in := (\<lambda>_. [])(Dpr := [\<lparr>cc_addr = 64, cc_len = 64, cc_qid = 2\<rparr>]),
        cd_data_in := (\<lambda>_. [])(Dpr := [\<lparr>cd_data = 5, cd_ctrl_qid = 0, cd_last = 0\<rparr>])\<rparr>)" (is "deliver_step\<^sup>*\<^sup>* _ ?s")
proof -
  let ?c = "\<lparr>cc_addr = 64, cc_len = 64, cc_qid = 2\<rparr> :: c2h_cmd"
  let ?s1 = "sample_deliver\<lparr>cd_cmd_in := (\<lambda>_. [])(Dpr := [?c])\<rparr>"
  have "deliver_step sample_deliver ?s1"
    using deliver_step.command [of ?c Dpr sample_deliver] by (simp add: sample_deliver_def)
  moreover have "deliver_step ?s1 ?s"
    using deliver_step.beat [of ?s1 Dpr] by (simp add: sample_deliver_def)
  ultimately show ?thesis by (rule converse_rtranclp_into_rtranclp [OF _ r_into_rtranclp])
qed


text \<open>(C24) If all three sources have traffic right after an idle cycle, which leaves the round-robin
  index at 0xffff, the merger delivers nothing for the next 2^32 - 0x10000 cycles: the index counts
  up through all the values that name no source before it reaches 0 again.\<close>

theorem idle_cycle_starves_sources:
  assumes "cd_end_flag s = 1" "cd_ready_idx s = 0xffff" "\<forall>x. valid_flag s x" "n < 2 ^ 32 - 0xffff"
  shows "cd_cmd_out ((c2hCmdDataDeliverHLS ^^ n) s) = cd_cmd_out s
    \<and> cd_data_out ((c2hCmdDataDeliverHLS ^^ n) s) = cd_data_out s
    \<and> cd_cmd_in ((c2hCmdDataDeliverHLS ^^ n) s) = cd_cmd_in s"
proof -
  have "(c2hCmdDataDeliverHLS ^^ n) s = s\<lparr>cd_ready_idx := cd_ready_idx s + of_nat n\<rparr>"
    using assms by (intro stuck_run) simp_all
  then show ?thesis by simp
qed

theorem idle_cycle_starves_sources_witness:
  "cd_ready_idx (c2hCmdDataDeliverHLS sample_deliver) = 0xffff
     \<and> cd_cmd_out ((c2hCmdDataDeliverHLS ^^ 4000000000) sample_busy) = []"
  using idle_cycle_starves_sources [of sample_busy 4000000000]
  by (simp add: sample_busy_def sample_deliver_def valid_flag_def c2hCmdDataDeliverHLS_def ready_idx_def Let_def)



end
