(* ===== verification/C2h_Ring.thy ===== *)
theory C2h_Ring
  imports Ring Qdma
begin

text \<open>
  The path of a message from the FPGA to a host thread: the manager of the rings accepts it for
  the next slot of its ring, the DMA engine writes the slot, and the thread takes it from the head
  and tells the manager how far it has got. The thread is given a pointer to the slot, so the slot
  must stay untouched until it asks for the next message. The DMA engine executes its commands in
  order; that is the one assumption about hardware outside the repository.
\<close>

section \<open>The system\<close>

text \<open>The last three components are ghosts, per ring: the messages accepted, how many of them were
  written, and how many were taken.\<close>

record c2h_sys =
  cs_mgr :: buf_mgr
  cs_dev :: device
  cs_ch :: "nat \<Rightarrow> channel_context"
  cs_sent :: "nat \<Rightarrow> u512 list"
  cs_landed :: "nat \<Rightarrow> nat"
  cs_taken :: "nat \<Rightarrow> nat"

text \<open>The inputs of the manager are the host's registers: the ring's base and its head.\<close>

definition ring_base :: "c2h_sys \<Rightarrow> nat \<Rightarrow> u64" where
  "ring_base s q = rb_addr (ch_rx_ring (cs_ch s q))"

definition head_regs :: "nat \<Rightarrow> c2h_sys \<Rightarrow> u32 list" where
  "head_regs n s = map (\<lambda>q. dv_regs (cs_dev s) (rx_head_reg (ch_rx_ring (cs_ch s q)))) [0..<n]"

definition mgr_input :: "c2h_sys \<Rightarrow> c2h_data option" where
  "mgr_input s =
     (if bm_retry_flag (cs_mgr s) \<noteq> 0 then Some (bm_retry_data (cs_mgr s))
      else case bm_data_in (cs_mgr s) of [] \<Rightarrow> None | d # ds \<Rightarrow> Some d)"

definition queue_of :: "c2h_data \<Rightarrow> nat" where
  "queue_of d = unat (ucast (cd_ctrl_qid d) :: u8)"

text \<open>A cycle of the manager accepts a message exactly if it appends a command.\<close>

definition mgr_cycle :: "11 word \<Rightarrow> nat \<Rightarrow> c2h_sys \<Rightarrow> c2h_sys option" where
  "mgr_cycle qid n s =
     (case c2hMultiBufferMgr qid (map (ring_base s) [0..<n]) (head_regs n s) (cs_mgr s) of
        None \<Rightarrow> None
      | Some m \<Rightarrow>
          Some (s\<lparr>cs_mgr := m,
             cs_sent := (case mgr_input s of
                None \<Rightarrow> cs_sent s
              | Some d \<Rightarrow> if bm_cmd_out m = bm_cmd_out (cs_mgr s) then cs_sent s
                          else (cs_sent s)(queue_of d := cs_sent s (queue_of d) @ [cd_data d]))\<rparr>))"

definition dma_write :: "nat \<Rightarrow> c2h_sys \<Rightarrow> c2h_sys" where
  "dma_write q s =
     (case (bm_cmd_out (cs_mgr s), bm_data_out (cs_mgr s)) of
        (c # cs, d # ds) \<Rightarrow>
          s\<lparr>cs_mgr := (cs_mgr s)\<lparr>bm_cmd_out := cs, bm_data_out := ds\<rparr>,
            cs_dev := (cs_dev s)\<lparr>dv_mem := (dv_mem (cs_dev s))(cc_addr c := cd_data d)\<rparr>,
            cs_landed := (cs_landed s)(q := cs_landed s q + 1)\<rparr>
      | _ \<Rightarrow> s)"

definition host_recv :: "bool \<Rightarrow> nat \<Rightarrow> c2h_sys \<Rightarrow> c2h_sys" where
  "host_recv stop q s =
     (let (res, c, dv) = recv_stop stop (cs_ch s q) (cs_dev s)
      in s\<lparr>cs_ch := (cs_ch s)(q := c), cs_dev := dv,
           cs_taken := (case res of Got _ \<Rightarrow> (cs_taken s)(q := cs_taken s q + 1) | _ \<Rightarrow> cs_taken s)\<rparr>)"

definition slot :: "c2h_sys \<Rightarrow> nat \<Rightarrow> nat \<Rightarrow> u64" where
  "slot s q i = ring_base s q + 64 * of_nat (i mod 64)"

inductive c2h_step :: "11 word \<Rightarrow> nat \<Rightarrow> c2h_sys \<Rightarrow> c2h_sys \<Rightarrow> bool" for qid n where
  arrive: "queue_of d < n \<Longrightarrow> owner_of (cd_data d) \<noteq> 0 \<Longrightarrow>
    c2h_step qid n s (s\<lparr>cs_mgr := (cs_mgr s)\<lparr>bm_data_in := bm_data_in (cs_mgr s) @ [d]\<rparr>\<rparr>)"
| manager: "mgr_cycle qid n s = Some s' \<Longrightarrow> c2h_step qid n s s'"
| dma: "bm_cmd_out (cs_mgr s) = c # cs \<Longrightarrow> q < n \<Longrightarrow> cc_addr c = slot s q i \<Longrightarrow>
    c2h_step qid n s (dma_write q s)"
| host: "q < n \<Longrightarrow> c2h_step qid n s (host_recv stop q s)"

inductive_cases c2h_stepE: "c2h_step qid n s s'"

section \<open>The invariant of one ring\<close>

text \<open>With \<open>a\<close> messages accepted, \<open>l\<close> written and \<open>g\<close> taken, the slots of \<open>[g, l)\<close> hold the
  messages not yet taken, the slot of \<open>g - 1\<close> still holds the one the thread is using, all other
  slots are marked empty, and the commands under way are those of \<open>[l, a)\<close>.\<close>

definition ring_inv :: "(nat \<Rightarrow> u64) \<Rightarrow> u512 list \<Rightarrow> nat \<Rightarrow> nat \<Rightarrow> u32 \<Rightarrow> u32 \<Rightarrow> u32 \<Rightarrow> (u64 \<Rightarrow> u512) \<Rightarrow>
    (u64 \<times> u512) list \<Rightarrow> bool" where
  "ring_inv sl sent l g tidx head reg mem pnd \<longleftrightarrow>
     g \<le> l \<and> l \<le> length sent \<and> length sent \<le> (g - 1) + 63
     \<and> tidx = of_nat (length sent mod 64) \<and> head = of_nat (g mod 64) \<and> reg = of_nat ((g - 1) mod 64)
     \<and> (\<forall>i. g \<le> i \<and> i < l \<longrightarrow> mem (sl i) = sent ! i)
     \<and> (\<forall>i. l \<le> i \<and> i < g + 64 \<longrightarrow> owner_of (mem (sl i)) = 0)
     \<and> (0 < g \<longrightarrow> mem (sl (g - 1)) = clear_owner (sent ! (g - 1)))
     \<and> (\<forall>m \<in> set sent. owner_of m \<noteq> 0)
     \<and> pnd = map (\<lambda>i. (sl i, sent ! i)) [l..<length sent]"

definition slots_differ :: "(nat \<Rightarrow> u64) \<Rightarrow> bool" where
  "slots_differ sl \<longleftrightarrow> (\<forall>i j. sl i = sl j \<longleftrightarrow> i mod 64 = j mod 64)"

lemma slots_near: "slots_differ sl \<Longrightarrow> i < j \<Longrightarrow> j < i + 64 \<Longrightarrow> sl i \<noteq> sl j \<and> sl j \<noteq> sl i"
proof -
  assume "slots_differ sl" and ij: "i < j" "j < i + 64"
  have "i mod 64 \<noteq> j mod 64"
  proof
    assume "i mod 64 = j mod 64"
    then have "64 dvd j - i" by (metis mod_eq_dvd_iff_nat ij(1) less_imp_le)
    with ij show False by (auto dest: dvd_imp_le)
  qed
  with \<open>slots_differ sl\<close> show ?thesis by (auto simp: slots_differ_def)
qed

lemma owner_clear [simp]: "owner_of (clear_owner w) = 0"
  by (simp add: owner_of_def clear_owner_def get_set_same)

lemma ring_accept:
  assumes inv: "ring_inv sl sent l g tidx head reg mem pnd"
    and room: "(length sent + 1) mod 64 \<noteq> (g - 1) mod 64" and m: "owner_of m \<noteq> 0"
  shows "ring_inv sl (sent @ [m]) l g (of_nat ((length sent + 1) mod 64)) head reg mem (pnd @ [(sl (length sent), m)])"
proof -
  have "length sent \<noteq> (g - 1) + 63"
  proof
    assume *: "length sent = (g - 1) + 63"
    have "(length sent + 1) mod 64 = (g - 1 + 64) mod 64" unfolding * by simp
    with room show False by simp
  qed
  then have "length sent + 1 \<le> (g - 1) + 63" using inv by (simp add: ring_inv_def)
  with inv m show ?thesis
    by (auto simp: ring_inv_def nth_append)
qed

lemma ring_land:
  assumes inv: "ring_inv sl sent l g tidx head reg mem ((a, d) # pnd)" and sl: "slots_differ sl"
  shows "ring_inv sl sent (l + 1) g tidx head reg (mem(a := d)) pnd"
proof -
  from inv have pnd: "(a, d) # pnd = map (\<lambda>i. (sl i, sent ! i)) [l..<length sent]" by (simp add: ring_inv_def)
  then have l: "l < length sent" by (cases "l < length sent") auto
  then have head: "a = sl l" "d = sent ! l" "pnd = map (\<lambda>i. (sl i, sent ! i)) [l + 1..<length sent]"
    using pnd by (simp_all add: upt_rec [of l])
  from inv have b: "g \<le> l" "length sent \<le> (g - 1) + 63" by (simp_all add: ring_inv_def)
  have before: "sl i \<noteq> sl l" if "g \<le> i" "i < l" for i
    using slots_near [OF sl, of i l] that b l by auto
  have after: "sl i \<noteq> sl l" if "l + 1 \<le> i" "i < g + 64" for i
    using slots_near [OF sl, of l i] that b by auto
  have held: "sl (g - 1) \<noteq> sl l" if "0 < g"
    using slots_near [OF sl, of "g - 1" l] that b l by auto
  from inv l b before after held show ?thesis
    unfolding ring_inv_def head by (auto simp: less_Suc_eq)
qed

lemma ring_take:
  assumes inv: "ring_inv sl sent l g tidx head reg mem pnd" and sl: "slots_differ sl"
    and full: "owner_of (mem (sl g)) \<noteq> 0"
  shows "ring_inv sl sent l (g + 1) tidx (of_nat ((g + 1) mod 64)) (of_nat (g mod 64))
           (mem(sl g := clear_owner (mem (sl g)))) pnd"
    and "g < l"
proof -
  from inv have b: "g \<le> l" "l \<le> length sent" "length sent \<le> (g - 1) + 63"
    "\<forall>i. l \<le> i \<and> i < g + 64 \<longrightarrow> owner_of (mem (sl i)) = 0" by (simp_all add: ring_inv_def)
  show gl: "g < l" using b(1,4) full by (cases "g = l") auto
  have m: "mem (sl g) = sent ! g" using inv gl by (simp add: ring_inv_def)
  have other: "sl i \<noteq> sl g" if "g + 1 \<le> i" "i < g + 64" for i
    using slots_near [OF sl, of g i] that by auto
  have wrap: "sl (g + 64) = sl g" using sl by (simp add: slots_differ_def)
  have "owner_of ((mem(sl g := clear_owner (mem (sl g)))) (sl i)) = 0" if "l \<le> i" "i < g + 1 + 64" for i
    using that b(4) gl wrap other [of i] by (cases "i = g + 64") auto
  with inv gl b(2,3) m other show "ring_inv sl sent l (g + 1) tidx (of_nat ((g + 1) mod 64)) (of_nat (g mod 64))
           (mem(sl g := clear_owner (mem (sl g)))) pnd"
    by (auto simp: ring_inv_def)
qed

lemma ring_mem_cong:
  "ring_inv sl sent l g tidx head reg mem pnd \<Longrightarrow> (\<And>i. mem' (sl i) = mem (sl i)) \<Longrightarrow>
     ring_inv sl sent l g tidx head reg mem' pnd"
  by (simp add: ring_inv_def)


section \<open>The invariant of the system\<close>

definition layout_ok :: "nat \<Rightarrow> c2h_sys \<Rightarrow> bool" where
  "layout_ok n s \<longleftrightarrow>
     (\<forall>q < n. rb_size (ch_rx_ring (cs_ch s q)) = 64)
     \<and> (\<forall>p < n. \<forall>q < n. p \<noteq> q \<longrightarrow> rx_head_reg (ch_rx_ring (cs_ch s p)) \<noteq> rx_head_reg (ch_rx_ring (cs_ch s q)))
     \<and> (\<forall>p < n. \<forall>q < n. p \<noteq> q \<longrightarrow> (\<forall>i < 64. \<forall>j < 64. slot s p i \<noteq> slot s q j))"

definition good_input :: "nat \<Rightarrow> c2h_data \<Rightarrow> bool" where
  "good_input n d \<longleftrightarrow> queue_of d < n \<and> owner_of (cd_data d) \<noteq> 0"

definition pending :: "c2h_sys \<Rightarrow> (u64 \<times> u512) list" where
  "pending s = zip (map cc_addr (bm_cmd_out (cs_mgr s))) (map cd_data (bm_data_out (cs_mgr s)))"

definition in_ring :: "c2h_sys \<Rightarrow> nat \<Rightarrow> u64 \<Rightarrow> bool" where
  "in_ring s q a \<longleftrightarrow> (\<exists>i < 64. a = slot s q i)"

definition queue_inv :: "c2h_sys \<Rightarrow> nat \<Rightarrow> bool" where
  "queue_inv s q \<longleftrightarrow>
     ring_inv (slot s q) (cs_sent s q) (cs_landed s q) (cs_taken s q) (bm_tidx (cs_mgr s) ! q)
       (rb_head (ch_rx_ring (cs_ch s q))) (dv_regs (cs_dev s) (rx_head_reg (ch_rx_ring (cs_ch s q))))
       (dv_mem (cs_dev s)) (filter (\<lambda>p. in_ring s q (fst p)) (pending s))"

definition c2h_inv :: "nat \<Rightarrow> c2h_sys \<Rightarrow> bool" where
  "c2h_inv n s \<longleftrightarrow> layout_ok n s
     \<and> length (bm_cmd_out (cs_mgr s)) = length (bm_data_out (cs_mgr s))
     \<and> n \<le> length (bm_tidx (cs_mgr s))
     \<and> (\<forall>d \<in> set (bm_data_in (cs_mgr s)). good_input n d)
     \<and> (bm_retry_flag (cs_mgr s) \<noteq> 0 \<longrightarrow> good_input n (bm_retry_data (cs_mgr s)))
     \<and> (\<forall>q < n. queue_inv s q)"

lemma slot_mod [simp]: "slot s q (i mod 64) = slot s q i"
  by (simp add: slot_def)

lemma slots_differ_slot: "slots_differ (slot s q)"
proof -
  have "i mod 64 = j mod 64" if "(64 :: u64) * of_nat (i mod 64) = 64 * of_nat (j mod 64)" for i j :: nat
  proof -
    have u: "unat ((64 :: u64) * of_nat (k mod 64)) = 64 * (k mod 64)" for k :: nat
    proof -
      have "k mod 64 < 64" by simp
      then have "(64 * (k mod 64)) mod 2 ^ LENGTH(64) = 64 * (k mod 64)" by (simp del: mod_less_divisor)
      then have "unat (of_nat (64 * (k mod 64)) :: u64) = 64 * (k mod 64)"
        by (simp only: unat_of_nat)
      then show ?thesis by simp
    qed
    from arg_cong [OF that, of unat] have "64 * (i mod 64) = 64 * (j mod 64)" unfolding u .
    then show ?thesis by simp
  qed
  then show ?thesis unfolding slots_differ_def slot_def by auto
qed

lemma in_ring_slot [simp]: "in_ring s q (slot s q i)"
  unfolding in_ring_def by (rule exI [of _ "i mod 64"]) simp

lemma in_ring_unique:
  assumes "layout_ok n s" "p < n" "q < n" "in_ring s p a" "in_ring s q a"
  shows "p = q"
  using assms unfolding in_ring_def layout_ok_def by metis

lemma slots_apart:
  assumes "layout_ok n s" "p < n" "q < n" "p \<noteq> q"
  shows "slot s p i \<noteq> slot s q j"
  using in_ring_unique [OF assms(1-3), of "slot s p i"] assms(4) by (metis in_ring_slot)

text \<open>The layout is that of the channels, which only \<open>host_recv\<close> changes.\<close>

lemma slot_cong: "ring_base s' = ring_base s \<Longrightarrow> slot s' = slot s"
  by (intro ext) (simp add: slot_def)

lemma in_ring_cong: "ring_base s' = ring_base s \<Longrightarrow> in_ring s' = in_ring s"
  by (intro ext) (simp add: in_ring_def slot_cong [of s' s])

lemma layout_cong: "cs_ch s' = cs_ch s \<Longrightarrow> layout_ok n s' = layout_ok n s"
  by (simp add: layout_ok_def slot_cong [of s' s] ring_base_def fun_eq_iff)

lemma base_cong: "cs_ch s' = cs_ch s \<Longrightarrow> ring_base s' = ring_base s"
  by (simp add: ring_base_def fun_eq_iff)

lemma c2h_inv_hold:
  assumes inv: "c2h_inv n s"
    and m: "bm_cmd_out m = bm_cmd_out (cs_mgr s)" "bm_data_out m = bm_data_out (cs_mgr s)"
      "bm_tidx m = bm_tidx (cs_mgr s)" "\<forall>d \<in> set (bm_data_in m). good_input n d"
      "bm_retry_flag m \<noteq> 0 \<longrightarrow> good_input n (bm_retry_data m)"
  shows "c2h_inv n (s\<lparr>cs_mgr := m\<rparr>)"
proof -
  let ?s = "s\<lparr>cs_mgr := m\<rparr>"
  have "slot ?s = slot s" "in_ring ?s = in_ring s" "layout_ok n ?s = layout_ok n s"
    by (rule slot_cong in_ring_cong layout_cong base_cong, (rule base_cong)?, simp)+
  then show ?thesis using inv m by (simp add: c2h_inv_def queue_inv_def pending_def)
qed

lemma c2h_inv_accept:
  assumes inv: "c2h_inv n s" and d: "good_input n d" and q: "q = queue_of d"
    and room: "(length (cs_sent s q) + 1) mod 64 \<noteq> (cs_taken s q - 1) mod 64"
    and m: "bm_cmd_out m = bm_cmd_out (cs_mgr s) @ [c]" "cc_addr c = slot s q (length (cs_sent s q))"
      "bm_data_out m = bm_data_out (cs_mgr s) @ [e]" "cd_data e = cd_data d"
      "bm_tidx m = (bm_tidx (cs_mgr s))[q := of_nat ((length (cs_sent s q) + 1) mod 64)]"
      "\<forall>d \<in> set (bm_data_in m). good_input n d" "bm_retry_flag m = 0"
  shows "c2h_inv n (s\<lparr>cs_mgr := m, cs_sent := (cs_sent s)(q := cs_sent s q @ [cd_data d])\<rparr>)"
    (is "c2h_inv n ?s")
proof -
  have c: "slot ?s = slot s" "in_ring ?s = in_ring s" "layout_ok n ?s = layout_ok n s"
    by (rule slot_cong in_ring_cong layout_cong base_cong, (rule base_cong)?, simp)+
  have len: "length (bm_cmd_out (cs_mgr s)) = length (bm_data_out (cs_mgr s))"
    and lay: "layout_ok n s" using inv by (simp_all add: c2h_inv_def)
  have pnd: "pending ?s = pending s @ [(slot s q (length (cs_sent s q)), cd_data d)]"
    using m len by (simp add: pending_def)
  have qn: "q < n" and o: "owner_of (cd_data d) \<noteq> 0" using d q by (simp_all add: good_input_def)
  have "queue_inv ?s p" if p: "p < n" for p
  proof (cases "p = q")
    case True
    have "queue_inv s q" and "q < length (bm_tidx (cs_mgr s))" using inv qn by (auto simp: c2h_inv_def)
    then show ?thesis unfolding True queue_inv_def c pnd
      using ring_accept [OF _ room o] by (simp add: m(5))
  next
    case False
    then have "\<not> in_ring s p (slot s q (length (cs_sent s q)))"
      using in_ring_unique [OF lay p qn] in_ring_slot by blast
    moreover have "queue_inv s p" using inv p by (simp add: c2h_inv_def)
    ultimately show ?thesis unfolding queue_inv_def c pnd using False by (simp add: m(5))
  qed
  with inv m c len show ?thesis by (simp add: c2h_inv_def)
qed

lemma tidx_plus1_count: "tidx_plus1 (ucast (of_nat (a mod 64) :: u32)) = of_nat ((a + 1) mod 64)"
proof -
  have b: "a mod 64 < 64" by simp
  then have c: "(ucast (of_nat (a mod 64) :: u32) :: u8) = of_nat (a mod 64)"
    by (simp add: word_unat_eq_iff unsigned_ucast_eq unat_of_nat take_bit_nat_eq_self_iff)
  show ?thesis
  proof (cases "a mod 64 = 63")
    case True
    then show ?thesis unfolding c by (simp add: tidx_plus1_def max_msg_num_per_q_def mod_Suc)
  next
    case False
    then have "of_nat (a mod 64) \<noteq> (63 :: u8)" using b
      by (simp add: word_unat_eq_iff unat_of_nat)
    with False show ?thesis unfolding c by (simp add: tidx_plus1_def max_msg_num_per_q_def mod_Suc add.commute)
  qed
qed

section \<open>Every step keeps the invariant\<close>

lemma mgr_put_inv:
  assumes inv: "c2h_inv n s" and n: "n \<le> 256" and d: "good_input n d"
    and m0: "bm_cmd_out m0 = bm_cmd_out (cs_mgr s)" "bm_data_out m0 = bm_data_out (cs_mgr s)"
      "bm_tidx m0 = bm_tidx (cs_mgr s)" "\<forall>d \<in> set (bm_data_in m0). good_input n d"
    and put: "mgr_put qid (map (ring_base s) [0..<n]) (head_regs n s) d m0 = Some m"
  shows "c2h_inv n (s\<lparr>cs_mgr := m,
           cs_sent := (if bm_cmd_out m = bm_cmd_out (cs_mgr s) then cs_sent s
                       else (cs_sent s)(queue_of d := cs_sent s (queue_of d) @ [cd_data d]))\<rparr>)"
proof -
  let ?q = "queue_of d"
  have q: "?q < n" using d by (simp add: good_input_def)
  then have Q: "queue_inv s ?q" using inv by (simp add: c2h_inv_def)
  let ?t = "ucast (bm_tidx (cs_mgr s) ! ?q) :: u8" and ?h = "ucast (head_regs n s ! ?q) :: u8"
  have t: "?t = ucast (of_nat (length (cs_sent s ?q) mod 64) :: u32)"
    and h: "?h = ucast (of_nat ((cs_taken s ?q - 1) mod 64) :: u32)"
    using Q q by (simp_all add: queue_inv_def ring_inv_def head_regs_def)
  have small: "(ucast (of_nat (a mod 64) :: u32) :: u8) = of_nat (a mod 64)" for a
  proof -
    have "a mod 64 < 64" by simp
    then show ?thesis
      by (simp add: word_unat_eq_iff unsigned_ucast_eq unat_of_nat take_bit_nat_eq_self_iff)
  qed
  have plus1: "tidx_plus1 ?t = of_nat ((length (cs_sent s ?q) + 1) mod 64)"
    unfolding t by (rule tidx_plus1_count)
  have u32: "ucast (of_nat (a mod 64) :: u8) = (of_nat (a mod 64) :: u32)" for a
  proof -
    have "a mod 64 < 64" by simp
    then show ?thesis by (simp add: word_unat_eq_iff unsigned_ucast_eq unat_of_nat take_bit_nat_eq_self_iff)
  qed
  have u64: "ucast (of_nat (a mod 64) :: u8) = (of_nat (a mod 64) :: u64)" for a
  proof -
    have "a mod 64 < 64" by simp
    then show ?thesis by (simp add: word_unat_eq_iff unsigned_ucast_eq unat_of_nat take_bit_nat_eq_self_iff)
  qed
  have qu: "unat (ucast (cd_ctrl_qid d) :: u8) = ?q" by (simp add: queue_of_def)
  show ?thesis
  proof (cases "tidx_plus1 ?t = ?h")
    case True
    then have m: "m = m0\<lparr>bm_retry_data := d, bm_retry_flag := 1\<rparr>"
      using put q m0(3) by (simp add: mgr_put_def Let_def qu)
    show ?thesis unfolding m using m0 d by (simp, intro c2h_inv_hold [OF inv]) simp_all
  next
    case False
    then have m: "m = m0\<lparr>bm_retry_data := d, bm_cmd_out := bm_cmd_out m0 @ [mgr_cmd qid (ring_base s ?q) ?t],
        bm_data_out := bm_data_out m0 @ [d\<lparr>cd_ctrl_qid := qid\<rparr>],
        bm_tidx := (bm_tidx m0)[?q := ucast (tidx_plus1 ?t)], bm_retry_flag := 0, bm_count := bm_count m0 + 1\<rparr>"
      using put q m0(3) by (simp add: mgr_put_def Let_def qu)
    have "(length (cs_sent s ?q) + 1) mod 64 \<noteq> (cs_taken s ?q - 1) mod 64"
      using False unfolding plus1 h small by metis
    from c2h_inv_accept [OF inv d refl this, of m] show ?thesis
      unfolding m using m0
      by (simp add: mgr_cmd_def max_msg_length_def t small u64 slot_def plus1 [unfolded t small] u32)
  qed
qed

lemma manager_inv:
  assumes inv: "c2h_inv n s" and n: "n \<le> 256" and step: "mgr_cycle qid n s = Some s'"
  shows "c2h_inv n s'"
proof (cases "bm_retry_flag (cs_mgr s) = 0")
  case False
  then obtain m where m: "mgr_put qid (map (ring_base s) [0..<n]) (head_regs n s) (bm_retry_data (cs_mgr s)) (cs_mgr s) = Some m"
    and s': "s' = s\<lparr>cs_mgr := m, cs_sent := (if bm_cmd_out m = bm_cmd_out (cs_mgr s) then cs_sent s
          else (cs_sent s)(queue_of (bm_retry_data (cs_mgr s)) := cs_sent s (queue_of (bm_retry_data (cs_mgr s)))
               @ [cd_data (bm_retry_data (cs_mgr s))]))\<rparr>"
    using step by (auto simp: mgr_cycle_def c2hMultiBufferMgr_def mgr_input_def split: option.splits)
  show ?thesis unfolding s' using inv False
    by (intro mgr_put_inv [OF inv n _ _ _ _ _ m]) (simp_all add: c2h_inv_def)
next
  case True
  show ?thesis
  proof (cases "bm_data_in (cs_mgr s)")
    case Nil
    with True step have "s' = s" by (simp add: mgr_cycle_def c2hMultiBufferMgr_def mgr_input_def)
    with inv show ?thesis by simp
  next
    case (Cons d ds)
    with True step obtain m where
      m: "mgr_put qid (map (ring_base s) [0..<n]) (head_regs n s) d (cs_mgr s\<lparr>bm_data_in := ds\<rparr>) = Some m"
      and s': "s' = s\<lparr>cs_mgr := m, cs_sent := (if bm_cmd_out m = bm_cmd_out (cs_mgr s) then cs_sent s
          else (cs_sent s)(queue_of d := cs_sent s (queue_of d) @ [cd_data d]))\<rparr>"
      by (auto simp: mgr_cycle_def c2hMultiBufferMgr_def mgr_input_def split: option.splits)
    show ?thesis unfolding s' using inv Cons
      by (intro mgr_put_inv [OF inv n _ _ _ _ _ m]) (simp_all add: c2h_inv_def)
  qed
qed

lemma arrive_inv:
  assumes "c2h_inv n s" "good_input n d"
  shows "c2h_inv n (s\<lparr>cs_mgr := (cs_mgr s)\<lparr>bm_data_in := bm_data_in (cs_mgr s) @ [d]\<rparr>\<rparr>)"
  using assms by (intro c2h_inv_hold) (auto simp: c2h_inv_def)

lemma dma_inv:
  assumes inv: "c2h_inv n s" and c: "bm_cmd_out (cs_mgr s) = c # cs" "cc_addr c = slot s q i" and q: "q < n"
  shows "c2h_inv n (dma_write q s)"
proof -
  obtain d ds where d: "bm_data_out (cs_mgr s) = d # ds"
    using inv c by (cases "bm_data_out (cs_mgr s)") (auto simp: c2h_inv_def)
  let ?s = "dma_write q s"
  have s': "cs_mgr ?s = (cs_mgr s)\<lparr>bm_cmd_out := cs, bm_data_out := ds\<rparr>"
    "cs_dev ?s = (cs_dev s)\<lparr>dv_mem := (dv_mem (cs_dev s))(slot s q i := cd_data d)\<rparr>"
    "cs_landed ?s = (cs_landed s)(q := cs_landed s q + 1)" "cs_sent ?s = cs_sent s"
    "cs_taken ?s = cs_taken s" and ch: "cs_ch ?s = cs_ch s"
    by (simp_all add: dma_write_def c d)
  note [simp] = slot_cong [OF base_cong [OF ch]] in_ring_cong [OF base_cong [OF ch]] layout_cong [OF ch]
  have pnd: "pending s = (slot s q i, cd_data d) # pending ?s" by (simp add: pending_def s' c d)
  have lay: "layout_ok n s" using inv by (simp add: c2h_inv_def)
  have "queue_inv ?s p" if p: "p < n" for p
  proof -
    have Q: "queue_inv s p" using inv p by (simp add: c2h_inv_def)
    show ?thesis
    proof (cases "p = q")
      case True
      show ?thesis using ring_land [OF _ slots_differ_slot, of s q _ _ _ _ _ _ _ "slot s q i" "cd_data d"] Q
        unfolding queue_inv_def True pnd by (simp add: s' ch)
    next
      case False
      then have off: "\<not> in_ring s p (slot s q i)" using in_ring_unique [OF lay p q] in_ring_slot by blast
      have "slot s p j \<noteq> slot s q i" for j using slots_apart [OF lay p q False] .
      then have "dv_mem (cs_dev ?s) (slot s p j) = dv_mem (cs_dev s) (slot s p j)" for j
        by (simp add: s')
      with Q off False show ?thesis unfolding queue_inv_def pnd
        by (simp add: ch s' ring_mem_cong)
    qed
  qed
  with inv show ?thesis by (simp add: c2h_inv_def s' c d)
qed

lemma next_index: "(of_nat (g mod 64) + 1) mod 64 = (of_nat ((g + 1) mod 64) :: u32)"
proof -
  have "g mod 64 < 64" by simp
  then have "unat (of_nat (g mod 64 + 1) :: u32) = g mod 64 + 1"
    unfolding unat_of_nat by (intro mod_less) simp
  then have "unat ((of_nat (g mod 64 + 1) :: u32) mod 64) = (g mod 64 + 1) mod 64"
    by (simp only: unat_mod) simp
  moreover have "unat (of_nat ((g + 1) mod 64) :: u32) = (g + 1) mod 64"
  proof -
    have "(g + 1) mod 64 < 64" by simp
    then show ?thesis unfolding unat_of_nat by (intro mod_less) simp
  qed
  ultimately show ?thesis unfolding word_unat_eq_iff by (simp add: mod_Suc_eq add.commute)
qed

lemma host_inv:
  assumes inv: "c2h_inv n s" and q: "q < n"
  shows "c2h_inv n (host_recv stop q s)"
proof (cases "stop \<or> owner_of (dv_mem (cs_dev s) (get_head_element (ch_rx_ring (cs_ch s q)))) = 0")
  case True
  then show ?thesis using inv by (auto simp: host_recv_def recv_stop_def Let_def)
next
  case False
  let ?r = "ch_rx_ring (cs_ch s q)" and ?m = "dv_mem (cs_dev s)" and ?g = "cs_taken s q" and ?s = "host_recv stop q s"
  have Q: "queue_inv s q" and size: "rb_size ?r = 64" and lay: "layout_ok n s"
    using inv q by (simp_all add: c2h_inv_def layout_ok_def)
  have head: "rb_head ?r = of_nat (?g mod 64)"
    and reg: "dv_regs (cs_dev s) (rx_head_reg ?r) = of_nat ((?g - 1) mod 64)"
    using Q by (simp_all add: queue_inv_def ring_inv_def)
  have lt: "?g mod 64 < 64" by simp
  have u64: "ucast (of_nat (?g mod 64) :: u32) = (of_nat (?g mod 64) :: u64)"
    using lt by (simp add: word_unat_eq_iff unsigned_ucast_eq unat_of_nat take_bit_nat_eq_self_iff)
  have a: "get_head_element ?r = slot s q ?g"
    by (simp add: get_head_element_def head u64 slot_def ring_base_def)
  have next_head: "(of_nat (?g mod 64) + 1) mod 64 = (of_nat ((?g + 1) mod 64) :: u32)"
    by (rule next_index)
  have s': "cs_ch ?s = (cs_ch s)(q := (cs_ch s q)\<lparr>ch_rx_ring := ?r\<lparr>rx_last_updated_head := rb_head ?r,
        rb_head := of_nat ((?g + 1) mod 64)\<rparr>\<rparr>)"
    "cs_dev ?s = (cs_dev s)\<lparr>dv_mem := ?m(slot s q ?g := clear_owner (?m (slot s q ?g))),
        dv_regs := (dv_regs (cs_dev s))(rx_head_reg ?r := of_nat (?g mod 64))\<rparr>"
    "cs_taken ?s = (cs_taken s)(q := ?g + 1)" "cs_mgr ?s = cs_mgr s" "cs_sent ?s = cs_sent s"
    "cs_landed ?s = cs_landed s"
    using False by (simp_all add: host_recv_def recv_stop_def take_head_def Let_def rx_step_head_eq a size head next_head)
  have base: "ring_base ?s = ring_base s" by (auto simp: fun_eq_iff ring_base_def s')
  note [simp] = slot_cong [OF base] in_ring_cong [OF base]
  have lay': "layout_ok n ?s" using lay unfolding layout_ok_def by (simp add: s')
  have pnd: "pending ?s = pending s" by (simp add: pending_def s')
  have full: "owner_of (?m (slot s q ?g)) \<noteq> 0" using False a by simp
  have "queue_inv ?s p" if p: "p < n" for p
  proof -
    have Qp: "queue_inv s p" using inv p by (simp add: c2h_inv_def)
    show ?thesis
    proof (cases "p = q")
      case True
      show ?thesis using ring_take(1) [OF Q [unfolded queue_inv_def] slots_differ_slot full]
        unfolding queue_inv_def True pnd by (simp add: s')
    next
      case False
      then have "slot s p j \<noteq> slot s q ?g" for j using slots_apart [OF lay p q] by blast
      then have "dv_mem (cs_dev ?s) (slot s p j) = ?m (slot s p j)" for j by (simp add: s')
      moreover have "rx_head_reg (ch_rx_ring (cs_ch s p)) \<noteq> rx_head_reg ?r"
        using lay p q False by (simp add: layout_ok_def)
      ultimately show ?thesis using Qp False unfolding queue_inv_def pnd
        by (simp add: s' ring_mem_cong)
    qed
  qed
  with inv lay' show ?thesis by (simp add: c2h_inv_def s')
qed

theorem c2h_step_inv: "c2h_inv n s \<Longrightarrow> n \<le> 256 \<Longrightarrow> c2h_step qid n s s' \<Longrightarrow> c2h_inv n s'"
  by (erule c2h_stepE) (auto intro: arrive_inv manager_inv dma_inv host_inv simp: good_input_def)

section \<open>Delivery\<close>

definition c2h_start :: "nat \<Rightarrow> c2h_sys \<Rightarrow> bool" where
  "c2h_start n s \<longleftrightarrow> layout_ok n s
     \<and> bm_cmd_out (cs_mgr s) = [] \<and> bm_data_out (cs_mgr s) = [] \<and> bm_data_in (cs_mgr s) = []
     \<and> bm_retry_flag (cs_mgr s) = 0 \<and> n \<le> length (bm_tidx (cs_mgr s))
     \<and> (\<forall>q < n. bm_tidx (cs_mgr s) ! q = 0 \<and> rb_head (ch_rx_ring (cs_ch s q)) = 0
          \<and> dv_regs (cs_dev s) (rx_head_reg (ch_rx_ring (cs_ch s q))) = 0
          \<and> (\<forall>i < 64. owner_of (dv_mem (cs_dev s) (slot s q i)) = 0)
          \<and> cs_sent s q = [] \<and> cs_landed s q = 0 \<and> cs_taken s q = 0)"

lemma c2h_start_inv: "c2h_start n s \<Longrightarrow> c2h_inv n s"
  by (simp add: c2h_start_def c2h_inv_def queue_inv_def ring_inv_def pending_def)

lemma c2h_reach_inv: "(c2h_step qid n)\<^sup>*\<^sup>* s0 s \<Longrightarrow> c2h_inv n s0 \<Longrightarrow> n \<le> 256 \<Longrightarrow> c2h_inv n s"
  by (induction rule: rtranclp_induct) (auto intro: c2h_step_inv)

text \<open>A channel that has just been set up is in the start state of its ring, given a device whose
  tail register reads zero.\<close>

lemma new_channel_ring:
  assumes "new_channel ch bb buf dv = (c, dv')" "dv_regs dv (rx_tail_reg_index ch + 512) = 0"
  shows "rb_size (ch_rx_ring c) = 64" "rb_head (ch_rx_ring c) = 0" "rb_addr (ch_rx_ring c) = buf"
    "rx_head_reg (ch_rx_ring c) = rx_head_reg_index ch" "i < 64 \<Longrightarrow> dv_mem dv' (buf + 64 * of_nat i) = 0"
proof -
  have zero: "fold (\<lambda>i m. m(buf + 64 * of_nat i := (0 :: u512))) xs mem a = (if a \<in> (\<lambda>i. buf + 64 * of_nat i) ` set xs then 0 else mem a)"
    for xs mem a by (induction xs arbitrary: mem) auto
  from assms show "rb_size (ch_rx_ring c) = 64" "rb_head (ch_rx_ring c) = 0" "rb_addr (ch_rx_ring c) = buf"
    "rx_head_reg (ch_rx_ring c) = rx_head_reg_index ch" "i < 64 \<Longrightarrow> dv_mem dv' (buf + 64 * of_nat i) = 0"
    by (auto simp: new_channel_def new_rx_ring_def Let_def rx_depth_def zero)
qed

text \<open>(C10) From the start state of up to 256 rings, in every state any sequence of arrivals, cycles of
  the ring manager, DMA writes and polls of the host can reach, each ring has its messages taken in
  the order they were accepted and none twice: a poll returns a slot exactly if an accepted message
  has been written and not yet taken, the slot then holds the oldest such message, and the slot
  returned last still holds its message, with only the owner byte cleared.\<close>

theorem ring_delivers_in_order:
  assumes "c2h_start n s0" "n \<le> 256" "(c2h_step qid n)\<^sup>*\<^sup>* s0 s" "q < n"
  shows "cs_taken s q \<le> cs_landed s q \<and> cs_landed s q \<le> length (cs_sent s q)
    \<and> fst (recv_stop False (cs_ch s q) (cs_dev s))
        = (if cs_taken s q < cs_landed s q then Got (slot s q (cs_taken s q)) else Again)
    \<and> (cs_taken s q < cs_landed s q \<longrightarrow> dv_mem (cs_dev s) (slot s q (cs_taken s q)) = cs_sent s q ! cs_taken s q)
    \<and> (0 < cs_taken s q \<longrightarrow>
         dv_mem (cs_dev s) (slot s q (cs_taken s q - 1)) = clear_owner (cs_sent s q ! (cs_taken s q - 1)))"
proof -
  let ?g = "cs_taken s q" and ?l = "cs_landed s q" and ?r = "ch_rx_ring (cs_ch s q)" and ?m = "dv_mem (cs_dev s)"
  have "c2h_inv n s" using assms(1-3) c2h_reach_inv c2h_start_inv by blast
  then have Q: "queue_inv s q" using assms(4) by (simp add: c2h_inv_def)
  then have g: "?g \<le> ?l" "?l \<le> length (cs_sent s q)" "?g < ?l \<Longrightarrow> ?m (slot s q ?g) = cs_sent s q ! ?g"
    "?g = ?l \<Longrightarrow> owner_of (?m (slot s q ?g)) = 0" "\<forall>m \<in> set (cs_sent s q). owner_of m \<noteq> 0"
    and used: "0 < ?g \<Longrightarrow> ?m (slot s q (?g - 1)) = clear_owner (cs_sent s q ! (?g - 1))"
    and head: "rb_head ?r = of_nat (?g mod 64)"
    unfolding queue_inv_def ring_inv_def by auto
  have lt: "?g mod 64 < 64" by simp
  have u64: "ucast (of_nat (?g mod 64) :: u32) = (of_nat (?g mod 64) :: u64)"
    using lt by (simp add: word_unat_eq_iff unsigned_ucast_eq unat_of_nat take_bit_nat_eq_self_iff)
  have a: "get_head_element ?r = slot s q ?g"
    by (simp add: get_head_element_def head u64 slot_def ring_base_def)
  have "owner_of (?m (slot s q ?g)) \<noteq> 0" if "?g < ?l"
    using g(2,5) g(3) [OF that] that by simp
  with g used show ?thesis
    by (auto simp: recv_stop_def a Let_def take_head_def split: prod.split)
qed

definition sample_word :: u512 where "sample_word = set_range 431 424 (1 :: u8) 7"

definition sample_start :: c2h_sys where
  "sample_start = (let (c, dv) = new_channel 0 0 4096 \<lparr>dv_regs = \<lambda>_. 0, dv_mem = \<lambda>_. 5, dv_bridge = []\<rparr> in
     \<lparr>cs_mgr = \<lparr>bm_tidx = [0], bm_retry_flag = 0, bm_retry_data = \<lparr>cd_data = 0, cd_ctrl_qid = 0, cd_last = 0\<rparr>,
        bm_data_in = [], bm_cmd_out = [], bm_data_out = [], bm_count = 0\<rparr>,
      cs_dev = dv, cs_ch = \<lambda>_. c, cs_sent = \<lambda>_. [], cs_landed = \<lambda>_. 0, cs_taken = \<lambda>_. 0\<rparr>)"

lemma sample_start_ok: "c2h_start 1 sample_start"
proof -
  obtain c dv where nc: "new_channel 0 0 4096 \<lparr>dv_regs = \<lambda>_. 0, dv_mem = \<lambda>_. 5, dv_bridge = []\<rparr> = (c, dv)"
    by fastforce
  have regs: "dv_regs dv (rx_head_reg_index 0) = 0"
    using nc by (auto simp: new_channel_def Let_def FPGA_REG_OFFSET_def rx_head_reg_index_def)
  have zero: "owner_of 0 = 0" by (simp add: owner_of_def get_range_def)
  from new_channel_ring [OF nc] show ?thesis
    by (simp add: c2h_start_def sample_start_def nc layout_ok_def regs slot_def ring_base_def zero)
qed

definition sample_run :: c2h_sys where
  "sample_run = (let d = \<lparr>cd_data = sample_word, cd_ctrl_qid = 0, cd_last = 1\<rparr>;
       s1 = sample_start\<lparr>cs_mgr := (cs_mgr sample_start)\<lparr>bm_data_in := [d]\<rparr>\<rparr>
     in dma_write 0 (the (mgr_cycle 1 1 s1)))"

lemma sample_run_steps: "(c2h_step 1 1)\<^sup>*\<^sup>* sample_start sample_run" "cs_landed sample_run 0 = 1"
    "cs_taken sample_run 0 = 0" "cs_sent sample_run 0 = [sample_word]" "slot sample_run 0 0 = 4096"
proof -
  obtain c dv where nc: "new_channel 0 0 4096 \<lparr>dv_regs = \<lambda>_. 0, dv_mem = \<lambda>_. 5, dv_bridge = []\<rparr> = (c, dv)"
    by fastforce
  let ?d = "\<lparr>cd_data = sample_word, cd_ctrl_qid = 0, cd_last = 1\<rparr>"
  let ?s1 = "sample_start\<lparr>cs_mgr := (cs_mgr sample_start)\<lparr>bm_data_in := bm_data_in (cs_mgr sample_start) @ [?d]\<rparr>\<rparr>"
  have s1: "?s1 = sample_start\<lparr>cs_mgr := (cs_mgr sample_start)\<lparr>bm_data_in := [?d]\<rparr>\<rparr>"
    by (simp add: sample_start_def nc)
  have regs: "dv_regs dv (rx_head_reg_index 0) = 0"
    using nc by (auto simp: new_channel_def Let_def FPGA_REG_OFFSET_def rx_head_reg_index_def)
  have o: "owner_of sample_word \<noteq> 0"
    by (simp add: owner_of_def sample_word_def get_set_same)
  have 1: "c2h_step 1 1 sample_start ?s1"
    by (rule c2h_step.arrive) (simp_all add: queue_of_def o)
  have c: "rx_head_reg (ch_rx_ring c) = rx_head_reg_index 0" "rb_addr (ch_rx_ring c) = 4096"
    using new_channel_ring [OF nc] by simp_all
  have E: "sample_start = \<lparr>cs_mgr = \<lparr>bm_tidx = [0], bm_retry_flag = 0,
        bm_retry_data = \<lparr>cd_data = 0, cd_ctrl_qid = 0, cd_last = 0\<rparr>,
        bm_data_in = [], bm_cmd_out = [], bm_data_out = [], bm_count = 0\<rparr>,
      cs_dev = dv, cs_ch = \<lambda>_. c, cs_sent = \<lambda>_. [], cs_landed = \<lambda>_. 0, cs_taken = \<lambda>_. 0\<rparr>"
    by (simp add: sample_start_def nc)
  define s2 where "s2 = the (mgr_cycle 1 1 ?s1)"
  note eval = E mgr_cycle_def c2hMultiBufferMgr_def mgr_put_def Let_def tidx_plus1_def mgr_input_def
    max_msg_num_per_q_def queue_of_def head_regs_def ring_base_def c regs
  have s2: "mgr_cycle 1 1 ?s1 = Some s2" unfolding s2_def by (simp add: eval)
  have f: "bm_cmd_out (cs_mgr s2) = [mgr_cmd 1 4096 0]" "length (bm_data_out (cs_mgr s2)) = 1"
      "cs_ch s2 = (\<lambda>_. c)" "cs_sent s2 0 = [sample_word]" "cs_landed s2 0 = 0" "cs_taken s2 0 = 0"
    unfolding s2_def by (simp_all add: eval)
  have 2: "c2h_step 1 1 ?s1 s2" by (rule c2h_step.manager [OF s2])
  have run: "sample_run = dma_write 0 s2" using s2 by (simp add: sample_run_def s1 Let_def)
  have sl: "slot s2 0 0 = 4096" using f(3) new_channel_ring [OF nc] by (simp add: slot_def ring_base_def)
  have 3: "c2h_step 1 1 s2 sample_run" unfolding run
    by (rule c2h_step.dma [of _ "mgr_cmd 1 4096 0" "[]" 0 1 0]) (simp_all add: f sl mgr_cmd_def)
  from 1 2 3 show "(c2h_step 1 1)\<^sup>*\<^sup>* sample_start sample_run"
    by (meson rtranclp.rtrancl_into_rtrancl rtranclp.rtrancl_refl)
  obtain d where d: "bm_data_out (cs_mgr s2) = [d]" using f(2) by (auto simp: length_Suc_conv)
  have ch: "cs_ch sample_run = cs_ch s2" unfolding run by (simp add: dma_write_def f d)
  show "cs_landed sample_run 0 = 1" "cs_taken sample_run 0 = 0" "cs_sent sample_run 0 = [sample_word]"
    unfolding run by (simp_all add: dma_write_def f d)
  show "slot sample_run 0 0 = 4096" using sl by (simp add: slot_def ring_base_def ch)
qed

theorem ring_delivers_in_order_witness:
  "fst (recv_stop False (cs_ch sample_run 0) (cs_dev sample_run)) = Got 4096
     \<and> dv_mem (cs_dev sample_run) 4096 = sample_word"
  using ring_delivers_in_order [OF sample_start_ok _ sample_run_steps(1), of 0]
  by (simp add: sample_run_steps(2-5))

end
