(* ===== verification/Locks.thy ===== *)
theory Locks
  imports Prelude
begin

text \<open>
  The locks of the software: \<open>WRLock\<close> (one 16-bit counter), \<open>spinlock\<close> and \<open>spinlock_rw\<close>, each as
  the atomic instructions its operations execute, interleaved over any number of threads. What a
  client may rely on is the locale \<open>rw_lock\<close>; the first two locks provide it, the third does not.
\<close>

section \<open>The interface of a readers-writer lock\<close>

locale rw_lock =
  fixes reach :: "'s \<Rightarrow> bool"
    and writing :: "'s \<Rightarrow> 't \<Rightarrow> bool"
    and reading :: "'s \<Rightarrow> 't \<Rightarrow> bool"
  assumes writer_alone: "reach s \<Longrightarrow> writing s t \<Longrightarrow> t' \<noteq> t \<Longrightarrow> \<not> writing s t' \<and> \<not> reading s t'"
    and not_both: "reach s \<Longrightarrow> writing s t \<Longrightarrow> \<not> reading s t"
begin

lemma one_writer: "reach s \<Longrightarrow> writing s t \<Longrightarrow> writing s t' \<Longrightarrow> t' = t"
  using writer_alone by blast

lemma no_reader_with_writer: "reach s \<Longrightarrow> writing s t \<Longrightarrow> \<not> reading s t'"
  using writer_alone not_both by (cases "t' = t") auto

text \<open>Two threads with a claim on the protected data can only both be readers.\<close>

lemma conflict_free:
  assumes "reach s" "writing s t \<or> reading s t" "writing s t' \<or> reading s t'" "t \<noteq> t'"
  shows "reading s t \<and> reading s t' \<and> \<not> writing s t \<and> \<not> writing s t'"
  using assms writer_alone by metis

end

section \<open>WRLock\<close>

definition UNLOCKED :: u16 where "UNLOCKED = 0"
definition LOCKED :: u16 where "LOCKED = 1"

text \<open>\<open>compare_exchange_strong\<close> on the lock word.\<close>

definition cas :: "'a \<Rightarrow> 'a \<Rightarrow> 'a \<Rightarrow> bool \<times> 'a" where
  "cas l expected desired = (if l = expected then (True, desired) else (False, l))"

text \<open>Where a thread is: the next atomic instruction of an operation, or between operations holding
  what it holds. The argument is the value its last load returned.\<close>

datatype wr_pc =
    Idle | W_Load | W_Cas | TryW_Load | TryW_Cas | R_Load | R_Cas u16 | TryR_Load | TryR_Cas u16
  | Writing | Reading | RU_Load | RU_Cas u16

inductive wr_op :: "u16 \<Rightarrow> wr_pc \<Rightarrow> u16 \<Rightarrow> wr_pc \<Rightarrow> bool" where
  wLock: "wr_op l Idle l W_Load"
| w_load: "wr_op l W_Load l (if l \<noteq> UNLOCKED then W_Load else W_Cas)"
| w_cas: "cas l UNLOCKED LOCKED = (b, l') \<Longrightarrow> wr_op l W_Cas l' (if b then Writing else W_Load)"
| try_wLock: "wr_op l Idle l TryW_Load"
| try_w_load: "wr_op l TryW_Load l (if l \<noteq> UNLOCKED then Idle else TryW_Cas)"
| try_w_cas: "cas l UNLOCKED LOCKED = (b, l') \<Longrightarrow> wr_op l TryW_Cas l' (if b then Writing else Idle)"
| rLock: "wr_op l Idle l R_Load"
| r_load: "wr_op l R_Load l (if l = LOCKED then R_Load else R_Cas l)"
| r_cas: "cas l v (v + 2) = (b, l') \<Longrightarrow> wr_op l (R_Cas v) l' (if b then Reading else R_Load)"
| try_rLock: "wr_op l Idle l TryR_Load"
| try_r_load: "wr_op l TryR_Load l (if l = LOCKED then Idle else TryR_Cas l)"
| try_r_cas: "cas l v (v + 2) = (b, l') \<Longrightarrow> wr_op l (TryR_Cas v) l' (if b then Reading else TryR_Load)"
| rUnlock: "wr_op l Reading l RU_Load"
| ru_load: "wr_op l RU_Load l (RU_Cas l)"
| ru_cas: "cas l v (v - 2) = (b, l') \<Longrightarrow> wr_op l (RU_Cas v) l' (if b then Idle else RU_Load)"
| wUnlock: "wr_op l Writing UNLOCKED Idle"

inductive_cases wr_opE: "wr_op l pc l' pc'"

record wr_state =
  wr_l :: u16
  wr_pcs :: "nat \<Rightarrow> wr_pc"

text \<open>Threads are numbered below a bound; the lock starts as \<open>init\<close> leaves it.\<close>

inductive wr_reach :: "nat \<Rightarrow> wr_state \<Rightarrow> bool" for n where
  init: "wr_reach n \<lparr>wr_l = UNLOCKED, wr_pcs = (\<lambda>_. Idle)\<rparr>"
| thread: "wr_reach n s \<Longrightarrow> t < n \<Longrightarrow> wr_op (wr_l s) (wr_pcs s t) l' pc' \<Longrightarrow>
    wr_reach n (s\<lparr>wr_l := l', wr_pcs := (wr_pcs s)(t := pc')\<rparr>)"

definition is_reading :: "wr_pc \<Rightarrow> bool" where
  "is_reading pc = (case pc of Reading \<Rightarrow> True | RU_Load \<Rightarrow> True | RU_Cas v \<Rightarrow> True | _ \<Rightarrow> False)"

definition wr_writing :: "wr_state \<Rightarrow> nat \<Rightarrow> bool" where
  "wr_writing s t \<longleftrightarrow> wr_pcs s t = Writing"

definition wr_reading :: "wr_state \<Rightarrow> nat \<Rightarrow> bool" where
  "wr_reading s t \<longleftrightarrow> is_reading (wr_pcs s t)"

definition readers :: "nat \<Rightarrow> (nat \<Rightarrow> wr_pc) \<Rightarrow> nat set" where
  "readers n pcs = {t. t < n \<and> is_reading (pcs t)}"

definition writers :: "nat \<Rightarrow> (nat \<Rightarrow> wr_pc) \<Rightarrow> nat set" where
  "writers n pcs = {t. t < n \<and> pcs t = Writing}"

definition wr_inv :: "nat \<Rightarrow> wr_state \<Rightarrow> bool" where
  "wr_inv n s \<longleftrightarrow>
     (writers n (wr_pcs s) = {} \<and> unat (wr_l s) = 2 * card (readers n (wr_pcs s))
      \<or> (\<exists>t. writers n (wr_pcs s) = {t} \<and> readers n (wr_pcs s) = {} \<and> wr_l s = LOCKED))
     \<and> (\<forall>t \<ge> n. wr_pcs s t = Idle)
     \<and> (\<forall>t v. wr_pcs s t = R_Cas v \<or> wr_pcs s t = TryR_Cas v \<longrightarrow> v \<noteq> LOCKED)"

lemma finite_readers [simp]: "finite (readers n pcs)"
  by (simp add: readers_def)

lemma readers_upd:
  "t < n \<Longrightarrow> readers n (pcs(t := pc)) = (if is_reading pc then insert t (readers n pcs) else readers n pcs - {t})"
  by (auto simp: readers_def)

lemma writers_upd:
  "t < n \<Longrightarrow> writers n (pcs(t := pc)) = (if pc = Writing then insert t (writers n pcs) else writers n pcs - {t})"
  by (auto simp: writers_def)

lemma readers_mem: "t < n \<Longrightarrow> t \<in> readers n pcs \<longleftrightarrow> is_reading (pcs t)"
  by (simp add: readers_def)

lemma writers_mem: "t < n \<Longrightarrow> t \<in> writers n pcs \<longleftrightarrow> pcs t = Writing"
  by (simp add: writers_def)

lemma card_readers_less: "t < n \<Longrightarrow> \<not> is_reading (pcs t) \<Longrightarrow> card (readers n pcs) < n"
proof -
  assume t: "t < n" "\<not> is_reading (pcs t)"
  have "card (readers n pcs) < card {..<n}"
    by (rule psubset_card_mono) (use t in \<open>auto simp: readers_def\<close>)
  then show ?thesis by simp
qed

lemma even_not_locked: "unat l = 2 * k \<Longrightarrow> l \<noteq> LOCKED"
  by (auto simp: LOCKED_def)

lemma unat_zero_unlocked: "unat l = 0 \<longleftrightarrow> l = UNLOCKED"
  by (simp add: UNLOCKED_def unat_eq_0)

lemma reading_add: "unat (l :: u16) = 2 * k \<Longrightarrow> Suc k < 2 ^ 15 \<Longrightarrow> unat (l + 2) = 2 * Suc k"
  by (simp add: unat_word_ariths)

lemma reading_sub: "unat (l :: u16) = 2 * k \<Longrightarrow> 0 < k \<Longrightarrow> unat (l - 2) = 2 * (k - 1)"
  by (subst unat_sub) (auto simp: word_le_nat_alt)

text \<open>What one atomic instruction can do to the lock word and to what the thread holds.\<close>

lemma wr_op_effect:
  assumes "wr_op l pc l' pc'" and v: "\<forall>v. pc = R_Cas v \<or> pc = TryR_Cas v \<longrightarrow> v \<noteq> LOCKED"
  obtains (quiet) "l' = l" "is_reading pc' = is_reading pc" "pc \<noteq> Writing" "pc' \<noteq> Writing"
  | (write_lock) "l = UNLOCKED" "l' = LOCKED" "pc' = Writing" "\<not> is_reading pc" "pc \<noteq> Writing"
  | (read_lock) "l \<noteq> LOCKED" "l' = l + 2" "pc' = Reading" "\<not> is_reading pc" "pc \<noteq> Writing"
  | (read_unlock) "l' = l - 2" "is_reading pc" "pc' = Idle"
  | (write_unlock) "pc = Writing" "l' = UNLOCKED" "pc' = Idle"
  using assms(1)
  by (rule wr_opE) (use v in \<open>auto simp: cas_def is_reading_def split: if_splits intro: that\<close>)

lemma wr_op_no_locked:
  "wr_op l pc l' pc' \<Longrightarrow> pc' = R_Cas v \<or> pc' = TryR_Cas v \<Longrightarrow> v \<noteq> LOCKED"
  by (erule wr_opE) (auto split: if_splits)

lemma wr_inv_step:
  assumes inv: "wr_inv n s" and n: "n < 2 ^ 15" and t: "t < n"
    and step: "wr_op (wr_l s) (wr_pcs s t) l' pc'"
  shows "wr_inv n (s\<lparr>wr_l := l', wr_pcs := (wr_pcs s)(t := pc')\<rparr>)"
proof -
  have rest: "\<forall>u \<ge> n. ((wr_pcs s)(t := pc')) u = Idle"
    "\<forall>u v. ((wr_pcs s)(t := pc')) u = R_Cas v \<or> ((wr_pcs s)(t := pc')) u = TryR_Cas v \<longrightarrow> v \<noteq> LOCKED"
    using inv t wr_op_no_locked [OF step] by (auto simp: wr_inv_def)
  have v: "\<forall>v. wr_pcs s t = R_Cas v \<or> wr_pcs s t = TryR_Cas v \<longrightarrow> v \<noteq> LOCKED"
    using inv by (auto simp: wr_inv_def)
  note upd = readers_upd [OF t] writers_upd [OF t] readers_mem [OF t, symmetric] writers_mem [OF t, symmetric]
  let ?R = "readers n (wr_pcs s)" and ?W = "writers n (wr_pcs s)"
  from step v have "(writers n ((wr_pcs s)(t := pc')) = {} \<and> unat l' = 2 * card (readers n ((wr_pcs s)(t := pc'))))
      \<or> (\<exists>u. writers n ((wr_pcs s)(t := pc')) = {u} \<and> readers n ((wr_pcs s)(t := pc')) = {} \<and> l' = LOCKED)"
  proof (cases rule: wr_op_effect)
    case quiet
    then have "readers n ((wr_pcs s)(t := pc')) = ?R" "writers n ((wr_pcs s)(t := pc')) = ?W"
      by (auto simp: upd)
    with inv quiet show ?thesis by (simp add: wr_inv_def)
  next
    case write_lock
    then have "?W = {}" "?R = {}" using inv by (auto simp: wr_inv_def LOCKED_def UNLOCKED_def)
    with write_lock show ?thesis by (simp add: upd is_reading_def)
  next
    case read_lock
    then have W: "?W = {}" and l: "unat (wr_l s) = 2 * card ?R" using inv by (auto simp: wr_inv_def)
    have "Suc (card ?R) < 2 ^ 15" using card_readers_less [of t n "wr_pcs s", OF t read_lock(4)] n by simp
    with reading_add [OF l] have "unat l' = 2 * Suc (card ?R)" using read_lock by simp
    with W read_lock show ?thesis by (simp add: upd is_reading_def)
  next
    case read_unlock
    then have R: "t \<in> ?R" by (simp add: upd)
    then have W: "?W = {}" and l: "unat (wr_l s) = 2 * card ?R" using inv by (auto simp: wr_inv_def)
    have "0 < card ?R" using R by (auto simp: card_gt_0_iff)
    with reading_sub [OF l] R have "unat l' = 2 * card (?R - {t})" using read_unlock by simp
    with W read_unlock show ?thesis by (simp add: upd is_reading_def)
  next
    case write_unlock
    then have "t \<in> ?W" by (simp add: upd)
    then have "?W = {t}" "?R = {}" using inv by (auto simp: wr_inv_def)
    with write_unlock show ?thesis by (simp add: upd is_reading_def UNLOCKED_def)
  qed
  with rest show ?thesis by (simp add: wr_inv_def)
qed

lemma wr_reach_inv: "wr_reach n s \<Longrightarrow> n < 2 ^ 15 \<Longrightarrow> wr_inv n s"
proof (induction rule: wr_reach.induct)
  case init
  show ?case by (simp add: wr_inv_def readers_def writers_def is_reading_def UNLOCKED_def)
next
  case (thread s t l' pc')
  then show ?case by (intro wr_inv_step) auto
qed

definition wr_ok :: "wr_state \<Rightarrow> bool" where
  "wr_ok s \<longleftrightarrow> (\<exists>n < 2 ^ 15. wr_reach n s)"

lemma wr_holders:
  assumes "wr_inv n s"
  shows "wr_writing s t \<longleftrightarrow> t \<in> writers n (wr_pcs s)" "wr_reading s t \<longleftrightarrow> t \<in> readers n (wr_pcs s)"
proof -
  have "\<not> t < n \<longrightarrow> wr_pcs s t = Idle" using assms by (simp add: wr_inv_def)
  then show "wr_writing s t \<longleftrightarrow> t \<in> writers n (wr_pcs s)" "wr_reading s t \<longleftrightarrow> t \<in> readers n (wr_pcs s)"
    by (auto simp: wr_writing_def wr_reading_def writers_def readers_def is_reading_def)
qed

interpretation wr_lock: rw_lock wr_ok wr_writing wr_reading
proof unfold_locales
  fix s t t'
  assume "wr_ok s" and w: "wr_writing s t"
  then obtain n where inv: "wr_inv n s" using wr_reach_inv by (auto simp: wr_ok_def)
  from w wr_holders [OF inv] inv have "writers n (wr_pcs s) = {t}" "readers n (wr_pcs s) = {}"
    by (auto simp: wr_inv_def)
  then show "\<not> wr_reading s t" by (simp add: wr_holders [OF inv])
  assume "t' \<noteq> t"
  with \<open>writers n (wr_pcs s) = {t}\<close> \<open>readers n (wr_pcs s) = {}\<close>
  show "\<not> wr_writing s t' \<and> \<not> wr_reading s t'" by (simp add: wr_holders [OF inv])
qed

section \<open>spinlock\<close>

datatype spin_pc = S_Idle | S_Tas | S_TryTas | S_Held

inductive spin_op :: "bool \<Rightarrow> spin_pc \<Rightarrow> bool \<Rightarrow> spin_pc \<Rightarrow> bool" where
  lock: "spin_op f S_Idle f S_Tas"
| tas: "spin_op f S_Tas True (if f then S_Tas else S_Held)"
| try_lock: "spin_op f S_Idle f S_TryTas"
| try_tas: "spin_op f S_TryTas True (if f then S_Idle else S_Held)"
| unlock: "spin_op f S_Held False S_Idle"

inductive_cases spin_opE: "spin_op f pc f' pc'"

record spin_state =
  sp_flag :: bool
  sp_pcs :: "nat \<Rightarrow> spin_pc"

inductive spin_reach :: "spin_state \<Rightarrow> bool" where
  init: "spin_reach \<lparr>sp_flag = False, sp_pcs = (\<lambda>_. S_Idle)\<rparr>"
| thread: "spin_reach s \<Longrightarrow> spin_op (sp_flag s) (sp_pcs s t) f pc \<Longrightarrow>
    spin_reach (s\<lparr>sp_flag := f, sp_pcs := (sp_pcs s)(t := pc)\<rparr>)"

definition spin_holders :: "(nat \<Rightarrow> spin_pc) \<Rightarrow> nat set" where
  "spin_holders pcs = {t. pcs t = S_Held}"

definition spin_inv :: "spin_state \<Rightarrow> bool" where
  "spin_inv s \<longleftrightarrow> (if sp_flag s then is_singleton (spin_holders (sp_pcs s)) else spin_holders (sp_pcs s) = {})"

lemma spin_holders_upd:
  "spin_holders (pcs(t := pc)) = (if pc = S_Held then insert t (spin_holders pcs) else spin_holders pcs - {t})"
  by (auto simp: spin_holders_def)

lemma spin_not_holder: "pcs t \<noteq> S_Held \<Longrightarrow> spin_holders pcs - {t} = spin_holders pcs"
  by (auto simp: spin_holders_def)

lemma spin_holder_mem: "t \<in> spin_holders pcs \<longleftrightarrow> pcs t = S_Held"
  by (simp add: spin_holders_def)

lemma spin_op_effect:
  assumes "spin_op f pc f' pc'" "pc \<noteq> S_Held"
  shows "(f' = f \<and> pc' \<noteq> S_Held) \<or> (\<not> f \<and> f' \<and> pc' = S_Held)"
  using assms by (cases f) (auto elim!: spin_opE)

lemma spin_reach_inv: "spin_reach s \<Longrightarrow> spin_inv s"
proof (induction rule: spin_reach.induct)
  case init
  show ?case by (simp add: spin_inv_def spin_holders_def)
next
  case (thread s t f pc)
  show ?case
  proof (cases "sp_pcs s t = S_Held")
    case True
    with thread.hyps(2) have "f = False" "pc = S_Idle" by (auto elim: spin_opE)
    moreover have "spin_holders (sp_pcs s) = {t}"
      using thread.IH True spin_holder_mem [of t "sp_pcs s"]
      by (auto simp: spin_inv_def is_singleton_def split: if_splits)
    ultimately show ?thesis by (simp add: spin_inv_def spin_holders_upd)
  next
    case False
    from spin_op_effect [OF thread.hyps(2) False] show ?thesis
    proof
      assume "f = sp_flag s \<and> pc \<noteq> S_Held"
      with thread.IH False show ?thesis
        by (simp add: spin_inv_def spin_holders_upd spin_not_holder)
    next
      assume *: "\<not> sp_flag s \<and> f \<and> pc = S_Held"
      with thread.IH have "spin_holders (sp_pcs s) = {}" by (simp add: spin_inv_def)
      with * show ?thesis by (simp add: spin_inv_def spin_holders_upd)
    qed
  qed
qed

lemma spin_one_holder:
  "spin_reach s \<Longrightarrow> sp_pcs s t = S_Held \<Longrightarrow> sp_pcs s u = S_Held \<Longrightarrow> u = t"
  using spin_reach_inv [of s] spin_holder_mem [of t "sp_pcs s"] spin_holder_mem [of u "sp_pcs s"]
  by (auto simp: spin_inv_def is_singleton_def split: if_splits)

interpretation spin_lock: rw_lock spin_reach "\<lambda>s t. sp_pcs s t = S_Held" "\<lambda>s t. False"
  by unfold_locales (auto dest: spin_one_holder)

section \<open>spinlock_rw\<close>

datatype rw_pc =
    RW_Idle | RL_Spin | RL_Add | RL_Check | RL_Undo | TRL_Check | TRL_Add | RW_Reading
  | WL_Readers | WL_Writer | WL_Cas | TWL_Cas | RW_Writing

text \<open>The two loads of the condition of the waiting loop of \<open>lock_write\<close> are two instructions.\<close>

inductive rw_op :: "int \<times> bool \<Rightarrow> rw_pc \<Rightarrow> int \<times> bool \<Rightarrow> rw_pc \<Rightarrow> bool" where
  lock_read: "rw_op (n, w) RW_Idle (n, w) RL_Spin"
| rl_spin: "rw_op (n, w) RL_Spin (n, w) (if w then RL_Spin else RL_Add)"
| rl_add: "rw_op (n, w) RL_Add (n + 1, w) RL_Check"
| rl_check: "rw_op (n, w) RL_Check (n, w) (if w then RL_Undo else RW_Reading)"
| rl_undo: "rw_op (n, w) RL_Undo (n - 1, w) RL_Spin"
| try_lock_read: "rw_op (n, w) RW_Idle (n, w) TRL_Check"
| trl_check: "rw_op (n, w) TRL_Check (n, w) (if w then RW_Idle else TRL_Add)"
| trl_add: "rw_op (n, w) TRL_Add (n + 1, w) RW_Reading"
| unlock_read: "rw_op (n, w) RW_Reading (n - 1, w) RW_Idle"
| lock_write: "rw_op (n, w) RW_Idle (n, w) WL_Readers"
| wl_readers: "rw_op (n, w) WL_Readers (n, w) (if n \<noteq> 0 then WL_Readers else WL_Writer)"
| wl_writer: "rw_op (n, w) WL_Writer (n, w) (if w then WL_Readers else WL_Cas)"
| wl_cas: "cas w False True = (b, w') \<Longrightarrow> rw_op (n, w) WL_Cas (n, w') (if b then RW_Writing else WL_Readers)"
| wl_cas_spurious: "rw_op (n, w) WL_Cas (n, w) WL_Readers"
| try_lock_write: "rw_op (n, w) RW_Idle (n, w) TWL_Cas"
| twl_cas: "cas w False True = (b, w') \<Longrightarrow> rw_op (n, w) TWL_Cas (n, w') (if b then RW_Writing else RW_Idle)"
| unlock_write: "rw_op (n, w) RW_Writing (n, False) RW_Idle"

inductive rw_reach :: "(int \<times> bool) \<times> (nat \<Rightarrow> rw_pc) \<Rightarrow> bool" where
  init: "rw_reach ((0, False), (\<lambda>_. RW_Idle))"
| thread: "rw_reach (l, pcs) \<Longrightarrow> rw_op l (pcs t) l' pc \<Longrightarrow> rw_reach (l', pcs(t := pc))"

lemma rw_reads_one:
  "rw_reach (l, pcs) \<Longrightarrow> pcs t = TRL_Check \<Longrightarrow> snd l = False \<Longrightarrow>
     rw_reach ((fst l + 1, False), pcs(t := RW_Reading))"
proof -
  assume r: "rw_reach (l, pcs)" and pc: "pcs t = TRL_Check" and w: "snd l = False"
  obtain n where l: "l = (n, False)" using w by (cases l) auto
  have "rw_reach (l, pcs(t := TRL_Add))"
    using rw_reach.thread [OF r, of t l TRL_Add] rw_op.trl_check [of n False] pc l by simp
  from rw_reach.thread [OF this, of t "(n + 1, False)" RW_Reading] rw_op.trl_add [of n False] l
  show ?thesis by simp
qed

text \<open>A reader and a writer at once: the writer has seen no readers before the reader arrives.\<close>

lemma rw_writer_with_reader:
  "\<exists>l pcs. rw_reach (l, pcs) \<and> pcs 0 = RW_Writing \<and> pcs 1 = RW_Reading"
proof -
  define p0 where "p0 = (\<lambda>_ :: nat. RW_Idle)"
  have 0: "rw_reach ((0, False), p0)" by (simp add: p0_def rw_reach.init)
  have 1: "rw_reach ((0, False), p0(0 := WL_Readers))"
    by (rule rw_reach.thread [OF 0]) (simp add: p0_def rw_op.lock_write)
  have 2: "rw_reach ((0, False), p0(0 := WL_Writer))"
    using rw_reach.thread [OF 1, of 0 "(0, False)" WL_Writer] rw_op.wl_readers [of 0 False] by simp
  have 3: "rw_reach ((0, False), p0(0 := WL_Cas))"
    using rw_reach.thread [OF 2, of 0 "(0, False)" WL_Cas] rw_op.wl_writer [of 0 False] by simp
  have 4: "rw_reach ((0, False), p0(0 := WL_Cas, 1 := TRL_Check))"
    by (rule rw_reach.thread [OF 3]) (simp add: p0_def rw_op.try_lock_read)
  have 5: "rw_reach ((1, False), p0(0 := WL_Cas, 1 := RW_Reading))"
    using rw_reads_one [OF 4, of 1] by simp
  have 6: "rw_reach ((1, True), p0(0 := RW_Writing, 1 := RW_Reading))"
    using rw_reach.thread [OF 5, of 0 "(1, True)" RW_Writing] rw_op.wl_cas [of False True True 1]
    by (simp add: cas_def fun_upd_twist)
  then show ?thesis by (intro exI conjI) (rule 6, simp_all)
qed

section \<open>Properties\<close>


definition sample_locked :: wr_state where
  "sample_locked = \<lparr>wr_l = LOCKED, wr_pcs = (\<lambda>_. Idle)(3 := Writing)\<rparr>"

lemma sample_locked_reach: "wr_reach 8 sample_locked"
proof -
  have 1: "wr_reach 8 \<lparr>wr_l = UNLOCKED, wr_pcs = (\<lambda>_. Idle)(3 := TryW_Load)\<rparr>"
    using wr_reach.thread [OF wr_reach.init, of 3 8 UNLOCKED TryW_Load] wr_op.try_wLock by simp
  have 2: "wr_reach 8 \<lparr>wr_l = UNLOCKED, wr_pcs = (\<lambda>_. Idle)(3 := TryW_Cas)\<rparr>"
    using wr_reach.thread [OF 1, of 3 UNLOCKED TryW_Cas] wr_op.try_w_load [of UNLOCKED] by simp
  show ?thesis
    using wr_reach.thread [OF 2, of 3 LOCKED Writing] wr_op.try_w_cas [of UNLOCKED True LOCKED]
    by (simp add: cas_def sample_locked_def)
qed


text \<open>(C15) \<open>spinlock_rw\<close> does not exclude: a writer that found no readers takes the lock although a
  reader has arrived since, and both hold it.\<close>

theorem spinlock_rw_not_exclusive:
  "\<exists>l pcs. rw_reach (l, pcs) \<and> pcs 0 = RW_Writing \<and> pcs 1 = RW_Reading"
  by (rule rw_writer_with_reader)

end
