(* ===== verification/Allocators.thy ===== *)
theory Allocators
  imports Host_Types
begin

text \<open>
  Allocation of the shared memory: a node's memory is cut into chunks of 32 MB by the global
  allocators of its system threads (\<open>GlobalAllocator.h\<close>, set up in \<open>DSM::DSM\<close>), and an application
  thread cuts blocks from the chunk it holds and asks the next node for another when it is used up
  (\<open>LocalAllocator.h\<close>, \<open>Cache::malloc\<close>). A failed assertion, and an index outside an array, is \<open>None\<close>.
\<close>

section \<open>Global allocator\<close>

record GlobalAllocator =
  gl_start :: GlobalAddress
  gl_size :: u64
  gl_bitmap :: "bool list"
  gl_bitmap_len :: u64
  gl_bitmap_tail :: u64

definition new_GlobalAllocator :: "GlobalAddress \<Rightarrow> u64 \<Rightarrow> GlobalAllocator" where
  "new_GlobalAllocator start sz =
     \<lparr>gl_start = start, gl_size = sz, gl_bitmap = replicate (unat (sz div kChunkSize)) False,
      gl_bitmap_len = sz div kChunkSize, gl_bitmap_tail = 0\<rparr>"

definition alloc_chunck :: "GlobalAllocator \<Rightarrow> ((GlobalAddress \<times> bool) \<times> GlobalAllocator) option" where
  "alloc_chunck g =
     (let res = gl_start g in
      if gl_bitmap_len g \<le> gl_bitmap_tail g then Some ((res, False), g)
      else if \<not> gl_bitmap g ! unat (gl_bitmap_tail g) then
        Some ((res\<lparr>ga_addr := ga_addr res + gl_bitmap_tail g * kChunkSize\<rparr>, True),
              g\<lparr>gl_bitmap := (gl_bitmap g)[unat (gl_bitmap_tail g) := True],
                gl_bitmap_tail := gl_bitmap_tail g + 1\<rparr>)
      else None)"

definition free_chunk :: "GlobalAddress \<Rightarrow> GlobalAllocator \<Rightarrow> GlobalAllocator option" where
  "free_chunk a g =
     (let i = unat ((ga_addr a - ga_addr (gl_start g)) div kChunkSize) in
      if i < length (gl_bitmap g) then Some (g\<lparr>gl_bitmap := (gl_bitmap g)[i := False]\<rparr>) else None)"

text \<open>The allocator of system thread \<open>i\<close> of a node.\<close>

definition system_allocator :: "u8 \<Rightarrow> u64 \<Rightarrow> nat \<Rightarrow> nat \<Rightarrow> GlobalAllocator" where
  "system_allocator node gmem_size syst_num i =
     (let per = gmem_size div of_nat syst_num
      in new_GlobalAllocator \<lparr>ga_addr = per * of_nat i, ga_nodeID = node, ga_org = 0\<rparr> per)"

section \<open>Local allocator\<close>

record LocalAllocator =
  lc_head :: GlobalAddress
  lc_cur :: GlobalAddress
  lc_log_heads :: "GlobalAddress list"

definition new_LocalAllocator :: LocalAllocator where
  "new_LocalAllocator = \<lparr>lc_head = Null, lc_cur = Null, lc_log_heads = []\<rparr>"

definition align_up :: "u64 \<Rightarrow> u64" where
  "align_up a = (if a mod of_nat DSM_CACHE_LINE_SIZE \<noteq> 0
                 then (a div of_nat DSM_CACHE_LINE_SIZE + 1) * of_nat DSM_CACHE_LINE_SIZE else a)"

definition local_malloc :: "u64 \<Rightarrow> bool \<Rightarrow> LocalAllocator \<Rightarrow> ((GlobalAddress \<times> bool) \<times> LocalAllocator) option" where
  "local_malloc sz align l =
     (let l = (if align then l\<lparr>lc_cur := (lc_cur l)\<lparr>ga_addr := align_up (ga_addr (lc_cur l))\<rparr>\<rparr> else l);
          res = lc_cur l;
          need = (lc_log_heads l = [] \<or> ga_addr (lc_head l) + kChunkSize < ga_addr (lc_cur l) + sz);
          l = (if need then l else l\<lparr>lc_cur := (lc_cur l)\<lparr>ga_addr := ga_addr (lc_cur l) + sz\<rparr>\<rparr>)
      in if ga_addr res + sz \<le> 40 * GB then Some ((res, need), l) else None)"

definition set_chunck :: "GlobalAddress \<Rightarrow> LocalAllocator \<Rightarrow> LocalAllocator" where
  "set_chunck a l = l\<lparr>lc_log_heads := lc_log_heads l @ [a], lc_head := a, lc_cur := a\<rparr>"

text \<open>\<open>Cache::malloc\<close>: the reply to the request for a chunk is an argument, the address of the chunk or
  nothing when the allocator of the node has none left, where the thread loops forever.\<close>

record malloc_thread =
  mt_alloc :: LocalAllocator
  mt_next_allocator_node :: u32

definition cache_malloc :: "u64 \<Rightarrow> bool \<Rightarrow> u32 \<Rightarrow> u64 option \<Rightarrow> malloc_thread \<Rightarrow>
    (GlobalAddress \<times> malloc_thread) outcome" where
  "cache_malloc sz align node_num reply t =
     (case local_malloc sz align (mt_alloc t) of
        None \<Rightarrow> Aborts
      | Some ((res, need), l) \<Rightarrow>
          if kChunkSize < sz then Aborts
          else if \<not> need then Returned (res, t\<lparr>mt_alloc := l\<rparr>)
          else case reply of
                 None \<Rightarrow> Hangs
               | Some a \<Rightarrow>
                   (let c = \<lparr>ga_addr = a, ga_nodeID = ucast (mt_next_allocator_node t), ga_org = 0\<rparr> in
                    case local_malloc sz align (set_chunck c l) of
                      None \<Rightarrow> Aborts
                    | Some ((res, need), l) \<Rightarrow>
                        if need then Aborts
                        else Returned (res, t\<lparr>mt_alloc := l,
                               mt_next_allocator_node := (mt_next_allocator_node t + 1) mod node_num\<rparr>)))"

section \<open>Areas of memory\<close>

text \<open>The bytes of a block: pairs of a node and a position in the node's memory.\<close>

definition area :: "GlobalAddress \<Rightarrow> nat \<Rightarrow> (u8 \<times> nat) set" where
  "area a n = {ga_nodeID a} \<times> {unat (ga_addr a)..<unat (ga_addr a) + n}"

abbreviation chunk_bytes :: nat where "chunk_bytes \<equiv> 33554432"

abbreviation chunk_area :: "GlobalAddress \<Rightarrow> (u8 \<times> nat) set" where "chunk_area c \<equiv> area c chunk_bytes"

lemma kChunkSize_value: "kChunkSize = 33554432" by (simp add: kChunkSize_def MB_def)

definition available :: "LocalAllocator \<Rightarrow> (u8 \<times> nat) set" where
  "available l = (if lc_log_heads l = [] then {}
     else {ga_nodeID (lc_head l)} \<times> {unat (ga_addr (lc_cur l))..<unat (ga_addr (lc_head l)) + chunk_bytes})"

definition local_ok :: "LocalAllocator \<Rightarrow> bool" where
  "local_ok l \<longleftrightarrow> lc_log_heads l \<noteq> [] \<longrightarrow>
     ga_nodeID (lc_cur l) = ga_nodeID (lc_head l) \<and> ga_addr (lc_head l) \<le> ga_addr (lc_cur l)
     \<and> unat (ga_addr (lc_cur l)) \<le> unat (ga_addr (lc_head l)) + chunk_bytes
     \<and> unat (ga_addr (lc_head l)) < 2 ^ 62"

lemma next_multiple:
  fixes n :: nat
  shows "n \<le> (n div 4096 + 1) * 4096" "0 < n mod 4096 \<Longrightarrow> (n div 4096 + 1) * 4096 < n + 4096"
proof -
  define q r where "q = n div 4096" and "r = n mod 4096"
  then have "n = q * 4096 + r" "r < 4096" by simp_all
  then show "n \<le> (n div 4096 + 1) * 4096" "0 < n mod 4096 \<Longrightarrow> (n div 4096 + 1) * 4096 < n + 4096"
    unfolding q_def [symmetric] r_def [symmetric] by simp_all
qed

lemma align_up_bounds:
  assumes "unat a < 2 ^ 63"
  shows "unat a \<le> unat (align_up a)" "unat (align_up a) < unat a + 4096" "align_up a mod 4096 = 0"
proof -
  have u: "unat ((a div 4096 + 1) * 4096) = (unat a div 4096 + 1) * 4096"
  proof -
    have "unat a div 4096 * 4096 \<le> unat a" by simp
    with assms have "(unat a div 4096 + 1) * 4096 < 2 ^ 64" by simp
    then show ?thesis by (simp add: unat_word_ariths unat_div)
  qed
  have r: "unat (a mod 4096) = unat a mod 4096" by (simp add: unat_mod)
  then have z: "a mod 4096 = 0 \<longleftrightarrow> unat a mod 4096 = 0" by (metis unat_eq_zero)
  have al: "align_up a = (if unat a mod 4096 \<noteq> 0 then (a div 4096 + 1) * 4096 else a)"
    by (simp add: align_up_def DSM_CACHE_LINE_SIZE_def DSM_CACHE_LINE_WIDTH_def z)
  note lo = next_multiple(1) [of "unat a"] and hi = next_multiple(2) [of "unat a"]
  have ua: "unat (align_up a) = (if unat a mod 4096 \<noteq> 0 then (unat a div 4096 + 1) * 4096 else unat a)"
    by (simp only: al u split: if_split) simp
  show "unat a \<le> unat (align_up a)" "unat (align_up a) < unat a + 4096"
    unfolding ua using lo hi by simp_all
  have "unat (align_up a) mod 4096 = 0" unfolding ua by simp
  moreover have "unat (align_up a mod 4096) = unat (align_up a) mod 4096" by (simp add: unat_mod)
  ultimately show "align_up a mod 4096 = 0" by (metis unat_eq_zero)
qed

text \<open>A block is cut from what is available.\<close>

lemma local_malloc_cuts:
  assumes "local_ok l" "local_malloc sz align l = Some ((r, need), l')" "unat sz \<le> chunk_bytes"
  shows "\<not> need \<Longrightarrow> area r (unat sz) \<subseteq> available l"
    and "\<not> need \<Longrightarrow> available l' \<subseteq> available l - area r (unat sz)"
    and "\<not> need \<Longrightarrow> local_ok l'" and "lc_head l' = lc_head l" and "lc_log_heads l' = lc_log_heads l"
    and "align \<Longrightarrow> \<not> need \<Longrightarrow> ga_addr r mod 4096 = 0"
proof -
  let ?cur = "if align then align_up (ga_addr (lc_cur l)) else ga_addr (lc_cur l)"
  show "lc_head l' = lc_head l" "lc_log_heads l' = lc_log_heads l"
    using assms(2) by (auto simp: local_malloc_def Let_def split: if_splits)
  have r: "r = (lc_cur l)\<lparr>ga_addr := ?cur\<rparr>"
    and n: "need = (lc_log_heads l = [] \<or> ga_addr (lc_head l) + kChunkSize < ?cur + sz)"
    and l': "\<not> need \<Longrightarrow> l' = l\<lparr>lc_cur := (lc_cur l)\<lparr>ga_addr := ?cur + sz\<rparr>\<rparr>"
    using assms(2) by (auto simp: local_malloc_def Let_def split: if_splits)
  {
    assume *: "\<not> need"
    then have heads: "lc_log_heads l \<noteq> []" using n by simp
    with assms(1) have ok: "ga_nodeID (lc_cur l) = ga_nodeID (lc_head l)"
      "unat (ga_addr (lc_head l)) \<le> unat (ga_addr (lc_cur l))"
      "unat (ga_addr (lc_cur l)) \<le> unat (ga_addr (lc_head l)) + chunk_bytes"
      "unat (ga_addr (lc_head l)) < 2 ^ 62" by (simp_all add: local_ok_def word_le_nat_alt)
    then have small: "unat (ga_addr (lc_cur l)) < 2 ^ 63" by simp
    have cur: "unat (ga_addr (lc_cur l)) \<le> unat ?cur" "unat ?cur < 2 ^ 63"
      using align_up_bounds [OF small] ok by (auto split: if_splits)
    have sum: "unat (?cur + sz) = unat ?cur + unat sz"
      using cur assms(3) by (intro unat_plus_simple [THEN iffD1]) (simp add: no_olen_add_nat)
    have top: "unat (ga_addr (lc_head l) + kChunkSize) = unat (ga_addr (lc_head l)) + chunk_bytes"
      using ok by (subst unat_plus_simple [THEN iffD1]) (simp_all add: no_olen_add_nat kChunkSize_value)
    have le: "unat ?cur + unat sz \<le> unat (ga_addr (lc_head l)) + chunk_bytes"
      using * heads unfolding n word_less_nat_alt sum top by simp
    show "area r (unat sz) \<subseteq> available l"
      using le cur ok heads by (auto simp: r area_def available_def)
    show "available l' \<subseteq> available l - area r (unat sz)"
      unfolding l' [OF *] using le cur ok heads by (auto simp: r area_def available_def sum)
    show "local_ok l'"
      unfolding l' [OF *] using le cur ok heads by (auto simp: local_ok_def sum word_le_nat_alt)
    show "align \<Longrightarrow> ga_addr r mod 4096 = 0" using align_up_bounds(3) [OF small] by (simp add: r)
  }
qed

section \<open>Threads and a source of chunks\<close>

text \<open>What a thread relies on: a chunk it is granted is in nobody's hands yet.\<close>

locale chunk_source =
  fixes grant :: "'i \<Rightarrow> 's \<Rightarrow> ((GlobalAddress \<times> bool) \<times> 's) option"
    and ok :: "'s \<Rightarrow> bool" and granted :: "'s \<Rightarrow> GlobalAddress set"
  assumes grant_ok: "ok s \<Longrightarrow> grant i s = Some ((c, b), s') \<Longrightarrow> ok s'"
    and grant_total: "ok s \<Longrightarrow> grant i s \<noteq> None"
    and grant_granted: "ok s \<Longrightarrow> grant i s = Some ((c, b), s') \<Longrightarrow> granted s' = (if b then insert c (granted s) else granted s)"
    and grant_fresh: "ok s \<Longrightarrow> grant i s = Some ((c, True), s') \<Longrightarrow> d \<in> granted s \<Longrightarrow> chunk_area c \<inter> chunk_area d = {}"
    and grant_small: "ok s \<Longrightarrow> grant i s = Some ((c, True), s') \<Longrightarrow> unat (ga_addr c) < 2 ^ 62"

text \<open>The threads with the source they share, and every block handed out so far.\<close>

record 's heap =
  hp_source :: 's
  hp_threads :: "nat \<Rightarrow> malloc_thread"
  hp_blocks :: "(GlobalAddress \<times> u64 \<times> bool) list"

inductive heap_step :: "('i \<Rightarrow> 's \<Rightarrow> ((GlobalAddress \<times> bool) \<times> 's) option) \<Rightarrow> u32 \<Rightarrow> 's heap \<Rightarrow> 's heap \<Rightarrow> bool"
  for grant node_num where
  from_chunk: "cache_malloc sz align node_num None (hp_threads h t) = Returned (r, m) \<Longrightarrow>
    heap_step grant node_num h
      (h\<lparr>hp_threads := (hp_threads h)(t := m), hp_blocks := (r, sz, align) # hp_blocks h\<rparr>)"
| new_chunk: "cache_malloc sz align node_num None (hp_threads h t) = Hangs \<Longrightarrow>
    grant i (hp_source h) = Some ((c, True), src) \<Longrightarrow>
    ga_nodeID c = ucast (mt_next_allocator_node (hp_threads h t)) \<Longrightarrow> ga_org c = 0 \<Longrightarrow>
    cache_malloc sz align node_num (Some (ga_addr c)) (hp_threads h t) = Returned (r, m) \<Longrightarrow>
    heap_step grant node_num h
      (h\<lparr>hp_source := src, hp_threads := (hp_threads h)(t := m), hp_blocks := (r, sz, align) # hp_blocks h\<rparr>)"
| refused: "cache_malloc sz align node_num None (hp_threads h t) = Hangs \<Longrightarrow>
    grant i (hp_source h) = Some ((c, False), src) \<Longrightarrow> heap_step grant node_num h (h\<lparr>hp_source := src\<rparr>)"

abbreviation block_area :: "GlobalAddress \<times> u64 \<times> bool \<Rightarrow> (u8 \<times> nat) set" where
  "block_area b \<equiv> area (fst b) (unat (fst (snd b)))"

abbreviation thread_alloc :: "'s heap \<Rightarrow> nat \<Rightarrow> LocalAllocator" where
  "thread_alloc h t \<equiv> mt_alloc (hp_threads h t)"

definition heap_start :: "'s \<Rightarrow> (nat \<Rightarrow> u32) \<Rightarrow> 's heap" where
  "heap_start src next = \<lparr>hp_source = src,
     hp_threads = \<lambda>t. \<lparr>mt_alloc = new_LocalAllocator, mt_next_allocator_node = next t\<rparr>, hp_blocks = []\<rparr>"

text \<open>What a successful call does to the allocator, on both of its paths.\<close>

lemma cache_malloc_old:
  assumes "cache_malloc sz align n None t = Returned (r, m)"
  shows "local_malloc sz align (mt_alloc t) = Some ((r, False), mt_alloc m)" "unat sz \<le> chunk_bytes"
  using assms by (auto simp: cache_malloc_def kChunkSize_value word_less_nat_alt not_less
      split: option.splits if_splits)

lemma cache_malloc_new:
  assumes "cache_malloc sz align n None t = Hangs" "cache_malloc sz align n (Some (ga_addr c)) t = Returned (r, m)"
    "ga_nodeID c = ucast (mt_next_allocator_node t)" "ga_org c = 0"
  obtains l where "local_malloc sz align (set_chunck c l) = Some ((r, False), mt_alloc m)" "unat sz \<le> chunk_bytes"
proof -
  have "\<lparr>ga_addr = ga_addr c, ga_nodeID = ucast (mt_next_allocator_node t), ga_org = 0\<rparr> = c"
    using assms(3,4) by simp
  with assms(1,2) that show ?thesis
    by (auto simp: cache_malloc_def kChunkSize_value word_less_nat_alt not_less Let_def
        split: option.splits if_splits)
qed

context chunk_source begin

definition heap_inv :: "'s heap \<Rightarrow> bool" where
  "heap_inv h \<longleftrightarrow> ok (hp_source h) \<and> (\<forall>t. local_ok (thread_alloc h t))
     \<and> (\<forall>t. lc_log_heads (thread_alloc h t) \<noteq> [] \<longrightarrow> lc_head (thread_alloc h t) \<in> granted (hp_source h))
     \<and> (\<forall>t u. t \<noteq> u \<longrightarrow> available (thread_alloc h t) \<inter> available (thread_alloc h u) = {})
     \<and> (\<forall>b \<in> set (hp_blocks h). (\<exists>c \<in> granted (hp_source h). block_area b \<subseteq> chunk_area c)
          \<and> (\<forall>t. block_area b \<inter> available (thread_alloc h t) = {})
          \<and> (snd (snd b) \<longrightarrow> ga_addr (fst b) mod 4096 = 0))
     \<and> sorted_wrt (\<lambda>a b. block_area a \<inter> block_area b = {}) (hp_blocks h)"

lemma available_chunk: "local_ok l \<Longrightarrow> available l \<subseteq> chunk_area (lc_head l)"
  by (auto simp: available_def area_def local_ok_def word_le_nat_alt)

lemma start_inv: "ok src \<Longrightarrow> heap_inv (heap_start src next)"
  by (simp add: heap_inv_def heap_start_def new_LocalAllocator_def local_ok_def available_def)

text \<open>A block cut from an allocator that is apart from all others keeps the invariant.\<close>

lemma cut_inv:
  assumes inv: "heap_inv h" and src: "ok src" "granted (hp_source h) \<subseteq> granted src"
    and l: "local_ok l" "lc_log_heads l \<noteq> [] \<Longrightarrow> lc_head l \<in> granted src"
      "\<And>u. u \<noteq> t \<Longrightarrow> available l \<inter> available (thread_alloc h u) = {}"
      "\<And>b. b \<in> set (hp_blocks h) \<Longrightarrow> block_area b \<inter> available l = {}"
    and cut: "local_malloc sz align l = Some ((r, False), mt_alloc m)" "unat sz \<le> chunk_bytes"
  shows "heap_inv (h\<lparr>hp_source := src, hp_threads := (hp_threads h)(t := m),
           hp_blocks := (r, sz, align) # hp_blocks h\<rparr>)"
proof -
  have heads: "lc_log_heads l \<noteq> []" using cut by (auto simp: local_malloc_def Let_def split: if_splits)
  note c = local_malloc_cuts [OF l(1) cut]
  have a: "area r (unat sz) \<subseteq> available l" "available (mt_alloc m) \<subseteq> available l - area r (unat sz)"
    "local_ok (mt_alloc m)" "lc_head (mt_alloc m) = lc_head l" "align \<longrightarrow> ga_addr r mod 4096 = 0"
    using c by simp_all
  have "area r (unat sz) \<subseteq> chunk_area (lc_head l)" using a(1) available_chunk [OF l(1)] by blast
  then have in_chunk: "\<exists>c \<in> granted src. area r (unat sz) \<subseteq> chunk_area c" using l(2) heads by blast
  have others: "available (mt_alloc m) \<inter> available (thread_alloc h u) = {}"
    "area r (unat sz) \<inter> available (thread_alloc h u) = {}" if "u \<noteq> t" for u
    using l(3) [OF that] a(1,2) by blast+
  have old: "block_area b \<inter> available (mt_alloc m) = {}" "area r (unat sz) \<inter> block_area b = {}"
    if "b \<in> set (hp_blocks h)" for b using l(4) [OF that] a(1,2) by blast+
  have mine: "area r (unat sz) \<inter> available (mt_alloc m) = {}" using a(2) by blast
  let ?h = "h\<lparr>hp_source := src, hp_threads := (hp_threads h)(t := m), hp_blocks := (r, sz, align) # hp_blocks h\<rparr>"
  from inv have old_inv: "\<forall>t. local_ok (thread_alloc h t)"
    "\<forall>t. lc_log_heads (thread_alloc h t) \<noteq> [] \<longrightarrow> lc_head (thread_alloc h t) \<in> granted (hp_source h)"
    "\<forall>t u. t \<noteq> u \<longrightarrow> available (thread_alloc h t) \<inter> available (thread_alloc h u) = {}"
    "\<forall>b \<in> set (hp_blocks h). (\<exists>c \<in> granted (hp_source h). block_area b \<subseteq> chunk_area c)
          \<and> (\<forall>t. block_area b \<inter> available (thread_alloc h t) = {})
          \<and> (snd (snd b) \<longrightarrow> ga_addr (fst b) mod 4096 = 0)"
    "sorted_wrt (\<lambda>a b. block_area a \<inter> block_area b = {}) (hp_blocks h)"
    unfolding heap_inv_def by blast+
  show ?thesis unfolding heap_inv_def
  proof (intro conjI)
    show "ok (hp_source ?h)" using src by simp
    show "\<forall>u. local_ok (thread_alloc ?h u)" using old_inv(1) a(3) by simp
    show "\<forall>u. lc_log_heads (thread_alloc ?h u) \<noteq> [] \<longrightarrow> lc_head (thread_alloc ?h u) \<in> granted (hp_source ?h)"
      using old_inv(2) src(2) a(4) l(2) [OF heads] by auto
    show "\<forall>u v. u \<noteq> v \<longrightarrow> available (thread_alloc ?h u) \<inter> available (thread_alloc ?h v) = {}"
      using old_inv(3) others(1) by (simp add: Int_commute)
    show "\<forall>b \<in> set (hp_blocks ?h). (\<exists>c \<in> granted (hp_source ?h). block_area b \<subseteq> chunk_area c)
          \<and> (\<forall>u. block_area b \<inter> available (thread_alloc ?h u) = {})
          \<and> (snd (snd b) \<longrightarrow> ga_addr (fst b) mod 4096 = 0)"
      using old_inv(4) src(2) in_chunk mine others(2) old(1) a(5) by (simp) blast
    show "sorted_wrt (\<lambda>a b. block_area a \<inter> block_area b = {}) (hp_blocks ?h)"
      using old_inv(5) old(2) by simp
  qed
qed

lemma heap_step_inv:
  assumes "heap_inv h" "heap_step grant n h h'"
  shows "heap_inv h'"
  using assms(2)
proof (cases rule: heap_step.cases)
  case (from_chunk sz align t r m)
  note c = cache_malloc_old [OF from_chunk(2)]
  have "heap_inv (h\<lparr>hp_source := hp_source h, hp_threads := (hp_threads h)(t := m),
           hp_blocks := (r, sz, align) # hp_blocks h\<rparr>)"
    using assms(1) by (intro cut_inv [OF assms(1) _ _ _ _ _ _ c]) (auto simp: heap_inv_def)
  then show ?thesis unfolding from_chunk by simp
next
  case (new_chunk sz align t i c src r m)
  obtain l where l: "local_malloc sz align (set_chunck c l) = Some ((r, False), mt_alloc m)" "unat sz \<le> chunk_bytes"
    using cache_malloc_new [OF new_chunk(2,6,4,5)] by blast
  have ok: "ok (hp_source h)" using assms(1) by (simp add: heap_inv_def)
  note g = grant_ok [OF ok new_chunk(3)] grant_granted [OF ok new_chunk(3)]
    grant_fresh [OF ok new_chunk(3)] grant_small [OF ok new_chunk(3)]
  let ?l = "set_chunck c l"
  have lok: "local_ok ?l" using g(4) by (simp add: local_ok_def set_chunck_def)
  have avail: "available ?l = chunk_area c" by (simp add: available_def set_chunck_def area_def)
  have others: "available ?l \<inter> available (thread_alloc h u) = {}" for u
  proof (cases "lc_log_heads (thread_alloc h u) = []")
    case True
    then show ?thesis by (simp add: available_def)
  next
    case False
    with assms(1) have "lc_head (thread_alloc h u) \<in> granted (hp_source h)" "local_ok (thread_alloc h u)"
      by (simp_all add: heap_inv_def)
    with g(3) available_chunk [of "thread_alloc h u"] show ?thesis unfolding avail by blast
  qed
  have "block_area b \<inter> available ?l = {}" if "b \<in> set (hp_blocks h)" for b
    using assms(1) that g(3) unfolding heap_inv_def avail by blast
  with others lok g show ?thesis unfolding new_chunk
    by (intro cut_inv [OF assms(1) _ _ _ _ _ _ l]) (auto simp: set_chunck_def)
next
  case (refused sz align t i c src)
  have ok: "ok (hp_source h)" using assms(1) by (simp add: heap_inv_def)
  show ?thesis unfolding refused
    using assms(1) grant_ok [OF ok refused(3)] grant_granted [OF ok refused(3)] by (simp add: heap_inv_def)
qed

lemma heap_reach_inv: "(heap_step grant n)\<^sup>*\<^sup>* h h' \<Longrightarrow> heap_inv h \<Longrightarrow> heap_inv h'"
  by (induction rule: rtranclp_induct) (auto intro: heap_step_inv)

lemma blocks_apart:
  assumes "heap_inv h" "i < j" "j < length (hp_blocks h)"
  shows "block_area (hp_blocks h ! i) \<inter> block_area (hp_blocks h ! j) = {}"
  using assms by (auto simp: heap_inv_def sorted_wrt_iff_nth_less)

lemma block_aligned:
  assumes "heap_inv h" "b \<in> set (hp_blocks h)" "snd (snd b)"
  shows "ga_addr (fst b) mod 4096 = 0"
  using assms(1) unfolding heap_inv_def using assms(2,3) by (elim conjE ballE) blast+

lemma block_in_chunk:
  "heap_inv h \<Longrightarrow> b \<in> set (hp_blocks h) \<Longrightarrow> \<exists>c \<in> granted (hp_source h). block_area b \<subseteq> chunk_area c"
  by (auto simp: heap_inv_def)

end

section \<open>The global allocators are such a source\<close>

text \<open>The chunks an allocator has granted so far, and its invariant: the bitmap is clear from the
  tail on, whatever has been freed.\<close>

definition chunk_at :: "GlobalAllocator \<Rightarrow> nat \<Rightarrow> GlobalAddress" where
  "chunk_at g k = (gl_start g)\<lparr>ga_addr := ga_addr (gl_start g) + of_nat k * kChunkSize\<rparr>"

definition granted_by :: "GlobalAllocator \<Rightarrow> GlobalAddress set" where
  "granted_by g = chunk_at g ` {..<unat (gl_bitmap_tail g)}"

definition region :: "GlobalAllocator \<Rightarrow> (u8 \<times> nat) set" where
  "region g = area (gl_start g) (unat (gl_size g))"

definition allocator_ok :: "GlobalAllocator \<Rightarrow> bool" where
  "allocator_ok g \<longleftrightarrow> gl_bitmap_len g = gl_size g div kChunkSize
     \<and> length (gl_bitmap g) = unat (gl_bitmap_len g)
     \<and> gl_bitmap_tail g \<le> gl_bitmap_len g
     \<and> (\<forall>k < length (gl_bitmap g). unat (gl_bitmap_tail g) \<le> k \<longrightarrow> \<not> gl_bitmap g ! k)
     \<and> unat (ga_addr (gl_start g)) + unat (gl_size g) < 2 ^ 62"

lemma new_allocator_ok:
  "unat (ga_addr start) + unat sz < 2 ^ 62 \<Longrightarrow> allocator_ok (new_GlobalAllocator start sz)"
  by (simp add: allocator_ok_def new_GlobalAllocator_def)

lemma chunk_addr:
  assumes "allocator_ok g" "k < unat (gl_bitmap_len g)"
  shows "unat (ga_addr (chunk_at g k)) = unat (ga_addr (gl_start g)) + k * chunk_bytes"
    and "(k + 1) * chunk_bytes \<le> unat (gl_size g)"
proof -
  have "unat (gl_bitmap_len g) = unat (gl_size g) div chunk_bytes"
    using assms(1) by (simp add: allocator_ok_def kChunkSize_value unat_div)
  with assms(2) have "(k + 1) * chunk_bytes \<le> unat (gl_size g) div chunk_bytes * chunk_bytes" by simp
  also have "\<dots> \<le> unat (gl_size g)" by simp
  finally show le: "(k + 1) * chunk_bytes \<le> unat (gl_size g)" .
  have lim: "unat (ga_addr (gl_start g)) + unat (gl_size g) < 2 ^ 62" using assms(1) by (simp add: allocator_ok_def)
  have "unat (of_nat (k * chunk_bytes) :: u64) = k * chunk_bytes"
    using le lim unfolding unat_of_nat by (intro mod_less) simp
  then have m: "unat (of_nat k * kChunkSize) = k * chunk_bytes" by (simp add: kChunkSize_value)
  have "unat (ga_addr (gl_start g) + of_nat k * kChunkSize) = unat (ga_addr (gl_start g)) + unat (of_nat k * kChunkSize)"
    using le lim m by (intro unat_plus_simple [THEN iffD1]) (simp add: no_olen_add_nat)
  then show "unat (ga_addr (chunk_at g k)) = unat (ga_addr (gl_start g)) + k * chunk_bytes"
    by (simp add: chunk_at_def m)
qed

lemma chunk_in_region:
  assumes "allocator_ok g" "k < unat (gl_bitmap_len g)"
  shows "chunk_area (chunk_at g k) \<subseteq> region g"
  using chunk_addr [OF assms] by (auto simp: area_def region_def) (simp_all add: chunk_at_def)

lemma chunks_disjoint:
  assumes "allocator_ok g" "k < unat (gl_bitmap_len g)" "j < unat (gl_bitmap_len g)" "j \<noteq> k"
  shows "chunk_area (chunk_at g k) \<inter> chunk_area (chunk_at g j) = {}"
proof -
  have "j * chunk_bytes + chunk_bytes \<le> k * chunk_bytes \<or> k * chunk_bytes + chunk_bytes \<le> j * chunk_bytes"
    using assms(4) by (metis add_mult_distrib mult_le_mono1 nat_neq_iff Suc_leI Suc_eq_plus1 mult_1)
  then show ?thesis using chunk_addr(1) [OF assms(1,2)] chunk_addr(1) [OF assms(1,3)] by (auto simp: area_def)
qed

lemma alloc_chunck_ok:
  assumes "allocator_ok g"
  shows "alloc_chunck g =
     (if gl_bitmap_tail g < gl_bitmap_len g then
        Some ((chunk_at g (unat (gl_bitmap_tail g)), True),
              g\<lparr>gl_bitmap := (gl_bitmap g)[unat (gl_bitmap_tail g) := True], gl_bitmap_tail := gl_bitmap_tail g + 1\<rparr>)
      else Some ((gl_start g, False), g))"
  using assms
  by (auto simp: alloc_chunck_def allocator_ok_def Let_def chunk_at_def word_less_nat_alt word_le_nat_alt not_less)

lemma alloc_chunck_keeps:
  assumes "allocator_ok g" "alloc_chunck g = Some ((c, b), g')"
  shows "allocator_ok g'" "granted_by g' = (if b then insert c (granted_by g) else granted_by g)"
    "gl_start g' = gl_start g" "gl_size g' = gl_size g" "gl_bitmap_len g' = gl_bitmap_len g"
    "b \<Longrightarrow> c = chunk_at g (unat (gl_bitmap_tail g)) \<and> gl_bitmap_tail g < gl_bitmap_len g"
proof -
  have s: "unat (gl_bitmap_tail g + 1) = Suc (unat (gl_bitmap_tail g))" if "gl_bitmap_tail g < gl_bitmap_len g"
  proof -
    have "unat (gl_bitmap_len g) < 2 ^ 64" using unsigned_less [where 'a = nat, of "gl_bitmap_len g"] by simp
    with that show ?thesis by (simp add: unat_word_ariths word_less_nat_alt)
  qed
  show "gl_start g' = gl_start g" "gl_size g' = gl_size g" "gl_bitmap_len g' = gl_bitmap_len g"
    "b \<Longrightarrow> c = chunk_at g (unat (gl_bitmap_tail g)) \<and> gl_bitmap_tail g < gl_bitmap_len g"
    using assms(2) unfolding alloc_chunck_ok [OF assms(1)] by (auto split: if_splits)
  show "allocator_ok g'"
    using assms unfolding alloc_chunck_ok [OF assms(1)]
    by (auto simp: allocator_ok_def s word_le_nat_alt word_less_nat_alt nth_list_update split: if_splits)
  have ch: "chunk_at g' = chunk_at g"
    using assms(2) unfolding alloc_chunck_ok [OF assms(1)] by (auto simp: fun_eq_iff chunk_at_def split: if_splits)
  have tail: "unat (gl_bitmap_tail g') = (if b then Suc (unat (gl_bitmap_tail g)) else unat (gl_bitmap_tail g))"
    and c: "b \<Longrightarrow> c = chunk_at g (unat (gl_bitmap_tail g))"
    using assms(2) unfolding alloc_chunck_ok [OF assms(1)] by (auto simp: s split: if_splits)
  show "granted_by g' = (if b then insert c (granted_by g) else granted_by g)"
    unfolding granted_by_def ch tail by (simp add: lessThan_Suc c)
qed

lemma free_chunk_keeps:
  "allocator_ok g \<Longrightarrow> free_chunk a g = Some g' \<Longrightarrow> allocator_ok g' \<and> granted_by g' = granted_by g"
  by (auto simp: free_chunk_def allocator_ok_def granted_by_def chunk_at_def Let_def nth_list_update split: if_splits)

section \<open>The allocators of all nodes\<close>

text \<open>Which allocator of the addressed node gets a request is up to the FPGA, so the index is free; an
  index without an allocator answers no chunk.\<close>

definition pool_grant :: "nat \<Rightarrow> GlobalAllocator list \<Rightarrow> ((GlobalAddress \<times> bool) \<times> GlobalAllocator list) option" where
  "pool_grant i p =
     (if i < length p then
        (case alloc_chunck (p ! i) of
           None \<Rightarrow> None
         | Some (r, g) \<Rightarrow> Some (r, p[i := g]))
      else Some ((Null, False), p))"

definition pool_ok :: "GlobalAllocator list \<Rightarrow> bool" where
  "pool_ok p \<longleftrightarrow> (\<forall>g \<in> set p. allocator_ok g)
     \<and> (\<forall>i < length p. \<forall>j < length p. i \<noteq> j \<longrightarrow> region (p ! i) \<inter> region (p ! j) = {})"

definition pool_granted :: "GlobalAllocator list \<Rightarrow> GlobalAddress set" where
  "pool_granted p = (\<Union>i < length p. granted_by (p ! i))"

lemma granted_in_region:
  assumes "allocator_ok g" "d \<in> granted_by g"
  shows "chunk_area d \<subseteq> region g"
proof -
  obtain k where "k < unat (gl_bitmap_tail g)" "d = chunk_at g k" using assms(2) by (auto simp: granted_by_def)
  moreover have "unat (gl_bitmap_tail g) \<le> unat (gl_bitmap_len g)"
    using assms(1) unfolding allocator_ok_def word_le_nat_alt by blast
  ultimately show ?thesis using chunk_in_region [OF assms(1), of k] by simp
qed

lemma pool_granted_update:
  assumes "i < length p" "granted_by g = A \<union> granted_by (p ! i)"
  shows "pool_granted (p[i := g]) = A \<union> pool_granted p"
proof -
  have "pool_granted (p[i := g]) = (\<Union>j < length p. if j = i then granted_by g else granted_by (p ! j))"
    unfolding pool_granted_def by (rule SUP_cong) (auto simp: nth_list_update)
  also have "\<dots> = A \<union> pool_granted p" using assms by (auto simp: pool_granted_def split: if_splits)
  finally show ?thesis .
qed

lemma pool_grant_cases:
  assumes "pool_ok p" "pool_grant i p = Some ((c, b), p')"
  obtains (none) "p' = p" "\<not> b" "\<not> i < length p"
  | (some) g where "i < length p" "alloc_chunck (p ! i) = Some ((c, b), g)" "p' = p[i := g]" "allocator_ok (p ! i)"
  using assms by (auto simp: pool_grant_def pool_ok_def split: if_splits option.splits)

interpretation chunk_pool: chunk_source pool_grant pool_ok pool_granted
proof
  fix p p' i c b
  assume ok: "pool_ok p" and step: "pool_grant i p = Some ((c, b), p')"
  show "pool_ok p'"
    using ok step
  proof (cases rule: pool_grant_cases)
    case (some g)
    note k = alloc_chunck_keeps [OF some(4,2)]
    then have "region g = region (p ! i)" by (simp add: region_def)
    with ok some k(1) show ?thesis
      by (auto simp: pool_ok_def nth_list_update dest!: subsetD [OF set_update_subset_insert])
  qed (use ok in simp)
  show "pool_granted p' = (if b then insert c (pool_granted p) else pool_granted p)"
    using ok step
  proof (cases rule: pool_grant_cases)
    case (some g)
    from alloc_chunck_keeps(2) [OF some(4,2)] pool_granted_update [OF some(1), of g "if b then {c} else {}"]
    show ?thesis unfolding some(3) by (cases b) simp_all
  qed simp
next
  fix p p' i c d
  assume ok: "pool_ok p" and step: "pool_grant i p = Some ((c, True), p')"
  obtain g where g: "i < length p" "alloc_chunck (p ! i) = Some ((c, True), g)" "allocator_ok (p ! i)"
    using ok step by (cases rule: pool_grant_cases) auto
  have c: "c = chunk_at (p ! i) (unat (gl_bitmap_tail (p ! i)))"
    "unat (gl_bitmap_tail (p ! i)) < unat (gl_bitmap_len (p ! i))"
    using alloc_chunck_keeps(6) [OF g(3,2)] by (simp_all add: word_less_nat_alt)
  show "unat (ga_addr c) < 2 ^ 62"
  proof -
    have "unat (ga_addr (gl_start (p ! i))) + unat (gl_size (p ! i)) < 2 ^ 62" using g(3) by (simp add: allocator_ok_def)
    with chunk_addr [OF g(3) c(2)] c(1) show ?thesis by simp
  qed
  assume "d \<in> pool_granted p"
  then obtain j where j: "j < length p" "d \<in> granted_by (p ! j)" by (auto simp: pool_granted_def)
  have okj: "allocator_ok (p ! j)" using ok j(1) by (simp add: pool_ok_def)
  show "chunk_area c \<inter> chunk_area d = {}"
  proof (cases "j = i")
    case True
    then obtain k where "k < unat (gl_bitmap_tail (p ! i))" "d = chunk_at (p ! i) k"
      using j by (auto simp: granted_by_def)
    with c show ?thesis using chunks_disjoint [OF g(3) c(2), of k] by simp
  next
    case False
    then have "region (p ! i) \<inter> region (p ! j) = {}" using ok g(1) j(1) by (simp add: pool_ok_def)
    with chunk_in_region [OF g(3) c(2)] granted_in_region [OF okj j(2)] show ?thesis unfolding c(1) by blast
  qed
next
  fix p i assume "pool_ok p"
  then show "pool_grant i p \<noteq> None" by (auto simp: pool_grant_def pool_ok_def alloc_chunck_ok split: option.split)
qed

text \<open>The allocators \<open>DSM::DSM\<close> sets up on each of the nodes cut the memory of every node apart.\<close>

definition dsm_pool :: "nat \<Rightarrow> u64 \<Rightarrow> nat \<Rightarrow> GlobalAllocator list" where
  "dsm_pool node_num gmem_size syst_num =
     map (\<lambda>k. system_allocator (of_nat (k div syst_num)) gmem_size syst_num (k mod syst_num)) [0..<node_num * syst_num]"

lemma system_region:
  assumes "i < syst" "syst < 2 ^ 32" "unat gmem < 2 ^ 62"
  shows "region (system_allocator node gmem syst i)
      = {node} \<times> {unat gmem div syst * i..<unat gmem div syst * (i + 1)}"
    and "allocator_ok (system_allocator node gmem syst i)"
proof -
  let ?per = "gmem div of_nat syst" and ?n = "unat gmem div syst"
  have syst: "unat (of_nat syst :: u64) = syst" using assms(2) unfolding unat_of_nat by (intro mod_less) simp
  then have per: "unat ?per = ?n" by (simp add: unat_div)
  have "?n * (i + 1) \<le> ?n * syst" using assms(1) by (intro mult_le_mono2) simp
  also have "\<dots> \<le> unat gmem" by simp
  finally have top: "?n * (i + 1) \<le> unat gmem" .
  have i: "unat (of_nat i :: u64) = i" using assms(1,2) unfolding unat_of_nat by (intro mod_less) simp
  have start: "unat (?per * of_nat i) = ?n * i"
    unfolding unat_word_ariths(2) per i using top assms(3) by (intro mod_less) simp
  show "region (system_allocator node gmem syst i) = {node} \<times> {?n * i..<?n * (i + 1)}"
    by (simp add: region_def area_def system_allocator_def new_GlobalAllocator_def Let_def start per add.commute)
  show "allocator_ok (system_allocator node gmem syst i)"
    unfolding system_allocator_def Let_def using top assms(3) start per by (intro new_allocator_ok) simp
qed

lemma dsm_pool_ok:
  assumes "node_num \<le> 256" "syst < 2 ^ 32" "unat gmem < 2 ^ 62"
  shows "pool_ok (dsm_pool node_num gmem syst)"
proof (cases "syst = 0")
  case True
  then show ?thesis by (simp add: pool_ok_def dsm_pool_def)
next
  case False
  have pos: "k mod syst < syst" for k using False by simp
  have node: "k div syst < 256" if "k < node_num * syst" for k
    using that assms(1) by (metis less_mult_imp_div_less order_less_le_trans)
  have apart: "region (system_allocator (of_nat (j div syst)) gmem syst (j mod syst))
      \<inter> region (system_allocator (of_nat (k div syst)) gmem syst (k mod syst)) = {}"
    if "j < node_num * syst" "k < node_num * syst" "j \<noteq> k" for j k
  proof (cases "j div syst = k div syst")
    case True
    then have "j mod syst \<noteq> k mod syst" using that(3) by (metis div_mult_mod_eq)
    then have "j mod syst + 1 \<le> k mod syst \<or> k mod syst + 1 \<le> j mod syst" by linarith
    then have "unat gmem div syst * (j mod syst + 1) \<le> unat gmem div syst * (k mod syst)
        \<or> unat gmem div syst * (k mod syst + 1) \<le> unat gmem div syst * (j mod syst)"
      using mult_le_mono2 by blast
    then show ?thesis unfolding system_region(1) [OF pos assms(2,3)] by auto
  next
    case False
    have "(of_nat (j div syst) :: u8) \<noteq> of_nat (k div syst)"
    proof
      assume "(of_nat (j div syst) :: u8) = of_nat (k div syst)"
      then have "unat (of_nat (j div syst) :: u8) = unat (of_nat (k div syst) :: u8)" by simp
      with node [OF that(1)] node [OF that(2)] False show False unfolding unat_of_nat by simp
    qed
    then show ?thesis unfolding system_region(1) [OF pos assms(2,3)] by auto
  qed
  show ?thesis
    using apart system_region(2) [OF pos assms(2,3)] by (auto simp: pool_ok_def dsm_pool_def)
qed

section \<open>Properties\<close>

datatype allocator_op = Alloc | Free GlobalAddress

text \<open>The answers to the \<open>Alloc\<close> operations of a sequence.\<close>

fun allocator_run :: "allocator_op list \<Rightarrow> GlobalAllocator \<Rightarrow> ((GlobalAddress \<times> bool) list \<times> GlobalAllocator) option" where
  "allocator_run [] g = Some ([], g)"
| "allocator_run (Alloc # ops) g =
     (case alloc_chunck g of
        None \<Rightarrow> None
      | Some (r, g) \<Rightarrow> map_option (apfst ((#) r)) (allocator_run ops g))"
| "allocator_run (Free a # ops) g =
     (case free_chunk a g of None \<Rightarrow> None | Some g \<Rightarrow> allocator_run ops g)"

definition frees_in_range :: "allocator_op list \<Rightarrow> GlobalAllocator \<Rightarrow> bool" where
  "frees_in_range ops g \<longleftrightarrow>
     (\<forall>a. Free a \<in> set ops \<longrightarrow> (ga_addr a - ga_addr (gl_start g)) div kChunkSize < gl_bitmap_len g)"

definition answer :: "GlobalAllocator \<Rightarrow> nat \<Rightarrow> GlobalAddress \<times> bool" where
  "answer g k = (if k < unat (gl_bitmap_len g) then (chunk_at g k, True) else (gl_start g, False))"

lemma tail_step:
  assumes "allocator_ok g" "gl_bitmap_tail g < gl_bitmap_len g"
  shows "unat (gl_bitmap_tail g + 1) = Suc (unat (gl_bitmap_tail g))"
proof -
  have "unat (gl_bitmap_len g) < 2 ^ 64" using unsigned_less [where 'a = nat, of "gl_bitmap_len g"] by simp
  with assms(2) show ?thesis by (simp add: unat_word_ariths word_less_nat_alt)
qed

lemma allocator_run_answers:
  assumes "allocator_ok g" "frees_in_range ops g"
  shows "map_option fst (allocator_run ops g) =
     Some (map (answer g) (map (\<lambda>k. unat (gl_bitmap_tail g) + k) [0..<length (filter ((=) Alloc) ops)]))"
  using assms
proof (induction ops arbitrary: g)
  case Nil
  then show ?case by simp
next
  case (Cons op ops)
  have rest: "frees_in_range ops g" using Cons.prems(2) by (simp add: frees_in_range_def)
  have same: "answer g' = answer g" "frees_in_range ops g'"
    if "gl_start g' = gl_start g" "gl_bitmap_len g' = gl_bitmap_len g" for g'
    using that rest by (simp_all add: answer_def chunk_at_def fun_eq_iff frees_in_range_def)
  show ?case
  proof (cases op)
    case (Free a)
    have "unat ((ga_addr a - ga_addr (gl_start g)) div kChunkSize) < length (gl_bitmap g)"
      using Cons.prems Free by (simp add: frees_in_range_def allocator_ok_def word_less_nat_alt)
    then have "free_chunk a g \<noteq> None" by (simp only: free_chunk_def Let_def if_True) simp
    then obtain g' where f: "free_chunk a g = Some g'" by blast
    then have g': "allocator_ok g'" using free_chunk_keeps Cons.prems(1) by blast
    have f': "gl_start g' = gl_start g" "gl_bitmap_len g' = gl_bitmap_len g" "gl_bitmap_tail g' = gl_bitmap_tail g"
      using f by (auto simp: free_chunk_def Let_def split: if_splits)
    from Cons.IH [OF g' same(2) [OF f'(1,2)]] show ?thesis by (simp add: Free f f' same(1) [OF f'(1,2)])
  next
    case Alloc
    obtain r g' where r: "alloc_chunck g = Some (r, g')" using alloc_chunck_ok [OF Cons.prems(1)] by (auto split: if_splits)
    obtain c b where cb: "r = (c, b)" by (cases r)
    note k = alloc_chunck_keeps [OF Cons.prems(1) r [unfolded cb]]
    let ?t = "unat (gl_bitmap_tail g)" and ?n = "length (filter ((=) Alloc) ops)"
    have a: "r = answer g ?t"
      using r alloc_chunck_ok [OF Cons.prems(1)] by (auto simp: answer_def word_less_nat_alt split: if_splits)
    have IH: "map_option fst (allocator_run ops g') = Some (map (answer g) (map (\<lambda>k. unat (gl_bitmap_tail g') + k) [0..<?n]))"
      using Cons.IH [OF k(1) same(2) [OF k(3,5)]] unfolding same(1) [OF k(3,5)] .
    have tail: "map (answer g) (map (\<lambda>k. unat (gl_bitmap_tail g') + k) [0..<?n])
        = map (answer g) (map (\<lambda>k. ?t + Suc k) [0..<?n])"
    proof (cases "gl_bitmap_tail g < gl_bitmap_len g")
      case True
      then have "unat (gl_bitmap_tail g') = Suc ?t"
        using r alloc_chunck_ok [OF Cons.prems(1)] tail_step [OF Cons.prems(1)] by auto
      then show ?thesis by simp
    next
      case False
      then have "g' = g" "unat (gl_bitmap_len g) \<le> ?t"
        using r alloc_chunck_ok [OF Cons.prems(1)] by (auto simp: word_less_nat_alt)
      then show ?thesis by (simp add: answer_def)
    qed
    have "map_option fst (allocator_run (op # ops) g) = map_option ((#) r) (map_option fst (allocator_run ops g'))"
      by (simp add: Alloc r option.map_comp comp_def)
    also have "\<dots> = Some (map (answer g) (?t # map (\<lambda>k. ?t + Suc k) [0..<?n]))"
      unfolding IH tail a by simp
    finally show ?thesis by (simp add: Alloc upt_conv_Cons map_Suc_upt [symmetric] comp_def del: upt_Suc map_Suc_upt)
  qed
qed

text \<open>(C31) From a fresh allocator, any sequence of allocations and frees of chunks of its region runs
  without failing an assertion or leaving the bitmap, and its \<open>k\<close>-th allocation returns the \<open>k\<close>-th
  chunk of the region while there is one and a refusal after that: freed chunks are never used again.\<close>

theorem chunks_handed_out_once:
  assumes "unat (ga_addr start) + unat sz < 2 ^ 62"
    and "\<forall>a. Free a \<in> set ops \<longrightarrow> (ga_addr a - ga_addr start) div kChunkSize < sz div kChunkSize"
  shows "\<exists>g. allocator_run ops (new_GlobalAllocator start sz) =
     Some (map (\<lambda>k. if k < unat (sz div kChunkSize)
                then (start\<lparr>ga_addr := ga_addr start + of_nat k * kChunkSize\<rparr>, True) else (start, False))
             [0..<length (filter ((=) Alloc) ops)], g)"
proof -
  let ?g = "new_GlobalAllocator start sz"
  have "frees_in_range ops ?g" using assms(2) by (simp add: frees_in_range_def new_GlobalAllocator_def)
  with allocator_run_answers [OF new_allocator_ok [OF assms(1)]]
  have "map_option fst (allocator_run ops ?g) = Some (map (answer ?g) [0..<length (filter ((=) Alloc) ops)])"
    by (simp add: new_GlobalAllocator_def comp_def)
  then show ?thesis
    by (auto simp: answer_def chunk_at_def new_GlobalAllocator_def comp_def)
qed

theorem chunks_handed_out_once_witness:
  "\<exists>g. allocator_run [Alloc, Free Null, Alloc, Alloc] (new_GlobalAllocator Null (2 * kChunkSize))
     = Some ([(Null, True), (Null\<lparr>ga_addr := kChunkSize\<rparr>, True), (Null, False)], g)"
  using chunks_handed_out_once [of Null "2 * kChunkSize" "[Alloc, Free Null, Alloc, Alloc]"]
  by (simp add: kChunkSize_value Null_def upt_rec)


definition sample_pool :: "GlobalAllocator list" where "sample_pool = dsm_pool 2 (of_nat (2 ^ 26)) 1"

lemma sample_heap:
  "\<exists>h. (heap_step pool_grant 2)\<^sup>*\<^sup>* (heap_start sample_pool (\<lambda>_. 1)) h
     \<and> hp_blocks h = [(\<lparr>ga_addr = 4096, ga_nodeID = 1, ga_org = 0\<rparr>, 8, True), (\<lparr>ga_addr = 0, ga_nodeID = 1, ga_org = 0\<rparr>, 100, False)]"
proof -
  let ?h = "heap_start sample_pool (\<lambda>_. 1)"
  note eval = cache_malloc_def local_malloc_def new_LocalAllocator_def Null_def GB_def MB_def kChunkSize_value
    set_chunck_def align_up_def DSM_CACHE_LINE_SIZE_def DSM_CACHE_LINE_WIDTH_def Let_def
  have two: "replicate 2 False = [False, False]" by (simp only: numeral_2_eq_2 replicate.simps)
  have a: "alloc_chunck (system_allocator 1 67108864 1 0) = Some ((\<lparr>ga_addr = 0, ga_nodeID = 1, ga_org = 0\<rparr>, True),
      (system_allocator 1 67108864 1 0)\<lparr>gl_bitmap := [True, False], gl_bitmap_tail := 1\<rparr>)"
    by (simp add: alloc_chunck_def system_allocator_def new_GlobalAllocator_def kChunkSize_value Let_def two)
  have p: "sample_pool = [system_allocator 0 67108864 1 0, system_allocator 1 67108864 1 0]"
    by (simp add: sample_pool_def dsm_pool_def upt_rec)
  obtain src where g: "pool_grant 1 (hp_source ?h) = Some ((\<lparr>ga_addr = 0, ga_nodeID = 1, ga_org = 0\<rparr>, True), src)"
    using a by (simp add: pool_grant_def heap_start_def p)
  define m where "m = \<lparr>mt_alloc = \<lparr>lc_head = \<lparr>ga_addr = 0, ga_nodeID = 1, ga_org = 0\<rparr>,
      lc_cur = \<lparr>ga_addr = 100, ga_nodeID = 1, ga_org = 0\<rparr>, lc_log_heads = [\<lparr>ga_addr = 0, ga_nodeID = 1, ga_org = 0\<rparr>]\<rparr>,
      mt_next_allocator_node = 0\<rparr>"
  let ?h1 = "?h\<lparr>hp_source := src, hp_threads := (hp_threads ?h)(0 := m),
      hp_blocks := (\<lparr>ga_addr = 0, ga_nodeID = 1, ga_org = 0\<rparr>, 100, False) # hp_blocks ?h\<rparr>"
  have 1: "heap_step pool_grant 2 ?h ?h1"
    by (rule heap_step.new_chunk; (rule g)?) (simp_all add: heap_start_def eval m_def)
  obtain m' where m': "cache_malloc 8 True 2 None m = Returned (\<lparr>ga_addr = 4096, ga_nodeID = 1, ga_org = 0\<rparr>, m')"
    by (simp add: m_def eval)
  have 2: "heap_step pool_grant 2 ?h1 (?h1\<lparr>hp_threads := (hp_threads ?h1)(0 := m'),
      hp_blocks := (\<lparr>ga_addr = 4096, ga_nodeID = 1, ga_org = 0\<rparr>, 8, True) # hp_blocks ?h1\<rparr>)"
    by (rule heap_step.from_chunk) (simp add: m')
  from r_into_rtranclp [of "heap_step pool_grant 2", OF 2]
  have "(heap_step pool_grant 2)\<^sup>*\<^sup>* ?h (?h1\<lparr>hp_threads := (hp_threads ?h1)(0 := m'),
      hp_blocks := (\<lparr>ga_addr = 4096, ga_nodeID = 1, ga_org = 0\<rparr>, 8, True) # hp_blocks ?h1\<rparr>)"
    by (rule converse_rtranclp_into_rtranclp [of "heap_step pool_grant 2", OF 1])
  then show ?thesis by (intro exI conjI) (assumption, simp add: heap_start_def)
qed


end
