(* ===== verification/Cache_Line.thy ===== *)
theory Cache_Line
  imports Host_Types
begin

text \<open>
  The life of one cache line: the atomic pair of a flag and a status (\<open>AtomicTag\<close>, \<open>LineInfo\<close> in
  \<open>Cache.h\<close>), the compare-and-swap steps by which application threads take a line through a miss, an
  upgrade or an eviction (\<open>Cache.cpp\<close>), and those by which the agent threads apply what the directory
  asks for (\<open>CacheAgent.cpp\<close>). Every compare-and-swap is one step, so all interleavings are covered;
  the flag tells the owner of a line in transition that the line was invalidated meanwhile.
\<close>

section \<open>The atomic tag\<close>

record AtomicTag =
  at_flag :: bool
  at_status :: CacheStatus

definition isUnstable :: "AtomicTag \<Rightarrow> bool" where
  "isUnstable t \<longleftrightarrow> at_status t \<in> {C_TO_MODIFIED, C_TO_SHARED, C_TO_INVALID}"

definition isStable :: "AtomicTag \<Rightarrow> bool" where
  "isStable t \<longleftrightarrow> at_status t \<in> {C_INVALID, C_SHARED, C_MODIFIED}"

definition setFlagAndStatus :: "bool \<Rightarrow> CacheStatus \<Rightarrow> AtomicTag \<Rightarrow> AtomicTag" where
  "setFlagAndStatus f s t = \<lparr>at_flag = f, at_status = s\<rparr>"

definition casFlagAndStatus :: "bool \<Rightarrow> CacheStatus \<Rightarrow> bool \<Rightarrow> CacheStatus \<Rightarrow> AtomicTag \<Rightarrow> bool \<times> AtomicTag" where
  "casFlagAndStatus f1 s1 f2 s2 t =
     (if t = \<lparr>at_flag = f1, at_status = s1\<rparr> then (True, \<lparr>at_flag = f2, at_status = s2\<rparr>) else (False, t))"

text \<open>\<open>casStatus\<close> loads the flag first and swaps with the value it saw.\<close>

definition casStatus :: "bool \<Rightarrow> CacheStatus \<Rightarrow> CacheStatus \<Rightarrow> AtomicTag \<Rightarrow> bool \<times> AtomicTag" where
  "casStatus seen s1 s2 t = casFlagAndStatus seen s1 seen s2 t"

section \<open>Agent\<close>

text \<open>One iteration of the loop of each case of the agent, on the status it loaded: whether the loop
  ends, and the tag it leaves. The load and the swap are separate steps, so the loaded status is an
  argument.\<close>

definition agent_invalidate_shared :: "CacheStatus \<Rightarrow> AtomicTag \<Rightarrow> bool \<times> AtomicTag" where
  "agent_invalidate_shared tmp t =
     (if tmp = C_SHARED then casFlagAndStatus False C_SHARED False C_INVALID t
      else if tmp = C_TO_MODIFIED \<or> tmp = C_TO_SHARED \<or> tmp = C_TO_PRESERVED
        then casFlagAndStatus False tmp True tmp t
      else if tmp = C_PRESERVED then (True, t) else (False, t))"

definition agent_downgrade :: "CacheStatus \<Rightarrow> AtomicTag \<Rightarrow> bool \<times> AtomicTag" where
  "agent_downgrade tmp t =
     (if tmp = C_MODIFIED then casFlagAndStatus False C_MODIFIED False C_SHARED t
      else if tmp = C_TO_PRESERVED then casFlagAndStatus False C_TO_PRESERVED False C_TO_SHARED t
      else if tmp = C_PRESERVED then (True, t) else (False, t))"

definition agent_invalidate_dirty :: "CacheStatus \<Rightarrow> AtomicTag \<Rightarrow> bool \<times> AtomicTag" where
  "agent_invalidate_dirty tmp t =
     (if tmp = C_MODIFIED then casFlagAndStatus False C_MODIFIED False C_INVALID t
      else if tmp = C_TO_MODIFIED \<or> tmp = C_TO_SHARED \<or> tmp = C_TO_PRESERVED
        then casFlagAndStatus False tmp True tmp t
      else if tmp = C_PRESERVED then (True, t) else (False, t))"

text \<open>The switch on the message type; \<open>None\<close> is the failed assertion of the default case.\<close>

definition agent_iteration :: "RawMessageType \<Rightarrow> CacheStatus \<Rightarrow> AtomicTag \<Rightarrow> (bool \<times> AtomicTag) option" where
  "agent_iteration m tmp t =
     (case m of
        DIR_2_AGENT_WRITE_SHARED_NOTONLY \<Rightarrow> Some (agent_invalidate_shared tmp t)
      | DIR_2_AGENT_WRITE_MISS_SHARED \<Rightarrow> Some (agent_invalidate_shared tmp t)
      | DIR_2_AGENT_READ_MISS_DIRTY \<Rightarrow> Some (agent_downgrade tmp t)
      | DIR_2_AGENT_WRITE_MISS_DIRTY \<Rightarrow> Some (agent_invalidate_dirty tmp t)
      | _ \<Rightarrow> None)"

section \<open>Application threads\<close>

text \<open>What a thread is doing with the line: a read miss, an upgrade of a shared line, a write miss, or
  an eviction of one of two types.\<close>

datatype line_pc = L_Idle | L_Read | L_Upgrade | L_Write | L_Evict EvictType

text \<open>The swap that starts each of them; for an eviction the status seen decides the type.\<close>

definition begin_read :: "AtomicTag \<Rightarrow> bool \<times> AtomicTag" where
  "begin_read = casFlagAndStatus False C_INVALID False C_TO_SHARED"

definition begin_upgrade :: "AtomicTag \<Rightarrow> bool \<times> AtomicTag" where
  "begin_upgrade = casFlagAndStatus False C_SHARED False C_TO_MODIFIED"

definition begin_write :: "AtomicTag \<Rightarrow> bool \<times> AtomicTag" where
  "begin_write = casFlagAndStatus False C_INVALID False C_TO_MODIFIED"

definition begin_evict :: "bool \<Rightarrow> CacheStatus \<Rightarrow> AtomicTag \<Rightarrow> bool \<times> AtomicTag" where
  "begin_evict seen tmp t = casStatus seen tmp C_TO_PRESERVED t"

definition evict_type_of :: "CacheStatus \<Rightarrow> EvictType" where
  "evict_type_of tmp = (if tmp = C_SHARED then EVICT_SHARED else EVICT_DIRTY)"

text \<open>A list of swaps tried in turn: the loop's body, which is repeated until one succeeds. The second
  component is what the thread does with the outcome.\<close>

fun try_swaps :: "(bool \<times> CacheStatus \<times> bool \<times> CacheStatus \<times> 'a) list \<Rightarrow> AtomicTag \<Rightarrow> ('a \<times> AtomicTag) option" where
  "try_swaps [] t = None"
| "try_swaps ((f1, s1, f2, s2, a) # cs) t =
     (case casFlagAndStatus f1 s1 f2 s2 t of (True, t') \<Rightarrow> Some (a, t') | (False, _) \<Rightarrow> try_swaps cs t)"

declare try_swaps.simps(2) [simp del]

text \<open>The loops that end a request, by the answer of \<open>readMiss\<close>, \<open>writeShared\<close> or \<open>writeMiss\<close>: the swaps,
  each with whether the access then succeeded.\<close>

definition end_read :: "bool \<Rightarrow> AtomicTag \<Rightarrow> (bool \<times> AtomicTag) option" where
  "end_read succ = try_swaps
     (if succ then [(True, C_TO_SHARED, False, C_INVALID, False), (False, C_TO_SHARED, False, C_SHARED, True)]
      else [(True, C_TO_SHARED, False, C_INVALID, False), (False, C_TO_SHARED, False, C_INVALID, False)])"

definition end_upgrade :: "bool \<Rightarrow> AtomicTag \<Rightarrow> (bool \<times> AtomicTag) option" where
  "end_upgrade succ = try_swaps
     (if succ then [(True, C_TO_MODIFIED, False, C_INVALID, False), (False, C_TO_MODIFIED, False, C_MODIFIED, True)]
      else [(True, C_TO_MODIFIED, False, C_INVALID, False), (False, C_TO_MODIFIED, False, C_SHARED, False)])"

definition end_write :: "bool \<Rightarrow> AtomicTag \<Rightarrow> (bool \<times> AtomicTag) option" where
  "end_write succ = try_swaps
     (if succ then [(True, C_TO_MODIFIED, False, C_INVALID, False), (False, C_TO_MODIFIED, False, C_MODIFIED, True)]
      else [(True, C_TO_MODIFIED, False, C_INVALID, False), (False, C_TO_MODIFIED, False, C_INVALID, False)])"

text \<open>The loops of \<open>wait_evict\<close> when the directory refuses an eviction because of its state.\<close>

definition evict_refused :: "EvictType \<Rightarrow> AtomicTag \<Rightarrow> (bool \<times> AtomicTag) option" where
  "evict_refused e = try_swaps
     (case e of
        EVICT_SHARED \<Rightarrow> [(False, C_TO_PRESERVED, False, C_SHARED, False), (True, C_TO_PRESERVED, False, C_INVALID, False)]
      | EVICT_DIRTY \<Rightarrow>
          [(False, C_TO_PRESERVED, False, C_MODIFIED, False), (True, C_TO_PRESERVED, False, C_INVALID, False),
           (False, C_TO_SHARED, False, C_SHARED, False), (True, C_TO_SHARED, False, C_INVALID, False)])"

section \<open>Interleavings\<close>

text \<open>All threads and agents of one node on one line. An agent remembers the message it handles and the
  status it loaded. The last two components are ghosts: an invalidation, and a downgrade, was applied
  and no request that undoes it has begun since.\<close>

record line_sys =
  ln_tag :: AtomicTag
  ln_pc :: "nat \<Rightarrow> line_pc"
  ln_agent :: "nat \<Rightarrow> (RawMessageType \<times> CacheStatus) option"
  ln_stale :: bool
  ln_down :: bool

definition invalidates :: "RawMessageType \<Rightarrow> bool" where
  "invalidates m \<longleftrightarrow> m \<in> {DIR_2_AGENT_WRITE_SHARED_NOTONLY, DIR_2_AGENT_WRITE_MISS_SHARED, DIR_2_AGENT_WRITE_MISS_DIRTY}"

inductive line_step :: "line_sys \<Rightarrow> line_sys \<Rightarrow> bool" where
  read_miss: "ln_pc s t = L_Idle \<Longrightarrow> begin_read (ln_tag s) = (True, a) \<Longrightarrow>
    line_step s (s\<lparr>ln_tag := a, ln_pc := (ln_pc s)(t := L_Read), ln_stale := False\<rparr>)"
| upgrade: "ln_pc s t = L_Idle \<Longrightarrow> begin_upgrade (ln_tag s) = (True, a) \<Longrightarrow>
    line_step s (s\<lparr>ln_tag := a, ln_pc := (ln_pc s)(t := L_Upgrade), ln_down := False\<rparr>)"
| write_miss: "ln_pc s t = L_Idle \<Longrightarrow> begin_write (ln_tag s) = (True, a) \<Longrightarrow>
    line_step s (s\<lparr>ln_tag := a, ln_pc := (ln_pc s)(t := L_Write), ln_stale := False, ln_down := False\<rparr>)"
| evict: "ln_pc s t = L_Idle \<Longrightarrow> tmp = C_SHARED \<or> tmp = C_MODIFIED \<Longrightarrow> begin_evict seen tmp (ln_tag s) = (True, a) \<Longrightarrow>
    line_step s (s\<lparr>ln_tag := a, ln_pc := (ln_pc s)(t := L_Evict (evict_type_of tmp))\<rparr>)"
| read_done: "ln_pc s t = L_Read \<Longrightarrow> end_read succ (ln_tag s) = Some (b, a) \<Longrightarrow>
    line_step s (s\<lparr>ln_tag := a, ln_pc := (ln_pc s)(t := L_Idle)\<rparr>)"
| upgrade_done: "ln_pc s t = L_Upgrade \<Longrightarrow> end_upgrade succ (ln_tag s) = Some (b, a) \<Longrightarrow>
    line_step s (s\<lparr>ln_tag := a, ln_pc := (ln_pc s)(t := L_Idle)\<rparr>)"
| write_done: "ln_pc s t = L_Write \<Longrightarrow> end_write succ (ln_tag s) = Some (b, a) \<Longrightarrow>
    line_step s (s\<lparr>ln_tag := a, ln_pc := (ln_pc s)(t := L_Idle)\<rparr>)"
| evicted: "ln_pc s t = L_Evict e \<Longrightarrow>
    line_step s (s\<lparr>ln_tag := setFlagAndStatus False C_PRESERVED (ln_tag s), ln_pc := (ln_pc s)(t := L_Idle)\<rparr>)"
| refused: "ln_pc s t = L_Evict e \<Longrightarrow> evict_refused e (ln_tag s) = Some (b, a) \<Longrightarrow>
    line_step s (s\<lparr>ln_tag := a, ln_pc := (ln_pc s)(t := L_Idle)\<rparr>)"
| agent_load: "line_step s (s\<lparr>ln_agent := (ln_agent s)(i := Some (m, at_status (ln_tag s)))\<rparr>)"
| agent_swap: "ln_agent s i = Some (m, tmp) \<Longrightarrow> agent_iteration m tmp (ln_tag s) = Some (b, a) \<Longrightarrow>
    line_step s (s\<lparr>ln_tag := a, ln_agent := (ln_agent s)(i := None),
      ln_stale := (ln_stale s \<or> b \<and> invalidates m), ln_down := (ln_down s \<or> b \<and> m = DIR_2_AGENT_READ_MISS_DIRTY)\<rparr>)"

text \<open>A line that \<open>newLine\<close> has just filled in.\<close>

definition line_start :: line_sys where
  "line_start = \<lparr>ln_tag = \<lparr>at_flag = False, at_status = C_INVALID\<rparr>, ln_pc = \<lambda>_. L_Idle, ln_agent = \<lambda>_. None,
     ln_stale = False, ln_down = False\<rparr>"

section \<open>The invariant\<close>

text \<open>The statuses a line can have while its owner is at a program point, with the flag clear.\<close>

primrec pc_status :: "line_pc \<Rightarrow> CacheStatus set" where
  "pc_status L_Idle = {C_INVALID, C_SHARED, C_MODIFIED, C_PRESERVED}"
| "pc_status L_Read = {C_TO_SHARED}"
| "pc_status L_Upgrade = {C_TO_MODIFIED}"
| "pc_status L_Write = {C_TO_MODIFIED}"
| "pc_status (L_Evict e) = {C_TO_PRESERVED, C_TO_SHARED}"

definition stale_ok :: "AtomicTag \<Rightarrow> bool" where
  "stale_ok t \<longleftrightarrow> at_status t \<in> {C_INVALID, C_PRESERVED} \<or> at_flag t"

definition down_ok :: "AtomicTag \<Rightarrow> line_pc \<Rightarrow> bool" where
  "down_ok t pc \<longleftrightarrow> at_status t \<in> {C_SHARED, C_INVALID, C_TO_SHARED, C_PRESERVED}
     \<or> at_status t = C_TO_PRESERVED \<and> pc = L_Evict EVICT_SHARED"

text \<open>The owner's program point, or \<open>L_Idle\<close> when no thread is at work.\<close>

definition owner_is :: "(nat \<Rightarrow> line_pc) \<Rightarrow> line_pc \<Rightarrow> bool" where
  "owner_is pcs pc \<longleftrightarrow> (\<exists>t. pcs t = pc \<and> (\<forall>u. u \<noteq> t \<longrightarrow> pcs u = L_Idle))"

definition tag_inv :: "AtomicTag \<Rightarrow> line_pc \<Rightarrow> bool \<Rightarrow> bool \<Rightarrow> bool" where
  "tag_inv t pc stale down \<longleftrightarrow>
     at_status t \<in> pc_status pc \<and> (pc = L_Idle \<longrightarrow> \<not> at_flag t)
     \<and> (stale \<longrightarrow> stale_ok t) \<and> (down \<longrightarrow> down_ok t pc)"

definition line_inv :: "line_sys \<Rightarrow> bool" where
  "line_inv s \<longleftrightarrow> (\<exists>pc. owner_is (ln_pc s) pc \<and> tag_inv (ln_tag s) pc (ln_stale s) (ln_down s))
     \<and> (\<forall>i m. ln_agent s i = Some (m, C_PRESERVED) \<longrightarrow> at_status (ln_tag s) = C_PRESERVED)"

lemma owner_begin:
  "owner_is pcs L_Idle \<Longrightarrow> owner_is (pcs(t := pc)) pc"
  unfolding owner_is_def by (intro exI [of _ t]) (auto, metis)

lemma owner_end: "owner_is pcs pc \<Longrightarrow> pcs t = pc \<Longrightarrow> pc \<noteq> L_Idle \<Longrightarrow> owner_is (pcs(t := L_Idle)) L_Idle"
  unfolding owner_is_def by auto

lemma owner_unique: "owner_is pcs pc \<Longrightarrow> pcs t \<noteq> L_Idle \<Longrightarrow> pcs t = pc"
  unfolding owner_is_def by metis

lemma cas_True: "casFlagAndStatus f1 s1 f2 s2 t = (True, t') \<longleftrightarrow>
    at_flag t = f1 \<and> at_status t = s1 \<and> t' = \<lparr>at_flag = f2, at_status = s2\<rparr>"
  by (cases t) (auto simp: casFlagAndStatus_def)

lemma cas_False: "casFlagAndStatus f1 s1 f2 s2 t = (False, t') \<longleftrightarrow>
    \<not> (at_flag t = f1 \<and> at_status t = s1) \<and> t' = t"
  by (cases t) (auto simp: casFlagAndStatus_def)

lemma swaps_Some: "try_swaps ((f1, s1, f2, s2, a) # cs) t = Some (b, t') \<longleftrightarrow>
    (if at_flag t = f1 \<and> at_status t = s1 then b = a \<and> t' = \<lparr>at_flag = f2, at_status = s2\<rparr>
     else try_swaps cs t = Some (b, t'))"
  by (cases t) (auto simp: casFlagAndStatus_def try_swaps.simps(2))

lemmas line_eval = cas_True cas_False swaps_Some begin_read_def begin_upgrade_def begin_write_def begin_evict_def
  casStatus_def evict_type_of_def end_read_def end_upgrade_def end_write_def evict_refused_def

lemmas tag_defs = tag_inv_def stale_ok_def down_ok_def

text \<open>The effect of each step on the tag and the owner.\<close>

lemma begin_inv:
  assumes "tag_inv t pc stale down"
  shows "begin_read t = (True, a) \<Longrightarrow> pc = L_Idle \<and> tag_inv a L_Read False down"
    and "begin_upgrade t = (True, a) \<Longrightarrow> pc = L_Idle \<and> tag_inv a L_Upgrade stale False"
    and "begin_write t = (True, a) \<Longrightarrow> pc = L_Idle \<and> tag_inv a L_Write False False"
    and "tmp = C_SHARED \<or> tmp = C_MODIFIED \<Longrightarrow> begin_evict seen tmp t = (True, a) \<Longrightarrow>
      pc = L_Idle \<and> tag_inv a (L_Evict (evict_type_of tmp)) stale down"
  using assms by (cases pc; auto simp: line_eval tag_defs)+

lemma end_inv:
  assumes "tag_inv t pc stale down"
  shows "pc = L_Read \<Longrightarrow> end_read succ t = Some (b, a) \<Longrightarrow> tag_inv a L_Idle stale down"
    and "pc = L_Upgrade \<Longrightarrow> end_upgrade succ t = Some (b, a) \<Longrightarrow> tag_inv a L_Idle stale down"
    and "pc = L_Write \<Longrightarrow> end_write succ t = Some (b, a) \<Longrightarrow> tag_inv a L_Idle stale down"
    and "pc = L_Evict e \<Longrightarrow> evict_refused e t = Some (b, a) \<Longrightarrow> tag_inv a L_Idle stale down"
    and "tag_inv (setFlagAndStatus False C_PRESERVED t) L_Idle stale down"
proof -
  show "pc = L_Read \<Longrightarrow> end_read succ t = Some (b, a) \<Longrightarrow> tag_inv a L_Idle stale down"
    using assms by (cases succ) (simp_all add: line_eval tag_defs split: if_splits)
  show "pc = L_Upgrade \<Longrightarrow> end_upgrade succ t = Some (b, a) \<Longrightarrow> tag_inv a L_Idle stale down"
    using assms by (cases succ) (simp_all add: line_eval tag_defs split: if_splits)
  show "pc = L_Write \<Longrightarrow> end_write succ t = Some (b, a) \<Longrightarrow> tag_inv a L_Idle stale down"
    using assms by (cases succ) (simp_all add: line_eval tag_defs split: if_splits)
  show "pc = L_Evict e \<Longrightarrow> evict_refused e t = Some (b, a) \<Longrightarrow> tag_inv a L_Idle stale down"
    using assms by (cases e) (simp_all add: line_eval tag_defs split: if_splits)
  show "tag_inv (setFlagAndStatus False C_PRESERVED t) L_Idle stale down"
    by (simp add: tag_defs setFlagAndStatus_def)
qed

lemma agent_cases:
  assumes "agent_iteration m tmp t = Some (b, a)"
  obtains "m \<noteq> DIR_2_AGENT_READ_MISS_DIRTY" "agent_invalidate_shared tmp t = (b, a)"
  | "m = DIR_2_AGENT_READ_MISS_DIRTY" "agent_downgrade tmp t = (b, a)"
  | "m \<noteq> DIR_2_AGENT_READ_MISS_DIRTY" "agent_invalidate_dirty tmp t = (b, a)"
  using assms by (cases m) (simp_all add: agent_iteration_def)

text \<open>A swap of the agent fails and changes nothing, or finds the line gone, or invalidates it, or
  flags it, or downgrades it.\<close>

lemma invalidate_cases:
  assumes "agent_invalidate_shared tmp t = (b, a) \<or> agent_invalidate_dirty tmp t = (b, a)"
    and "tmp = C_PRESERVED \<longrightarrow> at_status t = C_PRESERVED"
  shows "\<not> b \<and> a = t \<or> b \<and> a = t \<and> at_status t = C_PRESERVED
    \<or> b \<and> at_status t \<in> {C_SHARED, C_MODIFIED} \<and> a = \<lparr>at_flag = False, at_status = C_INVALID\<rparr>
    \<or> b \<and> at_status t \<in> {C_TO_MODIFIED, C_TO_SHARED, C_TO_PRESERVED} \<and> a = \<lparr>at_flag = True, at_status = at_status t\<rparr>"
  using assms
  by (cases tmp; cases t) (auto simp: agent_invalidate_shared_def agent_invalidate_dirty_def casFlagAndStatus_def split: if_splits)

lemma downgrade_cases:
  assumes "agent_downgrade tmp t = (b, a)" "tmp = C_PRESERVED \<longrightarrow> at_status t = C_PRESERVED"
  shows "\<not> b \<and> a = t \<or> b \<and> a = t \<and> at_status t = C_PRESERVED
    \<or> b \<and> t = \<lparr>at_flag = False, at_status = C_MODIFIED\<rparr> \<and> a = \<lparr>at_flag = False, at_status = C_SHARED\<rparr>
    \<or> b \<and> t = \<lparr>at_flag = False, at_status = C_TO_PRESERVED\<rparr> \<and> a = \<lparr>at_flag = False, at_status = C_TO_SHARED\<rparr>"
  using assms by (cases tmp) (auto simp: agent_downgrade_def casFlagAndStatus_def split: if_splits)

lemma tag_inv_invalidated:
  "tag_inv t pc stale down \<Longrightarrow> at_status t \<in> {C_SHARED, C_MODIFIED} \<Longrightarrow>
     tag_inv \<lparr>at_flag = False, at_status = C_INVALID\<rparr> pc True down"
  by (cases pc) (auto simp: tag_defs)

lemma tag_inv_flagged:
  "tag_inv t pc stale down \<Longrightarrow> at_status t \<in> {C_TO_MODIFIED, C_TO_SHARED, C_TO_PRESERVED} \<Longrightarrow>
     tag_inv \<lparr>at_flag = True, at_status = at_status t\<rparr> pc True down"
  by (cases pc) (auto simp: tag_defs)

lemma tag_inv_downgraded:
  "tag_inv \<lparr>at_flag = False, at_status = C_MODIFIED\<rparr> pc stale down \<Longrightarrow>
     tag_inv \<lparr>at_flag = False, at_status = C_SHARED\<rparr> pc stale True"
  "tag_inv \<lparr>at_flag = False, at_status = C_TO_PRESERVED\<rparr> pc stale down \<Longrightarrow>
     tag_inv \<lparr>at_flag = False, at_status = C_TO_SHARED\<rparr> pc stale True"
  by (cases pc; auto simp: tag_defs)+

lemma tag_inv_gone: "tag_inv t pc stale down \<Longrightarrow> at_status t = C_PRESERVED \<Longrightarrow> tag_inv t pc stale' down'"
  by (cases pc) (auto simp: tag_defs)

lemma tag_inv_weaken: "tag_inv t pc True down \<Longrightarrow> tag_inv t pc stale down"
  by (simp add: tag_inv_def)

lemma agent_inv:
  assumes "tag_inv t pc stale down" "agent_iteration m tmp t = Some (b, a)"
    and gone: "tmp = C_PRESERVED \<longrightarrow> at_status t = C_PRESERVED"
  shows "tag_inv a pc (stale \<or> b \<and> invalidates m) (down \<or> b \<and> m = DIR_2_AGENT_READ_MISS_DIRTY)"
    and "at_status t = C_PRESERVED \<longrightarrow> at_status a = C_PRESERVED"
proof -
  have inval: "tag_inv a pc (stale \<or> b \<and> invalidates m) down \<and> (at_status t = C_PRESERVED \<longrightarrow> at_status a = C_PRESERVED)"
    if "agent_invalidate_shared tmp t = (b, a) \<or> agent_invalidate_dirty tmp t = (b, a)"
    using invalidate_cases [OF that gone] assms(1) tag_inv_invalidated [OF assms(1)] tag_inv_flagged [OF assms(1)]
      tag_inv_gone [OF assms(1)] by (elim disjE conjE) (auto intro: tag_inv_weaken)
  have down: "tag_inv a pc stale (down \<or> b) \<and> (at_status t = C_PRESERVED \<longrightarrow> at_status a = C_PRESERVED)"
    if "agent_downgrade tmp t = (b, a)"
    using downgrade_cases [OF that gone] assms(1) tag_inv_downgraded [of pc stale down] tag_inv_gone [OF assms(1)]
    by (elim disjE conjE) auto
  show "tag_inv a pc (stale \<or> b \<and> invalidates m) (down \<or> b \<and> m = DIR_2_AGENT_READ_MISS_DIRTY)"
    "at_status t = C_PRESERVED \<longrightarrow> at_status a = C_PRESERVED"
    using assms(2) inval down by (cases rule: agent_cases; simp add: invalidates_def)+
qed

lemma begin_not_preserved:
  "begin_read t = (True, a) \<Longrightarrow> at_status t \<noteq> C_PRESERVED" "begin_upgrade t = (True, a) \<Longrightarrow> at_status t \<noteq> C_PRESERVED"
  "begin_write t = (True, a) \<Longrightarrow> at_status t \<noteq> C_PRESERVED"
  "tmp = C_SHARED \<or> tmp = C_MODIFIED \<Longrightarrow> begin_evict seen tmp t = (True, a) \<Longrightarrow> at_status t \<noteq> C_PRESERVED"
  by (auto simp: line_eval)

theorem line_step_inv:
  assumes "line_inv s" "line_step s s'"
  shows "line_inv s'"
proof -
  obtain pc where o: "owner_is (ln_pc s) pc" and t: "tag_inv (ln_tag s) pc (ln_stale s) (ln_down s)"
    and g: "\<forall>i m. ln_agent s i = Some (m, C_PRESERVED) \<longrightarrow> at_status (ln_tag s) = C_PRESERVED"
    using assms(1) unfolding line_inv_def by blast
  have busy: "pc = p \<and> owner_is ((ln_pc s)(u := L_Idle)) L_Idle \<and> at_status (ln_tag s) \<noteq> C_PRESERVED"
    if "ln_pc s u = p" "p \<noteq> L_Idle" for u p
  proof -
    have pc: "pc = p" using owner_unique [OF o, of u] that by simp
    moreover have "at_status (ln_tag s) \<noteq> C_PRESERVED" using t that(2) unfolding pc by (cases p) (auto simp: tag_inv_def)
    ultimately show ?thesis using owner_end [OF o, of u] that by simp
  qed
  show ?thesis using assms(2)
  proof cases
    case (read_miss u a)
    with begin_inv(1) [OF t] begin_not_preserved(1) g owner_begin o show ?thesis unfolding line_inv_def by simp blast
  next
    case (upgrade u a)
    with begin_inv(2) [OF t] begin_not_preserved(2) g owner_begin o show ?thesis unfolding line_inv_def by simp blast
  next
    case (write_miss u a)
    with begin_inv(3) [OF t] begin_not_preserved(3) g owner_begin o show ?thesis unfolding line_inv_def by simp blast
  next
    case (evict u tmp seen a)
    with begin_inv(4) [OF t evict(3,4)] begin_not_preserved(4) g owner_begin o show ?thesis unfolding line_inv_def by simp blast
  next
    case (read_done u succ b a)
    with busy [OF read_done(2)] end_inv(1) [OF t _ read_done(3)] g show ?thesis unfolding line_inv_def by simp blast
  next
    case (upgrade_done u succ b a)
    with busy [OF upgrade_done(2)] end_inv(2) [OF t _ upgrade_done(3)] g show ?thesis unfolding line_inv_def by simp blast
  next
    case (write_done u succ b a)
    with busy [OF write_done(2)] end_inv(3) [OF t _ write_done(3)] g show ?thesis unfolding line_inv_def by simp blast
  next
    case (evicted u e)
    with busy [OF evicted(2)] end_inv(5) [OF t] g show ?thesis unfolding line_inv_def
      by (simp add: setFlagAndStatus_def) blast
  next
    case (refused u e b a)
    with busy [OF refused(2)] end_inv(4) [OF t _ refused(3)] g show ?thesis unfolding line_inv_def by simp blast
  next
    case (agent_load i m)
    with o t g show ?thesis unfolding line_inv_def by auto
  next
    case (agent_swap i m tmp b a)
    have "tmp = C_PRESERVED \<longrightarrow> at_status (ln_tag s) = C_PRESERVED" using g agent_swap(2) by blast
    from agent_inv [OF t agent_swap(3) this] o g agent_swap show ?thesis unfolding line_inv_def by auto
  qed
qed

lemma line_start_inv: "line_inv line_start"
  unfolding line_inv_def line_start_def owner_is_def by (auto simp: tag_defs)

lemma line_reach_inv: "line_step\<^sup>*\<^sup>* s s' \<Longrightarrow> line_inv s \<Longrightarrow> line_inv s'"
  by (induction rule: rtranclp_induct) (auto intro: line_step_inv)

section \<open>Properties\<close>

lemma end_swaps_exist:
  "at_status t = C_TO_SHARED \<Longrightarrow> end_read succ t \<noteq> None"
  "at_status t = C_TO_MODIFIED \<Longrightarrow> end_upgrade succ t \<noteq> None \<and> end_write succ t \<noteq> None"
  by (cases t; auto simp: end_read_def end_upgrade_def end_write_def try_swaps.simps(2) casFlagAndStatus_def)+

text \<open>(C25) Whatever the interleaving of application threads and agents on a line: once an agent has
  applied an invalidation the line is not readable, and once it has applied a downgrade not writable,
  until a thread begins a new request for it; at most one thread is at work on the line.\<close>

theorem invalidation_not_lost:
  assumes "line_step\<^sup>*\<^sup>* line_start s"
  shows "(ln_stale s \<longrightarrow> at_status (ln_tag s) \<notin> {C_SHARED, C_MODIFIED})
    \<and> (ln_down s \<longrightarrow> at_status (ln_tag s) \<noteq> C_MODIFIED)
    \<and> (ln_pc s t \<noteq> L_Idle \<and> ln_pc s u \<noteq> L_Idle \<longrightarrow> t = u)"
proof -
  obtain pc where o: "owner_is (ln_pc s) pc" and t: "tag_inv (ln_tag s) pc (ln_stale s) (ln_down s)"
    using line_reach_inv [OF assms line_start_inv] unfolding line_inv_def by blast
  have "ln_stale s \<longrightarrow> at_status (ln_tag s) \<notin> {C_SHARED, C_MODIFIED}"
    using t by (cases pc) (auto simp: tag_defs)
  moreover have "ln_down s \<longrightarrow> at_status (ln_tag s) \<noteq> C_MODIFIED" using t by (auto simp: tag_defs)
  moreover have "ln_pc s t \<noteq> L_Idle \<and> ln_pc s u \<noteq> L_Idle \<longrightarrow> t = u" using o unfolding owner_is_def by metis
  ultimately show ?thesis by blast
qed

definition sample_flagged :: line_sys where
  "sample_flagged = line_start\<lparr>ln_tag := \<lparr>at_flag = True, at_status = C_TO_SHARED\<rparr>,
     ln_pc := (\<lambda>_. L_Idle)(0 := L_Read), ln_stale := True\<rparr>"

lemma sample_flagged_reach: "line_step\<^sup>*\<^sup>* line_start sample_flagged"
proof -
  let ?t = "\<lparr>at_flag = False, at_status = C_TO_SHARED\<rparr>"
  let ?s1 = "line_start\<lparr>ln_tag := ?t, ln_pc := (\<lambda>_. L_Idle)(0 := L_Read)\<rparr>"
  let ?s2 = "?s1\<lparr>ln_agent := (\<lambda>_. None)(0 := Some (DIR_2_AGENT_WRITE_MISS_SHARED, C_TO_SHARED))\<rparr>"
  have "line_step line_start ?s1"
    using line_step.read_miss [of line_start 0 ?t]
    by (simp add: line_start_def begin_read_def casFlagAndStatus_def)
  moreover have "line_step ?s1 ?s2"
    using line_step.agent_load [of ?s1 0 DIR_2_AGENT_WRITE_MISS_SHARED] by (simp add: line_start_def)
  moreover have "line_step ?s2 sample_flagged"
    using line_step.agent_swap [of ?s2 0 DIR_2_AGENT_WRITE_MISS_SHARED C_TO_SHARED True "\<lparr>at_flag = True, at_status = C_TO_SHARED\<rparr>"]
    by (simp add: line_start_def sample_flagged_def agent_iteration_def agent_invalidate_shared_def
        casFlagAndStatus_def invalidates_def fun_upd_def cong: if_cong)
  ultimately show ?thesis by (meson rtranclp.rtrancl_into_rtrancl rtranclp.rtrancl_refl)
qed

theorem invalidation_not_lost_witness:
  "ln_stale sample_flagged \<and> at_status (ln_tag sample_flagged) \<notin> {C_SHARED, C_MODIFIED} \<and> ln_pc sample_flagged 1 = L_Idle"
  using invalidation_not_lost [OF sample_flagged_reach, of 0 1] by (auto simp: sample_flagged_def line_start_def)

text \<open>(C26) A thread that has had the answer to its read miss, its upgrade or its write miss leaves the
  loop that ends the request at its first pass, in every reachable state and for every answer: one of
  the swaps it tries matches the line.\<close>

theorem completion_never_spins:
  assumes "line_step\<^sup>*\<^sup>* line_start s"
  shows "(ln_pc s t = L_Read \<longrightarrow> end_read succ (ln_tag s) \<noteq> None)
    \<and> (ln_pc s t = L_Upgrade \<longrightarrow> end_upgrade succ (ln_tag s) \<noteq> None)
    \<and> (ln_pc s t = L_Write \<longrightarrow> end_write succ (ln_tag s) \<noteq> None)"
proof -
  obtain pc where o: "owner_is (ln_pc s) pc" and t: "tag_inv (ln_tag s) pc (ln_stale s) (ln_down s)"
    using line_reach_inv [OF assms line_start_inv] unfolding line_inv_def by blast
  have "ln_pc s t \<noteq> L_Idle \<longrightarrow> at_status (ln_tag s) \<in> pc_status (ln_pc s t)"
    using owner_unique [OF o, of t] t by (auto simp: tag_inv_def)
  then show ?thesis using end_swaps_exist by auto
qed

theorem completion_never_spins_witness: "end_read True (ln_tag sample_flagged) \<noteq> None"
  using completion_never_spins [OF sample_flagged_reach, of 0 True] by (simp add: sample_flagged_def)

end
