(* ===== verification/Hashing.thy ===== *)
theory Hashing
  imports Host_Types "HOL-Library.Monad_Syntax"
begin

text \<open>
  The hash functions of \<open>Hash.h\<close> and the set index of a cache line. Input is a list of bytes; the
  pointer loops of the code are kept, with positions in the list for pointers and \<open>None\<close> for a read
  past its end. \<open>standard\<close> calls the C++ library's hash and is not modelled.
\<close>

unbundle bit_operations_syntax

section \<open>Jenkins and the set of a line\<close>

text \<open>\<open>char\<close> is signed, so a byte is sign-extended when it is added.\<close>

definition jenkins_byte :: "u64 \<Rightarrow> u8 \<Rightarrow> u64" where
  "jenkins_byte h k =
     (let h = h + scast k; h = h + push_bit 10 h in h XOR drop_bit 6 h)"

definition jenkins :: "u8 list \<Rightarrow> u64" where
  "jenkins key =
     (let h = foldl jenkins_byte 0 key;
          h = h + push_bit 3 h;
          h = h XOR drop_bit 11 h
      in h + push_bit 15 h)"

definition calLineSet :: "u64 \<Rightarrow> u32" where
  "calLineSet tag =
     (let v = ucast tag :: u32
      in ucast (jenkins (bytes_of 4 v) mod of_nat DSM_CACHE_INDEX_SIZE))"

lemma calLineSet_less: "unat (calLineSet tag) < DSM_CACHE_INDEX_SIZE"
proof -
  let ?r = "jenkins (bytes_of 4 (ucast tag :: u32)) mod 65536"
  have "unat ?r < 65536" by (simp add: unat_mod)
  then have "take_bit 32 (unat ?r) < 65536" using take_bit_nat_less_eq_self le_less_trans by blast
  then show ?thesis
    by (simp add: calLineSet_def Let_def DSM_CACHE_INDEX_SIZE_def DSM_CACHE_INDEX_WIDTH_def unsigned_ucast_eq)
qed

section \<open>Murmur\<close>

definition m_murmur :: u32 where "m_murmur = 0x5bd1e995"

definition get32 :: "u8 list \<Rightarrow> nat \<Rightarrow> u32 option" where
  "get32 d p = (if p + 4 \<le> length d then Some (of_bytes (take 4 (drop p d))) else None)"

definition get64 :: "u8 list \<Rightarrow> nat \<Rightarrow> u64 option" where
  "get64 d p = (if p + 8 \<le> length d then Some (of_bytes (take 8 (drop p d))) else None)"

definition get8 :: "u8 list \<Rightarrow> nat \<Rightarrow> u8 option" where
  "get8 d p = (if p < length d then Some (d ! p) else None)"

definition murmur_mix :: "u32 \<Rightarrow> u32 \<Rightarrow> u32" where
  "murmur_mix h k =
     (let k = k * m_murmur; k = k XOR drop_bit 24 k; k = k * m_murmur; h = h * m_murmur in h XOR k)"

fun murmur_loop :: "u8 list \<Rightarrow> nat \<Rightarrow> nat \<Rightarrow> u32 \<Rightarrow> (nat \<times> nat \<times> u32) option" where
  "murmur_loop d p len h =
     (if 4 \<le> len then
        (case get32 d p of
           None \<Rightarrow> None
         | Some k \<Rightarrow> murmur_loop d (p + 4) (len - 4) (murmur_mix h k))
      else Some (p, len, h))"

declare murmur_loop.simps [simp del]

text \<open>The cases of the switch fall through.\<close>

definition murmur_tail :: "u8 list \<Rightarrow> nat \<Rightarrow> nat \<Rightarrow> u32 \<Rightarrow> u32 option" where
  "murmur_tail d p len h =
     do {
       h \<leftarrow> (if len = 3 then map_option (\<lambda>b. h XOR push_bit 16 (ucast b)) (get8 d (p + 2)) else Some h);
       h \<leftarrow> (if len = 3 \<or> len = 2 then map_option (\<lambda>b. h XOR push_bit 8 (ucast b)) (get8 d (p + 1)) else Some h);
       (if len = 3 \<or> len = 2 \<or> len = 1
        then map_option (\<lambda>b. (h XOR ucast b) * m_murmur) (get8 d p) else Some h)
     }"

definition murmur2 :: "u8 list \<Rightarrow> u64 \<Rightarrow> u64 option" where
  "murmur2 key seed =
     do {
       (p, len, h) \<leftarrow> murmur_loop key 0 (length key) (ucast (seed XOR of_nat (length key)));
       h \<leftarrow> murmur_tail key p len h;
       let h = h XOR drop_bit 13 h;
       let h = h * m_murmur;
       let h = h XOR drop_bit 15 h;
       Some (ucast h)
     }"

section \<open>xxHash\<close>

definition NUMBER64_1 :: u64 where "NUMBER64_1 = 11400714785074694791"
definition NUMBER64_2 :: u64 where "NUMBER64_2 = 14029467366897019727"
definition NUMBER64_3 :: u64 where "NUMBER64_3 = 1609587929392839161"
definition NUMBER64_4 :: u64 where "NUMBER64_4 = 9650029242287828579"
definition NUMBER64_5 :: u64 where "NUMBER64_5 = 2870177450012600261"

definition shifting_hash :: "u64 \<Rightarrow> nat \<Rightarrow> u64" where
  "shifting_hash x r = push_bit r x OR drop_bit (64 - r) x"

text \<open>Both reading functions give the same value whatever \<open>align\<close> is.\<close>

definition hash_read64_align :: "u8 list \<Rightarrow> nat \<Rightarrow> u32 \<Rightarrow> u64 option" where
  "hash_read64_align d p align = (if align = 0 then get64 d p else get64 d p)"

definition hash_read32_align :: "u8 list \<Rightarrow> nat \<Rightarrow> u32 \<Rightarrow> u32 option" where
  "hash_read32_align d p align = (if align = 0 then get32 d p else get32 d p)"

definition lane :: "u64 \<Rightarrow> u64 \<Rightarrow> u64" where
  "lane v x = shifting_hash (v + x * NUMBER64_2) 31 * NUMBER64_1"

definition hash_stripe :: "u8 list \<Rightarrow> u32 \<Rightarrow> nat \<Rightarrow> u64 \<times> u64 \<times> u64 \<times> u64 \<Rightarrow>
    (nat \<times> u64 \<times> u64 \<times> u64 \<times> u64) option" where
  "hash_stripe d align p v =
     (case v of (v1, v2, v3, v4) \<Rightarrow>
        do {
          x1 \<leftarrow> hash_read64_align d p align;
          x2 \<leftarrow> hash_read64_align d (p + 8) align;
          x3 \<leftarrow> hash_read64_align d (p + 16) align;
          x4 \<leftarrow> hash_read64_align d (p + 24) align;
          Some (p + 32, lane v1 x1, lane v2 x2, lane v3 x3, lane v4 x4)
        })"

text \<open>The \<open>do ... while (p <= limitation)\<close> loop, with the limitation as the position \<open>length - 32\<close>.
  The read of a stripe moves \<open>p\<close> by 32, so the distance to the end of the data bounds it.\<close>

function hash_stripes :: "u8 list \<Rightarrow> u32 \<Rightarrow> nat \<Rightarrow> u64 \<times> u64 \<times> u64 \<times> u64 \<Rightarrow>
    (nat \<times> u64 \<times> u64 \<times> u64 \<times> u64) option" where
  "hash_stripes d align p v =
     (case hash_stripe d align p v of
        None \<Rightarrow> None
      | Some (p', v') \<Rightarrow> if p' \<le> length d - 32 then hash_stripes d align p' v' else Some (p', v'))"
  by auto
termination by (relation "measure (\<lambda>(d, align, p, v). length d - p)") (auto simp: hash_stripe_def get64_def hash_read64_align_def bind_eq_Some_conv split: if_splits)

declare hash_stripes.simps [simp del]

definition hash_merge :: "u64 \<Rightarrow> u64 \<Rightarrow> u64" where
  "hash_merge h v =
     (let v = v * NUMBER64_2; v = shifting_hash v 31; v = v * NUMBER64_1; h = h XOR v
      in h * NUMBER64_1 + NUMBER64_4)"

definition hash_lanes :: "u64 \<times> u64 \<times> u64 \<times> u64 \<Rightarrow> u64" where
  "hash_lanes v =
     (case v of (v1, v2, v3, v4) \<Rightarrow>
        (let h = shifting_hash v1 1 + shifting_hash v2 7 + shifting_hash v3 12 + shifting_hash v4 18
         in hash_merge (hash_merge (hash_merge (hash_merge h v1) v2) v3) v4))"

definition hash_word :: "u64 \<Rightarrow> u64 \<Rightarrow> u64" where
  "hash_word h k1 =
     (let k1 = k1 * NUMBER64_2; k1 = shifting_hash k1 31; k1 = k1 * NUMBER64_1; h = h XOR k1
      in shifting_hash h 27 * NUMBER64_1 + NUMBER64_4)"

function hash_words :: "u8 list \<Rightarrow> u32 \<Rightarrow> nat \<Rightarrow> u64 \<Rightarrow> (nat \<times> u64) option" where
  "hash_words d align p h =
     (if p + 8 \<le> length d then
        (case hash_read64_align d p align of
           None \<Rightarrow> None
         | Some k \<Rightarrow> hash_words d align (p + 8) (hash_word h k))
      else Some (p, h))"
  by auto
termination by (relation "measure (\<lambda>(d, align, p, h). length d - p)") auto

declare hash_words.simps [simp del]

definition hash_half :: "u64 \<Rightarrow> u32 \<Rightarrow> u64" where
  "hash_half h x = (let h = h XOR (ucast x * NUMBER64_1) in shifting_hash h 23 * NUMBER64_2 + NUMBER64_3)"

definition hash_byte :: "u64 \<Rightarrow> u8 \<Rightarrow> u64" where
  "hash_byte h x = (let h = h XOR (ucast x * NUMBER64_5) in shifting_hash h 11 * NUMBER64_1)"

function hash_bytes :: "u8 list \<Rightarrow> nat \<Rightarrow> u64 \<Rightarrow> u64 option" where
  "hash_bytes d p h =
     (if p < length d then
        (case get8 d p of None \<Rightarrow> None | Some b \<Rightarrow> hash_bytes d (p + 1) (hash_byte h b))
      else Some h)"
  by auto
termination by (relation "measure (\<lambda>(d, p, h). length d - p)") auto

declare hash_bytes.simps [simp del]

definition hash_final :: "u64 \<Rightarrow> u64" where
  "hash_final h =
     (let h = h XOR drop_bit 33 h; h = h * NUMBER64_2; h = h XOR drop_bit 29 h; h = h * NUMBER64_3
      in h XOR drop_bit 32 h)"

definition hash_compute :: "u8 list \<Rightarrow> u64 \<Rightarrow> u32 \<Rightarrow> u64 option" where
  "hash_compute d seed align =
     do {
       (p, h) \<leftarrow>
         (if 32 \<le> length d then
            map_option (\<lambda>(p, v). (p, hash_lanes v))
              (hash_stripes d align 0
                 (seed + NUMBER64_1 + NUMBER64_2, seed + NUMBER64_2, seed + 0, seed - NUMBER64_1))
          else Some (0, seed + NUMBER64_5));
       let h = h + of_nat (length d);
       (p, h) \<leftarrow> hash_words d align p h;
       (p, h) \<leftarrow> (if p + 4 \<le> length d
                  then map_option (\<lambda>x. (p + 4, hash_half h x)) (hash_read32_align d p align)
                  else Some (p, h));
       h \<leftarrow> hash_bytes d p h;
       Some (hash_final h)
     }"

text \<open>The address decides between the two reading functions.\<close>

definition xxhash :: "u64 \<Rightarrow> u8 list \<Rightarrow> u64 \<Rightarrow> u64 option" where
  "xxhash addr d seed =
     (if addr AND 7 = 0 then hash_compute d seed 1 else hash_compute d seed 0)"

section \<open>Reference: a fold over the parts of the input\<close>

fun words_of :: "u8 list \<Rightarrow> 'a::len word list" where
  "words_of bs = (if 0 < LENGTH('a) div 8 \<and> LENGTH('a) div 8 \<le> length bs
     then of_bytes (take (LENGTH('a) div 8) bs) # words_of (drop (LENGTH('a) div 8) bs) else [])"

declare words_of.simps [simp del]

text \<open>The stripes of 32 bytes, the words, the half word and the bytes that follow them.\<close>

fun stripes :: "u64 list \<Rightarrow> u64 \<times> u64 \<times> u64 \<times> u64 \<Rightarrow> u64 \<times> u64 \<times> u64 \<times> u64" where
  "stripes (x1 # x2 # x3 # x4 # xs) (v1, v2, v3, v4) = stripes xs (lane v1 x1, lane v2 x2, lane v3 x3, lane v4 x4)"
| "stripes xs v = v"

definition hash_tail :: "u8 list \<Rightarrow> u64 \<Rightarrow> u64" where
  "hash_tail d h =
     (let h = foldl hash_word h (words_of d);
          d = drop (8 * (length d div 8)) d;
          h = foldl hash_half h (words_of d);
          d = drop (4 * (length d div 4)) d
      in hash_final (foldl hash_byte h d))"

definition hash_ref :: "u8 list \<Rightarrow> u64 \<Rightarrow> u64" where
  "hash_ref d seed =
     (let n = 32 * (length d div 32);
          h = (if n = 0 then seed + NUMBER64_5
               else hash_lanes (stripes (words_of (take n d))
                      (seed + NUMBER64_1 + NUMBER64_2, seed + NUMBER64_2, seed, seed - NUMBER64_1)))
      in hash_tail (drop n d) (h + of_nat (length d)))"

section \<open>The loops compute the reference\<close>

lemma step_div: "0 < k \<Longrightarrow> k * ((k + m) div k) = k + k * (m div k)" for k m :: nat
  by (simp add: div_add_self1)

lemma words64:
  "8 \<le> length bs \<Longrightarrow> (words_of bs :: u64 list) = of_bytes (take 8 bs) # words_of (drop 8 bs)"
  "length bs < 8 \<Longrightarrow> (words_of bs :: u64 list) = []"
  by (simp_all add: words_of.simps [of bs])

lemma words32:
  "4 \<le> length bs \<Longrightarrow> (words_of bs :: u32 list) = of_bytes (take 4 bs) # words_of (drop 4 bs)"
  "length bs < 4 \<Longrightarrow> (words_of bs :: u32 list) = []"
  by (simp_all add: words_of.simps [of bs])

lemma read64: "p + 8 \<le> length d \<Longrightarrow> hash_read64_align d p align = Some (of_bytes (take 8 (drop p d)))"
  by (simp add: hash_read64_align_def get64_def)

lemma hash_words_fold:
  "p \<le> length d \<Longrightarrow>
   hash_words d align p h = Some (p + 8 * ((length d - p) div 8), foldl hash_word h (words_of (drop p d)))"
proof (induction d align p h rule: hash_words.induct)
  case (1 d align p h)
  show ?case
  proof (cases "p + 8 \<le> length d")
    case True
    then have len: "length d - p = 8 + (length d - (p + 8))" by simp
    have "hash_words d align p h = hash_words d align (p + 8) (hash_word h (of_bytes (take 8 (drop p d))))"
      using True by (subst hash_words.simps) (simp add: read64)
    also have "\<dots> = Some (p + 8 + 8 * ((length d - (p + 8)) div 8),
        foldl hash_word (hash_word h (of_bytes (take 8 (drop p d)))) (words_of (drop (p + 8) d)))"
      using 1 True by (simp add: read64)
    also have "p + 8 + 8 * ((length d - (p + 8)) div 8) = p + 8 * ((length d - p) div 8)"
      unfolding len using step_div [of 8 "length d - (p + 8)"] by linarith
    also have "foldl hash_word (hash_word h (of_bytes (take 8 (drop p d)))) (words_of (drop (p + 8) d))
        = foldl hash_word h (words_of (drop p d))"
      using True by (simp add: words64(1) [of "drop p d"] add.commute)
    finally show ?thesis .
  next
    case False
    then have "(length d - p) div 8 = 0" "length (drop p d) < 8" by simp_all
    then show ?thesis using False by (subst hash_words.simps) (simp add: words64(2))
  qed
qed

lemma hash_bytes_fold: "p \<le> length d \<Longrightarrow> hash_bytes d p h = Some (foldl hash_byte h (drop p d))"
proof (induction d p h rule: hash_bytes.induct)
  case (1 d p h)
  then show ?case
    by (subst hash_bytes.simps) (auto simp: get8_def Cons_nth_drop_Suc [symmetric])
qed

lemma words64_take:
  "8 + m \<le> length bs \<Longrightarrow> (words_of (take (8 + m) bs) :: u64 list) = of_bytes (take 8 bs) # words_of (take m (drop 8 bs))"
  by (subst words64(1)) (simp_all add: drop_take min_def)

lemma stripe_words:
  assumes "32 + m \<le> length bs"
  shows "(words_of (take (32 + m) bs) :: u64 list) =
     of_bytes (take 8 bs) # of_bytes (take 8 (drop 8 bs)) # of_bytes (take 8 (drop 16 bs))
       # of_bytes (take 8 (drop 24 bs)) # words_of (take m (drop 32 bs))"
  using assms words64_take [of "24 + m" bs] words64_take [of "16 + m" "drop 8 bs"]
    words64_take [of "8 + m" "drop 16 bs"] words64_take [of m "drop 24 bs"]
  by simp

lemma hash_stripes_fold:
  "p + 32 \<le> length d \<Longrightarrow>
   hash_stripes d align p v = Some (p + 32 * ((length d - p) div 32),
     stripes (words_of (take (32 * ((length d - p) div 32)) (drop p d))) v)"
proof (induction d align p v rule: hash_stripes.induct)
  case (1 d align p v)
  obtain v1 v2 v3 v4 where v: "v = (v1, v2, v3, v4)" by (cases v)
  let ?x = "\<lambda>k. of_bytes (take 8 (drop (p + k) d)) :: u64"
  define v' where "v' = (lane v1 (?x 0), lane v2 (?x 8), lane v3 (?x 16), lane v4 (?x 24))"
  have one: "hash_stripe d align p v = Some (p + 32, v')"
    using 1(2) by (simp add: hash_stripe_def v read64 v'_def)
  let ?n = "(length d - p) div 32"
  have len: "length d - p = 32 + (length d - (p + 32))" using 1(2) by simp
  have n: "32 * ?n = 32 + 32 * ((length d - (p + 32)) div 32)"
    unfolding len by (rule step_div) simp
  have le: "32 * ?n \<le> length (drop p d)" by simp
  have chop: "stripes (words_of (take (32 * ?n) (drop p d))) v
      = stripes (words_of (take (32 * ?n - 32) (drop (p + 32) d))) v'"
    using stripe_words [of "32 * ((length d - (p + 32)) div 32)" "drop p d"] le unfolding n
    by (simp add: v v'_def add.commute [of _ p])
  show ?case
  proof (cases "p + 32 \<le> length d - 32")
    case True
    have "hash_stripes d align p v = hash_stripes d align (p + 32) v'"
      using True by (subst hash_stripes.simps) (simp add: one)
    also have "\<dots> = Some (p + 32 + 32 * ((length d - (p + 32)) div 32),
        stripes (words_of (take (32 * ((length d - (p + 32)) div 32)) (drop (p + 32) d))) v')"
      using 1(1) [OF one refl True] True 1(2) by (simp add: le_diff_conv2)
    finally show ?thesis unfolding chop using n by (simp add: add.assoc)
  next
    case False
    then have "(length d - (p + 32)) div 32 = 0" using 1(2) by simp
    with n have "32 * ?n = 32" by simp
    then show ?thesis
      using False chop by (subst hash_stripes.simps) (simp add: one words64(2))
  qed
qed

lemma half_fold:
  assumes "length bs < 8"
  shows "foldl hash_half h (words_of bs) = (if 4 \<le> length bs then hash_half h (of_bytes (take 4 bs)) else h)"
  using assms by (simp add: words32 words32(2) [of "drop 4 bs"] not_le)

text \<open>The last three loops, from a position \<open>p\<close> on.\<close>

lemma hash_tail_loops:
  assumes "p \<le> length d"
  shows "do { (p, h) \<leftarrow> hash_words d align p h;
       (p, h) \<leftarrow> (if p + 4 \<le> length d then map_option (\<lambda>x. (p + 4, hash_half h x)) (hash_read32_align d p align)
                  else Some (p, h));
       h \<leftarrow> hash_bytes d p h;
       Some (hash_final h) } = Some (hash_tail (drop p d) h)"
proof -
  let ?q = "p + 8 * ((length d - p) div 8)" and ?h = "foldl hash_word h (words_of (drop p d))"
  have q: "?q \<le> length d" using assms by (metis add_le_cancel_left le_add_diff_inverse mult.commute div_times_less_eq_dividend)
  have rest: "length d - ?q = (length d - p) mod 8"
    by (metis diff_diff_left minus_mult_div_eq_mod)
  then have small: "length (drop ?q d) < 8" by simp
  have dropq: "drop (8 * (length (drop p d) div 8)) (drop p d) = drop ?q d" by (simp add: add.commute)
  have k: "4 * (length (drop ?q d) div 4) = (if ?q + 4 \<le> length d then 4 else 0)"
  proof -
    have "4 * (r div 4) = (if 4 \<le> r then 4 else 0)" if "r < 8" for r :: nat
    proof (cases "4 \<le> r")
      case True
      with that have "r div 4 = 1" by presburger
      with True show ?thesis by simp
    qed simp
    from this [OF small] show ?thesis using q by (simp add: le_diff_conv2 add.commute)
  qed
  have tail: "hash_tail (drop p d) h =
      hash_final (foldl hash_byte (foldl hash_half ?h (words_of (drop ?q d))) (drop (4 * (length (drop ?q d) div 4)) (drop ?q d)))"
    unfolding hash_tail_def Let_def dropq ..
  show ?thesis
  proof (cases "?q + 4 \<le> length d")
    case True
    then have "4 \<le> length d - ?q" by linarith
    with True show ?thesis
      unfolding tail k half_fold [OF small]
      by (simp add: hash_words_fold [OF assms] hash_read32_align_def get32_def hash_bytes_fold add.commute)
  next
    case False
    then have "\<not> 4 \<le> length d - ?q" by linarith
    with False show ?thesis
      unfolding tail k half_fold [OF small]
      using q by (simp add: hash_words_fold [OF assms] hash_bytes_fold)
  qed
qed

lemma hash_compute_ref: "hash_compute d seed align = Some (hash_ref d seed)"
proof (cases "32 \<le> length d")
  case True
  let ?n = "32 * (length d div 32)"
  let ?v = "(seed + NUMBER64_1 + NUMBER64_2, seed + NUMBER64_2, seed, seed - NUMBER64_1)"
  have n: "?n \<le> length d" by simp
  have pos: "?n \<noteq> 0" using True by (simp add: div_eq_0_iff)
  have "hash_stripes d align 0 ?v = Some (?n, stripes (words_of (take ?n d)) ?v)"
    using hash_stripes_fold [of 0 d align ?v] True by simp
  then have "hash_compute d seed align = Some (hash_tail (drop ?n d) (hash_lanes (stripes (words_of (take ?n d)) ?v) + of_nat (length d)))"
    using hash_tail_loops [OF n, of align "hash_lanes (stripes (words_of (take ?n d)) ?v) + of_nat (length d)"] True
    by (simp add: hash_compute_def Let_def)
  then show ?thesis using pos by (simp add: hash_ref_def Let_def)
next
  case False
  then show ?thesis
    using hash_tail_loops [of 0 d align "seed + NUMBER64_5 + of_nat (length d)"]
    by (simp add: hash_compute_def hash_ref_def Let_def)
qed

lemma murmur_loop_reads:
  "p + len \<le> length d \<Longrightarrow>
   murmur_loop d p len h = Some (p + 4 * (len div 4), len mod 4, foldl murmur_mix h (words_of (take (4 * (len div 4)) (drop p d))))"
proof (induction d p len h rule: murmur_loop.induct)
  case (1 d p len h)
  show ?case
  proof (cases "4 \<le> len")
    case True
    define n where "n = len - 4"
    then have n: "len = 4 + n" using True by simp
    have "murmur_loop d p len h = murmur_loop d (p + 4) n (murmur_mix h (of_bytes (take 4 (drop p d))))"
      using True 1(2) by (subst murmur_loop.simps) (simp add: get32_def n)
    also have "\<dots> = Some (p + 4 + 4 * (n div 4), n mod 4,
        foldl murmur_mix (murmur_mix h (of_bytes (take 4 (drop p d)))) (words_of (take (4 * (n div 4)) (drop (p + 4) d))))"
      using 1(1) [OF True] 1(2) True by (simp add: get32_def n)
    also have "\<dots> = Some (p + 4 * (len div 4), len mod 4, foldl murmur_mix h (words_of (take (4 * (len div 4)) (drop p d))))"
    proof -
      have s: "4 * (len div 4) = 4 + 4 * (n div 4)" unfolding n by (rule step_div) simp
      have "4 + 4 * (n div 4) \<le> length (drop p d)" using s 1(2) by (metis add.commute div_times_less_eq_dividend le_diff_conv2 le_trans length_drop mult.commute add_leD1)
      then have "(words_of (take (4 + 4 * (n div 4)) (drop p d)) :: u32 list)
          = of_bytes (take 4 (drop p d)) # words_of (take (4 * (n div 4)) (drop (p + 4) d))"
        by (subst words32(1)) (simp_all add: drop_take min_def add.commute)
      then show ?thesis unfolding s by (simp add: n)
    qed
    finally show ?thesis .
  next
    case False
    then show ?thesis by (subst murmur_loop.simps) (simp add: words32(2))
  qed
qed

lemma murmur2_total: "murmur2 key seed \<noteq> None"
proof -
  define q r where "q = length key div 4" and "r = length key mod 4"
  have len: "length key = 4 * q + r" by (simp add: q_def r_def)
  have loop: "murmur_loop key 0 (length key) h = Some (4 * q, r, foldl murmur_mix h (words_of (take (4 * q) key)))" for h
    using murmur_loop_reads [of 0 "length key" key h] by (simp add: q_def r_def)
  have tail: "murmur_tail key (4 * q) r h \<noteq> None" for h
    by (simp add: murmur_tail_def get8_def len)
  obtain h where "murmur_tail key (4 * q) r (foldl murmur_mix (ucast (seed XOR of_nat (length key)))
      (words_of (take (4 * q) key))) = Some h" using tail by blast
  then show ?thesis by (simp add: murmur2_def loop Let_def)
qed

section \<open>Properties\<close>

text \<open>(C32) The pointer loops of \<open>hash_compute\<close> end, never read outside the data, and compute the fold
  of \<open>hash_ref\<close>, whatever the alignment flag: \<open>xxhash\<close> of the same bytes is the same at any address.\<close>

theorem xxhash_computes_reference: "xxhash addr d seed = Some (hash_ref d seed)"
  by (simp add: xxhash_def hash_compute_ref)

text \<open>(C33) The two other functions are in bounds too: \<open>murmur2\<close> reads every input without leaving it, and
  the set index computed from any tag is an index of the arrays of sets.\<close>

theorem hashes_in_bounds: "murmur2 key seed \<noteq> None \<and> unat (calLineSet tag) < DSM_CACHE_INDEX_SIZE"
  using murmur2_total calLineSet_less by blast

end
