(* ===== verification/Cache_Set.thy ===== *)
theory Cache_Set
  imports Cache_Line Hashing Ring
begin

text \<open>
  The sets of the software cache (\<open>Cache.h\<close>, \<open>Cache.cpp\<close>): looking a line up in a set and in its shadow
  set, taking a slot for a new line, and moving the line that had it through its eviction. The
  functions are those of one application thread; what other threads can do to a line meanwhile is the
  subject of \<open>Cache_Line\<close>. The counters of the statistics are left out.
\<close>

section \<open>State\<close>

text \<open>A null data pointer is \<open>None\<close>.\<close>

record LineInfo =
  li_lock :: u16
  li_data :: "u64 option"
  li_status :: AtomicTag
  li_line_index :: u32
  li_shadow_flag :: bool
  li_tag :: u64
  li_addr :: GlobalAddress
  li_set_index :: nat
  li_slot_index :: nat

record cache =
  ca_lines :: "nat \<Rightarrow> LineInfo list"
  ca_shadow :: "nat \<Rightarrow> LineInfo list"
  ca_stack :: "nat \<Rightarrow> u64 list"

text \<open>The thread-local variables of an application thread. A pointer to a line of the shadow sets is
  its set and its slot; the messages a thread sends are appended to a list.\<close>

record appt =
  ap_req_appt_id :: nat
  ap_node_id :: u8
  ap_start_next :: bool
  ap_wait_cur :: bool
  ap_cur_evict :: "(nat \<times> nat) option"
  ap_next_evict :: "(nat \<times> nat) option"
  ap_recv_cur :: bool
  ap_cur_msg :: RawMessage
  ap_evict_type :: EvictType
  ap_sent :: "RawMessage list"

definition status :: "LineInfo \<Rightarrow> CacheStatus" where "status l = at_status (li_status l)"

abbreviation put_status :: "bool \<Rightarrow> CacheStatus \<Rightarrow> LineInfo \<Rightarrow> LineInfo" where
  "put_status f s l \<equiv> l\<lparr>li_status := setFlagAndStatus f s (li_status l)\<rparr>"

definition upd_line :: "nat \<Rightarrow> nat \<Rightarrow> (LineInfo \<Rightarrow> LineInfo) \<Rightarrow> cache \<Rightarrow> cache" where
  "upd_line s i f c = c\<lparr>ca_lines := (ca_lines c)(s := (ca_lines c s)[i := f (ca_lines c s ! i)])\<rparr>"

definition upd_shadow :: "nat \<Rightarrow> nat \<Rightarrow> (LineInfo \<Rightarrow> LineInfo) \<Rightarrow> cache \<Rightarrow> cache" where
  "upd_shadow s i f c = c\<lparr>ca_shadow := (ca_shadow c)(s := (ca_shadow c s)[i := f (ca_shadow c s ! i)])\<rparr>"

definition push :: "nat \<Rightarrow> u64 option \<Rightarrow> cache \<Rightarrow> cache" where
  "push a p c = (case p of None \<Rightarrow> c | Some p \<Rightarrow> c\<lparr>ca_stack := (ca_stack c)(a := ca_stack c a @ [p])\<rparr>)"

section \<open>Set up and lookup\<close>

definition initLine :: "u64 list \<Rightarrow> nat \<Rightarrow> cache \<Rightarrow> cache" where
  "initLine bufs appt_num c =
     (let deal = \<lambda>a. map (\<lambda>k. bufs ! k) (filter (\<lambda>k. k mod appt_num = a) [0..<length bufs]);
          fresh = \<lambda>shadow s. map (\<lambda>i l. l\<lparr>li_data := None, li_status := \<lparr>at_flag = False, at_status = C_PRESERVED\<rparr>,
              li_shadow_flag := shadow, li_set_index := s, li_slot_index := i\<rparr>) [0..<CACHE_WAYS];
          lines = \<lambda>old shadow s. map (\<lambda>(f, l). f l) (zip (fresh shadow s) (old s))
      in c\<lparr>ca_lines := lines (ca_lines c) False, ca_shadow := lines (ca_shadow c) True,
           ca_stack := (\<lambda>a. ca_stack c a @ deal a)\<rparr>)"

definition holds :: "u64 \<Rightarrow> LineInfo \<Rightarrow> bool" where
  "holds tag l \<longleftrightarrow> status l \<noteq> C_PRESERVED \<and> li_tag l = tag"

definition find_way :: "u64 \<Rightarrow> LineInfo list \<Rightarrow> nat option" where
  "find_way tag ls = find (\<lambda>i. holds tag (ls ! i)) [0..<CACHE_WAYS]"

definition findLine :: "nat \<Rightarrow> GlobalAddress \<Rightarrow> cache \<Rightarrow> nat option" where
  "findLine s addr c = find_way (getTag addr) (ca_lines c s)"

definition findShadowLine :: "nat \<Rightarrow> GlobalAddress \<Rightarrow> cache \<Rightarrow> nat option" where
  "findShadowLine s addr c = find_way (getTag addr) (ca_shadow c s)"

text \<open>The agent's lookup returns the line in one of the two sets; finding it in both fails an
  assertion.\<close>

definition findLineForAgent :: "u64 \<Rightarrow> cache \<Rightarrow> (bool \<times> nat) option outcome" where
  "findLineForAgent tag c =
     (let s = unat (calLineSet tag) in
      case (find_way tag (ca_lines c s), find_way tag (ca_shadow c s)) of
        (Some i, Some j) \<Rightarrow> Aborts
      | (Some i, None) \<Rightarrow> Returned (Some (False, i))
      | (None, Some j) \<Rightarrow> Returned (Some (True, j))
      | (None, None) \<Rightarrow> Returned None)"

section \<open>A slot for a new line\<close>

text \<open>The scan keeps the last slot of each kind: one that already has the tag, one that is free, and
  one whose line can be evicted.\<close>

definition scan_way :: "u64 \<Rightarrow> LineInfo list \<Rightarrow> LineInfo list \<Rightarrow> nat \<Rightarrow>
    nat option \<times> nat option \<times> nat option \<Rightarrow> nat option \<times> nat option \<times> nat option" where
  "scan_way tag ls shadow i r =
     (case r of (exist, avail, evict) \<Rightarrow>
        if holds tag (ls ! i) \<or> holds tag (shadow ! i) then (Some i, avail, evict)
        else if status (ls ! i) = C_PRESERVED then (exist, Some i, evict)
        else if status (ls ! i) \<in> {C_INVALID, C_SHARED, C_MODIFIED} \<and> status (shadow ! i) = C_PRESERVED
          then (exist, avail, Some i)
        else (exist, avail, evict))"

definition scan_set :: "u64 \<Rightarrow> LineInfo list \<Rightarrow> LineInfo list \<Rightarrow> nat option \<times> nat option \<times> nat option" where
  "scan_set tag ls shadow = fold (scan_way tag ls shadow) [0..<CACHE_WAYS] (None, None, None)"

definition take_slot :: "nat \<Rightarrow> nat \<Rightarrow> GlobalAddress \<Rightarrow> nat \<Rightarrow> cache \<Rightarrow> cache option" where
  "take_slot s i addr a c =
     (if ca_stack c a = [] then None
      else Some (upd_line s i (\<lambda>l. put_status False C_INVALID
                 (l\<lparr>li_tag := getTag addr, li_addr := addr, li_data := Some (last (ca_stack c a))\<rparr>)) c
               \<lparr>ca_stack := (ca_stack c)(a := butlast (ca_stack c a))\<rparr>))"

definition to_shadow :: "nat \<Rightarrow> nat \<Rightarrow> cache \<Rightarrow> cache" where
  "to_shadow s i c =
     upd_shadow s i (\<lambda>l. let v = ca_lines c s ! i in
       put_status False (status v) (l\<lparr>li_tag := li_tag v, li_addr := li_addr v, li_data := li_data v\<rparr>)) c"

text \<open>Whether a slot was taken, and which; \<open>None\<close> is \<open>back()\<close> of an empty vector.\<close>

definition newLine :: "nat \<Rightarrow> GlobalAddress \<Rightarrow> cache \<Rightarrow> appt \<Rightarrow> (nat option \<times> cache \<times> appt) option" where
  "newLine s addr c a =
     (let id = ap_req_appt_id a in
      case scan_set (getTag addr) (ca_lines c s) (ca_shadow c s) of
        (Some _, _, _) \<Rightarrow> Some (None, c, a)
      | (None, None, None) \<Rightarrow> Some (None, c, a)
      | (None, avail, evict) \<Rightarrow>
          if avail \<noteq> None \<and> ca_stack c id \<noteq> [] then
            map_option (\<lambda>c. (avail, c, a)) (take_slot s (the avail) addr id c)
          else (case evict of
              None \<Rightarrow> Some (None, c, a)
            | Some i \<Rightarrow>
                if status (ca_lines c s ! i) = C_INVALID then
                  Some (Some i, upd_line s i (\<lambda>l. l\<lparr>li_tag := getTag addr, li_addr := addr\<rparr>) c, a)
                else
                  map_option (\<lambda>c. (Some i, c, a\<lparr>ap_start_next := True, ap_next_evict := Some (s, i)\<rparr>))
                    (take_slot s i addr id (to_shadow s i c))))"

section \<open>Eviction\<close>

text \<open>The fields a request does not set keep what the stack had there, given as \<open>m0\<close>.\<close>

definition generate_message :: "RawMessage \<Rightarrow> RawMessageType \<Rightarrow> GlobalAddress \<Rightarrow> LineInfo \<Rightarrow> appt \<Rightarrow> RawMessage" where
  "generate_message m0 mtype addr info a =
     m0\<lparr>rm_mtype := mtype_code mtype, rm_req_cline_nodeID := ap_node_id a,
        rm_req_cline_appThreadID := of_nat (ap_req_appt_id a),
        rm_req_cline_addr := (case li_data info of None \<Rightarrow> 0 | Some p \<Rightarrow> p),
        rm_req_cline_index := li_line_index info, rm_cline_tag := getTag addr,
        rm_dir_gblock_index := ucast (getIndex addr), rm_dir_gblock_nodeID := ga_nodeID addr\<rparr>"

definition shadow_at :: "cache \<Rightarrow> nat \<times> nat \<Rightarrow> LineInfo" where
  "shadow_at c r = ca_shadow c (fst r) ! snd r"

text \<open>A line in the shadow set is given back: its buffer to the thread's stack, its slot as free.\<close>

definition give_back :: "nat \<times> nat \<Rightarrow> cache \<Rightarrow> appt \<Rightarrow> cache" where
  "give_back r c a =
     (let l = shadow_at c r; s = li_set_index l; i = li_slot_index l; p = li_data (ca_shadow c s ! i)
      in upd_shadow s i (\<lambda>l. put_status False C_PRESERVED (l\<lparr>li_data := None\<rparr>)) (push (ap_req_appt_id a) p c))"

text \<open>With no other thread in between, the swap succeeds at once; the write lock of the line is taken
  after it, and a lock that is held already makes the thread wait.\<close>

definition start_evict :: "RawMessage \<Rightarrow> cache \<Rightarrow> appt \<Rightarrow> (cache \<times> appt) outcome" where
  "start_evict m0 c a =
     (if \<not> ap_start_next a then Returned (c, a)
      else case ap_next_evict a of
        None \<Rightarrow> Aborts
      | Some r \<Rightarrow>
          (let a = a\<lparr>ap_start_next := False, ap_wait_cur := True, ap_cur_evict := Some r, ap_next_evict := None\<rparr>;
               l = shadow_at c r; tmp = status l in
           if tmp = C_INVALID then Returned (give_back r c a, a\<lparr>ap_wait_cur := False\<rparr>)
           else if li_lock l \<noteq> 0 then Waits
           else
             (let c = upd_shadow (fst r) (snd r) (\<lambda>l. l\<lparr>li_status := snd (casStatus (at_flag (li_status l)) tmp C_TO_PRESERVED (li_status l)),
                          li_lock := 1\<rparr>) c;
                  m = generate_message m0 (if tmp = C_SHARED then R_EVICT_SHARED else R_EVICT_DIRTY) (li_addr l) l a
              in Returned (c, a\<lparr>ap_evict_type := evict_type_of tmp, ap_sent := ap_sent a @ [m]\<rparr>))))"

text \<open>One message of the loop of \<open>wait_evict\<close>; the result says whether the loop ends.\<close>

definition evict_reply :: "RawMessage \<Rightarrow> RawMessage \<Rightarrow> nat \<times> nat \<Rightarrow> cache \<Rightarrow> appt \<Rightarrow> (bool \<times> cache \<times> appt) outcome" where
  "evict_reply m0 m r c a =
     (let l = shadow_at c r in
      if rm_cline_tag m \<noteq> li_tag l then Aborts
      else case mtype_of (rm_mtype m) of
        Some DIR_2_APP_EVICT_DIRTY_ACK \<Rightarrow> Returned (True, give_back r c a, a)
      | Some DIR_2_APP_EVICT_SHARED_ACK \<Rightarrow> Returned (True, give_back r c a, a)
      | Some DIR_2_APP_M_CHECK_FAIL \<Rightarrow>
          (case evict_refused (ap_evict_type a) (li_status l) of
             None \<Rightarrow> Waits
           | Some (_, t) \<Rightarrow>
               (case start_evict m0 (upd_shadow (fst r) (snd r) (\<lambda>l. l\<lparr>li_status := t\<rparr>) c)
                       (a\<lparr>ap_start_next := True, ap_next_evict := Some r\<rparr>) of
                  Returned (c, a) \<Rightarrow> Returned (\<not> ap_wait_cur a, c, a)
                | Waits \<Rightarrow> Waits | Hangs \<Rightarrow> Hangs | Aborts \<Rightarrow> Aborts))
      | Some DIR_2_APP_BITMAP_CHECK_FAIL \<Rightarrow>
          if at_flag (li_status l) then Returned (True, give_back r c a, a) else Waits
      | _ \<Rightarrow> Aborts)"

fun evict_loop :: "RawMessage \<Rightarrow> RawMessage list \<Rightarrow> nat \<times> nat \<Rightarrow> cache \<Rightarrow> appt \<Rightarrow>
    (RawMessage list \<times> cache \<times> appt) outcome" where
  "evict_loop m0 [] r c a = Waits"
| "evict_loop m0 (m # ms) r c a =
     (case evict_reply m0 m r c a of
        Returned (True, c, a) \<Rightarrow> Returned (ms, c, a)
      | Returned (False, c, a) \<Rightarrow> evict_loop m0 ms r c a
      | Waits \<Rightarrow> Waits | Hangs \<Rightarrow> Hangs | Aborts \<Rightarrow> Aborts)"

text \<open>The messages that arrive on the thread's channel are an argument, and those left over a result; a
  message that \<open>readMiss\<close> and the others have put aside comes first.\<close>

definition wait_evict :: "RawMessage \<Rightarrow> RawMessage list \<Rightarrow> cache \<Rightarrow> appt \<Rightarrow>
    (RawMessage list \<times> cache \<times> appt) outcome" where
  "wait_evict m0 ms c a =
     (if \<not> ap_wait_cur a then Returned (ms, c, a)
      else case ap_cur_evict a of
        None \<Rightarrow> Aborts
      | Some r \<Rightarrow>
          (let ms = (if ap_recv_cur a then ap_cur_msg a # ms else ms) in
           case evict_loop m0 ms r c (a\<lparr>ap_recv_cur := False\<rparr>) of
             Returned (ms, c, a) \<Rightarrow>
               Returned (ms, upd_shadow (fst r) (snd r) (\<lambda>l. l\<lparr>li_lock := 0\<rparr>) c, a\<lparr>ap_wait_cur := False\<rparr>)
           | Waits \<Rightarrow> Waits | Hangs \<Rightarrow> Hangs | Aborts \<Rightarrow> Aborts))"

end
