(* ===== verification/Cache_Effects.thy ===== *)
theory Cache_Effects
  imports Cache_Set "HOL-Library.Multiset"
begin

text \<open>
  What the operations of \<open>Cache_Set\<close> do to the cache, seen as a map from places to lines: a place is a
  set, whether it is in the shadow sets, and a slot. A set is well formed when every line knows its
  place, a line that is in use has a buffer and the tag of its address, and no two lines in use have the
  same tag; the operations keep this and move buffers without losing or copying one.
\<close>

section \<open>Places\<close>

type_synonym place = "nat \<times> bool \<times> nat"

definition slot_line :: "cache \<Rightarrow> place \<Rightarrow> LineInfo" where
  "slot_line c p = (case p of (s, sh, i) \<Rightarrow> (if sh then ca_shadow c s else ca_lines c s) ! i)"

abbreviation place_ok :: "place \<Rightarrow> bool" where "place_ok p \<equiv> snd (snd p) < CACHE_WAYS"

definition set_of_tag :: "u64 \<Rightarrow> nat" where "set_of_tag tag = unat (calLineSet tag)"

definition live :: "LineInfo \<Rightarrow> bool" where "live l \<longleftrightarrow> status l \<noteq> C_PRESERVED"

definition line_ok :: "place \<Rightarrow> LineInfo \<Rightarrow> bool" where
  "line_ok p l \<longleftrightarrow> li_set_index l = fst p \<and> li_slot_index l = snd (snd p) \<and> (live l \<longleftrightarrow> li_data l \<noteq> None)
     \<and> (live l \<longrightarrow> li_tag l = getTag (li_addr l) \<and> set_of_tag (li_tag l) = fst p)"

definition lines_ok :: "(place \<Rightarrow> LineInfo) \<Rightarrow> bool" where
  "lines_ok F \<longleftrightarrow> (\<forall>p. place_ok p \<longrightarrow> line_ok p (F p))
     \<and> (\<forall>p q. place_ok p \<and> place_ok q \<and> live (F p) \<and> live (F q) \<and> li_tag (F p) = li_tag (F q) \<longrightarrow> p = q)"

definition shape :: "cache \<Rightarrow> bool" where
  "shape c \<longleftrightarrow> (\<forall>s. length (ca_lines c s) = CACHE_WAYS \<and> length (ca_shadow c s) = CACHE_WAYS)"

lemma slot_line_upd [simp]:
  "i < length (ca_lines c s) \<Longrightarrow> slot_line (upd_line s i f c) = (slot_line c)((s, False, i) := f (slot_line c (s, False, i)))"
  "i < length (ca_shadow c s) \<Longrightarrow> slot_line (upd_shadow s i f c) = (slot_line c)((s, True, i) := f (slot_line c (s, True, i)))"
  by (auto simp: fun_eq_iff slot_line_def upd_line_def upd_shadow_def)

lemma stack_upd [simp]:
  "ca_stack (upd_line s i f c) = ca_stack c" "ca_stack (upd_shadow s i f c) = ca_stack c"
  "slot_line (c\<lparr>ca_stack := st\<rparr>) = slot_line c" "slot_line (push a p c) = slot_line c"
  "ca_stack (push a p c) = (case p of None \<Rightarrow> ca_stack c | Some b \<Rightarrow> (ca_stack c)(a := ca_stack c a @ [b]))"
  by (auto simp: fun_eq_iff slot_line_def upd_line_def upd_shadow_def push_def split: option.split)

lemma shape_upd [simp]:
  "shape (upd_line s i f c) = shape c" "shape (upd_shadow s i f c) = shape c" "shape (c\<lparr>ca_stack := st\<rparr>) = shape c"
  "shape (push a p c) = shape c"
  by (auto simp: shape_def upd_line_def upd_shadow_def push_def split: option.split)

lemma shape_length: "shape c \<Longrightarrow> length (ca_lines c s) = CACHE_WAYS" "shape c \<Longrightarrow> length (ca_shadow c s) = CACHE_WAYS"
  by (simp_all add: shape_def)

lemma slot_line_simps:
  "ca_lines c s ! i = slot_line c (s, False, i)" "ca_shadow c s ! i = slot_line c (s, True, i)"
  "shadow_at c r = slot_line c (fst r, True, snd r)"
  by (simp_all add: slot_line_def shadow_at_def)

lemma status_put [simp]: "status (l\<lparr>li_status := t\<rparr>) = at_status t" by (simp add: status_def)

lemma status_other [simp]:
  "status (l\<lparr>li_data := d\<rparr>) = status l" "status (l\<lparr>li_tag := g\<rparr>) = status l" "status (l\<lparr>li_addr := a\<rparr>) = status l"
  "status (l\<lparr>li_lock := k\<rparr>) = status l"
  by (simp_all add: status_def)

lemma at_status_set [simp]: "at_status (setFlagAndStatus f s t) = s" by (simp add: setFlagAndStatus_def)

lemma lines_okD:
  assumes "lines_ok F" "place_ok p"
  shows "line_ok p (F p)"
    and "place_ok q \<Longrightarrow> live (F p) \<Longrightarrow> live (F q) \<Longrightarrow> li_tag (F p) = li_tag (F q) \<Longrightarrow> p = q"
  using assms unfolding lines_ok_def by blast+

lemma lines_ok_update:
  assumes "lines_ok F" "line_ok p l"
    and fresh: "\<And>q. place_ok q \<Longrightarrow> q \<noteq> p \<Longrightarrow> live l \<Longrightarrow> live (F q) \<Longrightarrow> li_tag (F q) \<noteq> li_tag l"
  shows "lines_ok (F(p := l))"
proof -
  have "place_ok q \<Longrightarrow> line_ok q ((F(p := l)) q)" for q using lines_okD(1) [OF assms(1)] assms(2) by simp
  moreover have "q = r" if "place_ok q" "place_ok r" "live ((F(p := l)) q)" "live ((F(p := l)) r)"
    "li_tag ((F(p := l)) q) = li_tag ((F(p := l)) r)" for q r
    using that fresh [of q] fresh [of r] lines_okD(2) [OF assms(1), of q r] by (auto split: if_splits)
  ultimately show ?thesis unfolding lines_ok_def by blast
qed

text \<open>A change of the status alone, among the statuses of a line in use.\<close>

lemma lines_ok_same:
  assumes "lines_ok F" "place_ok p" "live (F p)" "live l"
    "li_set_index l = li_set_index (F p)" "li_slot_index l = li_slot_index (F p)" "li_data l = li_data (F p)"
    "li_tag l = li_tag (F p)" "li_addr l = li_addr (F p)"
  shows "lines_ok (F(p := l))"
proof (rule lines_ok_update [OF assms(1)])
  have "line_ok p (F p)" by (rule lines_okD(1) [OF assms(1,2)])
  then show "line_ok p l" using assms(3-) by (auto simp: line_ok_def)
  show "li_tag (F q) \<noteq> li_tag l" if "place_ok q" "q \<noteq> p" "live (F q)" for q
    using that assms lines_okD(2) [OF assms(1,2), of q] by auto
qed

section \<open>Buffers\<close>

definition places :: "place set" where "places = {..<DSM_CACHE_INDEX_SIZE} \<times> UNIV \<times> {..<CACHE_WAYS}"

definition buf :: "LineInfo \<Rightarrow> u64 multiset" where
  "buf l = (case li_data l of None \<Rightarrow> {#} | Some b \<Rightarrow> {#b#})"

definition buffers_of :: "(place \<Rightarrow> LineInfo) \<Rightarrow> (nat \<Rightarrow> u64 list) \<Rightarrow> u64 multiset" where
  "buffers_of F st = (\<Sum>a < max_appt_num_per_node. mset (st a)) + (\<Sum>p \<in> places. buf (F p))"

lemma finite_places [simp]: "finite places" by (simp add: places_def)

lemma set_of_tag_less: "set_of_tag tag < DSM_CACHE_INDEX_SIZE" by (simp add: set_of_tag_def calLineSet_less)

lemma buffers_of_stack:
  assumes "a < max_appt_num_per_node"
  shows "buffers_of F (st(a := xs)) + mset (st a) = buffers_of F st + mset xs"
proof -
  have "(\<Sum>k < max_appt_num_per_node. mset ((st(a := xs)) k)) = mset xs + (\<Sum>k \<in> {..<max_appt_num_per_node} - {a}. mset (st k))"
    using assms by (subst sum.remove [of _ a]) (auto intro: sum.cong)
  moreover have "(\<Sum>k < max_appt_num_per_node. mset (st k)) = mset (st a) + (\<Sum>k \<in> {..<max_appt_num_per_node} - {a}. mset (st k))"
    using assms by (subst sum.remove [of _ a]) auto
  ultimately show ?thesis by (simp add: buffers_of_def)
qed

lemma buffers_of_line:
  assumes "p \<in> places"
  shows "buffers_of (F(p := l)) st + buf (F p) = buffers_of F st + buf l"
proof -
  have "(\<Sum>q \<in> places. buf ((F(p := l)) q)) = buf l + (\<Sum>q \<in> places - {p}. buf (F q))"
    using assms by (subst sum.remove [of _ p]) (auto intro: sum.cong)
  moreover have "(\<Sum>q \<in> places. buf (F q)) = buf (F p) + (\<Sum>q \<in> places - {p}. buf (F q))"
    using assms by (subst sum.remove [of _ p]) auto
  ultimately show ?thesis by (simp add: buffers_of_def)
qed

lemma buffers_of_same: "p \<in> places \<Longrightarrow> li_data l = li_data (F p) \<Longrightarrow> buffers_of (F(p := l)) st = buffers_of F st"
  using buffers_of_line [of p F l st] by (simp add: buf_def)

text \<open>When no buffer occurs twice, two places never use the same one, nor does a place use one that a
  thread has in reserve.\<close>

lemma buffers_apart:
  assumes "\<And>b. count (buffers_of F st) b \<le> 1" "p \<in> places" "li_data (F p) = Some b"
  shows "q \<in> places \<Longrightarrow> q \<noteq> p \<Longrightarrow> li_data (F q) \<noteq> Some b"
    and "a < max_appt_num_per_node \<Longrightarrow> b \<notin> set (st a)"
proof -
  have le: "(\<Sum>a < max_appt_num_per_node. count (mset (st a)) b) + (\<Sum>p \<in> places. count (buf (F p)) b) \<le> 1"
    using assms(1) [of b] by (simp add: buffers_of_def count_sum)
  have p1: "count (buf (F p)) b = 1" using assms(3) by (simp add: buf_def)
  show "li_data (F q) \<noteq> Some b" if "q \<in> places" "q \<noteq> p"
  proof
    assume "li_data (F q) = Some b"
    then have "count (buf (F q)) b = 1" by (simp add: buf_def)
    moreover have "(\<Sum>r \<in> {p, q}. count (buf (F r)) b) \<le> (\<Sum>p \<in> places. count (buf (F p)) b)"
      using that assms(2) by (intro sum_mono2) auto
    ultimately show False using le p1 that by simp
  qed
  show "b \<notin> set (st a)" if "a < max_appt_num_per_node"
  proof
    assume "b \<in> set (st a)"
    then have "0 < count (mset (st a)) b" by simp
    moreover have "count (mset (st a)) b \<le> (\<Sum>a < max_appt_num_per_node. count (mset (st a)) b)"
      using that by (intro member_le_sum) auto
    moreover have "count (buf (F p)) b \<le> (\<Sum>p \<in> places. count (buf (F p)) b)"
      using assms(2) by (intro member_le_sum) auto
    ultimately show False using le p1 by linarith
  qed
qed

section \<open>Taking a slot\<close>

lemma scan_found:
  assumes "scan_set tag ls sh = (exist, avail, evict)"
  shows "exist = None \<Longrightarrow> i < CACHE_WAYS \<Longrightarrow> \<not> holds tag (ls ! i) \<and> \<not> holds tag (sh ! i)"
    and "avail = Some i \<Longrightarrow> i < CACHE_WAYS \<and> status (ls ! i) = C_PRESERVED"
    and "evict = Some i \<Longrightarrow> i < CACHE_WAYS \<and> status (ls ! i) \<in> {C_INVALID, C_SHARED, C_MODIFIED} \<and> status (sh ! i) = C_PRESERVED"
proof -
  have "case fold (scan_way tag ls sh) [0..<n] (None, None, None) of (e, a, v) \<Rightarrow>
      (e = None \<longrightarrow> (\<forall>i < n. \<not> holds tag (ls ! i) \<and> \<not> holds tag (sh ! i)))
    \<and> (\<forall>i. a = Some i \<longrightarrow> i < n \<and> status (ls ! i) = C_PRESERVED)
    \<and> (\<forall>i. v = Some i \<longrightarrow> i < n \<and> status (ls ! i) \<in> {C_INVALID, C_SHARED, C_MODIFIED} \<and> status (sh ! i) = C_PRESERVED)" for n
  proof (induction n)
    case (Suc n)
    obtain e a v where r: "fold (scan_way tag ls sh) [0..<n] (None, None, None) = (e, a, v)" by (metis prod_cases3)
    have step: "fold (scan_way tag ls sh) [0..<Suc n] (None, None, None) = scan_way tag ls sh n (e, a, v)" by (simp add: r)
    show ?case using Suc unfolding step unfolding r
      by (auto simp: scan_way_def less_Suc_eq)
  qed simp
  from this [of CACHE_WAYS] assms show
    "exist = None \<Longrightarrow> i < CACHE_WAYS \<Longrightarrow> \<not> holds tag (ls ! i) \<and> \<not> holds tag (sh ! i)"
    "avail = Some i \<Longrightarrow> i < CACHE_WAYS \<and> status (ls ! i) = C_PRESERVED"
    "evict = Some i \<Longrightarrow> i < CACHE_WAYS \<and> status (ls ! i) \<in> {C_INVALID, C_SHARED, C_MODIFIED} \<and> status (sh ! i) = C_PRESERVED"
    by (auto simp: scan_set_def)
qed

text \<open>A line as \<open>take_slot\<close> fills it in, and one whose slot is given back.\<close>

definition filled :: "GlobalAddress \<Rightarrow> u64 \<Rightarrow> LineInfo \<Rightarrow> LineInfo" where
  "filled addr b l = put_status False C_INVALID (l\<lparr>li_tag := getTag addr, li_addr := addr, li_data := Some b\<rparr>)"

definition moved :: "LineInfo \<Rightarrow> LineInfo \<Rightarrow> LineInfo" where
  "moved v l = put_status False (status v) (l\<lparr>li_tag := li_tag v, li_addr := li_addr v, li_data := li_data v\<rparr>)"

definition freed :: "LineInfo \<Rightarrow> LineInfo" where
  "freed l = put_status False C_PRESERVED (l\<lparr>li_data := None\<rparr>)"

definition unused :: "(place \<Rightarrow> LineInfo) \<Rightarrow> nat \<Rightarrow> u64 \<Rightarrow> bool" where
  "unused F s tag \<longleftrightarrow> (\<forall>sh. \<forall>i < CACHE_WAYS. \<not> holds tag (F (s, sh, i)))"

lemma take_slot_effect:
  assumes "take_slot s i addr a c = Some c'" "shape c" "i < CACHE_WAYS"
  obtains st b where "ca_stack c a = st @ [b]" "ca_stack c' = (ca_stack c)(a := st)" "shape c'"
    "slot_line c' = (slot_line c)((s, False, i) := filled addr b (slot_line c (s, False, i)))"
proof -
  have "ca_stack c a \<noteq> []" using assms(1) by (auto simp: take_slot_def split: if_splits)
  then obtain st b where "ca_stack c a = st @ [b]" by (cases "ca_stack c a" rule: rev_cases) auto
  with assms that show ?thesis by (auto simp: take_slot_def shape_length filled_def)
qed

lemma newLine_cases:
  assumes "newLine s addr c a = Some (r, c', a')" "shape c"
  obtains (no) "r = None" "c' = c" "a' = a"
  | (free) i st b where "r = Some i" "i < CACHE_WAYS" "unused (slot_line c) s (getTag addr)" "\<not> live (slot_line c (s, False, i))"
      "ca_stack c (ap_req_appt_id a) = st @ [b]" "ca_stack c' = (ca_stack c)(ap_req_appt_id a := st)" "shape c'" "a' = a"
      "slot_line c' = (slot_line c)((s, False, i) := filled addr b (slot_line c (s, False, i)))"
  | (reuse) i where "r = Some i" "i < CACHE_WAYS" "unused (slot_line c) s (getTag addr)"
      "status (slot_line c (s, False, i)) = C_INVALID" "ca_stack c' = ca_stack c" "shape c'" "a' = a"
      "slot_line c' = (slot_line c)((s, False, i) := (slot_line c (s, False, i))\<lparr>li_tag := getTag addr, li_addr := addr\<rparr>)"
  | (evict) i st b where "r = Some i" "i < CACHE_WAYS" "unused (slot_line c) s (getTag addr)"
      "status (slot_line c (s, False, i)) \<in> {C_SHARED, C_MODIFIED}" "\<not> live (slot_line c (s, True, i))"
      "ca_stack c (ap_req_appt_id a) = st @ [b]" "ca_stack c' = (ca_stack c)(ap_req_appt_id a := st)" "shape c'"
      "a' = a\<lparr>ap_start_next := True, ap_next_evict := Some (s, i)\<rparr>"
      "slot_line c' = (slot_line c)((s, True, i) := moved (slot_line c (s, False, i)) (slot_line c (s, True, i)),
         (s, False, i) := filled addr b (slot_line c (s, False, i)))"
proof -
  obtain e v ev where sc: "scan_set (getTag addr) (ca_lines c s) (ca_shadow c s) = (e, v, ev)" by (metis prod_cases3)
  note sf = scan_found [OF sc, unfolded slot_line_simps]
  show ?thesis
  proof (cases "e = None \<and> \<not> (v = None \<and> ev = None)")
    case False
    then have "r = None \<and> c' = c \<and> a' = a" using assms(1) by (auto simp: newLine_def sc Let_def split: option.splits)
    then show ?thesis using no by blast
  next
    case True
    then have e: "e = None" and some: "\<not> (v = None \<and> ev = None)" by simp_all
    have new: "unused (slot_line c) s (getTag addr)"
      using sf(1) [OF e] unfolding unused_def by (metis (full_types))
    have eq: "newLine s addr c a = (if v \<noteq> None \<and> ca_stack c (ap_req_appt_id a) \<noteq> [] then
            map_option (\<lambda>c. (v, c, a)) (take_slot s (the v) addr (ap_req_appt_id a) c)
          else (case ev of
              None \<Rightarrow> Some (None, c, a)
            | Some i \<Rightarrow>
                if status (ca_lines c s ! i) = C_INVALID then
                  Some (Some i, upd_line s i (\<lambda>l. l\<lparr>li_tag := getTag addr, li_addr := addr\<rparr>) c, a)
                else
                  map_option (\<lambda>c. (Some i, c, a\<lparr>ap_start_next := True, ap_next_evict := Some (s, i)\<rparr>))
                    (take_slot s i addr (ap_req_appt_id a) (to_shadow s i c))))"
      using e some by (cases v; cases ev) (simp_all add: newLine_def sc Let_def)
    show ?thesis
    proof (cases "v \<noteq> None \<and> ca_stack c (ap_req_appt_id a) \<noteq> []")
      case True
      then obtain i where i: "v = Some i" by blast
      with True assms(1) eq have t: "take_slot s i addr (ap_req_appt_id a) c = Some c'" "r = Some i" "a' = a" by auto
      obtain st b where "ca_stack c (ap_req_appt_id a) = st @ [b]" "ca_stack c' = (ca_stack c)(ap_req_appt_id a := st)" "shape c'"
        "slot_line c' = (slot_line c)((s, False, i) := filled addr b (slot_line c (s, False, i)))"
        by (rule take_slot_effect [OF t(1) assms(2)]) (use sf(2) [OF i] in auto)
      with free t sf(2) [OF i] new show ?thesis by (auto simp: live_def)
    next
      case no_stack: False
      show ?thesis
      proof (cases ev)
        case None
        then have "newLine s addr c a = Some (None, c, a)" using eq no_stack by auto
        then show ?thesis using no assms(1) by simp
      next
        case (Some i)
        note ev = sf(3) [OF Some]
        show ?thesis
        proof (cases "status (slot_line c (s, False, i)) = C_INVALID")
          case True
          then have "r = Some i" "a' = a" "c' = upd_line s i (\<lambda>l. l\<lparr>li_tag := getTag addr, li_addr := addr\<rparr>) c"
            using assms(1) eq no_stack Some by (auto simp: slot_line_simps)
          then show ?thesis using reuse new ev True assms(2) by (simp add: shape_length)
        next
          case False
          then have t: "take_slot s i addr (ap_req_appt_id a) (to_shadow s i c) = Some c'" "r = Some i"
            "a' = a\<lparr>ap_start_next := True, ap_next_evict := Some (s, i)\<rparr>"
            using assms(1) eq no_stack Some by (auto simp: slot_line_simps)
          have i: "i < CACHE_WAYS" using ev by simp
          have sh: "shape (to_shadow s i c)" "ca_stack (to_shadow s i c) = ca_stack c"
            "slot_line (to_shadow s i c) = (slot_line c)((s, True, i) := moved (slot_line c (s, False, i)) (slot_line c (s, True, i)))"
            using assms(2) i by (simp_all add: to_shadow_def shape_length moved_def slot_line_simps Let_def)
          obtain st b where "ca_stack c (ap_req_appt_id a) = st @ [b]" "ca_stack c' = (ca_stack c)(ap_req_appt_id a := st)" "shape c'"
            "slot_line c' = (slot_line (to_shadow s i c))((s, False, i) := filled addr b (slot_line c (s, False, i)))"
            using take_slot_effect [OF t(1) sh(1) i] sh(2,3) by auto
          with evict t(2,3) i new ev False sh show ?thesis by (auto simp: live_def)
        qed
      qed
    qed
  qed
qed

section \<open>Giving a slot back\<close>

abbreviation evict_place :: "nat \<times> nat \<Rightarrow> place" where "evict_place r \<equiv> (fst r, True, snd r)"

text \<open>The slots of the shadow sets whose eviction a thread has to start or to wait for.\<close>

definition pending :: "appt \<Rightarrow> (nat \<times> nat) set" where
  "pending a = {r. ap_start_next a \<and> ap_next_evict a = Some r \<or> ap_wait_cur a \<and> ap_cur_evict a = Some r}"

lemma give_back_effect:
  assumes "shape c" "lines_ok (slot_line c)" "snd r < CACHE_WAYS" "live (slot_line c (evict_place r))"
  obtains b where "li_data (slot_line c (evict_place r)) = Some b" "shape (give_back r c a)"
    "ca_stack (give_back r c a) = (ca_stack c)(ap_req_appt_id a := ca_stack c (ap_req_appt_id a) @ [b])"
    "slot_line (give_back r c a) = (slot_line c)(evict_place r := freed (slot_line c (evict_place r)))"
proof -
  let ?l = "slot_line c (evict_place r)"
  have "line_ok (evict_place r) ?l" by (rule lines_okD(1) [OF assms(2)]) (simp add: assms(3))
  then have l: "li_set_index ?l = fst r" "li_slot_index ?l = snd r" "li_data ?l \<noteq> None"
    using assms(4) by (simp_all add: line_ok_def)
  then obtain b where "li_data ?l = Some b" by blast
  with l assms(1,3) that [of b] show ?thesis
    by (simp add: give_back_def Let_def slot_line_simps push_def shape_length freed_def)
qed

lemma start_evict_cases:
  assumes "start_evict m0 c a = Returned (c', a')" "shape c" "lines_ok (slot_line c)"
    "\<forall>r \<in> pending a. snd r < CACHE_WAYS \<and> live (slot_line c (evict_place r))"
  obtains (none) "\<not> ap_start_next a" "c' = c" "a' = a"
  | (released) r b where "ap_start_next a" "ap_next_evict a = Some r" "shape c'"
      "li_data (slot_line c (evict_place r)) = Some b"
      "ca_stack c' = (ca_stack c)(ap_req_appt_id a := ca_stack c (ap_req_appt_id a) @ [b])"
      "slot_line c' = (slot_line c)(evict_place r := freed (slot_line c (evict_place r)))"
      "a' = a\<lparr>ap_start_next := False, ap_wait_cur := False, ap_cur_evict := Some r, ap_next_evict := None\<rparr>"
  | (sent) r e m where "ap_start_next a" "ap_next_evict a = Some r" "shape c'" "ca_stack c' = ca_stack c"
      "li_lock (slot_line c (evict_place r)) = 0"
      "slot_line c' = (slot_line c)(evict_place r := (slot_line c (evict_place r))
         \<lparr>li_status := \<lparr>at_flag = at_flag (li_status (slot_line c (evict_place r))), at_status = C_TO_PRESERVED\<rparr>, li_lock := 1\<rparr>)"
      "a' = a\<lparr>ap_start_next := False, ap_wait_cur := True, ap_cur_evict := Some r, ap_next_evict := None,
         ap_evict_type := e, ap_sent := ap_sent a @ [m]\<rparr>"
proof (cases "ap_start_next a")
  case False
  then show ?thesis using none assms(1) by (simp add: start_evict_def)
next
  case True
  then obtain r where r: "ap_next_evict a = Some r" using assms(1) by (auto simp: start_evict_def split: option.splits)
  let ?l = "slot_line c (evict_place r)"
  have "r \<in> pending a" using True r by (simp add: pending_def)
  then have p: "snd r < CACHE_WAYS" "live ?l" using assms(4) by blast+
  show ?thesis
  proof (cases "status ?l = C_INVALID")
    case inv: True
    let ?a = "a\<lparr>ap_start_next := False, ap_wait_cur := True, ap_cur_evict := Some r, ap_next_evict := None\<rparr>"
    obtain b where b: "li_data ?l = Some b" "shape (give_back r c ?a)"
      "ca_stack (give_back r c ?a) = (ca_stack c)(ap_req_appt_id ?a := ca_stack c (ap_req_appt_id ?a) @ [b])"
      "slot_line (give_back r c ?a) = (slot_line c)(evict_place r := freed ?l)"
      by (rule give_back_effect [OF assms(2,3) p])
    have "c' = give_back r c ?a" "a' = ?a\<lparr>ap_wait_cur := False\<rparr>"
      using assms(1) True r inv by (simp_all add: start_evict_def Let_def slot_line_simps)
    then show ?thesis using released True r b by simp
  next
    case False
    then have "li_lock ?l = 0" using assms(1) True r by (auto simp: start_evict_def Let_def slot_line_simps split: if_splits)
    define m where "m = generate_message m0 (if status ?l = C_SHARED then R_EVICT_SHARED else R_EVICT_DIRTY) (li_addr ?l) ?l
      (a\<lparr>ap_start_next := False, ap_wait_cur := True, ap_cur_evict := Some r, ap_next_evict := None\<rparr>)"
    let ?c = "upd_shadow (fst r) (snd r) (\<lambda>l. l\<lparr>li_status := snd (casStatus (at_flag (li_status l)) (status ?l) C_TO_PRESERVED (li_status l)),
      li_lock := 1\<rparr>) c"
    have eff: "c' = ?c" "a' = a\<lparr>ap_start_next := False, ap_wait_cur := True, ap_cur_evict := Some r, ap_next_evict := None,
        ap_evict_type := evict_type_of (status ?l), ap_sent := ap_sent a @ [m]\<rparr>"
      using False assms(1) True r \<open>li_lock ?l = 0\<close>
      by (simp_all add: start_evict_def Let_def slot_line_simps m_def)
    have "snd (casStatus (at_flag (li_status ?l)) (status ?l) C_TO_PRESERVED (li_status ?l))
        = \<lparr>at_flag = at_flag (li_status ?l), at_status = C_TO_PRESERVED\<rparr>"
      by (simp add: casStatus_def casFlagAndStatus_def status_def)
    then show ?thesis
      by (intro sent [OF True r, of m "evict_type_of (status ?l)"])
        (simp_all add: eff p \<open>li_lock ?l = 0\<close> assms(2) shape_length)
  qed
qed

text \<open>A refused eviction that has not been invalidated starts again with the lock the thread holds.\<close>

lemma refused_waits:
  assumes "li_lock (slot_line c (evict_place r)) \<noteq> 0" "rm_cline_tag m = li_tag (slot_line c (evict_place r))"
    "mtype_of (rm_mtype m) = Some DIR_2_APP_M_CHECK_FAIL" "snd r < length (ca_shadow c (fst r))"
    "evict_refused (ap_evict_type a) (li_status (slot_line c (evict_place r))) = Some (b, t)" "at_status t \<noteq> C_INVALID"
  shows "evict_reply m0 m r c a = Waits"
  using assms by (simp add: evict_reply_def slot_line_simps start_evict_def Let_def)

lemma evict_reply_effect:
  assumes "evict_reply m0 m r c a = Returned (e, c', a')" "shape c" "lines_ok (slot_line c)" "snd r < CACHE_WAYS"
    "live (slot_line c (evict_place r))" "li_lock (slot_line c (evict_place r)) \<noteq> 0"
  obtains b where "e" "shape c'" "li_data (slot_line c (evict_place r)) = Some b"
    "ca_stack c' = (ca_stack c)(ap_req_appt_id a := ca_stack c (ap_req_appt_id a) @ [b])"
    "slot_line c' = (slot_line c)(evict_place r := freed (slot_line c (evict_place r)))"
    "a' = a \<or> a' = a\<lparr>ap_start_next := False, ap_wait_cur := False, ap_cur_evict := Some r, ap_next_evict := None\<rparr>"
proof -
  let ?l = "slot_line c (evict_place r)"
  have "(e \<and> c' = give_back r c a \<and> a' = a) \<or>
      (\<exists>b t. evict_refused (ap_evict_type a) (li_status ?l) = Some (b, t) \<and>
        start_evict m0 (upd_shadow (fst r) (snd r) (\<lambda>l. l\<lparr>li_status := t\<rparr>) c)
           (a\<lparr>ap_start_next := True, ap_next_evict := Some r\<rparr>) = Returned (c', a') \<and> (e \<longleftrightarrow> \<not> ap_wait_cur a'))"
  proof (cases "mtype_of (rm_mtype m)")
    case None
    then show ?thesis using assms(1) by (auto simp: evict_reply_def Let_def split: if_splits)
  next
    case (Some mt)
    then show ?thesis using assms(1)
      by (cases mt) (auto simp: evict_reply_def Let_def slot_line_simps split: if_splits option.splits outcome.splits)
  qed
  then consider (given) "e" "c' = give_back r c a" "a' = a"
    | (refused) b t where "evict_refused (ap_evict_type a) (li_status ?l) = Some (b, t)"
        "start_evict m0 (upd_shadow (fst r) (snd r) (\<lambda>l. l\<lparr>li_status := t\<rparr>) c)
           (a\<lparr>ap_start_next := True, ap_next_evict := Some r\<rparr>) = Returned (c', a')" "e \<longleftrightarrow> \<not> ap_wait_cur a'"
    by blast
  then show ?thesis
  proof cases
    case given
    then show ?thesis using give_back_effect [OF assms(2-5), of a] that by metis
  next
    case refused
    let ?c = "upd_shadow (fst r) (snd r) (\<lambda>l. l\<lparr>li_status := t\<rparr>) c"
    let ?a = "a\<lparr>ap_start_next := False, ap_wait_cur := True, ap_cur_evict := Some r, ap_next_evict := None\<rparr>"
    have F: "slot_line ?c = (slot_line c)(evict_place r := ?l\<lparr>li_status := t\<rparr>)" using assms(2,4) by (simp add: shape_length)
    have "at_status t = C_INVALID" using refused(2) assms(2,4,6)
      by (auto simp: start_evict_def Let_def slot_line_simps F split: if_splits)
    then have live: "live (slot_line ?c (evict_place r))" by (simp add: F live_def)
    have ok: "lines_ok (slot_line ?c)" unfolding F
      by (rule lines_ok_same) (use assms \<open>at_status t = C_INVALID\<close> in \<open>simp_all add: live_def\<close>)
    have c': "c' = give_back r ?c ?a" "a' = ?a\<lparr>ap_wait_cur := False\<rparr>"
      using refused(2) \<open>at_status t = C_INVALID\<close> by (simp_all add: start_evict_def Let_def slot_line_simps F)
    obtain b where "li_data (slot_line ?c (evict_place r)) = Some b" "shape c'"
      "ca_stack c' = (ca_stack ?c)(ap_req_appt_id ?a := ca_stack ?c (ap_req_appt_id ?a) @ [b])"
      "slot_line c' = (slot_line ?c)(evict_place r := freed (slot_line ?c (evict_place r)))"
      using give_back_effect [OF _ ok assms(4) live, of ?a] assms(2) unfolding c'(1) by auto
    then show ?thesis using that [of b] refused(3) c'(2) by (simp add: F freed_def setFlagAndStatus_def)
  qed
qed

lemma wait_evict_effect:
  assumes "wait_evict m0 ms c a = Returned (ms', c', a')" "shape c" "lines_ok (slot_line c)" "ap_wait_cur a"
    "ap_cur_evict a = Some r" "snd r < CACHE_WAYS"
    "live (slot_line c (evict_place r))" "li_lock (slot_line c (evict_place r)) \<noteq> 0"
  obtains b where "shape c'" "li_data (slot_line c (evict_place r)) = Some b" "\<not> ap_wait_cur a'"
    "ap_req_appt_id a' = ap_req_appt_id a" "ap_start_next a' \<longrightarrow> ap_start_next a \<and> ap_next_evict a' = ap_next_evict a"
    "ca_stack c' = (ca_stack c)(ap_req_appt_id a := ca_stack c (ap_req_appt_id a) @ [b])"
    "slot_line c' = (slot_line c)(evict_place r := (freed (slot_line c (evict_place r)))\<lparr>li_lock := 0\<rparr>)"
proof -
  let ?ms = "if ap_recv_cur a then ap_cur_msg a # ms else ms" and ?a = "a\<lparr>ap_recv_cur := False\<rparr>"
  obtain m ns where ms: "?ms = m # ns" using assms(1,4,5) by (cases ?ms) (auto simp: wait_evict_def Let_def)
  obtain e c1 a1 where r1: "evict_reply m0 m r c ?a = Returned (e, c1, a1)"
    using assms(1,4,5) by (auto simp: wait_evict_def Let_def ms split: outcome.splits prod.splits)
  obtain b where eff: "e" "shape c1" "li_data (slot_line c (evict_place r)) = Some b"
    "ca_stack c1 = (ca_stack c)(ap_req_appt_id ?a := ca_stack c (ap_req_appt_id ?a) @ [b])"
    "slot_line c1 = (slot_line c)(evict_place r := freed (slot_line c (evict_place r)))"
    "a1 = ?a \<or> a1 = ?a\<lparr>ap_start_next := False, ap_wait_cur := False, ap_cur_evict := Some r, ap_next_evict := None\<rparr>"
    by (rule evict_reply_effect [OF r1 assms(2,3,6-8)])
  have "c' = upd_shadow (fst r) (snd r) (\<lambda>l. l\<lparr>li_lock := 0\<rparr>) c1" "a' = a1\<lparr>ap_wait_cur := False\<rparr>"
    using assms(1,4,5) r1 eff(1) by (simp_all add: wait_evict_def Let_def ms)
  then show ?thesis using that [of b] eff assms(6) by (auto simp: shape_length)
qed

end
