(* ===== verification/Cache_Threads.thy ===== *)
theory Cache_Threads
  imports Cache_Effects
begin

text \<open>
  The application threads and the agents of one node at work on the software cache together
  (\<open>readLine\<close> and \<open>writeLine\<close> of \<open>Cache.cpp\<close>, the search of \<open>CacheAgent.cpp\<close>). A step of a thread is what it does
  under one lock of the set or of the line, or between two of them; an agent's step is one swap on a
  line it found. Which messages a thread receives is left open.
\<close>

section \<open>Threads\<close>

text \<open>Where a thread is in the loop of \<open>readLine\<close> or \<open>writeLine\<close>: at its head, about to look the line up,
  about to take a slot, on its way to a line it found, waiting for the reply to a request, about to copy
  after one, and about to wait for an eviction (with the loop's \<open>succ\<close>).\<close>

datatype request = Q_Read | Q_Upgrade | Q_Write

datatype th_pc = T_Idle | T_Top | T_Lookup | T_Insert | T_Hit bool nat | T_Request request nat | T_Copy nat | T_Wait bool

record thread =
  th_write :: bool
  th_addr :: GlobalAddress
  th_pc :: th_pc
  th_appt :: appt

abbreviation set_of :: "GlobalAddress \<Rightarrow> nat" where "set_of addr \<equiv> set_of_tag (getTag addr)"

text \<open>The lookup under the read lock of the set, up to its release: the three swaps that begin a
  request, the wait for an eviction of the line by the thread itself, or a line to go to.\<close>

definition evicting :: "u64 \<Rightarrow> cache \<Rightarrow> appt \<Rightarrow> bool" where
  "evicting tag c a \<longleftrightarrow> ap_wait_cur a
     \<and> (case ap_cur_evict a of Some r \<Rightarrow> li_tag (shadow_at c r) = tag | None \<Rightarrow> False)"

definition set_tag :: "nat \<Rightarrow> nat \<Rightarrow> AtomicTag \<Rightarrow> cache \<Rightarrow> cache" where
  "set_tag s i t = upd_line s i (\<lambda>l. l\<lparr>li_status := t\<rparr>)"

definition lookup_line :: "bool \<Rightarrow> GlobalAddress \<Rightarrow> cache \<Rightarrow> appt \<Rightarrow> (th_pc \<times> cache) outcome" where
  "lookup_line wr addr c a =
     (let s = set_of addr in
      case (findLine s addr c, findShadowLine s addr c) of
        (None, None) \<Rightarrow> Returned (T_Insert, c)
      | (None, Some j) \<Rightarrow> Returned (if evicting (getTag addr) c a then T_Wait False else T_Hit True j, c)
      | (Some i, Some j) \<Rightarrow> Aborts
      | (Some i, None) \<Rightarrow>
          (let t = li_status (ca_lines c s ! i) in
           if \<not> wr then
             (case begin_read t of (True, t) \<Rightarrow> Returned (T_Request Q_Read i, set_tag s i t c)
              | (False, _) \<Rightarrow> Returned (T_Hit False i, c))
           else
             (case begin_upgrade t of (True, t) \<Rightarrow> Returned (T_Request Q_Upgrade i, set_tag s i t c)
              | (False, _) \<Rightarrow>
                 (case begin_write t of (True, t) \<Rightarrow> Returned (T_Request Q_Write i, set_tag s i t c)
                  | (False, _) \<Rightarrow> Returned (T_Hit False i, c)))))"

definition end_request :: "request \<Rightarrow> bool \<Rightarrow> AtomicTag \<Rightarrow> (bool \<times> AtomicTag) option" where
  "end_request q = (case q of Q_Read \<Rightarrow> end_read | Q_Upgrade \<Rightarrow> end_upgrade | Q_Write \<Rightarrow> end_write)"

text \<open>Whether the data of a line may be copied, under the lock of the line.\<close>

definition may_copy :: "bool \<Rightarrow> LineInfo \<Rightarrow> bool" where
  "may_copy wr l \<longleftrightarrow> (if wr then status l = C_MODIFIED else status l = C_SHARED \<or> status l = C_MODIFIED)"

section \<open>Steps\<close>

text \<open>Next to the state of the code, a record of every copy: the tag that was asked for and the line that
  was copied from or to.\<close>

record cache_sys =
  cs_cache :: cache
  cs_thread :: "nat \<Rightarrow> thread"
  cs_copies :: "(u64 \<times> LineInfo) list"

abbreviation at :: "nat \<Rightarrow> th_pc \<Rightarrow> cache_sys \<Rightarrow> bool" where
  "at t pc y \<equiv> t < max_appt_num_per_node \<and> th_pc (cs_thread y t) = pc"

definition goto :: "nat \<Rightarrow> th_pc \<Rightarrow> cache_sys \<Rightarrow> cache_sys" where
  "goto t pc y = y\<lparr>cs_thread := (cs_thread y)(t := (cs_thread y t)\<lparr>th_pc := pc\<rparr>)\<rparr>"

definition put :: "nat \<Rightarrow> cache \<Rightarrow> appt \<Rightarrow> cache_sys \<Rightarrow> cache_sys" where
  "put t c a y = y\<lparr>cs_cache := c, cs_thread := (cs_thread y)(t := (cs_thread y t)\<lparr>th_appt := a\<rparr>)\<rparr>"

definition copied :: "nat \<Rightarrow> LineInfo \<Rightarrow> cache_sys \<Rightarrow> cache_sys" where
  "copied t l y = y\<lparr>cs_copies := (getTag (th_addr (cs_thread y t)), l) # cs_copies y\<rparr>"

abbreviation appt_of :: "nat \<Rightarrow> cache_sys \<Rightarrow> appt" where "appt_of t y \<equiv> th_appt (cs_thread y t)"
abbreviation addr_of :: "nat \<Rightarrow> cache_sys \<Rightarrow> GlobalAddress" where "addr_of t y \<equiv> th_addr (cs_thread y t)"
abbreviation line_at :: "cache_sys \<Rightarrow> place \<Rightarrow> LineInfo" where "line_at y \<equiv> slot_line (cs_cache y)"

text \<open>While a thread waits for the reply to a request, a message about its pending eviction is put
  aside.\<close>

definition aside :: "RawMessage option \<Rightarrow> appt \<Rightarrow> appt" where
  "aside m a = (case m of Some m \<Rightarrow> if ap_wait_cur a then a\<lparr>ap_recv_cur := True, ap_cur_msg := m\<rparr> else a | None \<Rightarrow> a)"

inductive cache_step :: "cache_sys \<Rightarrow> cache_sys \<Rightarrow> bool" where
  call: "at t T_Idle y \<Longrightarrow>
    cache_step y (y\<lparr>cs_thread := (cs_thread y)(t := (cs_thread y t)\<lparr>th_write := wr, th_addr := addr, th_pc := T_Top\<rparr>)\<rparr>)"
| start: "at t T_Top y \<Longrightarrow> start_evict m0 (cs_cache y) (appt_of t y) = Returned (c, a) \<Longrightarrow>
    cache_step y (goto t T_Lookup (put t c a y))"
| lookup: "at t T_Lookup y \<Longrightarrow>
    lookup_line (th_write (cs_thread y t)) (addr_of t y) (cs_cache y) (appt_of t y) = Returned (pc, c) \<Longrightarrow>
    cache_step y (goto t pc (put t c (appt_of t y) y))"
| insert: "at t T_Insert y \<Longrightarrow>
    newLine (set_of (addr_of t y)) (addr_of t y) (cs_cache y) (appt_of t y) = Some (r, c, a) \<Longrightarrow>
    cache_step y (goto t (if r = None then T_Wait False else T_Top) (put t c a y))"
| hit: "at t (T_Hit sh i) y \<Longrightarrow> l = line_at y (set_of (addr_of t y), sh, i) \<Longrightarrow> li_lock l = 0 \<Longrightarrow>
    may_copy (th_write (cs_thread y t)) l \<Longrightarrow> cache_step y (goto t T_Idle (copied t l y))"
| miss: "at t (T_Hit sh i) y \<Longrightarrow> l = line_at y (set_of (addr_of t y), sh, i) \<Longrightarrow> li_lock l = 0 \<Longrightarrow>
    \<not> may_copy (th_write (cs_thread y t)) l \<Longrightarrow> cache_step y (goto t (T_Wait False) y)"
| reply: "at t (T_Request q i) y \<Longrightarrow>
    end_request q succ (li_status (line_at y (set_of (addr_of t y), False, i))) = Some (b, g) \<Longrightarrow>
    cache_step y (goto t (if b then T_Copy i else T_Wait False)
      (put t (set_tag (set_of (addr_of t y)) i g (cs_cache y)) (aside m (appt_of t y)) y))"
| copy: "at t (T_Copy i) y \<Longrightarrow> l = line_at y (set_of (addr_of t y), False, i) \<Longrightarrow> li_lock l = 0 \<Longrightarrow>
    may_copy (th_write (cs_thread y t)) l \<Longrightarrow> cache_step y (goto t (T_Wait True) (copied t l y))"
| no_copy: "at t (T_Copy i) y \<Longrightarrow> l = line_at y (set_of (addr_of t y), False, i) \<Longrightarrow> li_lock l = 0 \<Longrightarrow>
    \<not> may_copy (th_write (cs_thread y t)) l \<Longrightarrow> cache_step y (goto t (T_Wait False) y)"
| finish: "at t (T_Wait b) y \<Longrightarrow> wait_evict m0 ms (cs_cache y) (appt_of t y) = Returned (ms', c, a) \<Longrightarrow>
    cache_step y (goto t (if b then T_Idle else T_Top) (put t c a y))"
| agent: "findLineForAgent tag (cs_cache y) = Returned (Some (sh, i)) \<Longrightarrow>
    agent_iteration m seen (li_status (line_at y (set_of_tag tag, sh, i))) = Some (b, g) \<Longrightarrow>
    cache_step y (y\<lparr>cs_cache := (if sh then upd_shadow (set_of_tag tag) i (\<lambda>l. l\<lparr>li_status := g\<rparr>) (cs_cache y)
                                 else set_tag (set_of_tag tag) i g (cs_cache y))\<rparr>)"

text \<open>A thread before its first access, and a cache that \<open>initLine\<close> has set up.\<close>

definition fresh_thread :: "nat \<Rightarrow> thread \<Rightarrow> bool" where
  "fresh_thread t th \<longleftrightarrow> th_pc th = T_Idle \<and> ap_req_appt_id (th_appt th) = t
     \<and> \<not> ap_start_next (th_appt th) \<and> \<not> ap_wait_cur (th_appt th)"

definition cache_start :: "u64 list \<Rightarrow> nat \<Rightarrow> cache \<Rightarrow> (nat \<Rightarrow> thread) \<Rightarrow> cache_sys" where
  "cache_start bufs n c0 ths = \<lparr>cs_cache = initLine bufs n c0, cs_thread = ths, cs_copies = []\<rparr>"

section \<open>Invariant\<close>

primrec req_status :: "request \<Rightarrow> CacheStatus" where
  "req_status Q_Read = C_TO_SHARED"
| "req_status Q_Upgrade = C_TO_MODIFIED"
| "req_status Q_Write = C_TO_MODIFIED"

text \<open>The places a thread has to itself: those of its evictions, and the line of its request.\<close>

definition owns :: "thread \<Rightarrow> place set" where
  "owns th = evict_place ` pending (th_appt th) \<union> {(set_of (th_addr th), False, i) | i q. th_pc th = T_Request q i}"

definition thread_ok :: "(place \<Rightarrow> LineInfo) \<Rightarrow> nat \<Rightarrow> thread \<Rightarrow> bool" where
  "thread_ok F t th \<longleftrightarrow> ap_req_appt_id (th_appt th) = t
     \<and> (ap_start_next (th_appt th) \<longrightarrow> ap_next_evict (th_appt th) \<noteq> None \<and> th_pc th = T_Top)
     \<and> (ap_wait_cur (th_appt th) \<longrightarrow> ap_cur_evict (th_appt th) \<noteq> None)
     \<and> (\<forall>r \<in> pending (th_appt th). evict_place r \<in> places \<and> live (F (evict_place r)))
     \<and> (\<forall>r. ap_wait_cur (th_appt th) \<and> ap_cur_evict (th_appt th) = Some r \<longrightarrow> li_lock (F (evict_place r)) \<noteq> 0)
     \<and> (\<forall>q i. th_pc th = T_Request q i \<longrightarrow> i < CACHE_WAYS
          \<and> status (F (set_of (th_addr th), False, i)) = req_status q
          \<and> li_tag (F (set_of (th_addr th), False, i)) = getTag (th_addr th))"

definition sys_ok :: "u64 multiset \<Rightarrow> cache_sys \<Rightarrow> bool" where
  "sys_ok B y \<longleftrightarrow> shape (cs_cache y) \<and> lines_ok (line_at y)
     \<and> buffers_of (line_at y) (ca_stack (cs_cache y)) = B
     \<and> (\<forall>t < max_appt_num_per_node. thread_ok (line_at y) t (cs_thread y t))
     \<and> (\<forall>t < max_appt_num_per_node. \<forall>u < max_appt_num_per_node.
          t \<noteq> u \<longrightarrow> owns (cs_thread y t) \<inter> owns (cs_thread y u) = {})"

lemma in_places [simp]: "(s, sh, i) \<in> places \<longleftrightarrow> s < DSM_CACHE_INDEX_SIZE \<and> i < CACHE_WAYS"
  by (auto simp: places_def)

lemma sys_okD:
  assumes "sys_ok B y"
  shows "shape (cs_cache y)" "lines_ok (line_at y)" "buffers_of (line_at y) (ca_stack (cs_cache y)) = B"
    and "t < max_appt_num_per_node \<Longrightarrow> thread_ok (line_at y) t (cs_thread y t)"
    and "t < max_appt_num_per_node \<Longrightarrow> u < max_appt_num_per_node \<Longrightarrow> t \<noteq> u \<Longrightarrow> owns (cs_thread y t) \<inter> owns (cs_thread y u) = {}"
  using assms by (simp_all add: sys_ok_def)

lemma thread_ok_frame:
  assumes "thread_ok F t th" "\<And>p. p \<in> owns th \<Longrightarrow> G p = F p"
  shows "thread_ok G t th"
proof -
  have "G (evict_place r) = F (evict_place r)" if "r \<in> pending (th_appt th)" for r
    using that by (intro assms(2)) (auto simp: owns_def)
  moreover have "ap_wait_cur (th_appt th) \<Longrightarrow> ap_cur_evict (th_appt th) = Some r \<Longrightarrow> r \<in> pending (th_appt th)" for r
    by (simp add: pending_def)
  moreover have "G (set_of (th_addr th), False, i) = F (set_of (th_addr th), False, i)" if "th_pc th = T_Request q i" for q i
    using that by (intro assms(2)) (auto simp: owns_def)
  ultimately show ?thesis using assms(1) by (simp add: thread_ok_def)
qed

text \<open>A step of one thread on places that no other thread owns.\<close>

lemma sys_ok_step:
  assumes "sys_ok B y" "t < max_appt_num_per_node" "cs_thread y' = (cs_thread y)(t := th)"
    and "shape (cs_cache y')" "lines_ok (line_at y')" "buffers_of (line_at y') (ca_stack (cs_cache y')) = B"
    and "thread_ok (line_at y') t th"
    and changed: "\<And>p u. line_at y' p \<noteq> line_at y p \<Longrightarrow> u < max_appt_num_per_node \<Longrightarrow> u \<noteq> t \<Longrightarrow> p \<notin> owns (cs_thread y u)"
    and owned: "\<And>p u. p \<in> owns th \<Longrightarrow> p \<notin> owns (cs_thread y t) \<Longrightarrow> u < max_appt_num_per_node \<Longrightarrow> u \<noteq> t \<Longrightarrow> p \<notin> owns (cs_thread y u)"
  shows "sys_ok B y'"
proof -
  have "thread_ok (line_at y') u (cs_thread y u)" if "u < max_appt_num_per_node" "u \<noteq> t" for u
    by (rule thread_ok_frame [OF sys_okD(4) [OF assms(1)]]) (use changed that in blast)+
  moreover have "owns th \<inter> owns (cs_thread y u) = {}" if "u < max_appt_num_per_node" "u \<noteq> t" for u
    using owned that sys_okD(5) [OF assms(1,2) that(1)] by blast
  ultimately show ?thesis
    using assms(3-7) sys_okD(5) [OF assms(1)] unfolding sys_ok_def by (auto simp: Int_commute)
qed

text \<open>Places that no thread owns: slots of the shadow sets that are free, and lines at rest.\<close>

lemma free_not_owned:
  assumes "sys_ok B y" "u < max_appt_num_per_node" "\<not> live (line_at y (s, True, i))"
  shows "(s, True, i) \<notin> owns (cs_thread y u)"
  using sys_okD(4) [OF assms(1,2)] assms(3) by (auto simp: owns_def thread_ok_def)

lemma rest_not_owned:
  assumes "sys_ok B y" "u < max_appt_num_per_node"
    "status (line_at y (s, False, i)) \<notin> {C_TO_SHARED, C_TO_MODIFIED}"
  shows "(s, False, i) \<notin> owns (cs_thread y u)"
proof
  assume "(s, False, i) \<in> owns (cs_thread y u)"
  then obtain q where "th_pc (cs_thread y u) = T_Request q i" "s = set_of (th_addr (cs_thread y u))" by (auto simp: owns_def)
  then have "status (line_at y (s, False, i)) = req_status q" using sys_okD(4) [OF assms(1,2)] by (simp add: thread_ok_def)
  then show False using assms(3) by (cases q) simp_all
qed

lemma evict_owned:
  assumes "sys_ok B y" "t < max_appt_num_per_node" "u < max_appt_num_per_node" "u \<noteq> t" "r \<in> pending (appt_of t y)"
  shows "evict_place r \<notin> owns (cs_thread y u)"
  using sys_okD(5) [OF assms(1,2,3)] assms(4,5) by (auto simp: owns_def)

lemma request_owned:
  assumes "sys_ok B y" "t < max_appt_num_per_node" "u < max_appt_num_per_node" "u \<noteq> t"
    "th_pc (cs_thread y t) = T_Request q i"
  shows "(set_of (addr_of t y), False, i) \<notin> owns (cs_thread y u)"
  using sys_okD(5) [OF assms(1,2,3)] assms(4,5) by (auto simp: owns_def)

section \<open>The steps keep the invariant\<close>

lemma goto_put [simp]:
  "cs_cache (goto t pc y) = cs_cache y" "cs_thread (goto t pc y) = (cs_thread y)(t := (cs_thread y t)\<lparr>th_pc := pc\<rparr>)"
  "cs_cache (put t c a y) = c" "cs_thread (put t c a y) = (cs_thread y)(t := (cs_thread y t)\<lparr>th_appt := a\<rparr>)"
  "cs_cache (copied t l y) = cs_cache y" "cs_thread (copied t l y) = cs_thread y"
  by (simp_all add: goto_def put_def copied_def)

lemma aside_same [simp]:
  "pending (aside m a) = pending a" "ap_req_appt_id (aside m a) = ap_req_appt_id a"
  "ap_start_next (aside m a) = ap_start_next a" "ap_wait_cur (aside m a) = ap_wait_cur a"
  "ap_cur_evict (aside m a) = ap_cur_evict a" "ap_next_evict (aside m a) = ap_next_evict a"
  by (auto simp: aside_def pending_def split: option.split)

lemma set_tag_simps [simp]:
  "shape c \<Longrightarrow> i < CACHE_WAYS \<Longrightarrow> slot_line (set_tag s i g c)
    = (slot_line c)((s, False, i) := (slot_line c (s, False, i))\<lparr>li_status := g\<rparr>)"
  "shape (set_tag s i g c) = shape c" "ca_stack (set_tag s i g c) = ca_stack c"
  by (simp_all add: set_tag_def shape_length)

lemma sys_ok_local:
  assumes "sys_ok B y" "t < max_appt_num_per_node" "cs_cache y' = cs_cache y" "cs_thread y' = (cs_thread y)(t := th)"
    "th_appt th = appt_of t y" "\<forall>q i. th_pc th \<noteq> T_Request q i" "ap_start_next (appt_of t y) \<longrightarrow> th_pc th = T_Top"
  shows "sys_ok B y'"
proof (rule sys_ok_step [OF assms(1,2,4)])
  show "thread_ok (line_at y') t th" using sys_okD(4) [OF assms(1,2)] assms(3,5-7) by (simp add: thread_ok_def)
  show "p \<notin> owns (cs_thread y u)" if "p \<in> owns th" "p \<notin> owns (cs_thread y t)" for p u
    using that assms(5,6) by (auto simp: owns_def)
qed (use sys_okD [OF assms(1)] assms(3) in simp_all)

lemma not_starting:
  assumes "sys_ok B y" "at t pc y" "pc \<noteq> T_Top"
  shows "\<not> ap_start_next (appt_of t y)"
  using sys_okD(4) [OF assms(1), of t] assms(2,3) by (auto simp: thread_ok_def)

lemma owns_pc: "th_pc th = pc \<Longrightarrow> \<forall>q i. pc \<noteq> T_Request q i \<Longrightarrow> owns th = evict_place ` pending (th_appt th)"
  by (auto simp: owns_def)

lemma pending_bounds:
  assumes "sys_ok B y" "t < max_appt_num_per_node" "r \<in> pending (appt_of t y)"
  shows "fst r < DSM_CACHE_INDEX_SIZE" "snd r < CACHE_WAYS" "live (line_at y (evict_place r))"
  using sys_okD(4) [OF assms(1,2)] assms(3) by (auto simp: thread_ok_def)

text \<open>A slot is given back: its buffer goes to the stack of the thread.\<close>

lemma freed_ok:
  assumes "lines_ok F" "place_ok p" "li_set_index l = li_set_index (F p)" "li_slot_index l = li_slot_index (F p)"
    "li_data l = None" "\<not> live l"
  shows "lines_ok (F(p := l))"
  using lines_okD(1) [OF assms(1,2)] assms(3-6) by (intro lines_ok_update [OF assms(1)]) (auto simp: line_ok_def)

lemma freed_simps [simp]:
  "li_set_index (freed l) = li_set_index l" "li_slot_index (freed l) = li_slot_index l" "li_data (freed l) = None"
  "\<not> live (freed l)" "status (freed l) = C_PRESERVED" "li_lock (freed l) = li_lock l"
  by (simp_all add: freed_def live_def)

lemma live_other [simp]:
  "live (l\<lparr>li_lock := k\<rparr>) = live l" "live (l\<lparr>li_status := g\<rparr>) \<longleftrightarrow> at_status g \<noteq> C_PRESERVED"
  by (simp_all add: live_def)

lemma freed_buffers:
  assumes "p \<in> places" "a < max_appt_num_per_node" "li_data (F p) = Some b" "li_data l = None"
  shows "buffers_of (F(p := l)) (st(a := st a @ [b])) = buffers_of F st"
  using buffers_of_line [OF assms(1), of F l "st(a := st a @ [b])"] buffers_of_stack [OF assms(2), of F st "st a @ [b]"] assms(3,4)
  by (simp add: buf_def)

lemma step_release:
  assumes ok: "sys_ok B y" and t: "t < max_appt_num_per_node" and r: "r \<in> pending (appt_of t y)"
    and y': "cs_thread y' = (cs_thread y)(t := th)" "shape (cs_cache y')"
    and st: "ca_stack (cs_cache y') = (ca_stack (cs_cache y))(t := ca_stack (cs_cache y) t @ [b])"
    and b: "li_data (line_at y (evict_place r)) = Some b"
    and F: "line_at y' = (line_at y)(evict_place r := l)" and l: "l = freed (line_at y (evict_place r)) \<or> l = (freed (line_at y (evict_place r)))\<lparr>li_lock := 0\<rparr>"
    and th: "\<forall>q i. th_pc th \<noteq> T_Request q i" "pending (th_appt th) \<subseteq> pending (appt_of t y) - {r}"
      "ap_req_appt_id (th_appt th) = t" "\<not> ap_start_next (th_appt th)" "\<not> ap_wait_cur (th_appt th)"
  shows "sys_ok B y'"
proof (rule sys_ok_step [OF ok t y'])
  note pb = pending_bounds [OF ok t r]
  show "lines_ok (line_at y')" unfolding F
    by (rule freed_ok [OF sys_okD(2) [OF ok]]) (use l pb in auto)
  show "buffers_of (line_at y') (ca_stack (cs_cache y')) = B" unfolding F st
    by (subst freed_buffers) (use pb t b l sys_okD(3) [OF ok] in auto)
  show "thread_ok (line_at y') t th" using th by (auto simp: thread_ok_def pending_def)
  show "p \<notin> owns (cs_thread y u)" if "line_at y' p \<noteq> line_at y p" "u < max_appt_num_per_node" "u \<noteq> t" for p u
    using that evict_owned [OF ok t that(2,3) r] by (auto simp: F split: if_splits)
  show "p \<notin> owns (cs_thread y u)" if "p \<in> owns th" "p \<notin> owns (cs_thread y t)" for p u
    using that th(1,2) by (auto simp: owns_def)
qed

lemma step_start:
  assumes ok: "sys_ok B y" and at: "at t T_Top y"
    and ev: "start_evict m0 (cs_cache y) (appt_of t y) = Returned (c, a)"
  shows "sys_ok B (goto t T_Lookup (put t c a y))"
proof -
  let ?y = "goto t T_Lookup (put t c a y)"
  have t: "t < max_appt_num_per_node" using at by simp
  have p: "\<forall>r \<in> pending (appt_of t y). snd r < CACHE_WAYS \<and> live (line_at y (evict_place r))"
    using pending_bounds [OF ok t] by blast
  note tok = sys_okD(4) [OF ok t]
  from ev sys_okD(1,2) [OF ok] p show ?thesis
  proof (cases rule: start_evict_cases)
    case none
    then show ?thesis by (intro sys_ok_local [OF ok t, where th = "(cs_thread y t)\<lparr>th_pc := T_Lookup\<rparr>"]) auto
  next
    case (released r b)
    then have r: "r \<in> pending (appt_of t y)" by (simp add: pending_def)
    have id: "ap_req_appt_id (appt_of t y) = t" using tok by (simp add: thread_ok_def)
    show ?thesis
      by (rule step_release [OF ok t r, where th = "(cs_thread y t)\<lparr>th_appt := a, th_pc := T_Lookup\<rparr>"])
        (use released id in \<open>auto simp: pending_def\<close>)
  next
    case (sent r e m)
    then have r: "r \<in> pending (appt_of t y)" by (simp add: pending_def)
    note pb = pending_bounds [OF ok t r]
    have pa: "pending a = {r}" using sent by (auto simp: pending_def)
    show ?thesis
    proof (rule sys_ok_step [OF ok t, of ?y "(cs_thread y t)\<lparr>th_appt := a, th_pc := T_Lookup\<rparr>"])
      show "lines_ok (line_at ?y)" using sent(6) pb
        by (auto intro!: lines_ok_same [OF sys_okD(2) [OF ok]])
      show "buffers_of (line_at ?y) (ca_stack (cs_cache ?y)) = B" using sent(4,6) pb sys_okD(3) [OF ok]
        by (simp add: buffers_of_same)
      show "thread_ok (line_at ?y) t ((cs_thread y t)\<lparr>th_appt := a, th_pc := T_Lookup\<rparr>)"
        using tok sent(6,7) pb pa by (auto simp: thread_ok_def)
      show "p \<notin> owns (cs_thread y u)" if "line_at ?y p \<noteq> line_at y p" "u < max_appt_num_per_node" "u \<noteq> t" for p u
        using that evict_owned [OF ok t that(2,3) r] by (auto simp: sent(6) split: if_splits)
      show "p \<notin> owns (cs_thread y u)" if "p \<in> owns ((cs_thread y t)\<lparr>th_appt := a, th_pc := T_Lookup\<rparr>)"
        "p \<notin> owns (cs_thread y t)" for p u
        using that r by (auto simp: owns_def pa)
    qed (use sent in auto)
  qed
qed

lemma find_way_some: "find_way tag ls = Some i \<Longrightarrow> i < CACHE_WAYS \<and> holds tag (ls ! i)"
  by (auto simp: find_way_def find_Some_iff)

lemma find_way_none: "find_way tag ls = None \<Longrightarrow> i < CACHE_WAYS \<Longrightarrow> \<not> holds tag (ls ! i)"
  by (auto simp: find_way_def find_None_iff)

lemma holds_live: "holds tag l \<longleftrightarrow> live l \<and> li_tag l = tag" by (simp add: holds_def live_def)

lemma found_once:
  assumes "lines_ok (slot_line c)" "find_way tag (ca_lines c s) = Some i"
  shows "find_way tag (ca_shadow c s') = None"
proof (rule ccontr)
  assume "find_way tag (ca_shadow c s') \<noteq> None"
  then obtain j where "find_way tag (ca_shadow c s') = Some j" by blast
  from find_way_some [OF this] find_way_some [OF assms(2)]
  have "place_ok (s, False, i) \<and> place_ok (s', True, j) \<and> live (slot_line c (s, False, i)) \<and> live (slot_line c (s', True, j))
      \<and> li_tag (slot_line c (s, False, i)) = li_tag (slot_line c (s', True, j))"
    by (simp add: holds_live slot_line_simps)
  then show False using lines_okD(2) [OF assms(1), of "(s, False, i)" "(s', True, j)"] by simp
qed

text \<open>The lookup either leaves the cache alone, or it begins a request on the line it found.\<close>

lemma begin_some:
  "begin_read g = (True, g') \<Longrightarrow> at_status g = C_INVALID \<and> at_status g' = C_TO_SHARED"
  "begin_upgrade g = (True, g') \<Longrightarrow> at_status g = C_SHARED \<and> at_status g' = C_TO_MODIFIED"
  "begin_write g = (True, g') \<Longrightarrow> at_status g = C_INVALID \<and> at_status g' = C_TO_MODIFIED"
  by (auto simp: begin_read_def begin_upgrade_def begin_write_def casFlagAndStatus_def split: if_splits)

lemma lookup_cases:
  assumes "lookup_line wr addr c a = Returned (pc, c')"
  obtains (stay) "c' = c" "pc = T_Insert \<or> pc = T_Wait False \<or> (\<exists>sh i. pc = T_Hit sh i)"
  | (begun) q i g where "pc = T_Request q i" "c' = set_tag (set_of addr) i g c" "i < CACHE_WAYS"
      "holds (getTag addr) (slot_line c (set_of addr, False, i))"
      "status (slot_line c (set_of addr, False, i)) = C_INVALID \<or> status (slot_line c (set_of addr, False, i)) = C_SHARED"
      "at_status g = req_status q"
proof (cases "\<exists>i q g. pc = T_Request q i \<and> c' = set_tag (set_of addr) i g c \<and> findLine (set_of addr) addr c = Some i
    \<and> at_status (li_status (ca_lines c (set_of addr) ! i)) \<in> {C_INVALID, C_SHARED} \<and> at_status g = req_status q")
  case True
  then show ?thesis using begun by (auto simp: findLine_def slot_line_simps status_def dest!: find_way_some)
next
  case False
  have "c' = c \<and> (pc = T_Insert \<or> pc = T_Wait False \<or> (\<exists>sh i. pc = T_Hit sh i))"
  proof (cases "findLine (set_of addr) addr c")
    case (Some i)
    with assms False show ?thesis
      by (auto simp: lookup_line_def Let_def split: option.splits prod.splits bool.splits if_splits dest!: begin_some)
  qed (use assms in \<open>auto simp: lookup_line_def Let_def split: option.splits if_splits\<close>)
  then show ?thesis using stay by blast
qed

lemma step_lookup:
  assumes ok: "sys_ok B y" and at: "at t T_Lookup y"
    and lk: "lookup_line (th_write (cs_thread y t)) (addr_of t y) (cs_cache y) (appt_of t y) = Returned (pc, c)"
  shows "sys_ok B (goto t pc (put t c (appt_of t y) y))"
proof -
  let ?y = "goto t pc (put t c (appt_of t y) y)" and ?th = "(cs_thread y t)\<lparr>th_pc := pc\<rparr>"
  have t: "t < max_appt_num_per_node" using at by simp
  have ns: "\<not> ap_start_next (appt_of t y)" by (rule not_starting [OF ok at]) simp
  from lk show ?thesis
  proof (cases rule: lookup_cases)
    case stay
    then show ?thesis using ns by (intro sys_ok_local [OF ok t, where th = ?th]) auto
  next
    case (begun q i g)
    let ?p = "(set_of (addr_of t y), False, i)"
    note c = sys_okD(1) [OF ok]
    have F: "line_at ?y = (line_at y)(?p := (line_at y ?p)\<lparr>li_status := g\<rparr>)" using begun c by simp
    have live: "live (line_at y ?p)" "li_tag (line_at y ?p) = getTag (addr_of t y)" using begun by (simp_all add: holds_live)
    have rest: "?p \<notin> owns (cs_thread y u)" if "u < max_appt_num_per_node" for u
      by (rule rest_not_owned [OF ok that]) (use begun in auto)
    have g: "at_status g \<noteq> C_PRESERVED" using begun by (cases q) auto
    show ?thesis
    proof (rule sys_ok_step [OF ok t, of ?y ?th])
      show "lines_ok (line_at ?y)" unfolding F
        by (rule lines_ok_same [OF sys_okD(2) [OF ok]]) (use begun live g in auto)
      show "buffers_of (line_at ?y) (ca_stack (cs_cache ?y)) = B" unfolding F
        by (subst buffers_of_same) (use begun sys_okD(3) [OF ok] set_of_tag_less in auto)
      have "evict_place r \<noteq> ?p" for r by simp
      then show "thread_ok (line_at ?y) t ?th" unfolding F
        using sys_okD(4) [OF ok t] begun live ns by (auto simp: thread_ok_def)
      show "p \<notin> owns (cs_thread y u)" if "line_at ?y p \<noteq> line_at y p" "u < max_appt_num_per_node" for p u
        using that(1) rest [OF that(2)] unfolding F by (auto split: if_splits)
      show "p \<notin> owns (cs_thread y u)" if "p \<in> owns ?th" "p \<notin> owns (cs_thread y t)" "u < max_appt_num_per_node" for p u
        using that rest begun(1) by (auto simp: owns_def)
    qed (use begun c in auto)
  qed
qed

lemma filled_simps [simp]:
  "li_tag (filled addr b l) = getTag addr" "li_addr (filled addr b l) = addr" "li_data (filled addr b l) = Some b"
  "status (filled addr b l) = C_INVALID" "live (filled addr b l)" "li_set_index (filled addr b l) = li_set_index l"
  "li_slot_index (filled addr b l) = li_slot_index l" "li_lock (filled addr b l) = li_lock l"
  by (simp_all add: filled_def live_def)

lemma moved_simps [simp]:
  "li_tag (moved v l) = li_tag v" "li_addr (moved v l) = li_addr v" "li_data (moved v l) = li_data v"
  "status (moved v l) = status v" "live (moved v l) = live v" "li_set_index (moved v l) = li_set_index l"
  "li_slot_index (moved v l) = li_slot_index l" "li_lock (moved v l) = li_lock l"
  by (simp_all add: moved_def live_def)

text \<open>A tag that no line of its set has is a tag that no line has.\<close>

lemma unused_everywhere:
  assumes "lines_ok F" "unused F (set_of_tag tag) tag" "place_ok q" "live (F q)"
  shows "li_tag (F q) \<noteq> tag"
proof
  assume tag: "li_tag (F q) = tag"
  have "line_ok q (F q)" by (rule lines_okD(1) [OF assms(1,3)])
  then have "fst q = set_of_tag tag" using assms(4) tag unfolding line_ok_def by metis
  then have "q = (set_of_tag tag, fst (snd q), snd (snd q))" by (simp add: prod_eq_iff)
  then show False using assms(2-4) tag unfolding unused_def holds_live by metis
qed

lemma filled_ok:
  assumes "lines_ok F" "unused F (set_of addr) (getTag addr)" "i < CACHE_WAYS"
    and l: "li_set_index l = li_set_index (F (set_of addr, False, i))" "li_slot_index l = li_slot_index (F (set_of addr, False, i))"
      "li_data l \<noteq> None" "live l" "li_tag l = getTag addr" "li_addr l = addr"
  shows "lines_ok (F((set_of addr, False, i) := l))"
proof (rule lines_ok_update [OF assms(1)])
  have "line_ok (set_of addr, False, i) (F (set_of addr, False, i))" by (rule lines_okD(1) [OF assms(1)]) (simp add: assms(3))
  then show "line_ok (set_of addr, False, i) l" using l by (simp add: line_ok_def)
  show "li_tag (F q) \<noteq> li_tag l" if "place_ok q" "live (F q)" for q
    using unused_everywhere [OF assms(1,2) that] l by simp
qed

lemma filled_buffers:
  assumes "a < max_appt_num_per_node" "p \<in> places" "st a = xs @ [b]" "buf l = {#b#} + buf (F p)"
  shows "buffers_of (F(p := l)) (st(a := xs)) = buffers_of F st"
  using buffers_of_line [OF assms(2), of F l "st(a := xs)"] buffers_of_stack [OF assms(1), of F st xs] assms(3,4) by simp

lemma step_insert:
  assumes ok: "sys_ok B y" and at: "at t T_Insert y"
    and nl: "newLine (set_of (addr_of t y)) (addr_of t y) (cs_cache y) (appt_of t y) = Some (r, c, a)"
  shows "sys_ok B (goto t (if r = None then T_Wait False else T_Top) (put t c a y))"
proof -
  let ?pc = "if r = None then T_Wait False else T_Top"
  let ?y = "goto t ?pc (put t c a y)" and ?th = "(cs_thread y t)\<lparr>th_appt := a, th_pc := ?pc\<rparr>"
  let ?m = "\<lambda>i. (set_of (addr_of t y), False, i)" and ?s = "\<lambda>i. (set_of (addr_of t y), True, i)"
  have t: "t < max_appt_num_per_node" using at by simp
  have ns: "\<not> ap_start_next (appt_of t y)" by (rule not_starting [OF ok at]) simp
  note lok = sys_okD(2) [OF ok] and tok = sys_okD(4) [OF ok t]
  have id: "ap_req_appt_id (appt_of t y) = t" using tok by (simp add: thread_ok_def)
  have own: "owns (cs_thread y t) = evict_place ` pending (appt_of t y)" using at by (intro owns_pc) auto
  have place: "i < CACHE_WAYS \<Longrightarrow> ?m i \<in> places \<and> ?s i \<in> places" for i by (simp add: set_of_tag_less)
  from nl sys_okD(1) [OF ok] show ?thesis
  proof (cases rule: newLine_cases)
    case no
    then show ?thesis using ns by (intro sys_ok_local [OF ok t, where th = ?th]) auto
  next
    case (free i st b)
    have rest: "?m i \<notin> owns (cs_thread y u)" if "u < max_appt_num_per_node" for u
      by (rule rest_not_owned [OF ok that]) (use free(4) in \<open>auto simp: live_def\<close>)
    have "li_data (line_at y (?m i)) = None" using lines_okD(1) [OF lok, of "?m i"] free(2,4) by (simp add: line_ok_def)
    show ?thesis
    proof (rule sys_ok_step [OF ok t, of ?y ?th])
      show "lines_ok (line_at ?y)" unfolding goto_put free(9)
        by (rule filled_ok [OF lok free(3,2)]) simp_all
      show "buffers_of (line_at ?y) (ca_stack (cs_cache ?y)) = B" unfolding goto_put free(9,6) id
        by (subst filled_buffers) (use t place free(2,5) id \<open>li_data (line_at y (?m i)) = None\<close> sys_okD(3) [OF ok] in \<open>auto simp: buf_def\<close>)
      show "thread_ok (line_at ?y) t ?th" using tok ns free(1,8,9) at by (auto simp: thread_ok_def)
      show "p \<notin> owns (cs_thread y u)" if "line_at ?y p \<noteq> line_at y p" "u < max_appt_num_per_node" for p u
        using that rest by (auto simp: free(9) split: if_splits)
      show "p \<notin> owns (cs_thread y u)" if "p \<in> owns ?th" "p \<notin> owns (cs_thread y t)" for p u
        using that free(1,8) own by (auto simp: owns_def)
    qed (use free in auto)
  next
    case (reuse i)
    have rest: "?m i \<notin> owns (cs_thread y u)" if "u < max_appt_num_per_node" for u
      by (rule rest_not_owned [OF ok that]) (use reuse(4) in auto)
    have live: "live (line_at y (?m i))" using reuse(4) by (simp add: live_def)
    show ?thesis
    proof (rule sys_ok_step [OF ok t, of ?y ?th])
      show "lines_ok (line_at ?y)" unfolding goto_put reuse(8)
        by (rule filled_ok [OF lok reuse(3,2)])
          (use lines_okD(1) [OF lok, of "?m i"] live reuse(2) in \<open>auto simp: line_ok_def live_def\<close>)
      show "buffers_of (line_at ?y) (ca_stack (cs_cache ?y)) = B" unfolding goto_put reuse(8,5)
        by (subst buffers_of_same) (use place reuse(2) sys_okD(3) [OF ok] in auto)
      show "thread_ok (line_at ?y) t ?th" using tok ns reuse(1,7,8) at by (auto simp: thread_ok_def)
      show "p \<notin> owns (cs_thread y u)" if "line_at ?y p \<noteq> line_at y p" "u < max_appt_num_per_node" for p u
        using that rest by (auto simp: reuse(8) split: if_splits)
      show "p \<notin> owns (cs_thread y u)" if "p \<in> owns ?th" "p \<notin> owns (cs_thread y t)" for p u
        using that reuse(1,7) own by (auto simp: owns_def)
    qed (use reuse in auto)
  next
    case (evict i st b)
    let ?f = "filled (addr_of t y) b (line_at y (?m i))" and ?v = "moved (line_at y (?m i)) (line_at y (?s i))"
    have F: "line_at ?y = (line_at y)(?m i := ?f, ?s i := ?v)" unfolding goto_put evict(10) by (rule fun_upd_twist) simp
    have rest: "?m i \<notin> owns (cs_thread y u)" "?s i \<notin> owns (cs_thread y u)" if "u < max_appt_num_per_node" for u
      using rest_not_owned [OF ok that] free_not_owned [OF ok that evict(5)] evict(4) by auto
    have data: "li_data (line_at y (?s i)) = None" "li_data (line_at y (?m i)) \<noteq> None" "live (line_at y (?m i))"
      using lines_okD(1) [OF lok, of "?m i"] lines_okD(1) [OF lok, of "?s i"] evict(2,4,5) by (auto simp: line_ok_def live_def)
    have fok: "lines_ok ((line_at y)(?m i := ?f))" by (rule filled_ok [OF lok evict(3,2)]) simp_all
    show ?thesis
    proof (rule sys_ok_step [OF ok t, of ?y ?th])
      show "lines_ok (line_at ?y)" unfolding F
      proof (rule lines_ok_update [OF fok])
        show "line_ok (?s i) ?v"
          using lines_okD(1) [OF lok, of "?m i"] lines_okD(1) [OF lok, of "?s i"] evict(2) data unfolding line_ok_def by auto
        show "li_tag (((line_at y)(?m i := ?f)) q) \<noteq> li_tag ?v"
          if "place_ok q" "q \<noteq> ?s i" "live (((line_at y)(?m i := ?f)) q)" for q
        proof (cases "q = ?m i")
          case True
          have "place_ok (?m i)" using evict(2) by simp
          then show ?thesis using True unused_everywhere [OF lok evict(3) _ data(3)] by auto
        next
          case False
          then show ?thesis using that lines_okD(2) [OF lok, of q "?m i"] data(3) evict(2) by auto
        qed
      qed
      have "buffers_of (((line_at y)(?s i := ?v))(?m i := ?f)) ((ca_stack (cs_cache y))(t := st)) + buf (line_at y (?m i))
          = buffers_of ((line_at y)(?s i := ?v)) ((ca_stack (cs_cache y))(t := st)) + buf ?f"
        using buffers_of_line [of "?m i" "(line_at y)(?s i := ?v)" ?f] place [OF evict(2)] by simp
      moreover have "buffers_of ((line_at y)(?s i := ?v)) ((ca_stack (cs_cache y))(t := st)) + buf (line_at y (?s i))
          = buffers_of (line_at y) ((ca_stack (cs_cache y))(t := st)) + buf ?v"
        using buffers_of_line [of "?s i" "line_at y" ?v] place [OF evict(2)] by simp
      moreover have "buffers_of (line_at y) ((ca_stack (cs_cache y))(t := st)) + {#b#} = buffers_of (line_at y) (ca_stack (cs_cache y))"
        using buffers_of_stack [OF t, of "line_at y" "ca_stack (cs_cache y)" st] evict(6) id by simp
      moreover have "buf (line_at y (?s i)) = {#}" "buf ?v = buf (line_at y (?m i))" "buf ?f = {#b#}"
        using data(1) by (simp_all add: buf_def)
      ultimately have "buffers_of (((line_at y)(?s i := ?v))(?m i := ?f)) ((ca_stack (cs_cache y))(t := st)) = B"
        using sys_okD(3) [OF ok] by (simp add: union_commute)
      then show "buffers_of (line_at ?y) (ca_stack (cs_cache ?y)) = B"
        unfolding goto_put evict(10,7) id .
      have pa: "pending a = insert (set_of (addr_of t y), i) (pending (appt_of t y))" using ns evict(9) by (auto simp: pending_def)
      have keep: "line_at ?y (evict_place r) = line_at y (evict_place r)" if "r \<in> pending (appt_of t y)" for r
      proof -
        have "evict_place r \<noteq> ?s i" using rest(2) [OF t] own imageI [OF that, of evict_place] by metis
        then show ?thesis unfolding F by auto
      qed
      have "live (line_at ?y (?s i))" unfolding F using data(3) by simp
      then have "\<forall>r \<in> pending a. evict_place r \<in> places \<and> live (line_at ?y (evict_place r))"
        using pa keep place [OF evict(2)] pending_bounds [OF ok t] by fastforce
      moreover have "\<forall>r. ap_wait_cur a \<and> ap_cur_evict a = Some r \<longrightarrow> li_lock (line_at ?y (evict_place r)) \<noteq> 0"
        using keep tok evict(9) by (auto simp: thread_ok_def pending_def)
      moreover have "ap_wait_cur a \<longrightarrow> ap_cur_evict a \<noteq> None" "ap_req_appt_id a = t" "ap_next_evict a \<noteq> None"
        using tok evict(9) by (auto simp: thread_ok_def)
      ultimately show "thread_ok (line_at ?y) t ?th" unfolding thread_ok_def using evict(1) by simp
      show "p \<notin> owns (cs_thread y u)" if "line_at ?y p \<noteq> line_at y p" "u < max_appt_num_per_node" for p u
        using that(1) rest [OF that(2)] unfolding F by (auto split: if_splits)
      show "p \<notin> owns (cs_thread y u)" if "p \<in> owns ?th" "p \<notin> owns (cs_thread y t)" "u < max_appt_num_per_node" for p u
      proof -
        have "owns ?th = evict_place ` pending a" using evict(1) by (subst owns_pc) auto
        then have "p = ?s i" using that(1,2) unfolding pa own by auto
        then show ?thesis using rest(2) [OF that(3)] by simp
      qed
    qed (use evict in auto)
  qed
qed

lemma end_request_status:
  assumes "end_request q succ g = Some (b, g')"
  shows "at_status g' \<noteq> C_PRESERVED"
  using assms by (cases q; cases succ)
    (auto simp: end_request_def end_read_def end_upgrade_def end_write_def try_swaps.simps(2) casFlagAndStatus_def split: if_splits)

text \<open>An agent's swap keeps a line in use, and leaves the status of a request as it is.\<close>

lemma agent_status:
  assumes "agent_iteration m seen g = Some (b, g')"
  shows "at_status g' = C_PRESERVED \<longleftrightarrow> at_status g = C_PRESERVED"
    and "at_status g \<in> {C_TO_SHARED, C_TO_MODIFIED} \<Longrightarrow> at_status g' = at_status g"
  using assms by (auto simp: agent_iteration_def agent_invalidate_shared_def agent_downgrade_def agent_invalidate_dirty_def
      casFlagAndStatus_def split: RawMessageType.splits if_splits)

lemma step_reply:
  assumes ok: "sys_ok B y" and at: "at t (T_Request q i) y"
    and er: "end_request q succ (li_status (line_at y (set_of (addr_of t y), False, i))) = Some (b, g)"
  shows "sys_ok B (goto t (if b then T_Copy i else T_Wait False)
      (put t (set_tag (set_of (addr_of t y)) i g (cs_cache y)) (aside m (appt_of t y)) y))" (is "sys_ok B ?y")
proof -
  let ?p = "(set_of (addr_of t y), False, i)"
  let ?th = "(cs_thread y t)\<lparr>th_appt := aside m (appt_of t y), th_pc := (if b then T_Copy i else T_Wait False)\<rparr>"
  have t: "t < max_appt_num_per_node" using at by simp
  have ns: "\<not> ap_start_next (appt_of t y)" by (rule not_starting [OF ok at]) simp
  note tok = sys_okD(4) [OF ok t]
  have q: "i < CACHE_WAYS" "status (line_at y ?p) = req_status q" using tok at by (simp_all add: thread_ok_def)
  have live: "live (line_at y ?p)" using q(2) by (cases q) (simp_all add: live_def)
  have F: "line_at ?y = (line_at y)(?p := (line_at y ?p)\<lparr>li_status := g\<rparr>)" using q(1) sys_okD(1) [OF ok] by simp
  show ?thesis
  proof (rule sys_ok_step [OF ok t, of ?y ?th])
    show "lines_ok (line_at ?y)" unfolding F
      by (rule lines_ok_same [OF sys_okD(2) [OF ok]]) (use q live end_request_status [OF er] in auto)
    show "buffers_of (line_at ?y) (ca_stack (cs_cache ?y)) = B" unfolding F
      by (subst buffers_of_same) (use q sys_okD(3) [OF ok] set_of_tag_less in auto)
    show "thread_ok (line_at ?y) t ?th" unfolding F using tok ns by (auto simp: thread_ok_def)
    show "p \<notin> owns (cs_thread y u)" if "line_at ?y p \<noteq> line_at y p" "u < max_appt_num_per_node" "u \<noteq> t" for p u
      using that(1) request_owned [OF ok t that(2,3), of q i] at unfolding F by (auto split: if_splits)
    show "p \<notin> owns (cs_thread y u)" if "p \<in> owns ?th" "p \<notin> owns (cs_thread y t)" for p u
      using that by (auto simp: owns_def split: if_splits)
  qed (use sys_okD(1) [OF ok] in auto)
qed

lemma step_finish:
  assumes ok: "sys_ok B y" and at: "at t (T_Wait b) y"
    and we: "wait_evict m0 ms (cs_cache y) (appt_of t y) = Returned (ms', c, a)"
  shows "sys_ok B (goto t (if b then T_Idle else T_Top) (put t c a y))" (is "sys_ok B ?y")
proof -
  let ?th = "(cs_thread y t)\<lparr>th_appt := a, th_pc := (if b then T_Idle else T_Top)\<rparr>"
  have t: "t < max_appt_num_per_node" using at by simp
  have ns: "\<not> ap_start_next (appt_of t y)" by (rule not_starting [OF ok at]) simp
  note tok = sys_okD(4) [OF ok t]
  show ?thesis
  proof (cases "ap_wait_cur (appt_of t y)")
    case False
    then have "c = cs_cache y" "a = appt_of t y" using we by (simp_all add: wait_evict_def)
    then show ?thesis using ns by (intro sys_ok_local [OF ok t, where th = ?th]) auto
  next
    case True
    then obtain r where r: "ap_cur_evict (appt_of t y) = Some r" using tok by (auto simp: thread_ok_def)
    then have rp: "r \<in> pending (appt_of t y)" using True by (simp add: pending_def)
    note pb = pending_bounds [OF ok t rp]
    have lock: "li_lock (line_at y (evict_place r)) \<noteq> 0" and id: "ap_req_appt_id (appt_of t y) = t"
      using tok True r by (auto simp: thread_ok_def)
    from wait_evict_effect [OF we sys_okD(1,2) [OF ok] True r pb(2,3) lock] obtain k where eff: "shape c"
      "li_data (line_at y (evict_place r)) = Some k" "\<not> ap_wait_cur a" "ap_req_appt_id a = t" "\<not> ap_start_next a"
      "ca_stack c = (ca_stack (cs_cache y))(t := ca_stack (cs_cache y) t @ [k])"
      "slot_line c = (line_at y)(evict_place r := (freed (line_at y (evict_place r)))\<lparr>li_lock := 0\<rparr>)"
      using ns id by metis
    show ?thesis
      by (rule step_release [OF ok t rp, where th = ?th]) (use eff in \<open>auto simp: pending_def\<close>)
  qed
qed

text \<open>The agent's search finds a line in use, of the tag, in its set.\<close>

lemma agent_found:
  assumes "findLineForAgent tag c = Returned (Some (sh, i))"
  shows "i < CACHE_WAYS" "live (slot_line c (set_of_tag tag, sh, i))" "li_tag (slot_line c (set_of_tag tag, sh, i)) = tag"
proof -
  have "find_way tag ((if sh then ca_shadow c else ca_lines c) (set_of_tag tag)) = Some i"
    using assms by (auto simp: findLineForAgent_def Let_def set_of_tag_def split: option.splits)
  from find_way_some [OF this] show "i < CACHE_WAYS" "live (slot_line c (set_of_tag tag, sh, i))"
    "li_tag (slot_line c (set_of_tag tag, sh, i)) = tag"
    by (auto simp: holds_live slot_line_def split: if_splits)
qed

lemma thread_ok_status:
  assumes "thread_ok F t th" "at_status g \<noteq> C_PRESERVED"
    "status (F p) \<in> {C_TO_SHARED, C_TO_MODIFIED} \<Longrightarrow> at_status g = status (F p)"
  shows "thread_ok (F(p := (F p)\<lparr>li_status := g\<rparr>)) t th"
proof -
  have "status (F p) = req_status q \<Longrightarrow> at_status g = req_status q" for q using assms(3) by (cases q) auto
  then show ?thesis using assms(1,2) by (auto simp: thread_ok_def)
qed

lemma step_agent:
  assumes ok: "sys_ok B y" and fl: "findLineForAgent tag (cs_cache y) = Returned (Some (sh, i))"
    and ai: "agent_iteration m seen (li_status (line_at y (set_of_tag tag, sh, i))) = Some (b, g)"
  shows "sys_ok B (y\<lparr>cs_cache := (if sh then upd_shadow (set_of_tag tag) i (\<lambda>l. l\<lparr>li_status := g\<rparr>) (cs_cache y)
                                 else set_tag (set_of_tag tag) i g (cs_cache y))\<rparr>)" (is "sys_ok B ?y")
proof -
  let ?p = "(set_of_tag tag, sh, i)"
  note af = agent_found [OF fl]
  have F: "line_at ?y = (line_at y)(?p := (line_at y ?p)\<lparr>li_status := g\<rparr>)"
    using af(1) sys_okD(1) [OF ok] by (cases sh) (simp_all add: shape_length)
  have g: "at_status g \<noteq> C_PRESERVED" "status (line_at y ?p) \<in> {C_TO_SHARED, C_TO_MODIFIED} \<Longrightarrow> at_status g = status (line_at y ?p)"
    using agent_status [OF ai] af(2) by (auto simp: live_def status_def)
  have "lines_ok (line_at ?y)" unfolding F
    by (rule lines_ok_same [OF sys_okD(2) [OF ok]]) (use af g in auto)
  moreover have "buffers_of (line_at ?y) (ca_stack (cs_cache ?y)) = B" unfolding F
    by (subst buffers_of_same) (use af sys_okD(3) [OF ok] set_of_tag_less in \<open>auto simp: set_tag_def\<close>)
  moreover have "thread_ok (line_at ?y) t (cs_thread ?y t)" if "t < max_appt_num_per_node" for t
    unfolding F using thread_ok_status [OF sys_okD(4) [OF ok that] g] by simp
  ultimately show ?thesis using ok by (simp add: sys_ok_def set_tag_def)
qed

lemma cache_step_ok:
  assumes "cache_step y y'" "sys_ok B y"
  shows "sys_ok B y'"
  using assms
proof (cases rule: cache_step.cases)
  case (call t addr wr)
  then show ?thesis
    using not_starting [OF assms(2), of t T_Idle]
    by (intro sys_ok_local [OF assms(2), where t = t and th = "(cs_thread y t)\<lparr>th_write := wr, th_addr := addr, th_pc := T_Top\<rparr>"]) auto
next
  case (start t m0 c a)
  then show ?thesis using step_start [OF assms(2)] by blast
next
  case (lookup t pc c)
  then show ?thesis using step_lookup [OF assms(2)] by blast
next
  case (insert t r c a)
  then show ?thesis using step_insert [OF assms(2)] by blast
next
  case (hit t sh i l)
  then show ?thesis using not_starting [OF assms(2), of t "T_Hit sh i"]
    by (intro sys_ok_local [OF assms(2), where t = t and th = "(cs_thread y t)\<lparr>th_pc := T_Idle\<rparr>"]) auto
next
  case (miss t sh i l)
  then show ?thesis using not_starting [OF assms(2), of t "T_Hit sh i"]
    by (intro sys_ok_local [OF assms(2), where t = t and th = "(cs_thread y t)\<lparr>th_pc := T_Wait False\<rparr>"]) auto
next
  case (reply t q i succ b g m)
  then show ?thesis using step_reply [OF assms(2)] by blast
next
  case (copy t i l)
  then show ?thesis using not_starting [OF assms(2), of t "T_Copy i"]
    by (intro sys_ok_local [OF assms(2), where t = t and th = "(cs_thread y t)\<lparr>th_pc := T_Wait True\<rparr>"]) auto
next
  case (no_copy t i l)
  then show ?thesis using not_starting [OF assms(2), of t "T_Copy i"]
    by (intro sys_ok_local [OF assms(2), where t = t and th = "(cs_thread y t)\<lparr>th_pc := T_Wait False\<rparr>"]) auto
next
  case (finish t b m0 ms ms' c a)
  then show ?thesis using step_finish [OF assms(2)] by blast
next
  case (agent tag sh i m seen b g)
  then show ?thesis using step_agent [OF assms(2)] by blast
qed

lemma cache_reach_ok: "cache_step\<^sup>*\<^sup>* y y' \<Longrightarrow> sys_ok B y \<Longrightarrow> sys_ok B y'"
  by (induction rule: rtranclp_induct) (auto intro: cache_step_ok)

section \<open>Start\<close>

text \<open>The arrays as the constructor makes them, before \<open>initLine\<close>.\<close>

definition blank_cache :: "cache \<Rightarrow> bool" where
  "blank_cache c \<longleftrightarrow> shape c \<and> (\<forall>a. ca_stack c a = [])"

lemma dealt:
  assumes "0 < n" "n \<le> M"
  shows "(\<Sum>a < M. mset (map (\<lambda>k. bufs ! k) (filter (\<lambda>k. k mod n = a) [0..<m]))) = mset (map (\<lambda>k. bufs ! k) [0..<m])"
proof (induction m)
  case (Suc m)
  have "m mod n < M" using assms by (meson mod_less_divisor order.strict_trans2)
  have "(\<Sum>a < M. mset (map (\<lambda>k. bufs ! k) (filter (\<lambda>k. k mod n = a) [0..<Suc m])))
      = (\<Sum>a < M. mset (map (\<lambda>k. bufs ! k) (filter (\<lambda>k. k mod n = a) [0..<m])) + (if m mod n = a then {#bufs ! m#} else {#}))"
    by (rule sum.cong) auto
  also have "\<dots> = mset (map (\<lambda>k. bufs ! k) [0..<m]) + {#bufs ! m#}"
    using Suc \<open>m mod n < M\<close> by (simp add: sum.distrib)
  finally show ?case by simp
qed simp

lemma initLine_effect:
  assumes "blank_cache c0" "0 < n" "n \<le> max_appt_num_per_node"
  shows "shape (initLine bufs n c0)"
    and "place_ok p \<Longrightarrow> slot_line (initLine bufs n c0) p = (slot_line c0 p)\<lparr>li_data := None,
      li_status := \<lparr>at_flag = False, at_status = C_PRESERVED\<rparr>, li_shadow_flag := fst (snd p), li_set_index := fst p,
      li_slot_index := snd (snd p)\<rparr>"
    and "(\<Sum>a < max_appt_num_per_node. mset (ca_stack (initLine bufs n c0) a)) = mset bufs"
proof -
  show "shape (initLine bufs n c0)" using assms(1) by (simp add: blank_cache_def shape_def initLine_def Let_def)
  show "slot_line (initLine bufs n c0) p = (slot_line c0 p)\<lparr>li_data := None,
      li_status := \<lparr>at_flag = False, at_status = C_PRESERVED\<rparr>, li_shadow_flag := fst (snd p), li_set_index := fst p,
      li_slot_index := snd (snd p)\<rparr>" if "place_ok p"
    using that assms(1) by (cases p) (auto simp: blank_cache_def shape_def initLine_def Let_def slot_line_def)
  have "(\<Sum>a < max_appt_num_per_node. mset (ca_stack (initLine bufs n c0) a))
      = (\<Sum>a < max_appt_num_per_node. mset (map (\<lambda>k. bufs ! k) (filter (\<lambda>k. k mod n = a) [0..<length bufs])))"
    using assms(1) by (simp add: blank_cache_def initLine_def Let_def)
  also have "\<dots> = mset bufs" unfolding dealt [OF assms(2,3)] by (simp add: map_nth)
  finally show "(\<Sum>a < max_appt_num_per_node. mset (ca_stack (initLine bufs n c0) a)) = mset bufs" .
qed

lemma cache_start_ok:
  assumes "blank_cache c0" "0 < n" "n \<le> max_appt_num_per_node" "\<forall>t < max_appt_num_per_node. fresh_thread t (ths t)"
  shows "sys_ok (mset bufs) (cache_start bufs n c0 ths)"
proof -
  note init = initLine_effect [OF assms(1-3), where bufs = bufs]
  have "status (slot_line (initLine bufs n c0) p) = C_PRESERVED" "li_data (slot_line (initLine bufs n c0) p) = None"
    "line_ok p (slot_line (initLine bufs n c0) p)" if "place_ok p" for p
    using init(2) [OF that] by (simp_all add: status_def live_def line_ok_def)
  then have "lines_ok (slot_line (initLine bufs n c0))" "(\<Sum>p \<in> places. buf (slot_line (initLine bufs n c0) p)) = {#}"
    by (auto simp: lines_ok_def live_def buf_def places_def intro: sum.neutral)
  moreover have "thread_ok F t (ths t)" "owns (ths t) = {}" if "t < max_appt_num_per_node" for t F
    using assms(4) that by (auto simp: fresh_thread_def thread_ok_def owns_def pending_def)
  ultimately show ?thesis using init(1,3) by (simp add: sys_ok_def cache_start_def buffers_of_def)
qed

section \<open>Running threads\<close>

text \<open>A schedule of steps that can be evaluated: what is run is reachable.\<close>

datatype move = M_Call nat bool GlobalAddress | M_Start nat | M_Lookup nat | M_Insert nat | M_Hit nat
  | M_Reply nat bool | M_Copy nat | M_Finish nat "RawMessage list" | M_Agent u64 RawMessageType

fun run_move :: "RawMessage \<Rightarrow> move \<Rightarrow> cache_sys \<Rightarrow> cache_sys option" where
  "run_move m0 (M_Call t wr addr) y =
     (if at t T_Idle y
      then Some (y\<lparr>cs_thread := (cs_thread y)(t := (cs_thread y t)\<lparr>th_write := wr, th_addr := addr, th_pc := T_Top\<rparr>)\<rparr>)
      else None)"
| "run_move m0 (M_Start t) y =
     (if at t T_Top y then
        (case start_evict m0 (cs_cache y) (appt_of t y) of
           Returned (c, a) \<Rightarrow> Some (goto t T_Lookup (put t c a y)) | _ \<Rightarrow> None)
      else None)"
| "run_move m0 (M_Lookup t) y =
     (if at t T_Lookup y then
        (case lookup_line (th_write (cs_thread y t)) (addr_of t y) (cs_cache y) (appt_of t y) of
           Returned (pc, c) \<Rightarrow> Some (goto t pc (put t c (appt_of t y) y)) | _ \<Rightarrow> None)
      else None)"
| "run_move m0 (M_Insert t) y =
     (if at t T_Insert y then
        (case newLine (set_of (addr_of t y)) (addr_of t y) (cs_cache y) (appt_of t y) of
           Some (r, c, a) \<Rightarrow> Some (goto t (if r = None then T_Wait False else T_Top) (put t c a y)) | None \<Rightarrow> None)
      else None)"
| "run_move m0 (M_Hit t) y =
     (case th_pc (cs_thread y t) of
        T_Hit sh i \<Rightarrow>
          (let l = line_at y (set_of (addr_of t y), sh, i) in
           if t < max_appt_num_per_node \<and> li_lock l = 0 \<and> may_copy (th_write (cs_thread y t)) l
           then Some (goto t T_Idle (copied t l y)) else None)
      | _ \<Rightarrow> None)"
| "run_move m0 (M_Reply t succ) y =
     (case th_pc (cs_thread y t) of
        T_Request q i \<Rightarrow>
          (case end_request q succ (li_status (line_at y (set_of (addr_of t y), False, i))) of
             Some (b, g) \<Rightarrow> if t < max_appt_num_per_node
               then Some (goto t (if b then T_Copy i else T_Wait False)
                      (put t (set_tag (set_of (addr_of t y)) i g (cs_cache y)) (aside None (appt_of t y)) y))
               else None
           | None \<Rightarrow> None)
      | _ \<Rightarrow> None)"
| "run_move m0 (M_Copy t) y =
     (case th_pc (cs_thread y t) of
        T_Copy i \<Rightarrow>
          (let l = line_at y (set_of (addr_of t y), False, i) in
           if t < max_appt_num_per_node \<and> li_lock l = 0 \<and> may_copy (th_write (cs_thread y t)) l
           then Some (goto t (T_Wait True) (copied t l y)) else None)
      | _ \<Rightarrow> None)"
| "run_move m0 (M_Finish t ms) y =
     (case th_pc (cs_thread y t) of
        T_Wait b \<Rightarrow>
          (case wait_evict m0 ms (cs_cache y) (appt_of t y) of
             Returned (ms', c, a) \<Rightarrow> if t < max_appt_num_per_node
               then Some (goto t (if b then T_Idle else T_Top) (put t c a y)) else None
           | _ \<Rightarrow> None)
      | _ \<Rightarrow> None)"
| "run_move m0 (M_Agent tag m) y =
     (case findLineForAgent tag (cs_cache y) of
        Returned (Some (sh, i)) \<Rightarrow>
          (let g = li_status (line_at y (set_of_tag tag, sh, i)) in
           case agent_iteration m (at_status g) g of
             Some (b, g) \<Rightarrow> Some (y\<lparr>cs_cache := (if sh then upd_shadow (set_of_tag tag) i (\<lambda>l. l\<lparr>li_status := g\<rparr>) (cs_cache y)
                                 else set_tag (set_of_tag tag) i g (cs_cache y))\<rparr>)
           | None \<Rightarrow> None)
      | _ \<Rightarrow> None)"

primrec run_moves :: "RawMessage \<Rightarrow> move list \<Rightarrow> cache_sys \<Rightarrow> cache_sys option" where
  "run_moves m0 [] y = Some y"
| "run_moves m0 (v # vs) y = (case run_move m0 v y of None \<Rightarrow> None | Some y \<Rightarrow> run_moves m0 vs y)"

lemmas step_cases =
  cache_step.insert [where r = None, simplified] cache_step.insert [where r = "Some i" for i, simplified]
  cache_step.reply [where b = True and m = None, simplified] cache_step.reply [where b = False and m = None, simplified]
  cache_step.finish [where b = True, simplified] cache_step.finish [where b = False, simplified]
  cache_step.agent [where sh = True, simplified] cache_step.agent [where sh = False, simplified]

lemma run_move_step: "run_move m0 v y = Some y' \<Longrightarrow> cache_step y y'"
  by (cases v)
    (auto split: if_splits outcome.splits option.splits th_pc.splits prod.splits simp: Let_def
      intro: cache_step.intros step_cases)

lemma run_moves_reach: "run_moves m0 vs y = Some y' \<Longrightarrow> cache_step\<^sup>*\<^sup>* y y'"
proof (induction vs arbitrary: y)
  case (Cons v vs)
  then obtain y1 where "run_move m0 v y = Some y1" "run_moves m0 vs y1 = Some y'" by (auto split: option.splits)
  then show ?case using Cons.IH run_move_step by (meson converse_rtranclp_into_rtranclp)
qed simp

end
