(* ===== verification/Cache_Access.thy ===== *)
theory Cache_Access
  imports Cache_Threads
begin

text \<open>
  A whole access of one application thread (\<open>Cache.cpp\<close>): the loops that wait for the replies to a request
  (\<open>readMiss\<close>, \<open>writeMiss\<close>, \<open>writeShared\<close>), and \<open>readLine\<close> and \<open>writeLine\<close> with the bytes they copy, as the thread
  runs them when no other thread of its node interferes. What arrives on the thread's channel is a list
  of messages, each with the bytes the FPGA has stored in the host's memory before it; running out of
  messages is \<open>Waits\<close>. The loops that print a message forever are \<open>Hangs\<close>.
\<close>

section \<open>Memory\<close>

type_synonym memory = "u64 \<Rightarrow> u8"

definition load_bytes :: "memory \<Rightarrow> u64 \<Rightarrow> nat \<Rightarrow> u8 list" where
  "load_bytes mem p n = map (\<lambda>k. mem (p + of_nat k)) [0..<n]"

definition store_bytes :: "u64 \<Rightarrow> u8 list \<Rightarrow> memory \<Rightarrow> memory" where
  "store_bytes p bs mem = (\<lambda>x. let k = unat (x - p) in if k < length bs then bs ! k else mem x)"

record arrival =
  ar_msg :: RawMessage
  ar_dma :: "(u64 \<times> u8 list) list"

definition dma :: "arrival \<Rightarrow> memory \<Rightarrow> memory" where
  "dma r = fold (\<lambda>(p, bs). store_bytes p bs) (ar_dma r)"

record host =
  ho_cache :: cache
  ho_appt :: appt
  ho_mem :: memory
  ho_inbox :: "arrival list"

section \<open>Waiting for replies\<close>

text \<open>A message for another line: one for the eviction under way is put aside, any other stops the
  thread for good.\<close>

definition other_line :: "RawMessage \<Rightarrow> host \<Rightarrow> host option" where
  "other_line m h =
     (if evicting (rm_cline_tag m) (ho_cache h) (ho_appt h)
      then Some (h\<lparr>ho_appt := (ho_appt h)\<lparr>ap_recv_cur := True, ap_cur_msg := m\<rparr>\<rparr>) else None)"

definition take_arrival :: "arrival \<Rightarrow> arrival list \<Rightarrow> host \<Rightarrow> host" where
  "take_arrival r rs h = h\<lparr>ho_mem := dma r (ho_mem h), ho_inbox := rs\<rparr>"

definition line_flag :: "GlobalAddress \<Rightarrow> nat \<Rightarrow> host \<Rightarrow> bool" where
  "line_flag addr i h = at_flag (li_status (ca_lines (ho_cache h) (set_of addr) ! i))"

fun readMiss_loop :: "GlobalAddress \<Rightarrow> nat \<Rightarrow> arrival list \<Rightarrow> host \<Rightarrow> (bool \<times> host) outcome" where
  "readMiss_loop addr i [] h = Waits"
| "readMiss_loop addr i (r # rs) h0 =
     (let h = take_arrival r rs h0; m = ar_msg r in
      if rm_cline_tag m = getTag addr then
        (case mtype_of (rm_mtype m) of
           Some AGENT_2_APP_READ_MISS_DIRTY_ACKDATA \<Rightarrow> Returned (True, h)
         | Some DIR_2_APP_READ_MISS_ACKDATA \<Rightarrow> Returned (True, h)
         | Some DIR_2_APP_M_CHECK_FAIL \<Rightarrow> Returned (False, h)
         | Some DIR_2_APP_BITMAP_CHECK_FAIL \<Rightarrow> if line_flag addr i h then Returned (False, h) else Waits
         | _ \<Rightarrow> Hangs)
      else case other_line m h of Some h \<Rightarrow> readMiss_loop addr i rs h | None \<Rightarrow> Hangs)"

text \<open>\<open>copies\<close> is set to 0 when the last acknowledgement has come, whatever the bitmap says.\<close>

fun writeMiss_loop :: "GlobalAddress \<Rightarrow> nat \<Rightarrow> bool \<Rightarrow> int \<Rightarrow> arrival list \<Rightarrow> host \<Rightarrow> (bool \<times> host) outcome" where
  "writeMiss_loop addr i hasData copies [] h = Waits"
| "writeMiss_loop addr i hasData copies (r # rs) h0 =
     (let h = take_arrival r rs h0; m = ar_msg r in
      if rm_cline_tag m = getTag addr then
        (case mtype_of (rm_mtype m) of
           Some AGENT_2_APP_WRITE_MISS_DIRTY_ACKDATA \<Rightarrow> Returned (True, h)
         | Some DIR_2_APP_WRITE_MISS_ACKDATA \<Rightarrow> Returned (True, h)
         | Some DIR_2_APP_WRITE_MISS_SHAREDDATA \<Rightarrow>
             if hasData then Aborts
             else if copies = 0 then Returned (True, h)
             else writeMiss_loop addr i True copies rs h
         | Some DIR_2_APP_WRITE_MISS_SHARED_AGGACK_ACK \<Rightarrow>
             if hasData then Returned (True, h) else writeMiss_loop addr i hasData 0 rs h
         | Some DIR_2_APP_M_CHECK_FAIL \<Rightarrow> Returned (False, h)
         | Some DIR_2_APP_BITMAP_CHECK_FAIL \<Rightarrow> if line_flag addr i h then Returned (False, h) else Waits
         | _ \<Rightarrow> Hangs)
      else case other_line m h of Some h \<Rightarrow> writeMiss_loop addr i hasData copies rs h | None \<Rightarrow> Hangs)"

fun writeShared_loop :: "GlobalAddress \<Rightarrow> nat \<Rightarrow> arrival list \<Rightarrow> host \<Rightarrow> (bool \<times> host) outcome" where
  "writeShared_loop addr i [] h = Waits"
| "writeShared_loop addr i (r # rs) h0 =
     (let h = take_arrival r rs h0; m = ar_msg r in
      if rm_cline_tag m = getTag addr then
        (case mtype_of (rm_mtype m) of
           Some DIR_2_APP_WRITE_SHARED_NOTONLY_AGGACK_ACK \<Rightarrow> Returned (True, h)
         | Some DIR_2_APP_WRITE_SHARED_ONLYACK \<Rightarrow> Returned (True, h)
         | Some DIR_2_APP_M_CHECK_FAIL \<Rightarrow> Returned (False, h)
         | Some DIR_2_APP_BITMAP_CHECK_FAIL \<Rightarrow> if line_flag addr i h then Returned (False, h) else Waits
         | _ \<Rightarrow> Hangs)
      else case other_line m h of Some h \<Rightarrow> writeShared_loop addr i rs h | None \<Rightarrow> Hangs)"

text \<open>The request is sent first. Its tag is the tag of the address, which the replies carry.\<close>

definition send_request :: "RawMessage \<Rightarrow> RawMessageType \<Rightarrow> GlobalAddress \<Rightarrow> nat \<Rightarrow> host \<Rightarrow> host" where
  "send_request m0 mt addr i h =
     (let l = ca_lines (ho_cache h) (set_of addr) ! i; a = ho_appt h
      in h\<lparr>ho_appt := a\<lparr>ap_sent := ap_sent a @ [generate_message m0 mt addr l a]\<rparr>\<rparr>)"

definition readMiss :: "RawMessage \<Rightarrow> GlobalAddress \<Rightarrow> nat \<Rightarrow> host \<Rightarrow> (bool \<times> host) outcome" where
  "readMiss m0 addr i h = (let h = send_request m0 R_READ_MISS addr i h in readMiss_loop addr i (ho_inbox h) h)"

definition writeMiss :: "RawMessage \<Rightarrow> GlobalAddress \<Rightarrow> nat \<Rightarrow> host \<Rightarrow> (bool \<times> host) outcome" where
  "writeMiss m0 addr i h =
     (let h = send_request m0 R_WRITE_MISS addr i h in writeMiss_loop addr i False (-1) (ho_inbox h) h)"

definition writeShared :: "RawMessage \<Rightarrow> GlobalAddress \<Rightarrow> nat \<Rightarrow> host \<Rightarrow> (bool \<times> host) outcome" where
  "writeShared m0 addr i h =
     (let h = send_request m0 R_WRITE_SHARED addr i h in writeShared_loop addr i (ho_inbox h) h)"

definition request_loop :: "request \<Rightarrow> RawMessage \<Rightarrow> GlobalAddress \<Rightarrow> nat \<Rightarrow> host \<Rightarrow> (bool \<times> host) outcome" where
  "request_loop q = (case q of Q_Read \<Rightarrow> readMiss | Q_Upgrade \<Rightarrow> writeShared | Q_Write \<Rightarrow> writeMiss)"

section \<open>Access to a line\<close>

text \<open>The copy under the lock of the line. \<open>None\<close> is an access that has to be tried again.\<close>

definition line_of_slot :: "GlobalAddress \<Rightarrow> bool \<Rightarrow> nat \<Rightarrow> host \<Rightarrow> LineInfo" where
  "line_of_slot addr sh i h = slot_line (ho_cache h) (set_of addr, sh, i)"

definition read_copy :: "LineInfo \<Rightarrow> nat \<Rightarrow> nat \<Rightarrow> host \<Rightarrow> (u8 list option \<times> host) outcome" where
  "read_copy l start sz h =
     (if li_lock l = 1 then Waits
      else if \<not> may_copy False l then Returned (None, h)
      else case li_data l of
             None \<Rightarrow> Aborts
           | Some p \<Rightarrow> Returned (Some (load_bytes (ho_mem h) (p + of_nat start) sz), h))"

definition write_copy :: "LineInfo \<Rightarrow> nat \<Rightarrow> u8 list \<Rightarrow> host \<Rightarrow> (unit option \<times> host) outcome" where
  "write_copy l start bs h =
     (if li_lock l \<noteq> 0 then Waits
      else if \<not> may_copy True l then Returned (None, h)
      else case li_data l of
             None \<Rightarrow> Aborts
           | Some p \<Rightarrow> Returned (Some (), h\<lparr>ho_mem := store_bytes (p + of_nat start) bs (ho_mem h)\<rparr>))"

definition take_out :: "RawMessage \<Rightarrow> 'a \<Rightarrow> host \<Rightarrow> ('a \<times> host) outcome" where
  "take_out m0 v h =
     (case wait_evict m0 (map ar_msg (ho_inbox h)) (ho_cache h) (ho_appt h) of
        Returned (ms, c, a) \<Rightarrow>
          (let n = length (ho_inbox h) - length ms
           in Returned (v, h\<lparr>ho_cache := c, ho_appt := a, ho_mem := fold dma (take n (ho_inbox h)) (ho_mem h),
                            ho_inbox := drop n (ho_inbox h)\<rparr>))
      | Waits \<Rightarrow> Waits | Hangs \<Rightarrow> Hangs | Aborts \<Rightarrow> Aborts)"

text \<open>One pass of the loop of \<open>readLine\<close> or \<open>writeLine\<close>, over the copy it makes.\<close>

definition access_pass :: "RawMessage \<Rightarrow> bool \<Rightarrow> (LineInfo \<Rightarrow> host \<Rightarrow> ('a option \<times> host) outcome) \<Rightarrow> GlobalAddress \<Rightarrow> host \<Rightarrow>
    ('a option \<times> host) outcome" where
  "access_pass m0 wr copy addr h =
     (case start_evict m0 (ho_cache h) (ho_appt h) of
        Returned (c, a) \<Rightarrow>
          (let h = h\<lparr>ho_cache := c, ho_appt := a\<rparr> in
           case lookup_line wr addr c a of
             Returned (pc, c) \<Rightarrow>
               (let h = h\<lparr>ho_cache := c\<rparr> in
                case pc of
                  T_Insert \<Rightarrow>
                    (case newLine (set_of addr) addr c a of
                       None \<Rightarrow> Aborts
                     | Some (Some i, c, a) \<Rightarrow> Returned (None, h\<lparr>ho_cache := c, ho_appt := a\<rparr>)
                     | Some (None, c, a) \<Rightarrow> take_out m0 None (h\<lparr>ho_cache := c, ho_appt := a\<rparr>))
                | T_Hit sh i \<Rightarrow>
                    (case copy (line_of_slot addr sh i h) h of
                       Returned (Some v, h) \<Rightarrow> Returned (Some v, h)
                     | Returned (None, h) \<Rightarrow> take_out m0 None h
                     | Waits \<Rightarrow> Waits | Hangs \<Rightarrow> Hangs | Aborts \<Rightarrow> Aborts)
                | T_Request q i \<Rightarrow>
                    (case request_loop q m0 addr i h of
                       Returned (succ, h) \<Rightarrow>
                         (case end_request q succ (li_status (line_of_slot addr False i h)) of
                            None \<Rightarrow> Hangs
                          | Some (b, t) \<Rightarrow>
                              (let h = h\<lparr>ho_cache := set_tag (set_of addr) i t (ho_cache h)\<rparr> in
                               if \<not> b then take_out m0 None h
                               else case copy (line_of_slot addr False i h) h of
                                      Returned (v, h) \<Rightarrow> take_out m0 v h
                                    | Waits \<Rightarrow> Waits | Hangs \<Rightarrow> Hangs | Aborts \<Rightarrow> Aborts))
                     | Waits \<Rightarrow> Waits | Hangs \<Rightarrow> Hangs | Aborts \<Rightarrow> Aborts)
                | _ \<Rightarrow> take_out m0 None h)
           | Waits \<Rightarrow> Waits | Hangs \<Rightarrow> Hangs | Aborts \<Rightarrow> Aborts)
      | Waits \<Rightarrow> Waits | Hangs \<Rightarrow> Hangs | Aborts \<Rightarrow> Aborts)"

text \<open>The loop; not ending is \<open>None\<close>.\<close>

partial_function (option) access_loop :: "(host \<Rightarrow> ('a option \<times> host) outcome) \<Rightarrow> host \<Rightarrow> ('a \<times> host) outcome option" where
  "access_loop pass h =
     (case pass h of
        Returned (Some v, h) \<Rightarrow> Some (Returned (v, h))
      | Returned (None, h) \<Rightarrow> access_loop pass h
      | Waits \<Rightarrow> Some Waits | Hangs \<Rightarrow> Some Hangs | Aborts \<Rightarrow> Some Aborts)"

definition readLine :: "RawMessage \<Rightarrow> GlobalAddress \<Rightarrow> nat \<Rightarrow> nat \<Rightarrow> host \<Rightarrow> (u8 list \<times> host) outcome option" where
  "readLine m0 addr start sz = access_loop (access_pass m0 False (\<lambda>l. read_copy l start sz) addr)"

definition writeLine :: "RawMessage \<Rightarrow> GlobalAddress \<Rightarrow> nat \<Rightarrow> u8 list \<Rightarrow> host \<Rightarrow> (unit \<times> host) outcome option" where
  "writeLine m0 addr start bs = access_loop (access_pass m0 True (\<lambda>l. write_copy l start bs) addr)"

end
