(* ===== verification/Cache_Safety.thy ===== *)
theory Cache_Safety
  imports Cache_Threads
begin

text \<open>
  What \<open>Cache_Threads\<close> guarantees however the threads and agents of a node interleave, and three schedules
  in which the code goes wrong: an eviction that nobody waits for any more, an eviction that waits for
  a lock its own thread holds, and a hit that copies from another line.
\<close>

section \<open>Lines nobody owns\<close>

text \<open>A line in a shadow set that is in use and that no thread has to evict stays as it is for good.\<close>

definition abandoned :: "place \<Rightarrow> cache_sys \<Rightarrow> bool" where
  "abandoned p y \<longleftrightarrow> fst (snd p) \<and> live (line_at y p) \<and> (\<forall>t < max_appt_num_per_node. p \<notin> owns (cs_thread y t))"

definition same_lock :: "place \<Rightarrow> cache_sys \<Rightarrow> cache_sys \<Rightarrow> bool" where
  "same_lock p y y' \<longleftrightarrow> li_lock (line_at y' p) = li_lock (line_at y p) \<and> li_tag (line_at y' p) = li_tag (line_at y p)"

lemma abandonedI:
  assumes "abandoned p y" "cs_thread y' = (cs_thread y)(t := th)" "p \<notin> owns th" "line_at y' p = line_at y p"
  shows "abandoned p y' \<and> same_lock p y y'"
  using assms by (simp add: abandoned_def same_lock_def)

lemma abandoned_local:
  assumes "abandoned p y" "at t pc y" "cs_thread y' = (cs_thread y)(t := th)" "th_appt th = appt_of t y" "line_at y' p = line_at y p"
  shows "abandoned p y' \<and> same_lock p y y'"
proof (rule abandonedI [OF assms(1,3) _ assms(5)])
  have "p \<notin> owns (cs_thread y t)" "fst (snd p)" using assms(1,2) by (auto simp: abandoned_def)
  then show "p \<notin> owns th" using assms(4) by (auto simp: owns_def)
qed

lemma abandoned_start:
  assumes ab: "abandoned p y" and ok: "sys_ok B y" and at: "at t T_Top y"
    and ev: "start_evict m0 (cs_cache y) (appt_of t y) = Returned (c, a)"
  shows "abandoned p (goto t T_Lookup (put t c a y)) \<and> same_lock p y (goto t T_Lookup (put t c a y))"
    (is "abandoned p ?y \<and> _")
proof -
  have t: "t < max_appt_num_per_node" using at by simp
  have pend: "\<forall>r \<in> pending (appt_of t y). snd r < CACHE_WAYS \<and> live (line_at y (evict_place r))"
    using pending_bounds [OF ok t] by blast
  have no: "p \<noteq> evict_place r" if "r \<in> pending (appt_of t y)" for r
    using ab t that by (auto simp: abandoned_def owns_def)
  have keep: "slot_line c p = line_at y p \<and> pending a \<subseteq> pending (appt_of t y)"
    using ev sys_okD(1,2) [OF ok] pend
  proof (cases rule: start_evict_cases)
    case (released r b)
    then have "r \<in> pending (appt_of t y)" by (simp add: pending_def)
    from no [OF this] show ?thesis using released by (auto simp: pending_def)
  next
    case (sent r e m)
    then have "r \<in> pending (appt_of t y)" by (simp add: pending_def)
    from no [OF this] show ?thesis using sent by (auto simp: pending_def)
  qed simp
  show ?thesis
    by (rule abandonedI [OF ab, where th = "(cs_thread y t)\<lparr>th_appt := a, th_pc := T_Lookup\<rparr>"])
      (use keep no in \<open>auto simp: owns_def\<close>)
qed

lemma abandoned_insert:
  assumes ab: "abandoned p y" and ok: "sys_ok B y" and at: "at t T_Insert y"
    and nl: "newLine (set_of (addr_of t y)) (addr_of t y) (cs_cache y) (appt_of t y) = Some (r, c, a)"
  shows "abandoned p (goto t (if r = None then T_Wait False else T_Top) (put t c a y))
    \<and> same_lock p y (goto t (if r = None then T_Wait False else T_Top) (put t c a y))" (is "abandoned p ?y \<and> _")
proof -
  have t: "t < max_appt_num_per_node" using at by simp
  have p: "fst (snd p)" "live (line_at y p)" "p \<notin> owns (cs_thread y t)" using ab t by (auto simp: abandoned_def)
  have keep: "slot_line c p = line_at y p \<and> p \<notin> evict_place ` pending a"
    using nl sys_okD(1) [OF ok]
  proof (cases rule: newLine_cases)
    case (evict i st b)
    then have "p \<noteq> evict_place (set_of (addr_of t y), i)" using p by auto
    with evict p show ?thesis by (auto simp: owns_def pending_def)
  qed (use p in \<open>auto simp: owns_def\<close>)
  show ?thesis
    by (rule abandonedI [OF ab, where th = "(cs_thread y t)\<lparr>th_appt := a, th_pc := (if r = None then T_Wait False else T_Top)\<rparr>"])
      (use keep in \<open>auto simp: owns_def\<close>)
qed

lemma abandoned_finish:
  assumes ab: "abandoned p y" and ok: "sys_ok B y" and at: "at t (T_Wait b) y"
    and we: "wait_evict m0 ms (cs_cache y) (appt_of t y) = Returned (ms', c, a)"
  shows "abandoned p (goto t (if b then T_Idle else T_Top) (put t c a y))
    \<and> same_lock p y (goto t (if b then T_Idle else T_Top) (put t c a y))" (is "abandoned p ?y \<and> _")
proof -
  have t: "t < max_appt_num_per_node" using at by simp
  have ns: "\<not> ap_start_next (appt_of t y)" by (rule not_starting [OF ok at]) simp
  note tok = sys_okD(4) [OF ok t]
  have keep: "slot_line c p = line_at y p \<and> pending a \<subseteq> pending (appt_of t y)"
  proof (cases "ap_wait_cur (appt_of t y)")
    case False
    then show ?thesis using we by (simp add: wait_evict_def)
  next
    case True
    then obtain r where r: "ap_cur_evict (appt_of t y) = Some r" using tok by (auto simp: thread_ok_def)
    then have rp: "r \<in> pending (appt_of t y)" using True by (simp add: pending_def)
    note pb = pending_bounds [OF ok t rp]
    have lock: "li_lock (line_at y (evict_place r)) \<noteq> 0" using tok True r by (auto simp: thread_ok_def)
    have no: "p \<noteq> evict_place r" using ab t rp by (auto simp: abandoned_def owns_def)
    from wait_evict_effect [OF we sys_okD(1,2) [OF ok] True r pb(2,3) lock]
    have "\<not> ap_wait_cur a \<and> \<not> ap_start_next a
      \<and> slot_line c = (line_at y)(evict_place r := (freed (line_at y (evict_place r)))\<lparr>li_lock := 0\<rparr>)"
      using ns by metis
    then show ?thesis using no by (auto simp: pending_def)
  qed
  show ?thesis
    by (rule abandonedI [OF ab, where th = "(cs_thread y t)\<lparr>th_appt := a, th_pc := (if b then T_Idle else T_Top)\<rparr>"])
      (use keep ab t in \<open>auto simp: owns_def abandoned_def\<close>)
qed

lemma abandoned_step:
  assumes "cache_step y y'" "abandoned p y" "sys_ok B y"
  shows "abandoned p y' \<and> same_lock p y y'"
  using assms(1)
proof (cases rule: cache_step.cases)
  case (call t addr wr)
  then show ?thesis by (intro abandoned_local [OF assms(2), where t = t and th = "(cs_thread y t)\<lparr>th_write := wr, th_addr := addr, th_pc := T_Top\<rparr>"]) auto
next
  case (start t m0 c a)
  then show ?thesis using abandoned_start [OF assms(2,3)] by blast
next
  case (lookup t pc c)
  have "slot_line c p = line_at y p"
    using lookup(3) assms(2) sys_okD(1) [OF assms(3)] by (cases rule: lookup_cases) (auto simp: abandoned_def)
  then show ?thesis using lookup
    by (intro abandoned_local [OF assms(2), where t = t and th = "(cs_thread y t)\<lparr>th_pc := pc\<rparr>"]) auto
next
  case (insert t r c a)
  then show ?thesis using abandoned_insert [OF assms(2,3)] by blast
next
  case (hit t sh i l)
  then show ?thesis by (intro abandoned_local [OF assms(2), where t = t and th = "(cs_thread y t)\<lparr>th_pc := T_Idle\<rparr>"]) auto
next
  case (miss t sh i l)
  then show ?thesis by (intro abandoned_local [OF assms(2), where t = t and th = "(cs_thread y t)\<lparr>th_pc := T_Wait False\<rparr>"]) auto
next
  case (reply t q i succ b g m)
  then have "i < CACHE_WAYS" using sys_okD(4) [OF assms(3), of t] by (simp add: thread_ok_def)
  moreover have "p \<notin> owns (cs_thread y t)" using assms(2) reply(2) by (simp add: abandoned_def)
  ultimately show ?thesis using reply assms(2) sys_okD(1) [OF assms(3)]
    by (intro abandonedI [OF assms(2), where t = t and
          th = "(cs_thread y t)\<lparr>th_appt := aside m (appt_of t y), th_pc := (if b then T_Copy i else T_Wait False)\<rparr>"])
      (auto simp: abandoned_def owns_def split: if_splits)
next
  case (copy t i l)
  then show ?thesis by (intro abandoned_local [OF assms(2), where t = t and th = "(cs_thread y t)\<lparr>th_pc := T_Wait True\<rparr>"]) auto
next
  case (no_copy t i l)
  then show ?thesis by (intro abandoned_local [OF assms(2), where t = t and th = "(cs_thread y t)\<lparr>th_pc := T_Wait False\<rparr>"]) auto
next
  case (finish t b m0 ms ms' c a)
  then show ?thesis using abandoned_finish [OF assms(2,3)] by blast
next
  case (agent tag sh i m seen b g)
  have F: "line_at y' = (line_at y)((set_of_tag tag, sh, i) := (line_at y (set_of_tag tag, sh, i))\<lparr>li_status := g\<rparr>)"
    using agent(1) agent_found(1) [OF agent(2)] sys_okD(1) [OF assms(3)] by (cases sh) (simp_all add: shape_length)
  have "at_status g \<noteq> C_PRESERVED" using agent_status(1) [OF agent(3)] agent_found(2) [OF agent(2)] by (simp add: live_def status_def)
  then show ?thesis using assms(2) agent(1) unfolding abandoned_def same_lock_def F by auto
qed

lemma abandoned_for_good:
  assumes "cache_step\<^sup>*\<^sup>* y y'" "abandoned p y" "sys_ok B y"
  shows "abandoned p y' \<and> same_lock p y y' \<and> sys_ok B y'"
  using assms
proof (induction rule: rtranclp_induct)
  case (step z y')
  then have z: "abandoned p z" "same_lock p y z" "sys_ok B z" by simp_all
  show ?case using abandoned_step [OF step(2) z(1,3)] cache_step_ok [OF step(2) z(3)] z(2) by (simp add: same_lock_def)
qed (simp add: same_lock_def)

section \<open>Schedules\<close>

definition no_message :: RawMessage where
  "no_message = \<lparr>rm_mtype = 0, rm_req_cline_nodeID = 0, rm_req_cline_appThreadID = 0, rm_req_cline_addr = 0,
     rm_req_cline_index = 0, rm_cline_tag = 0, rm_agent_cline_nodeID = 0, rm_agent_cline_addr = 0,
     rm_dir_gblock_addr = 0, rm_dir_gblock_index = 0, rm_dir_gblock_bitmap = replicate 8 0,
     rm_dir_gblock_nodeID = 0, rm_general_c2h_owner = 0, rm_init_state = 0, rm_init_mac = replicate 6 0,
     rm_padding_0 = 0, rm_padding_1 = 0\<rparr>"

definition no_line :: LineInfo where
  "no_line = \<lparr>li_lock = 0, li_data = None, li_status = \<lparr>at_flag = False, at_status = C_INVALID\<rparr>, li_line_index = 0,
     li_shadow_flag = False, li_tag = 0, li_addr = Null, li_set_index = 0, li_slot_index = 0\<rparr>"

definition no_cache :: cache where
  "no_cache = \<lparr>ca_lines = \<lambda>s. replicate CACHE_WAYS no_line, ca_shadow = \<lambda>s. replicate CACHE_WAYS no_line,
     ca_stack = \<lambda>a. []\<rparr>"

definition new_thread :: "nat \<Rightarrow> thread" where
  "new_thread t = \<lparr>th_write = False, th_addr = Null, th_pc = T_Idle, th_appt = \<lparr>ap_req_appt_id = t, ap_node_id = 0,
     ap_start_next = False, ap_wait_cur = False, ap_cur_evict = None, ap_next_evict = None, ap_recv_cur = False,
     ap_cur_msg = no_message, ap_evict_type = EVICT_SHARED, ap_sent = []\<rparr>\<rparr>"

text \<open>Line \<open>k\<close> of node 0. The lines used below are all in set 0.\<close>

definition line_addr_of :: "u64 \<Rightarrow> GlobalAddress" where
  "line_addr_of k = \<lparr>ga_addr = 4096 * k, ga_nodeID = 0, ga_org = 0\<rparr>"

definition sample_start :: "u64 list \<Rightarrow> nat \<Rightarrow> cache_sys" where
  "sample_start bufs n = cache_start bufs n no_cache new_thread"

lemma sample_ok: "blank_cache no_cache" "\<forall>t < max_appt_num_per_node. fresh_thread t (new_thread t)"
  by (simp_all add: blank_cache_def no_cache_def shape_def fresh_thread_def new_thread_def)

lemma calLineSet_code [code]:
  "calLineSet tag = ucast (jenkins (bytes_of 4 (ucast tag :: u32)) mod 65536)"
  by (simp add: calLineSet_def DSM_CACHE_INDEX_SIZE_def DSM_CACHE_INDEX_WIDTH_def)

definition take_line :: "nat \<Rightarrow> u64 \<Rightarrow> move list" where
  "take_line t k = [M_Call t False (line_addr_of k), M_Start t, M_Lookup t, M_Insert t]"

definition fetch_line :: "nat \<Rightarrow> move list" where
  "fetch_line t = [M_Start t, M_Lookup t, M_Reply t True, M_Copy t, M_Finish t []]"

text \<open>Thread 0 finds its line and lets the lock of the set go; the line is invalidated, and thread 1, which
  has no buffer in reserve, takes the slot for another line and fills it; then thread 0 copies.\<close>

definition stale_hit :: "move list" where
  "stale_hit = take_line 0 0 @ fetch_line 0
     @ [M_Call 0 False (line_addr_of 0), M_Start 0, M_Lookup 0, M_Agent (getTag (line_addr_of 0)) DIR_2_AGENT_WRITE_MISS_SHARED]
     @ take_line 1 33548 @ fetch_line 1 @ [M_Hit 0]"

text \<open>The eight lines of the set are in use when thread 0 takes a slot for a ninth and has to evict; before
  it looks the line up again thread 1 has fetched it, so thread 0 hits and returns without waiting for
  the eviction. Its next access evicts another line.\<close>

definition lost_eviction :: "move list" where
  "lost_eviction = take_line 0 0 @ fetch_line 0 @ take_line 1 33548 @ fetch_line 1
     @ take_line 2 34036 @ take_line 3 331580 @ take_line 4 331972 @ take_line 5 413794 @ take_line 6 414622
     @ take_line 7 560899 @ take_line 0 561405 @ M_Call 1 False (line_addr_of 561405) # fetch_line 1
     @ [M_Start 0, M_Lookup 0, M_Hit 0] @ take_line 0 766848 @ [M_Start 0]"

definition ten_buffers :: "u64 list" where
  "ten_buffers = [0x1000, 0x2000, 0x3000, 0x4000, 0x5000, 0x6000, 0x7000, 0x8000, 0x9000, 0xa000, 0xb000, 0xc000, 0xd000, 0xe000, 0xf000, 0x10000, 0x11000]"

lemma stale_hit_run:
  "case run_moves no_message stale_hit (sample_start [64] 2) of None \<Rightarrow> False
   | Some y \<Rightarrow> (case cs_copies y of [] \<Rightarrow> False
       | (tag, l) # _ \<Rightarrow> tag = getTag (line_addr_of 0) \<and> li_tag l = getTag (line_addr_of 33548))"
  by code_simp

lemma lost_eviction_run:
  "case run_moves no_message lost_eviction (sample_start ten_buffers 8) of None \<Rightarrow> False
   | Some y \<Rightarrow> live (line_at y (0, True, 7)) \<and> li_lock (line_at y (0, True, 7)) = 1
       \<and> li_tag (line_at y (0, True, 7)) = getTag (line_addr_of 0)
       \<and> list_all (\<lambda>t. (ap_start_next (appt_of t y) \<longrightarrow> ap_next_evict (appt_of t y) \<noteq> Some (0, 7))
            \<and> (ap_wait_cur (appt_of t y) \<longrightarrow> ap_cur_evict (appt_of t y) \<noteq> Some (0, 7))) [0..<max_appt_num_per_node]"
  by code_simp

lemma request_run:
  "case run_moves no_message (take_line 0 0 @ [M_Start 0, M_Lookup 0]) (sample_start [64] 2) of None \<Rightarrow> False
   | Some y \<Rightarrow> th_pc (cs_thread y 0) = T_Request Q_Read 7 \<and> li_data (line_at y (0, False, 7)) = Some 64
       \<and> addr_of 0 y = line_addr_of 0"
  by code_simp

lemma request_reach:
  obtains y where "cache_step\<^sup>*\<^sup>* (cache_start [64] 2 no_cache new_thread) y" "th_pc (cs_thread y 0) = T_Request Q_Read 7"
    "li_data (line_at y (0, False, 7)) = Some 64" "addr_of 0 y = line_addr_of 0"
  using request_run run_moves_reach by (fastforce simp: sample_start_def split: option.splits)

section \<open>Properties\<close>



text \<open>(C36) Buffers are neither lost nor copied: in every reachable state the lines and the threads' stacks
  together hold exactly the buffers \<open>initLine\<close> was given, so no two lines ever share one, and none that a
  line uses is in reserve.\<close>

theorem buffers_never_shared:
  assumes "blank_cache c0" "0 < n" "n \<le> max_appt_num_per_node" "\<forall>t < max_appt_num_per_node. fresh_thread t (ths t)"
    and "cache_step\<^sup>*\<^sup>* (cache_start bufs n c0 ths) y" and "distinct bufs"
    and "p \<in> places" "li_data (line_at y p) = Some b"
  shows "buffers_of (line_at y) (ca_stack (cs_cache y)) = mset bufs
    \<and> (q \<in> places \<and> q \<noteq> p \<longrightarrow> li_data (line_at y q) \<noteq> Some b)
    \<and> (t < max_appt_num_per_node \<longrightarrow> b \<notin> set (ca_stack (cs_cache y) t))"
proof -
  have B: "buffers_of (line_at y) (ca_stack (cs_cache y)) = mset bufs"
    by (rule sys_okD(3) [OF cache_reach_ok [OF assms(5) cache_start_ok [OF assms(1-4)]]])
  have "count (buffers_of (line_at y) (ca_stack (cs_cache y))) c \<le> 1" for c
    unfolding B using assms(6) by (simp add: distinct_count_atmost_1)
  from B buffers_apart [OF this assms(7,8)] show ?thesis by blast
qed

theorem buffers_never_shared_witness:
  "\<exists>y. li_data (line_at y (0, False, 7)) = Some 64 \<and> li_data (line_at y (0, True, 7)) \<noteq> Some 64"
proof -
  obtain y where "cache_step\<^sup>*\<^sup>* (cache_start [64] 2 no_cache new_thread) y" "li_data (line_at y (0, False, 7)) = Some 64"
    by (rule request_reach)
  then show ?thesis
    using buffers_never_shared [OF sample_ok(1) _ _ sample_ok(2), of 2 "[64]" y "(0, False, 7)" 64 "(0, True, 7)"]
    by (auto simp: max_appt_num_per_node_def CACHE_WAYS_def DSM_CACHE_INDEX_SIZE_def)
qed

text \<open>(C37) While a thread waits for the reply to its request, the line of the request stays in its slot with
  its tag and the status of the request, and no other thread has a request for a line of that tag.\<close>

theorem request_keeps_its_line:
  assumes "blank_cache c0" "0 < n" "n \<le> max_appt_num_per_node" "\<forall>t < max_appt_num_per_node. fresh_thread t (ths t)"
    and "cache_step\<^sup>*\<^sup>* (cache_start bufs n c0 ths) y"
    and "t < max_appt_num_per_node" "th_pc (cs_thread y t) = T_Request q i"
  shows "li_tag (line_at y (set_of (addr_of t y), False, i)) = getTag (addr_of t y)
    \<and> status (line_at y (set_of (addr_of t y), False, i)) = req_status q
    \<and> (\<forall>u < max_appt_num_per_node. \<forall>q' j. u \<noteq> t \<and> th_pc (cs_thread y u) = T_Request q' j \<longrightarrow> getTag (addr_of u y) \<noteq> getTag (addr_of t y))"
proof -
  note ok = cache_reach_ok [OF assms(5) cache_start_ok [OF assms(1-4)]]
  note line = sys_okD(4) [OF ok, unfolded thread_ok_def]
  have "getTag (addr_of u y) \<noteq> getTag (addr_of t y)"
    if "u < max_appt_num_per_node" "u \<noteq> t" and pc: "th_pc (cs_thread y u) = T_Request q' j" for u q' j
  proof
    assume eq: "getTag (addr_of u y) = getTag (addr_of t y)"
    let ?p = "(set_of (addr_of t y), False, i)" and ?r = "(set_of (addr_of u y), False, j)"
    have "status (line_at y ?p) = req_status q" "status (line_at y ?r) = req_status q'"
      using line [OF assms(6)] line [OF that(1)] assms(7) pc by auto
    then have "live (line_at y ?p)" "live (line_at y ?r)" by (cases q; cases q'; simp add: live_def)+
    moreover have "place_ok ?p" "place_ok ?r" "li_tag (line_at y ?p) = li_tag (line_at y ?r)"
      using line [OF assms(6)] line [OF that(1)] assms(7) pc eq by auto
    ultimately have "?r = ?p" using lines_okD(2) [OF sys_okD(2) [OF ok], of ?p ?r] by simp
    then show False using request_owned [OF ok assms(6) that(1,2) assms(7)] pc by (auto simp: owns_def)
  qed
  then show ?thesis using line [OF assms(6)] assms(7) by blast
qed

theorem request_keeps_its_line_witness:
  "\<exists>y. th_pc (cs_thread y 0) = T_Request Q_Read 7 \<and> status (line_at y (set_of (addr_of 0 y), False, 7)) = C_TO_SHARED"
proof -
  obtain y where "cache_step\<^sup>*\<^sup>* (cache_start [64] 2 no_cache new_thread) y" "th_pc (cs_thread y 0) = T_Request Q_Read 7"
    by (rule request_reach)
  then show ?thesis using request_keeps_its_line [OF sample_ok(1) _ _ sample_ok(2), of 2 "[64]" y 0 Q_Read 7]
    by (auto simp: max_appt_num_per_node_def)
qed

text \<open>(C38) A thread can begin a second eviction before the first is over and forget the first: there is a
  schedule of two threads after which a line of the shadow set is in use and locked although no thread
  has its eviction to start or to wait for; whatever is done from there, its slot is never given back.\<close>

theorem eviction_forgotten:
  "\<exists>y p. cache_step\<^sup>*\<^sup>* (cache_start ten_buffers 8 no_cache new_thread) y \<and> p \<in> places
     \<and> (\<forall>y'. cache_step\<^sup>*\<^sup>* y y' \<longrightarrow> live (line_at y' p) \<and> li_lock (line_at y' p) = 1
            \<and> (\<forall>t < max_appt_num_per_node. p \<notin> owns (cs_thread y' t)))"
proof -
  obtain y where y: "run_moves no_message lost_eviction (sample_start ten_buffers 8) = Some y"
    "live (line_at y (0, True, 7))" "li_lock (line_at y (0, True, 7)) = 1"
    "list_all (\<lambda>t. (ap_start_next (appt_of t y) \<longrightarrow> ap_next_evict (appt_of t y) \<noteq> Some (0, 7))
            \<and> (ap_wait_cur (appt_of t y) \<longrightarrow> ap_cur_evict (appt_of t y) \<noteq> Some (0, 7))) [0..<max_appt_num_per_node]"
    using lost_eviction_run by (auto split: option.splits)
  note reach = run_moves_reach [OF y(1), unfolded sample_start_def]
  have "(0, True, 7) \<notin> owns (cs_thread y t)" if "t < max_appt_num_per_node" for t
    using y(4) that by (auto simp: owns_def pending_def list_all_iff)
  then have ab: "abandoned (0, True, 7) y" using y(2) by (simp add: abandoned_def)
  have ok: "sys_ok (mset ten_buffers) y"
    by (rule cache_reach_ok [OF reach cache_start_ok [OF sample_ok(1) _ _ sample_ok(2)]]) (simp_all add: max_appt_num_per_node_def)
  have "live (line_at y' (0, True, 7)) \<and> li_lock (line_at y' (0, True, 7)) = 1
      \<and> (\<forall>t < max_appt_num_per_node. (0, True, 7) \<notin> owns (cs_thread y' t))" if "cache_step\<^sup>*\<^sup>* y y'" for y'
    using abandoned_for_good [OF that ab ok] y(3) by (simp add: abandoned_def same_lock_def)
  moreover have "(0, True, 7) \<in> places" by (simp add: CACHE_WAYS_def DSM_CACHE_INDEX_SIZE_def)
  ultimately show ?thesis using reach by blast
qed

theorem eviction_forgotten_witness: "\<exists>y p. li_lock (line_at y p) = 1 \<and> p \<notin> owns (cs_thread y 0)"
  using eviction_forgotten by (fastforce simp: max_appt_num_per_node_def)

text \<open>(C39) An eviction the directory refuses while its line is still valid is started again by the thread
  that waits for it, which then waits for the lock of the line that it has held since the first start.\<close>

theorem refused_eviction_waits_for_itself:
  assumes "start_evict m0 c a = Returned (c', a')" "ap_start_next a" "ap_next_evict a = Some r"
    and "snd r < length (ca_shadow c (fst r))" "li_status (shadow_at c r) \<in> {\<lparr>at_flag = False, at_status = C_SHARED\<rparr>, \<lparr>at_flag = False, at_status = C_MODIFIED\<rparr>}"
    and "\<not> ap_recv_cur a" "rm_cline_tag m = li_tag (shadow_at c r)" "mtype_of (rm_mtype m) = Some DIR_2_APP_M_CHECK_FAIL"
  shows "wait_evict m0 (m # ms) c' a' = Waits"
proof -
  let ?l = "slot_line c (evict_place r)" and ?t = "\<lparr>at_flag = False, at_status = C_TO_PRESERVED\<rparr>"
  have l: "li_status ?l \<in> {\<lparr>at_flag = False, at_status = C_SHARED\<rparr>, \<lparr>at_flag = False, at_status = C_MODIFIED\<rparr>}"
    using assms(5) by (simp add: slot_line_simps)
  have eff: "li_lock ?l = 0" "ap_wait_cur a'" "ap_cur_evict a' = Some r" "\<not> ap_recv_cur a'" "ap_evict_type a' = evict_type_of (status ?l)"
    "c' = upd_shadow (fst r) (snd r) (\<lambda>l. l\<lparr>li_status := snd (casStatus (at_flag (li_status l)) (status ?l) C_TO_PRESERVED (li_status l)), li_lock := 1\<rparr>) c"
    using assms(1-3,6) l by (auto simp: start_evict_def Let_def slot_line_simps status_def split: if_splits)
  have F: "slot_line c' (evict_place r) = ?l\<lparr>li_status := ?t, li_lock := 1\<rparr>"
    unfolding eff(6) using assms(4) l by (auto simp: casStatus_def casFlagAndStatus_def status_def)
  have "evict_reply m0 m r c' (a'\<lparr>ap_recv_cur := False\<rparr>) = Waits"
  proof (rule refused_waits)
    show "evict_refused (ap_evict_type (a'\<lparr>ap_recv_cur := False\<rparr>)) (li_status (slot_line c' (evict_place r)))
      = Some (False, \<lparr>at_flag = False, at_status = status ?l\<rparr>)"
      using l eff(5) by (auto simp: F evict_refused_def evict_type_of_def try_swaps.simps(2) casFlagAndStatus_def status_def)
    show "snd r < length (ca_shadow c' (fst r))" using assms(4) eff(6) by (simp add: upd_shadow_def)
  qed (use assms(7,8) l in \<open>auto simp: F slot_line_simps status_def\<close>)
  then show ?thesis using eff(2-4) by (simp add: wait_evict_def)
qed

definition sample_refused :: "cache \<times> appt" where
  "sample_refused = (upd_shadow 0 7 (\<lambda>l. l\<lparr>li_status := \<lparr>at_flag = False, at_status = C_SHARED\<rparr>, li_data := Some 64\<rparr>) no_cache,
     (th_appt (new_thread 0))\<lparr>ap_start_next := True, ap_next_evict := Some (0, 7)\<rparr>)"

theorem refused_eviction_waits_for_itself_witness:
  "\<exists>c a. start_evict no_message (fst sample_refused) (snd sample_refused) = Returned (c, a)
     \<and> wait_evict no_message [no_message\<lparr>rm_mtype := mtype_code DIR_2_APP_M_CHECK_FAIL\<rparr>] c a = Waits"
proof -
  have "case start_evict no_message (fst sample_refused) (snd sample_refused) of Returned (c, a) \<Rightarrow> True | _ \<Rightarrow> False"
    by code_simp
  then obtain c a where ca: "start_evict no_message (fst sample_refused) (snd sample_refused) = Returned (c, a)"
    by (auto split: outcome.splits)
  have f: "ap_start_next (snd sample_refused)" "ap_next_evict (snd sample_refused) = Some (0, 7)"
    "length (ca_shadow (fst sample_refused) 0) = 8" "\<not> ap_recv_cur (snd sample_refused)"
    "li_tag (shadow_at (fst sample_refused) (0, 7)) = 0"
    "li_status (shadow_at (fst sample_refused) (0, 7)) = \<lparr>at_flag = False, at_status = C_SHARED\<rparr>"
    "mtype_of (mtype_code DIR_2_APP_M_CHECK_FAIL) = Some DIR_2_APP_M_CHECK_FAIL"
    by code_simp+
  have "wait_evict no_message [no_message\<lparr>rm_mtype := mtype_code DIR_2_APP_M_CHECK_FAIL\<rparr>] c a = Waits"
    by (rule refused_eviction_waits_for_itself [OF ca f(1,2)]) (use f in \<open>simp_all add: no_message_def\<close>)
  with ca show ?thesis by blast
qed

text \<open>(C40) A hit can copy from a line that is not the one asked for: between letting the lock of the set go
  and taking the lock of the line, nothing keeps the slot from being given to another address.\<close>

theorem hit_copies_other_line:
  "\<exists>y tag l. cache_step\<^sup>*\<^sup>* (cache_start [64] 2 no_cache new_thread) y \<and> (tag, l) \<in> set (cs_copies y) \<and> li_tag l \<noteq> tag"
proof -
  have "getTag (line_addr_of 0) \<noteq> getTag (line_addr_of 33548)" by code_simp
  then obtain y tag l where "run_moves no_message stale_hit (sample_start [64] 2) = Some y" "(tag, l) \<in> set (cs_copies y)" "li_tag l \<noteq> tag"
    using stale_hit_run by (fastforce split: option.splits list.splits)
  then show ?thesis using run_moves_reach by (fastforce simp: sample_start_def)
qed

end
