(* ===== verification/Dsm.thy ===== *)
theory Dsm
  imports Cache_Access Cache_Safety
begin

text \<open>
  The interface of the shared memory (\<open>DSM.cpp\<close>): a read or write of any size is cut into accesses to
  single lines, and the messages with which a node sets up its directory and its network. What the
  interface relies on in the cache is the locale \<open>line_access\<close>, interpreted on the software cache.
\<close>

section \<open>Reads and writes\<close>

text \<open>The result of an access is \<open>None\<close> when it does not return.\<close>

definition and_then :: "'a outcome option \<Rightarrow> ('a \<Rightarrow> 'b outcome option) \<Rightarrow> 'b outcome option" where
  "and_then r f = (case r of
     Some (Returned v) \<Rightarrow> f v
   | Some Waits \<Rightarrow> Some Waits | Some Hangs \<Rightarrow> Some Hangs | Some Aborts \<Rightarrow> Some Aborts
   | None \<Rightarrow> None)"

abbreviation line_bytes :: nat where "line_bytes \<equiv> DSM_CACHE_LINE_SIZE"

definition step_addr :: "nat \<Rightarrow> GlobalAddress \<Rightarrow> GlobalAddress" where
  "step_addr n a = a\<lparr>ga_addr := ga_addr a + of_nat n\<rparr>"

function read_lines :: "(GlobalAddress \<Rightarrow> nat \<Rightarrow> nat \<Rightarrow> 's \<Rightarrow> (u8 list \<times> 's) outcome option) \<Rightarrow> GlobalAddress \<Rightarrow> nat \<Rightarrow> 's \<Rightarrow>
    (u8 list \<times> 's) outcome option" where
  "read_lines rd iter rest s =
     (if line_bytes \<le> rest then
        and_then (rd iter 0 line_bytes s) (\<lambda>(bs, s).
        and_then (read_lines rd (step_addr line_bytes iter) (rest - line_bytes) s) (\<lambda>(cs, s).
        Some (Returned (bs @ cs, s))))
      else if rest \<noteq> 0 then rd iter 0 rest s
      else Some (Returned ([], s)))"
  by pat_completeness auto
termination by (relation "measure (\<lambda>(rd, iter, rest, s). rest)") (auto simp: DSM_CACHE_LINE_SIZE_def DSM_CACHE_LINE_WIDTH_def)

declare read_lines.simps [simp del]

definition dsm_read :: "(GlobalAddress \<Rightarrow> nat \<Rightarrow> nat \<Rightarrow> 's \<Rightarrow> (u8 list \<times> 's) outcome option) \<Rightarrow> GlobalAddress \<Rightarrow> nat \<Rightarrow> 's \<Rightarrow>
    (u8 list \<times> 's) outcome option" where
  "dsm_read rd addr sz s =
     (let start = unat (ga_addr addr mod of_nat line_bytes); len = min sz (line_bytes - start)
      in and_then (rd addr start len s) (\<lambda>(bs, s).
         if len = sz then Some (Returned (bs, s))
         else and_then (read_lines rd (step_addr len addr) (sz - len) s) (\<lambda>(cs, s).
              Some (Returned (bs @ cs, s)))))"

function write_lines :: "(GlobalAddress \<Rightarrow> nat \<Rightarrow> u8 list \<Rightarrow> 's \<Rightarrow> (unit \<times> 's) outcome option) \<Rightarrow> GlobalAddress \<Rightarrow> u8 list \<Rightarrow> 's \<Rightarrow>
    (unit \<times> 's) outcome option" where
  "write_lines wr iter bs s =
     (if line_bytes \<le> length bs then
        and_then (wr iter 0 (take line_bytes bs) s) (\<lambda>(_, s).
        write_lines wr (step_addr line_bytes iter) (drop line_bytes bs) s)
      else if bs \<noteq> [] then wr iter 0 bs s
      else Some (Returned ((), s)))"
  by pat_completeness auto
termination by (relation "measure (\<lambda>(wr, iter, bs, s). length bs)") (auto simp: DSM_CACHE_LINE_SIZE_def DSM_CACHE_LINE_WIDTH_def)

declare write_lines.simps [simp del]

definition dsm_write :: "(GlobalAddress \<Rightarrow> nat \<Rightarrow> u8 list \<Rightarrow> 's \<Rightarrow> (unit \<times> 's) outcome option) \<Rightarrow> GlobalAddress \<Rightarrow> u8 list \<Rightarrow> 's \<Rightarrow>
    (unit \<times> 's) outcome option" where
  "dsm_write wr addr bs s =
     (let start = unat (ga_addr addr mod of_nat line_bytes); len = min (length bs) (line_bytes - start)
      in and_then (wr addr start (take len bs) s) (\<lambda>(_, s).
         if len = length bs then Some (Returned ((), s))
         else write_lines wr (step_addr len addr) (drop len bs) s))"

section \<open>Bytes of the shared memory\<close>

definition overwrite :: "nat \<Rightarrow> u8 list \<Rightarrow> (nat \<Rightarrow> u8) \<Rightarrow> nat \<Rightarrow> u8" where
  "overwrite start bs f = (\<lambda>k. if start \<le> k \<and> k < start + length bs then bs ! (k - start) else f k)"

text \<open>The byte at an address, from the contents of the lines; and what a write of some bytes makes of it.\<close>

definition byte_of :: "(u64 \<Rightarrow> nat \<Rightarrow> u8) \<Rightarrow> GlobalAddress \<Rightarrow> u8" where
  "byte_of view b = view (getTag b) (unat (ga_addr b mod of_nat line_bytes))"

definition covers :: "GlobalAddress \<Rightarrow> nat \<Rightarrow> GlobalAddress \<Rightarrow> bool" where
  "covers a n b \<longleftrightarrow> ga_nodeID b = ga_nodeID a \<and> unat (ga_addr a) \<le> unat (ga_addr b) \<and> unat (ga_addr b) < unat (ga_addr a) + n"

definition written :: "GlobalAddress \<Rightarrow> u8 list \<Rightarrow> (GlobalAddress \<Rightarrow> u8) \<Rightarrow> GlobalAddress \<Rightarrow> u8" where
  "written a bs f = (\<lambda>b. if covers a (length bs) b then bs ! (unat (ga_addr b) - unat (ga_addr a)) else f b)"

definition in_range :: "GlobalAddress \<Rightarrow> nat \<Rightarrow> bool" where
  "in_range a n \<longleftrightarrow> unat (ga_addr a) + n \<le> 2 ^ 64"

lemma line_bytes_value: "line_bytes = 4096" by (simp add: DSM_CACHE_LINE_SIZE_def DSM_CACHE_LINE_WIDTH_def)

lemma line_offset: "unat (ga_addr a mod of_nat line_bytes) = unat (ga_addr a) mod 4096"
  by (simp add: line_bytes_value unat_mod)

lemma byte_of_eq: "byte_of view b = view (getTag b) (unat (ga_addr b) mod 4096)"
  unfolding byte_of_def line_offset ..

lemma step_addr_simps:
  "in_range a n \<Longrightarrow> k < n \<Longrightarrow> unat (ga_addr (step_addr k a)) = unat (ga_addr a) + k"
  "ga_nodeID (step_addr k a) = ga_nodeID a" "step_addr 0 a = a" "step_addr j (step_addr k a) = step_addr (k + j) a"
proof -
  show "unat (ga_addr (step_addr k a)) = unat (ga_addr a) + k" if "in_range a n" "k < n"
  proof -
    have "unat (of_nat k :: u64) = k" using that unfolding in_range_def unat_of_nat by (intro mod_less) simp
    then show ?thesis using that unat_plus_simple [THEN iffD1, of "ga_addr a" "of_nat k"] no_olen_add_nat [of "ga_addr a" "of_nat k"]
      by (simp add: step_addr_def in_range_def)
  qed
qed (simp_all add: step_addr_def)

lemma tag_eq:
  "getTag a = getTag b \<longleftrightarrow> ga_nodeID a = ga_nodeID b \<and> unat (ga_addr a) div 4096 = unat (ga_addr b) div 4096"
proof -
  have "drop_bit 12 (ga_addr a) = drop_bit 12 (ga_addr b) \<longleftrightarrow> unat (ga_addr a) div 4096 = unat (ga_addr b) div 4096"
    by (simp add: word_unat_eq_iff unat_div drop_bit_eq_div)
  then show ?thesis by (auto simp: getTag_eq_iff line_of_def getIndex_def DSM_CACHE_LINE_WIDTH_def)
qed

text \<open>Addresses of a piece that stays within one line.\<close>

lemma same_line:
  assumes "in_range a n" "k < n" "unat (ga_addr a) mod 4096 + k < 4096"
  shows "getTag (step_addr k a) = getTag a" "unat (ga_addr (step_addr k a)) mod 4096 = unat (ga_addr a) mod 4096 + k"
proof -
  have eq: "unat (ga_addr (step_addr k a)) = unat (ga_addr a) + k" by (rule step_addr_simps(1) [OF assms(1,2)])
  have "unat (ga_addr a) + k = 4096 * (unat (ga_addr a) div 4096) + (unat (ga_addr a) mod 4096 + k)" by simp
  then have "(unat (ga_addr a) + k) div 4096 = unat (ga_addr a) div 4096" "(unat (ga_addr a) + k) mod 4096 = unat (ga_addr a) mod 4096 + k"
    using assms(3) by (metis add.right_neutral div_less div_mult_self4 zero_neq_numeral, metis mod_less mod_mult_self4)
  then show "getTag (step_addr k a) = getTag a" "unat (ga_addr (step_addr k a)) mod 4096 = unat (ga_addr a) mod 4096 + k"
    by (simp_all add: tag_eq eq step_addr_simps(2))
qed

lemma piece_iff:
  fixes A B n :: nat
  assumes "A mod 4096 + n \<le> 4096"
  shows "A \<le> B \<and> B < A + n \<longleftrightarrow> B div 4096 = A div 4096 \<and> A mod 4096 \<le> B mod 4096 \<and> B mod 4096 < A mod 4096 + n"
proof -
  define q r p t where d: "q = A div 4096" "r = A mod 4096" "p = B div 4096" "t = B mod 4096"
  then have A: "A = 4096 * q + r" and B: "B = 4096 * p + t" and t: "t < 4096" by simp_all
  have "A \<le> B \<and> B < A + n \<longleftrightarrow> p = q \<and> r \<le> t \<and> t < r + n"
  proof -
    have "r + n \<le> 4096" using assms d by simp
    then show ?thesis using t unfolding A B by (cases p q rule: linorder_cases) auto
  qed
  then show ?thesis by (simp add: d)
qed

lemma overwrite_written:
  assumes "in_range a (length bs)" "unat (ga_addr a) mod 4096 + length bs \<le> 4096"
  shows "byte_of (view(getTag a := overwrite (unat (ga_addr a) mod 4096) bs (view (getTag a)))) = written a bs (byte_of view)"
proof
  fix b :: GlobalAddress
  let ?A = "unat (ga_addr a)" and ?B = "unat (ga_addr b)"
  have "covers a (length bs) b \<longleftrightarrow> getTag b = getTag a \<and> ?A mod 4096 \<le> ?B mod 4096 \<and> ?B mod 4096 < ?A mod 4096 + length bs"
  proof -
    note piece_iff [OF assms(2), of ?B]
    then show ?thesis by (auto simp: covers_def tag_eq)
  qed
  moreover have "?B mod 4096 - ?A mod 4096 = ?B - ?A" if "getTag b = getTag a" "?A mod 4096 \<le> ?B mod 4096"
  proof -
    have "?B div 4096 = ?A div 4096" using that(1) by (simp add: tag_eq)
    then have "?B = 4096 * (?A div 4096) + ?B mod 4096" "?A = 4096 * (?A div 4096) + ?A mod 4096" by (metis mult_div_mod_eq)+
    then show ?thesis using that(2) by linarith
  qed
  ultimately show "byte_of (view(getTag a := overwrite (?A mod 4096) bs (view (getTag a)))) b = written a bs (byte_of view) b"
    by (auto simp: byte_of_eq written_def overwrite_def)
qed

lemma written_append:
  assumes "in_range a (length xs + length ys)" "ys \<noteq> []"
  shows "written (step_addr (length xs) a) ys (written a xs f) = written a (xs @ ys) f"
proof
  fix b :: GlobalAddress
  have "unat (ga_addr (step_addr (length xs) a)) = unat (ga_addr a) + length xs"
    by (rule step_addr_simps(1) [OF assms(1)]) (use assms(2) in simp)
  then show "written (step_addr (length xs) a) ys (written a xs f) b = written a (xs @ ys) f b"
    by (auto simp: written_def covers_def step_addr_simps nth_append)
qed

lemma next_line: "((n :: nat) + (4096 - n mod 4096)) mod 4096 = 0"
proof -
  have "n + (4096 - n mod 4096) = 4096 * (n div 4096) + 4096"
    using mod_less_divisor [of 4096 n] mult_div_mod_eq [of 4096 n] by linarith
  then show ?thesis by simp
qed

lemma in_range_step:
  assumes "in_range a (m + n)" "0 < n"
  shows "in_range (step_addr m a) n" "unat (ga_addr (step_addr m a)) = unat (ga_addr a) + m"
  using step_addr_simps(1) [OF assms(1), of m] assms by (simp_all add: in_range_def)

section \<open>What the interface relies on\<close>

text \<open>A line is named by its tag. As long as a line is resident, an access to it returns, reads or
  overwrites the bytes it says, and leaves every other line as it is.\<close>

locale line_access =
  fixes rd :: "GlobalAddress \<Rightarrow> nat \<Rightarrow> nat \<Rightarrow> 's \<Rightarrow> (u8 list \<times> 's) outcome option"
    and wr :: "GlobalAddress \<Rightarrow> nat \<Rightarrow> u8 list \<Rightarrow> 's \<Rightarrow> (unit \<times> 's) outcome option"
    and ok :: "'s \<Rightarrow> bool" and resident :: "'s \<Rightarrow> u64 set" and view :: "'s \<Rightarrow> u64 \<Rightarrow> nat \<Rightarrow> u8"
  assumes read_line: "ok s \<Longrightarrow> getTag a \<in> resident s \<Longrightarrow> start + n \<le> 4096 \<Longrightarrow>
      \<exists>s'. rd a start n s = Some (Returned (map (view s (getTag a)) [start..<start + n], s'))
         \<and> ok s' \<and> resident s' = resident s \<and> view s' = view s"
    and write_line: "ok s \<Longrightarrow> getTag a \<in> resident s \<Longrightarrow> start + length bs \<le> 4096 \<Longrightarrow>
      \<exists>s'. wr a start bs s = Some (Returned ((), s')) \<and> ok s' \<and> resident s' = resident s
         \<and> view s' = (view s)(getTag a := overwrite start bs (view s (getTag a)))"

context line_access begin

definition bytes_at :: "'s \<Rightarrow> GlobalAddress \<Rightarrow> nat \<Rightarrow> u8 list" where
  "bytes_at s a n = map (\<lambda>k. byte_of (view s) (step_addr k a)) [0..<n]"

definition all_resident :: "'s \<Rightarrow> GlobalAddress \<Rightarrow> nat \<Rightarrow> bool" where
  "all_resident s a n \<longleftrightarrow> (\<forall>k < n. getTag (step_addr k a) \<in> resident s)"

definition like :: "'s \<Rightarrow> 's \<Rightarrow> bool" where
  "like s s' \<longleftrightarrow> ok s' \<and> resident s' = resident s"

lemma all_resident_split:
  assumes "all_resident s a (m + n)"
  shows "all_resident s a m" "all_resident s (step_addr m a) n"
  using assms by (auto simp: all_resident_def step_addr_simps)

lemma bytes_at_append: "bytes_at s a (m + n) = bytes_at s a m @ bytes_at s (step_addr m a) n"
  by (rule nth_equalityI) (auto simp: bytes_at_def step_addr_simps nth_append)

lemma read_piece:
  assumes "ok s" "all_resident s a n" "0 < n" "in_range a n" "unat (ga_addr a) mod 4096 + n \<le> 4096"
  shows "\<exists>s'. rd a (unat (ga_addr a) mod 4096) n s = Some (Returned (bytes_at s a n, s')) \<and> like s s' \<and> view s' = view s"
proof -
  have "getTag (step_addr 0 a) \<in> resident s" using assms(2,3) unfolding all_resident_def by blast
  then have res: "getTag a \<in> resident s" by (simp add: step_addr_simps(3))
  have "map (view s (getTag a)) [unat (ga_addr a) mod 4096..<unat (ga_addr a) mod 4096 + n] = bytes_at s a n"
  proof (rule nth_equalityI)
    fix k assume "k < length (map (view s (getTag a)) [unat (ga_addr a) mod 4096..<unat (ga_addr a) mod 4096 + n])"
    then have k: "k < n" by simp
    then show "map (view s (getTag a)) [unat (ga_addr a) mod 4096..<unat (ga_addr a) mod 4096 + n] ! k = bytes_at s a n ! k"
      using same_line [OF assms(4) k] assms(5) by (simp add: bytes_at_def byte_of_eq)
  qed (simp add: bytes_at_def)
  then show ?thesis using read_line [OF assms(1) res assms(5)] by (simp add: like_def)
qed

lemma read_lines_bytes:
  assumes "ok s" "all_resident s a n" "in_range a n" "unat (ga_addr a) mod 4096 = 0"
  shows "\<exists>s'. read_lines rd a n s = Some (Returned (bytes_at s a n, s')) \<and> like s s' \<and> view s' = view s"
  using assms
proof (induction n arbitrary: a s rule: less_induct)
  case (less n)
  consider "n = 0" | "0 < n" "n < 4096" | "4096 \<le> n" by linarith
  then show ?case
  proof cases
    case 1
    then show ?thesis using less.prems(1) by (subst read_lines.simps) (simp add: line_bytes_value bytes_at_def like_def)
  next
    case 2
    then show ?thesis using read_piece [OF less.prems(1,2) _ less.prems(3)] less.prems(4)
      by (simp add: read_lines.simps [of rd a n s] line_bytes_value)
  next
    case 3
    then have n: "n = 4096 + (n - 4096)" by simp
    have res: "all_resident s a 4096" "all_resident s (step_addr 4096 a) (n - 4096)"
      using all_resident_split [of s a 4096 "n - 4096"] less.prems(2) n by simp_all
    have "in_range a 4096" using less.prems(3) 3 by (simp add: in_range_def)
    from read_piece [OF less.prems(1) res(1) _ this] less.prems(4) obtain s1
      where s1: "rd a 0 4096 s = Some (Returned (bytes_at s a 4096, s1))" "like s s1" "view s1 = view s" by auto
    have "\<exists>s'. read_lines rd (step_addr 4096 a) (n - 4096) s1 = Some (Returned (bytes_at s1 (step_addr 4096 a) (n - 4096), s'))
        \<and> like s1 s' \<and> view s' = view s1"
    proof (cases "n = 4096")
      case True
      then show ?thesis using s1(2) by (subst read_lines.simps) (simp add: line_bytes_value bytes_at_def like_def)
    next
      case False
      then have "in_range (step_addr 4096 a) (n - 4096)" "unat (ga_addr (step_addr 4096 a)) = unat (ga_addr a) + 4096"
        using in_range_step [of a 4096 "n - 4096"] less.prems(3) 3 by simp_all
      then show ?thesis using less.IH [of "n - 4096" s1 "step_addr 4096 a"] 3 s1(2) res(2) less.prems(4)
        by (simp add: like_def all_resident_def)
    qed
    then obtain s2 where s2: "read_lines rd (step_addr 4096 a) (n - 4096) s1 = Some (Returned (bytes_at s1 (step_addr 4096 a) (n - 4096), s2))"
      "like s1 s2" "view s2 = view s1" by blast
    have "bytes_at s1 = bytes_at s" unfolding bytes_at_def s1(3) ..
    with s1 s2 3 show ?thesis
      using bytes_at_append [of s a 4096 "n - 4096"]
      by (simp add: read_lines.simps [of rd a n s] line_bytes_value and_then_def like_def)
  qed
qed

lemma dsm_read_bytes:
  assumes "ok s" "all_resident s a n" "in_range a n" "0 < n"
  shows "\<exists>s'. dsm_read rd a n s = Some (Returned (bytes_at s a n, s')) \<and> like s s' \<and> view s' = view s"
proof -
  let ?start = "unat (ga_addr a) mod 4096"
  define len where "len = min n (4096 - ?start)"
  have "?start < 4096" by simp
  then have len: "0 < len" "?start + len \<le> 4096" "len \<le> n" using assms(4) by (auto simp: len_def)
  then have n: "n = len + (n - len)" by simp
  have res: "all_resident s a len" "all_resident s (step_addr len a) (n - len)"
    using all_resident_split [of s a len "n - len"] assms(2) n by simp_all
  have "in_range a len" using assms(3) len(3) by (simp add: in_range_def)
  from read_piece [OF assms(1) res(1) len(1) this len(2)] obtain s1
    where s1: "rd a ?start len s = Some (Returned (bytes_at s a len, s1))" "like s s1" "view s1 = view s" by blast
  have eq: "dsm_read rd a n s = and_then (rd a ?start len s) (\<lambda>(bs, s). if len = n then Some (Returned (bs, s))
     else and_then (read_lines rd (step_addr len a) (n - len) s) (\<lambda>(cs, s). Some (Returned (bs @ cs, s))))"
    unfolding dsm_read_def Let_def line_offset unfolding line_bytes_value len_def [symmetric] ..
  show ?thesis
  proof (cases "len = n")
    case True
    then show ?thesis using eq s1 by (simp add: and_then_def)
  next
    case False
    then have full: "len = 4096 - ?start" "0 < n - len" using len(3) by (auto simp: len_def)
    have step: "in_range (step_addr len a) (n - len)" "unat (ga_addr (step_addr len a)) = unat (ga_addr a) + len"
      using in_range_step [of a len "n - len"] assms(3) full(2) n by simp_all
    have "unat (ga_addr (step_addr len a)) mod 4096 = 0" using step(2) full(1) next_line by simp
    from read_lines_bytes [of s1, OF _ _ step(1) this] res(2) s1(2) obtain s2
      where s2: "read_lines rd (step_addr len a) (n - len) s1 = Some (Returned (bytes_at s1 (step_addr len a) (n - len), s2))"
        "like s1 s2" "view s2 = view s1" by (auto simp: like_def all_resident_def)
    have "bytes_at s1 = bytes_at s" unfolding bytes_at_def s1(3) ..
    then show ?thesis using eq s1 s2 False bytes_at_append [of s a len "n - len"] n
      by (simp add: and_then_def like_def)
  qed
qed

lemma write_piece:
  assumes "ok s" "all_resident s a (length bs)" "bs \<noteq> []" "in_range a (length bs)" "unat (ga_addr a) mod 4096 + length bs \<le> 4096"
  shows "\<exists>s'. wr a (unat (ga_addr a) mod 4096) bs s = Some (Returned ((), s')) \<and> like s s'
    \<and> byte_of (view s') = written a bs (byte_of (view s))"
proof -
  have "getTag (step_addr 0 a) \<in> resident s" using assms(2,3) unfolding all_resident_def by blast
  then have res: "getTag a \<in> resident s" by (simp add: step_addr_simps(3))
  show ?thesis
    using write_line [OF assms(1) res assms(5)] overwrite_written [OF assms(4,5), of "view s"] by (auto simp: like_def)
qed

lemma write_lines_bytes:
  assumes "ok s" "all_resident s a (length bs)" "in_range a (length bs)" "unat (ga_addr a) mod 4096 = 0"
  shows "\<exists>s'. write_lines wr a bs s = Some (Returned ((), s')) \<and> like s s' \<and> byte_of (view s') = written a bs (byte_of (view s))"
  using assms
proof (induction "length bs" arbitrary: a s bs rule: less_induct)
  case less
  consider "bs = []" | "bs \<noteq> []" "length bs < 4096" | "4096 \<le> length bs" by linarith
  then show ?case
  proof cases
    case 1
    have "written a [] f = f" for f by (auto simp: written_def covers_def fun_eq_iff)
    then show ?thesis using less.prems(1) 1 by (subst write_lines.simps) (simp add: line_bytes_value like_def)
  next
    case 2
    then show ?thesis using write_piece [OF less.prems(1,2) _ less.prems(3)] less.prems(4)
      by (subst write_lines.simps) (simp add: line_bytes_value)
  next
    case 3
    let ?xs = "take 4096 bs" and ?ys = "drop 4096 bs"
    have len: "length ?xs = 4096" "length bs = 4096 + length ?ys" "?xs \<noteq> []" using 3 by auto
    have res: "all_resident s a (length ?xs)" "all_resident s (step_addr 4096 a) (length ?ys)"
      using all_resident_split [of s a 4096 "length ?ys"] less.prems(2) len(2) unfolding len(1) by (simp_all only:)
    have "in_range a (length ?xs)" using less.prems(3) 3 by (simp add: in_range_def)
    moreover have "unat (ga_addr a) mod 4096 + length ?xs \<le> 4096" unfolding less.prems(4) len(1) by simp
    ultimately obtain s1
      where s1: "wr a 0 ?xs s = Some (Returned ((), s1))" "like s s1" "byte_of (view s1) = written a ?xs (byte_of (view s))"
      using write_piece [OF less.prems(1) res(1) len(3)] unfolding less.prems(4) by blast
    have unfold: "write_lines wr a bs s = write_lines wr (step_addr 4096 a) ?ys s1"
      using 3 s1(1) by (subst write_lines.simps) (simp add: line_bytes_value and_then_def)
    show ?thesis
    proof (cases "?ys = []")
      case True
      then show ?thesis using s1 unfold by (subst (asm) (2) write_lines.simps) (auto simp: line_bytes_value)
    next
      case False
      then have "0 < length ?ys" by simp
      have "in_range a (4096 + length ?ys)" using less.prems(3) len(2) by (simp only:)
      note step = in_range_step [OF this \<open>0 < length ?ys\<close>]
      have "unat (ga_addr (step_addr 4096 a)) mod 4096 = 0" using step(2) less.prems(4) by simp
      then obtain s2 where s2: "write_lines wr (step_addr 4096 a) ?ys s1 = Some (Returned ((), s2))" "like s1 s2"
        "byte_of (view s2) = written (step_addr 4096 a) ?ys (byte_of (view s1))"
      proof -
        have "length ?ys < length bs" using 3 False by simp
        then show ?thesis using that less.hyps [of ?ys s1 "step_addr 4096 a"] s1(2) res(2) step(1)
            \<open>unat (ga_addr (step_addr 4096 a)) mod 4096 = 0\<close>
          by (auto simp: like_def all_resident_def)
      qed
      have "written (step_addr 4096 a) ?ys (written a ?xs (byte_of (view s))) = written a bs (byte_of (view s))"
        using written_append [of a ?xs ?ys "byte_of (view s)"] False less.prems(3) unfolding len(1) by (simp add: 3)
      then show ?thesis using unfold s1(2,3) s2 by (auto simp: like_def)
    qed
  qed
qed

lemma dsm_write_bytes:
  assumes "ok s" "all_resident s a (length bs)" "in_range a (length bs)" "bs \<noteq> []"
  shows "\<exists>s'. dsm_write wr a bs s = Some (Returned ((), s')) \<and> like s s' \<and> byte_of (view s') = written a bs (byte_of (view s))"
proof -
  let ?start = "unat (ga_addr a) mod 4096"
  define len where "len = min (length bs) (4096 - ?start)"
  have "?start < 4096" by simp
  then have len: "0 < len" "?start + len \<le> 4096" "len \<le> length bs" using assms(4) by (auto simp: len_def)
  let ?xs = "take len bs" and ?ys = "drop len bs"
  have xs: "length ?xs = len" "length bs = len + length ?ys" "?xs \<noteq> []" using len by auto
  have res: "all_resident s a (length ?xs)" "all_resident s (step_addr len a) (length ?ys)"
    using all_resident_split [of s a len "length ?ys"] assms(2) xs(2) unfolding xs(1) by (simp_all only:)
  have "in_range a (length ?xs)" using assms(3) len(3) unfolding xs(1) in_range_def by linarith
  moreover have "?start + length ?xs \<le> 4096" unfolding xs(1) by (rule len(2))
  ultimately obtain s1
    where s1: "wr a ?start ?xs s = Some (Returned ((), s1))" "like s s1" "byte_of (view s1) = written a ?xs (byte_of (view s))"
    using write_piece [OF assms(1) res(1) xs(3)] by blast
  have eq: "dsm_write wr a bs s = and_then (wr a ?start ?xs s) (\<lambda>(_, s). if len = length bs then Some (Returned ((), s))
     else write_lines wr (step_addr len a) ?ys s)"
    unfolding dsm_write_def Let_def line_offset unfolding line_bytes_value len_def [symmetric] ..
  show ?thesis
  proof (cases "len = length bs")
    case True
    then show ?thesis using eq s1 by (simp add: and_then_def)
  next
    case False
    then have full: "len = 4096 - ?start" "0 < length ?ys" "?ys \<noteq> []" using len(3) by (auto simp: len_def)
    have "in_range a (len + length ?ys)" using assms(3) xs(2) by (simp only:)
    note step = in_range_step [OF this full(2)]
    have "unat (ga_addr (step_addr len a)) mod 4096 = 0" using step(2) full(1) next_line by simp
    then obtain s2 where s2: "write_lines wr (step_addr len a) ?ys s1 = Some (Returned ((), s2))" "like s1 s2"
      "byte_of (view s2) = written (step_addr len a) ?ys (byte_of (view s1))"
      using write_lines_bytes [of s1 "step_addr len a" ?ys] s1(2) res(2) step(1) by (auto simp: like_def all_resident_def)
    have "written (step_addr len a) ?ys (written a ?xs (byte_of (view s))) = written a bs (byte_of (view s))"
      using written_append [of a ?xs ?ys "byte_of (view s)"] full(3) assms(3) unfolding xs(1) by (simp add: len(3))
    then show ?thesis using eq s1 s2 False by (auto simp: and_then_def like_def)
  qed
qed

text \<open>What was written is read back.\<close>

lemma write_then_read:
  assumes "ok s" "all_resident s a (length bs)" "in_range a (length bs)" "bs \<noteq> []"
  shows "\<exists>s1 s2. dsm_write wr a bs s = Some (Returned ((), s1)) \<and> dsm_read rd a (length bs) s1 = Some (Returned (bs, s2))"
proof -
  obtain s1 where s1: "dsm_write wr a bs s = Some (Returned ((), s1))" "like s s1" "byte_of (view s1) = written a bs (byte_of (view s))"
    using dsm_write_bytes [OF assms] by blast
  have "bytes_at s1 a (length bs) = bs"
  proof (rule nth_equalityI)
    fix k assume "k < length (bytes_at s1 a (length bs))"
    then have "k < length bs" by (simp add: bytes_at_def)
    then show "bytes_at s1 a (length bs) ! k = bs ! k"
      using step_addr_simps(1) [OF assms(3), of k] by (simp add: bytes_at_def s1(3) written_def covers_def step_addr_simps(2))
  qed (simp add: bytes_at_def)
  moreover have "all_resident s1 a (length bs)" "ok s1" using assms(2) s1(2) by (simp_all add: all_resident_def like_def)
  ultimately show ?thesis using s1(1) dsm_read_bytes [of s1 a "length bs"] assms(3,4) by fastforce
qed

end

section \<open>The software cache provides it\<close>

text \<open>The buffer of a line that the thread may read and write at once: in the set, modified, not locked.\<close>

definition buffer_of :: "host \<Rightarrow> u64 \<Rightarrow> u64 option" where
  "buffer_of h tag =
     (case find_way tag (ca_lines (ho_cache h) (set_of_tag tag)) of
        None \<Rightarrow> None
      | Some i \<Rightarrow> (let l = slot_line (ho_cache h) (set_of_tag tag, False, i)
                 in if status l = C_MODIFIED \<and> li_lock l = 0 then li_data l else None))"

definition host_ok :: "host \<Rightarrow> bool" where
  "host_ok h \<longleftrightarrow> shape (ho_cache h) \<and> lines_ok (slot_line (ho_cache h)) \<and> \<not> ap_start_next (ho_appt h)
     \<and> (\<forall>tag p. buffer_of h tag = Some p \<longrightarrow> p mod 4096 = 0)
     \<and> (\<forall>tag tag' p. buffer_of h tag = Some p \<and> buffer_of h tag' = Some p \<longrightarrow> tag = tag')"

definition host_resident :: "host \<Rightarrow> u64 set" where "host_resident h = {tag. buffer_of h tag \<noteq> None}"

definition contents :: "host \<Rightarrow> u64 \<Rightarrow> nat \<Rightarrow> u8" where
  "contents h tag k = (case buffer_of h tag of None \<Rightarrow> 0 | Some p \<Rightarrow> if k < 4096 then ho_mem h (p + of_nat k) else 0)"

lemma access_hit:
  assumes "host_ok h" "buffer_of h (getTag a) = Some p"
    and copy: "\<And>l. li_data l = Some p \<Longrightarrow> status l = C_MODIFIED \<Longrightarrow> li_lock l = 0 \<Longrightarrow> copy l h = Returned (Some v, h')"
  shows "access_pass m0 wr copy a h = Returned (Some v, h')"
proof -
  let ?c = "ho_cache h" and ?s = "set_of a"
  obtain i where i: "find_way (getTag a) (ca_lines ?c ?s) = Some i" "status (slot_line ?c (?s, False, i)) = C_MODIFIED"
    "li_lock (slot_line ?c (?s, False, i)) = 0" "li_data (slot_line ?c (?s, False, i)) = Some p"
    using assms(2) by (auto simp: buffer_of_def Let_def split: option.splits if_splits)
  have "find_way (getTag a) (ca_shadow ?c ?s) = None"
    using found_once [OF _ i(1)] assms(1) by (simp add: host_ok_def)
  moreover have "at_status (li_status (ca_lines ?c ?s ! i)) = C_MODIFIED" using i(2) by (simp add: slot_line_simps status_def)
  ultimately have "lookup_line wr a ?c (ho_appt h) = Returned (T_Hit False i, ?c)"
    using i(1) by (auto simp: lookup_line_def findLine_def findShadowLine_def Let_def begin_read_def begin_upgrade_def
        begin_write_def casFlagAndStatus_def split: bool.splits)
  moreover have "start_evict m0 ?c (ho_appt h) = Returned (?c, ho_appt h)" using assms(1) by (simp add: start_evict_def host_ok_def)
  moreover have "h\<lparr>ho_cache := ?c, ho_appt := ho_appt h\<rparr> = h" "h\<lparr>ho_cache := ?c\<rparr> = h" by simp_all
  ultimately show ?thesis using copy [OF i(4,2,3)] by (simp add: access_pass_def line_of_slot_def)
qed

lemma access_loop_once: "pass h = Returned (Some v, h') \<Longrightarrow> access_loop pass h = Some (Returned (v, h'))"
  by (subst access_loop.simps) simp

lemma readLine_hit:
  assumes "host_ok h" "buffer_of h (getTag a) = Some p"
  shows "readLine m0 a start n h = Some (Returned (load_bytes (ho_mem h) (p + of_nat start) n, h))"
  unfolding readLine_def
  by (intro access_loop_once access_hit [OF assms]) (simp add: read_copy_def may_copy_def)

lemma writeLine_hit:
  assumes "host_ok h" "buffer_of h (getTag a) = Some p"
  shows "writeLine m0 a start bs h = Some (Returned ((), h\<lparr>ho_mem := store_bytes (p + of_nat start) bs (ho_mem h)\<rparr>))"
  unfolding writeLine_def
  by (intro access_loop_once access_hit [OF assms]) (simp add: write_copy_def may_copy_def)

lemma buffer_of_mem [simp]: "buffer_of (h\<lparr>ho_mem := m\<rparr>) = buffer_of h"
  by (simp add: buffer_of_def fun_eq_iff Let_def split: option.split)

lemma aligned_room:
  assumes "(n :: nat) mod 4096 = 0" "n < 2 ^ 64"
  shows "n + 4096 \<le> 2 ^ 64"
proof -
  have "n = 4096 * (n div 4096)" using assms(1) by (metis add.right_neutral mult_div_mod_eq)
  moreover have "n div 4096 < 2 ^ 52" using assms(2) by (simp add: less_mult_imp_div_less)
  ultimately show ?thesis by simp
qed

text \<open>A buffer starts at a multiple of the size of a line.\<close>

lemma buffer_offset:
  fixes p :: u64
  assumes "p mod 4096 = 0" "k < 4096"
  shows "unat (p + of_nat k) = unat p + k" "unat p mod 4096 = 0"
proof -
  have "unat (p mod 4096) = 0" using assms(1) by simp
  then show m: "unat p mod 4096 = 0" by (simp add: unat_mod)
  have "unat p < 2 ^ 64" using unsigned_less [where 'a = nat, of p] by simp
  from aligned_room [OF m this] have "unat p + 4096 \<le> 2 ^ 64" .
  moreover have "unat (of_nat k :: u64) = k" using assms(2) unfolding unat_of_nat by (intro mod_less) simp
  ultimately show "unat (p + of_nat k) = unat p + k"
    using assms(2) unat_plus_simple [THEN iffD1, of p "of_nat k"] no_olen_add_nat [of p "of_nat k"] by simp
qed

lemma store_bytes_at:
  assumes "unat q + length bs \<le> 2 ^ 64"
  shows "store_bytes q bs mem x = (if unat q \<le> unat x \<and> unat x < unat q + length bs then bs ! (unat x - unat q) else mem x)"
proof (cases "unat q \<le> unat x")
  case True
  then have "unat (x - q) = unat x - unat q" by (simp add: unat_sub word_le_nat_alt)
  then show ?thesis using True by (auto simp: store_bytes_def Let_def)
next
  case False
  have "unat x < 2 ^ 64" "unat q < 2 ^ 64" using unsigned_less [where 'a = nat, of x] unsigned_less [where 'a = nat, of q] by simp_all
  then have "unat (x - q) = 2 ^ 64 + unat x - unat q" using False by (simp add: unat_sub_if_size word_size word_le_nat_alt)
  then have "\<not> unat (x - q) < length bs" using assms False by linarith
  then show ?thesis using False by (simp add: store_bytes_def)
qed

lemma store_in_buffer:
  assumes "p mod 4096 = 0" "start + length bs \<le> 4096" "q mod 4096 = 0" "k < 4096"
  shows "store_bytes (p + of_nat start) bs mem (q + of_nat k)
    = (if q = p then overwrite start bs (\<lambda>k. mem (p + of_nat k)) k else mem (q + of_nat k))"
proof (cases "bs = []")
  case True
  then show ?thesis by (auto simp: store_bytes_def overwrite_def)
next
  case False
  then have start: "start < 4096" using assms(2) by (cases bs) auto
  note P = buffer_offset [OF assms(1) start] and Q = buffer_offset [OF assms(3,4)]
  have "unat p < 2 ^ 64" using unsigned_less [where 'a = nat, of p] by simp
  from aligned_room [OF P(2) this] have range: "unat (p + of_nat start) + length bs \<le> 2 ^ 64" using P(1) assms(2) by linarith
  have ne: "q \<noteq> p \<longleftrightarrow> unat q \<noteq> unat p" by (simp add: word_unat_eq_iff)
  have apart: "unat q \<noteq> unat p \<Longrightarrow> unat q + 4096 \<le> unat p \<or> unat p + 4096 \<le> unat q"
  proof -
    have "unat p = 4096 * (unat p div 4096)" "unat q = 4096 * (unat q div 4096)"
      using P(2) Q(2) by (metis add.right_neutral mult_div_mod_eq)+
    then show "unat q \<noteq> unat p \<Longrightarrow> unat q + 4096 \<le> unat p \<or> unat p + 4096 \<le> unat q"
      by (cases "unat p div 4096" "unat q div 4096" rule: linorder_cases) linarith+
  qed
  show ?thesis
    unfolding store_bytes_at [OF range] P(1) Q(1)
    using apart ne assms(2,4) by (auto simp: overwrite_def)
qed

interpretation cached: line_access "readLine m0" "writeLine m0" host_ok host_resident contents
proof
  fix h a and start n :: nat
  assume ok: "host_ok h" and res: "getTag a \<in> host_resident h" and n: "start + n \<le> 4096"
  obtain p where p: "buffer_of h (getTag a) = Some p" using res by (auto simp: host_resident_def)
  have "load_bytes (ho_mem h) (p + of_nat start) n = map (contents h (getTag a)) [start..<start + n]"
    by (rule nth_equalityI) (use n p in \<open>simp_all add: load_bytes_def contents_def algebra_simps\<close>)
  then show "\<exists>h'. readLine m0 a start n h = Some (Returned (map (contents h (getTag a)) [start..<start + n], h'))
      \<and> host_ok h' \<and> host_resident h' = host_resident h \<and> contents h' = contents h"
    using readLine_hit [OF ok p] ok by simp
next
  fix h a and start :: nat and bs :: "u8 list"
  assume ok: "host_ok h" and res: "getTag a \<in> host_resident h" and n: "start + length bs \<le> 4096"
  obtain p where p: "buffer_of h (getTag a) = Some p" using res by (auto simp: host_resident_def)
  let ?h = "h\<lparr>ho_mem := store_bytes (p + of_nat start) bs (ho_mem h)\<rparr>"
  have "contents ?h tag k = ((contents h)(getTag a := overwrite start bs (contents h (getTag a)))) tag k" for tag k
  proof (cases "buffer_of h tag")
    case None
    then show ?thesis using p by (auto simp: contents_def)
  next
    case (Some q)
    have "p mod 4096 = 0" "q mod 4096 = 0" "q = p \<longleftrightarrow> tag = getTag a" using ok p Some by (auto simp: host_ok_def)
    then show ?thesis using store_in_buffer [of p start bs q k] n p Some by (auto simp: contents_def overwrite_def)
  qed
  then have "contents ?h = (contents h)(getTag a := overwrite start bs (contents h (getTag a)))" by blast
  moreover have "host_ok ?h" "host_resident ?h = host_resident h" using ok by (simp_all add: host_ok_def host_resident_def)
  ultimately show "\<exists>h'. writeLine m0 a start bs h = Some (Returned ((), h')) \<and> host_ok h' \<and> host_resident h' = host_resident h
      \<and> contents h' = (contents h)(getTag a := overwrite start bs (contents h (getTag a)))"
    using writeLine_hit [OF ok p] by blast
qed

section \<open>In a running node\<close>

text \<open>The view of a thread that starts an access in a running node.\<close>

definition host_of :: "cache_sys \<Rightarrow> nat \<Rightarrow> memory \<Rightarrow> arrival list \<Rightarrow> host" where
  "host_of y t mem rs = \<lparr>ho_cache = cs_cache y, ho_appt = appt_of t y, ho_mem = mem, ho_inbox = rs\<rparr>"

lemma running_host_ok:
  assumes "sys_ok (mset bufs) y" "distinct bufs" "\<forall>b \<in> set bufs. b mod 4096 = 0" "at t T_Idle y"
  shows "host_ok (host_of y t mem rs)"
proof -
  have found: "\<exists>i. (set_of_tag tag, False, i) \<in> places \<and> li_data (line_at y (set_of_tag tag, False, i)) = Some p
      \<and> li_tag (line_at y (set_of_tag tag, False, i)) = tag"
    if "buffer_of (host_of y t mem rs) tag = Some p" for tag p
    using that find_way_some set_of_tag_less
    by (fastforce simp: buffer_of_def host_of_def Let_def holds_live slot_line_simps split: option.splits if_splits)
  note B = sys_okD(3) [OF assms(1)]
  have one: "count (buffers_of (line_at y) (ca_stack (cs_cache y))) b \<le> 1" for b
    unfolding B using assms(2) by (simp add: distinct_count_atmost_1)
  have in_bufs: "p \<in> set bufs" if "q \<in> places" "li_data (line_at y q) = Some p" for p q
  proof -
    have "p \<in># (\<Sum>q \<in> places. buf (line_at y q))"
      using that by (subst set_mset_sum) (auto simp: buf_def intro!: bexI [of _ q])
    then have "p \<in># mset bufs" unfolding B [symmetric] buffers_of_def by simp
    then show ?thesis by simp
  qed
  have "\<not> ap_start_next (appt_of t y)" by (rule not_starting [OF assms(1,4)]) simp
  moreover have "p mod 4096 = 0" if "buffer_of (host_of y t mem rs) tag = Some p" for tag p
    using found [OF that] in_bufs assms(3) by blast
  moreover have "tag = tag'"
    if "buffer_of (host_of y t mem rs) tag = Some p" "buffer_of (host_of y t mem rs) tag' = Some p" for tag tag' p
    using found [OF that(1)] found [OF that(2)] buffers_apart(1) [OF one] by metis
  ultimately show ?thesis using sys_okD(1,2) [OF assms(1)] unfolding host_ok_def by (simp add: host_of_def)
qed


definition two_lines :: "move list" where
  "two_lines = concat (map (\<lambda>k. [M_Call 0 True (line_addr_of k), M_Start 0, M_Lookup 0, M_Insert 0, M_Start 0, M_Lookup 0,
     M_Reply 0 True, M_Copy 0, M_Finish 0 []]) [1670715, 1670716])"

definition across :: GlobalAddress where
  "across = \<lparr>ga_addr = 4096 * 1670715 + 4095, ga_nodeID = 0, ga_org = 0\<rparr>"

lemma two_lines_run:
  "case run_moves no_message two_lines (sample_start [0x1000, 0x2000] 1) of None \<Rightarrow> False
   | Some y \<Rightarrow> th_pc (cs_thread y 0) = T_Idle
      \<and> buffer_of (host_of y 0 (\<lambda>_. 0) []) (getTag (step_addr 0 across)) \<noteq> None
      \<and> buffer_of (host_of y 0 (\<lambda>_. 0) []) (getTag (step_addr 1 across)) \<noteq> None"
  by code_simp


end
