(* ===== verification/Coh_Node.thy ===== *)
theory Coh_Node
  imports Cache_Threads Dir_Protocol
begin

text \<open>
  One node's part in the coherence protocol of a block: what each reply does to the request a thread
  waits for (the switches of \<open>readMiss\<close>, \<open>writeMiss\<close>, \<open>writeShared\<close>, \<open>wait_evict\<close> in \<open>Cache.cpp\<close>), and the relation
  between the line, the replies and notices on their way to the node, and what the directory takes the
  node to hold. Each event of a node is shown to keep the relation.
\<close>

section \<open>Replies\<close>

text \<open>What a reply does to the wait: the loop goes on (with \<open>hasData\<close> and whether \<open>copies\<close> is 0), returns,
  or waits for the flag and returns \<open>false\<close>. \<open>None\<close> is a message the loop does not expect.\<close>

datatype wait = W_More bool bool | W_Done bool | W_Flag

fun wait_reply :: "line_pc \<Rightarrow> bool \<Rightarrow> bool \<Rightarrow> RawMessageType \<Rightarrow> wait option" where
  "wait_reply L_Idle d c t = None"
| "wait_reply L_Read d c t =
     (if t = AGENT_2_APP_READ_MISS_DIRTY_ACKDATA \<or> t = DIR_2_APP_READ_MISS_ACKDATA then Some (W_Done True)
      else if t = DIR_2_APP_M_CHECK_FAIL then Some (W_Done False)
      else if t = DIR_2_APP_BITMAP_CHECK_FAIL then Some W_Flag else None)"
| "wait_reply L_Write d c t =
     (if t = AGENT_2_APP_WRITE_MISS_DIRTY_ACKDATA \<or> t = DIR_2_APP_WRITE_MISS_ACKDATA then Some (W_Done True)
      else if t = DIR_2_APP_WRITE_MISS_SHAREDDATA then
        (if d then None else if c then Some (W_Done True) else Some (W_More True c))
      else if t = DIR_2_APP_WRITE_MISS_SHARED_AGGACK_ACK then (if d then Some (W_Done True) else Some (W_More d True))
      else if t = DIR_2_APP_M_CHECK_FAIL then Some (W_Done False)
      else if t = DIR_2_APP_BITMAP_CHECK_FAIL then Some W_Flag else None)"
| "wait_reply L_Upgrade d c t =
     (if t = DIR_2_APP_WRITE_SHARED_NOTONLY_AGGACK_ACK \<or> t = DIR_2_APP_WRITE_SHARED_ONLYACK then Some (W_Done True)
      else if t = DIR_2_APP_M_CHECK_FAIL then Some (W_Done False)
      else if t = DIR_2_APP_BITMAP_CHECK_FAIL then Some W_Flag else None)"
| "wait_reply (L_Evict e) d c t =
     (if t = DIR_2_APP_EVICT_DIRTY_ACK \<or> t = DIR_2_APP_EVICT_SHARED_ACK then Some (W_Done True)
      else if t = DIR_2_APP_M_CHECK_FAIL then Some (W_Done False)
      else if t = DIR_2_APP_BITMAP_CHECK_FAIL then Some W_Flag else None)"

text \<open>How the line is left when the wait is over. An eviction that waited for the flag gives the line
  back, a request that did so has failed.\<close>

definition end_wait :: "line_pc \<Rightarrow> bool \<Rightarrow> AtomicTag \<Rightarrow> (bool \<times> AtomicTag) option" where
  "end_wait pc succ t =
     (case pc of
        L_Idle \<Rightarrow> None
      | L_Read \<Rightarrow> end_read succ t
      | L_Upgrade \<Rightarrow> end_upgrade succ t
      | L_Write \<Rightarrow> end_write succ t
      | L_Evict e \<Rightarrow> if succ then Some (True, setFlagAndStatus False C_PRESERVED t) else evict_refused e t)"

definition flag_result :: "line_pc \<Rightarrow> bool" where
  "flag_result pc = (case pc of L_Evict e \<Rightarrow> True | _ \<Rightarrow> False)"

fun request_type :: "line_pc \<Rightarrow> RawMessageType option" where
  "request_type L_Idle = None"
| "request_type L_Read = Some R_READ_MISS"
| "request_type L_Write = Some R_WRITE_MISS"
| "request_type L_Upgrade = Some R_WRITE_SHARED"
| "request_type (L_Evict EVICT_SHARED) = Some R_EVICT_SHARED"
| "request_type (L_Evict EVICT_DIRTY) = Some R_EVICT_DIRTY"

section \<open>What the directory takes a node to hold\<close>

text \<open>Right after a request is decided, before the acknowledgements it asks for have come.\<close>

datatype view = V_I | V_S | V_M

fun dir_view :: "dir_abs \<Rightarrow> nat \<Rightarrow> view" where
  "dir_view Unshared n = V_I"
| "dir_view (Shared S) n = (if n \<in> S then V_S else V_I)"
| "dir_view (Dirty w) n = (if n = w then V_M else V_I)"
| "dir_view (To_Shared w r) n = (if n = w \<or> n = r then V_S else V_I)"
| "dir_view (To_Dirty w r) n = (if n = r then V_M else V_I)"
| "dir_view (Collect_Miss r P) n = (if n = r then V_M else V_I)"
| "dir_view (Collect_Upgrade r P) n = (if n = r then V_M else V_I)"

section \<open>The relation of a node\<close>

text \<open>What was granted to the node and not taken back at the line yet; \<open>B_F\<close> is a grant that was taken
  back by setting the flag of a line in transition.\<close>

datatype base = B_I | B_S | B_M | B_F

definition inv_shared :: "RawMessageType \<Rightarrow> bool" where
  "inv_shared t \<longleftrightarrow> t = DIR_2_AGENT_WRITE_SHARED_NOTONLY \<or> t = DIR_2_AGENT_WRITE_MISS_SHARED"

text \<open>The notices that are still to be applied turn the grant into the directory's view.\<close>

fun pend_ok :: "base \<Rightarrow> view \<Rightarrow> RawMessageType list \<Rightarrow> bool" where
  "pend_ok B_I v L \<longleftrightarrow> L = [] \<and> v = V_I"
| "pend_ok B_F v L \<longleftrightarrow> L = [] \<and> v = V_I"
| "pend_ok B_S v L \<longleftrightarrow> L = [] \<and> v = V_S \<or> (\<exists>t. L = [t] \<and> inv_shared t) \<and> v = V_I"
| "pend_ok B_M v L \<longleftrightarrow> L = [] \<and> v = V_M \<or> L = [DIR_2_AGENT_READ_MISS_DIRTY] \<and> v = V_S
     \<or> (\<exists>t. L = [DIR_2_AGENT_READ_MISS_DIRTY, t] \<and> inv_shared t) \<and> v = V_I \<or> L = [DIR_2_AGENT_WRITE_MISS_DIRTY] \<and> v = V_I"

fun statuses :: "line_pc \<Rightarrow> base \<Rightarrow> CacheStatus set" where
  "statuses L_Idle B_I = {C_INVALID, C_PRESERVED}"
| "statuses L_Idle B_S = {C_SHARED}"
| "statuses L_Idle B_M = {C_MODIFIED}"
| "statuses L_Idle B_F = {}"
| "statuses L_Read b = (if b = B_M then {} else {C_TO_SHARED})"
| "statuses L_Upgrade b = {C_TO_MODIFIED}"
| "statuses L_Write b = (if b = B_S then {} else {C_TO_MODIFIED})"
| "statuses (L_Evict EVICT_SHARED) b = (if b = B_M then {} else {C_TO_PRESERVED})"
| "statuses (L_Evict EVICT_DIRTY) b =
     (if b = B_S then {C_TO_SHARED} else if b = B_F then {C_TO_SHARED, C_TO_PRESERVED} else {C_TO_PRESERVED})"

definition tag_ok :: "line_pc \<Rightarrow> base \<Rightarrow> AtomicTag \<Rightarrow> bool" where
  "tag_ok pc b t \<longleftrightarrow> at_status t \<in> statuses pc b \<and> at_flag t = (b = B_F)"

text \<open>What a node can hold before its request is decided, and after it was granted.\<close>

fun before :: "line_pc \<Rightarrow> base set" where
  "before L_Idle = {}"
| "before L_Read = {B_I}"
| "before L_Write = {B_I}"
| "before L_Upgrade = {B_S, B_F}"
| "before (L_Evict EVICT_SHARED) = {B_S, B_F}"
| "before (L_Evict EVICT_DIRTY) = {B_M, B_S, B_F}"

fun after :: "line_pc \<Rightarrow> base set" where
  "after L_Idle = {}"
| "after L_Read = {B_S, B_F}"
| "after L_Write = {B_M, B_F}"
| "after L_Upgrade = {B_M, B_F}"
| "after (L_Evict e) = {B_I}"

text \<open>The replies that are on their way after a grant, with what has arrived before.\<close>

fun granted :: "line_pc \<Rightarrow> bool \<times> bool \<Rightarrow> RawMessageType multiset \<Rightarrow> bool" where
  "granted L_Idle g C \<longleftrightarrow> False"
| "granted L_Read g C \<longleftrightarrow> g = (False, False) \<and> (C = {#DIR_2_APP_READ_MISS_ACKDATA#} \<or> C = {#AGENT_2_APP_READ_MISS_DIRTY_ACKDATA#})"
| "granted L_Write g C \<longleftrightarrow>
     g = (False, False) \<and> (C = {#DIR_2_APP_WRITE_MISS_ACKDATA#} \<or> C = {#AGENT_2_APP_WRITE_MISS_DIRTY_ACKDATA#}
        \<or> C = {#DIR_2_APP_WRITE_MISS_SHAREDDATA, DIR_2_APP_WRITE_MISS_SHARED_AGGACK_ACK#})
     \<or> g = (True, False) \<and> C = {#DIR_2_APP_WRITE_MISS_SHARED_AGGACK_ACK#}
     \<or> g = (False, True) \<and> C = {#DIR_2_APP_WRITE_MISS_SHAREDDATA#}"
| "granted L_Upgrade g C \<longleftrightarrow> g = (False, False)
     \<and> (C = {#DIR_2_APP_WRITE_SHARED_ONLYACK#} \<or> C = {#DIR_2_APP_WRITE_SHARED_NOTONLY_AGGACK_ACK#})"
| "granted (L_Evict EVICT_SHARED) g C \<longleftrightarrow> g = (False, False) \<and> C = {#DIR_2_APP_EVICT_SHARED_ACK#}"
| "granted (L_Evict EVICT_DIRTY) g C \<longleftrightarrow> g = (False, False) \<and> C = {#DIR_2_APP_EVICT_DIRTY_ACK#}"

text \<open>Idle; the request not decided yet; refused because of the block's state; refused because the
  directory does not have the node on its map; granted.\<close>

definition stage_ok :: "line_pc \<Rightarrow> base \<Rightarrow> view \<Rightarrow> bool \<times> bool \<Rightarrow> RawMessageType multiset \<Rightarrow> RawMessageType multiset \<Rightarrow> bool" where
  "stage_ok pc b v g R C \<longleftrightarrow>
     pc = L_Idle \<and> R = {#} \<and> C = {#} \<and> g = (False, False)
     \<or> b \<in> before pc \<and> g = (False, False) \<and> (\<exists>t. request_type pc = Some t \<and> R = {#t#}) \<and> C = {#}
     \<or> b \<in> before pc \<and> g = (False, False) \<and> R = {#} \<and> C = {#DIR_2_APP_M_CHECK_FAIL#}
     \<or> b \<in> before pc \<and> b \<noteq> B_I \<and> v = V_I \<and> g = (False, False) \<and> R = {#} \<and> C = {#DIR_2_APP_BITMAP_CHECK_FAIL#}
     \<or> b \<in> after pc \<and> R = {#} \<and> granted pc g C"

definition node_ok :: "view \<Rightarrow> line_pc \<Rightarrow> AtomicTag \<Rightarrow> bool \<times> bool \<Rightarrow> RawMessageType multiset \<Rightarrow> RawMessageType multiset \<Rightarrow>
    RawMessageType list \<Rightarrow> bool" where
  "node_ok v pc t g R C L \<longleftrightarrow> (\<exists>b. pend_ok b v L \<and> tag_ok pc b t \<and> stage_ok pc b v g R C)"

section \<open>Events at the node\<close>

lemmas node_defs = tag_ok_def stage_ok_def

lemma node_okI: "pend_ok b v L \<Longrightarrow> tag_ok pc b t \<Longrightarrow> stage_ok pc b v g R C \<Longrightarrow> node_ok v pc t g R C L"
  by (auto simp: node_ok_def)

lemma node_okE:
  assumes "node_ok v pc t g R C L"
  obtains b where "pend_ok b v L" "tag_ok pc b t" "stage_ok pc b v g R C"
  using assms by (auto simp: node_ok_def)

lemma stage_idle: "stage_ok L_Idle b v g R C \<longleftrightarrow> R = {#} \<and> C = {#} \<and> g = (False, False)"
  by (auto simp: stage_ok_def)

text \<open>A thread begins a request: the line was quiet, and the request is the only one.\<close>

lemma node_begin:
  assumes "node_ok v L_Idle t g R C L"
  shows "begin_read t = (True, a) \<Longrightarrow> node_ok v L_Read a g {#R_READ_MISS#} C L"
    and "begin_upgrade t = (True, a) \<Longrightarrow> node_ok v L_Upgrade a g {#R_WRITE_SHARED#} C L"
    and "begin_write t = (True, a) \<Longrightarrow> node_ok v L_Write a g {#R_WRITE_MISS#} C L"
proof -
  obtain b where b: "pend_ok b v L" "at_status t \<in> statuses L_Idle b" "at_flag t = (b = B_F)" "C = {#}" "g = (False, False)"
    using assms by (auto simp: node_ok_def tag_ok_def stage_idle)
  show "begin_read t = (True, a) \<Longrightarrow> node_ok v L_Read a g {#R_READ_MISS#} C L"
    unfolding node_ok_def using b by (intro exI [of _ b]) (cases b; auto simp: line_eval node_defs)
  show "begin_upgrade t = (True, a) \<Longrightarrow> node_ok v L_Upgrade a g {#R_WRITE_SHARED#} C L"
    unfolding node_ok_def using b by (intro exI [of _ b]) (cases b; auto simp: line_eval node_defs)
  show "begin_write t = (True, a) \<Longrightarrow> node_ok v L_Write a g {#R_WRITE_MISS#} C L"
    unfolding node_ok_def using b by (intro exI [of _ b]) (cases b; auto simp: line_eval node_defs)
qed

lemma node_begin_evict:
  assumes "node_ok v L_Idle t g R C L" "tmp = C_SHARED \<or> tmp = C_MODIFIED" "begin_evict seen tmp t = (True, a)"
    and "request_type (L_Evict (evict_type_of tmp)) = Some q"
  shows "node_ok v (L_Evict (evict_type_of tmp)) a g {#q#} C L"
proof -
  obtain b where b: "pend_ok b v L" "at_status t \<in> statuses L_Idle b" "at_flag t = (b = B_F)" "C = {#}" "g = (False, False)"
    using assms(1) by (auto simp: node_ok_def tag_ok_def stage_idle)
  then show ?thesis unfolding node_ok_def
    using assms(2-4) by (intro exI [of _ b]) (cases b; auto simp: line_eval node_defs)
qed

text \<open>A quiet line that holds nothing may be taken for another block, or taken for this one again.\<close>

lemma node_slot:
  assumes "node_ok v L_Idle t g R C L" "at_status t \<in> {C_INVALID, C_PRESERVED}" "s \<in> {C_INVALID, C_PRESERVED}"
  shows "node_ok v L_Idle (setFlagAndStatus False s t) g R C L"
proof -
  obtain b where "pend_ok b v L" "tag_ok L_Idle b t" "stage_ok L_Idle b v g R C" using assms(1) by (auto simp: node_ok_def)
  moreover from this have "b = B_I" using assms(2) by (cases b) (auto simp: tag_ok_def)
  ultimately show ?thesis using assms(3) by (intro node_okI [of B_I]) (auto simp: node_defs setFlagAndStatus_def)
qed

text \<open>The agent applies the first notice, or its swap changes nothing.\<close>

lemma flagged:
  assumes "tag_ok pc b t" "stage_ok pc b v g R C" "b = B_S \<or> b = B_M"
  shows "pc = L_Idle \<Longrightarrow> tag_ok pc B_I \<lparr>at_flag = False, at_status = C_INVALID\<rparr> \<and> stage_ok pc B_I v g R C"
    and "pc \<noteq> L_Idle \<Longrightarrow> tag_ok pc B_F \<lparr>at_flag = True, at_status = at_status t\<rparr> \<and> stage_ok pc B_F v g R C"
  using assms by (cases rule: statuses.cases [of "(pc, b)"]; auto simp: node_defs)+

lemma idle_status:
  assumes "tag_ok pc b t" "stage_ok pc b v g R C" "b = B_S \<or> b = B_M"
  shows "pc = L_Idle \<longleftrightarrow> at_status t \<in> {C_SHARED, C_MODIFIED}"
  using assms by (cases rule: statuses.cases [of "(pc, b)"]) (auto simp: node_defs)

lemma agent_invalidates:
  assumes "tag_ok pc b t" "stage_ok pc b v g R C" "b = B_S \<or> b = B_M" "tmp \<noteq> C_PRESERVED"
    and "agent_invalidate_shared tmp t = (x, a) \<or> agent_invalidate_dirty tmp t = (x, a)"
  shows "x \<and> (\<exists>b \<in> {B_I, B_F}. tag_ok pc b a \<and> stage_ok pc b v g R C) \<or> \<not> x \<and> a = t"
proof -
  have "at_status t \<noteq> C_PRESERVED"
    using assms(1-3) by (cases rule: statuses.cases [of "(pc, b)"]) (auto simp: node_defs split: if_splits)
  then consider "\<not> x \<and> a = t"
    | "x" "at_status t \<in> {C_SHARED, C_MODIFIED}" "a = \<lparr>at_flag = False, at_status = C_INVALID\<rparr>"
    | "x" "at_status t \<notin> {C_SHARED, C_MODIFIED}" "a = \<lparr>at_flag = True, at_status = at_status t\<rparr>"
    using invalidate_cases [OF assms(5)] assms(4) by fastforce
  then show ?thesis
    using flagged [OF assms(1-3)] idle_status [OF assms(1-3)] by cases auto
qed

lemma agent_downgrades:
  assumes "tag_ok pc B_M t" "stage_ok pc B_M v g R C" "v \<noteq> V_M" "tmp \<noteq> C_PRESERVED" "agent_downgrade tmp t = (x, a)"
  shows "x \<and> tag_ok pc B_S a \<and> stage_ok pc B_S v g R C \<or> \<not> x \<and> a = t"
proof -
  have "at_status t \<noteq> C_PRESERVED"
    using assms(1,2) by (cases rule: statuses.cases [of "(pc, B_M)"]) (auto simp: node_defs split: if_splits)
  then consider "\<not> x \<and> a = t"
    | "x" "at_status t = C_MODIFIED" "a = \<lparr>at_flag = False, at_status = C_SHARED\<rparr>"
    | "x" "at_status t = C_TO_PRESERVED" "a = \<lparr>at_flag = False, at_status = C_TO_SHARED\<rparr>"
    using downgrade_cases [OF assms(5)] assms(4) by fastforce
  then show ?thesis
    using assms(1,2) by cases (cases rule: statuses.cases [of "(pc, B_M)"]; auto simp: node_defs)+
qed

lemma node_agent:
  assumes "node_ok v pc t g R C (n # L)" "tmp \<noteq> C_PRESERVED" "agent_iteration n tmp t = Some (x, a)"
  shows "x \<and> node_ok v pc a g R C L \<or> \<not> x \<and> a = t"
proof -
  obtain b where b: "pend_ok b v (n # L)" "tag_ok pc b t" "stage_ok pc b v g R C" using assms(1) by (rule node_okE)
  then have base: "b = B_S \<or> b = B_M" by (cases b) auto
  show ?thesis
  proof (cases "n = DIR_2_AGENT_READ_MISS_DIRTY")
    case True
    then have M: "b = B_M" "v \<noteq> V_M" "pend_ok B_S v L" using b(1) by (cases b; auto simp: inv_shared_def)+
    have "agent_downgrade tmp t = (x, a)" using assms(3) True by (simp add: agent_iteration_def)
    from agent_downgrades [OF b(2,3) [unfolded M(1)] M(2) assms(2) this] show ?thesis
      using node_okI [OF M(3)] by blast
  next
    case False
    then have pend: "pend_ok b' v L" if "b' \<in> {B_I, B_F}" for b' using b(1) that by (cases b) auto
    have "agent_invalidate_shared tmp t = (x, a) \<or> agent_invalidate_dirty tmp t = (x, a)"
      using assms(3) False by (cases n) (auto simp: agent_iteration_def)
    from agent_invalidates [OF b(2,3) base assms(2) this] show ?thesis
      using node_okI [OF pend] by blast
  qed
qed

text \<open>A reply arrives.\<close>

lemma stage_reply:
  assumes "stage_ok pc b v g R (add_mset m C)"
  obtains (refused) "b \<in> before pc" "m = DIR_2_APP_M_CHECK_FAIL" "R = {#}" "C = {#}" "g = (False, False)"
  | (unknown) "b \<in> before pc" "b \<noteq> B_I" "v = V_I" "m = DIR_2_APP_BITMAP_CHECK_FAIL" "R = {#}" "C = {#}" "g = (False, False)"
  | (granted) "b \<in> after pc" "R = {#}" "granted pc g (add_mset m C)"
  using assms by (auto simp: stage_ok_def)

lemma reply_expected:
  assumes "stage_ok pc b v g R (add_mset m C)"
  shows "wait_reply pc (fst g) (snd g) m \<noteq> None"
  using assms
proof (cases rule: stage_reply)
  case granted
  then show ?thesis by (cases "(pc, g, add_mset m C)" rule: granted.cases) (auto simp: add_eq_conv_ex)
next
  case refused then show ?thesis by (cases pc) auto
next
  case unknown then show ?thesis by (cases pc) auto
qed

lemma more_stage:
  assumes "stage_ok pc b v g R (add_mset m C)" "wait_reply pc (fst g) (snd g) m = Some (W_More d c)"
  shows "stage_ok pc b v (d, c) R C"
  using assms(1)
proof (cases rule: stage_reply)
  case granted
  then show ?thesis using assms(2)
    by (cases "(pc, g, add_mset m C)" rule: granted.cases) (auto simp: stage_ok_def add_eq_conv_ex split: if_splits)
next
  case refused then show ?thesis using assms(2) by (cases pc) auto
next
  case unknown then show ?thesis using assms(2) by (cases pc) auto
qed

text \<open>The base of the line once the wait is over.\<close>

definition settled :: "line_pc \<Rightarrow> bool \<Rightarrow> base \<Rightarrow> base" where
  "settled pc succ b = (if b = B_F \<or> (\<exists>e. pc = L_Evict e) \<and> succ then B_I else b)"

lemma end_settles:
  assumes "tag_ok pc b t" "b \<in> (if succ then after pc else before pc)" "end_wait pc succ t = Some (x, a)"
  shows "tag_ok L_Idle (settled pc succ b) a"
  using assms
  by (cases rule: statuses.cases [of "(pc, b)"]; cases succ)
    (auto simp: end_wait_def line_eval tag_ok_def settled_def setFlagAndStatus_def try_swaps.simps(1) split: if_splits)

lemma end_flagged:
  assumes "tag_ok pc B_F t" "B_F \<in> before pc" "end_wait pc (flag_result pc) t = Some (x, a)"
  shows "tag_ok L_Idle B_I a"
  using assms
  by (cases rule: statuses.cases [of "(pc, B_F)"])
    (auto simp: end_wait_def flag_result_def line_eval tag_ok_def setFlagAndStatus_def try_swaps.simps(1) split: if_splits)

lemma pend_settled: "pend_ok b v L \<Longrightarrow> b \<in> (if succ then after pc else before pc) \<Longrightarrow> pend_ok (settled pc succ b) v L"
  by (cases pc) (auto simp: settled_def)

lemma node_done:
  assumes "node_ok v pc t g R (add_mset m C) L" "wait_reply pc (fst g) (snd g) m = Some (W_Done succ)"
    and "end_wait pc succ t = Some (x, a)"
  shows "node_ok v L_Idle a (False, False) R C L"
proof -
  obtain b where b: "pend_ok b v L" "tag_ok pc b t" "stage_ok pc b v g R (add_mset m C)" using assms(1) by (rule node_okE)
  have "b \<in> (if succ then after pc else before pc) \<and> R = {#} \<and> C = {#}"
    using b(3)
  proof (cases rule: stage_reply)
    case granted
    then show ?thesis using assms(2)
      by (cases "(pc, g, add_mset m C)" rule: granted.cases) (auto simp: add_eq_conv_ex split: if_splits)
  next
    case refused then show ?thesis using assms(2) by (cases pc) auto
  next
    case unknown then show ?thesis using assms(2) by (cases pc) auto
  qed
  then show ?thesis
    using node_okI [OF pend_settled [OF b(1)] end_settles [OF b(2) _ assms(3)]] by (simp add: stage_idle)
qed

lemma node_flag:
  assumes "node_ok v pc t g R (add_mset m C) L" "wait_reply pc (fst g) (snd g) m = Some W_Flag" "at_flag t"
    and "end_wait pc (flag_result pc) t = Some (x, a)"
  shows "node_ok v L_Idle a (False, False) R C L"
proof -
  obtain b where b: "pend_ok b v L" "tag_ok pc b t" "stage_ok pc b v g R (add_mset m C)" using assms(1) by (rule node_okE)
  then have F: "b = B_F" using assms(3) by (simp add: tag_ok_def)
  have "b \<in> before pc \<and> R = {#} \<and> C = {#}"
    using b(3)
  proof (cases rule: stage_reply)
    case granted
    then show ?thesis using assms(2)
      by (cases "(pc, g, add_mset m C)" rule: granted.cases) (auto simp: add_eq_conv_ex split: if_splits)
  qed auto
  then show ?thesis
    using b F node_okI [of B_I v L L_Idle a] end_flagged [OF _ _ assms(4)] by (simp add: stage_idle)
qed

lemma node_more:
  assumes "node_ok v pc t g R (add_mset m C) L" "wait_reply pc (fst g) (snd g) m = Some (W_More d c)"
  shows "node_ok v pc t (d, c) R C L"
  using assms by (metis node_okE node_okI more_stage)

section \<open>Decisions of the directory\<close>

definition is_request :: "RawMessageType \<Rightarrow> bool" where
  "is_request t \<longleftrightarrow> t \<in> {R_READ_MISS, R_WRITE_MISS, R_WRITE_SHARED, R_EVICT_SHARED, R_EVICT_DIRTY}"

definition is_notice :: "RawMessageType \<Rightarrow> bool" where
  "is_notice t \<longleftrightarrow> t \<in> {DIR_2_AGENT_WRITE_SHARED_NOTONLY, DIR_2_AGENT_WRITE_MISS_SHARED, DIR_2_AGENT_READ_MISS_DIRTY,
     DIR_2_AGENT_WRITE_MISS_DIRTY}"

text \<open>What the cache controller of the notified node sends: an acknowledgement to the directory, and the
  line to the requester.\<close>

fun ack_type :: "RawMessageType \<Rightarrow> RawMessageType" where
  "ack_type DIR_2_AGENT_WRITE_SHARED_NOTONLY = AGENT_2_DIR_WRITE_SHARED_NOTONLY_ACK"
| "ack_type DIR_2_AGENT_WRITE_MISS_SHARED = AGENT_2_DIR_WRITE_MISS_SHARED_ACK"
| "ack_type DIR_2_AGENT_READ_MISS_DIRTY = AGENT_2_DIR_READ_MISS_DIRTY_ACKDATA"
| "ack_type DIR_2_AGENT_WRITE_MISS_DIRTY = AGENT_2_DIR_WRITE_MISS_DIRTY_ACK"
| "ack_type t = t"

fun data_types :: "RawMessageType \<Rightarrow> RawMessageType list" where
  "data_types DIR_2_AGENT_READ_MISS_DIRTY = [AGENT_2_APP_READ_MISS_DIRTY_ACKDATA]"
| "data_types DIR_2_AGENT_WRITE_MISS_DIRTY = [AGENT_2_APP_WRITE_MISS_DIRTY_ACKDATA]"
| "data_types t = []"

text \<open>The last acknowledgement of an invalidation is passed on to the writer.\<close>

fun agg :: "dir_abs \<Rightarrow> nat \<Rightarrow> RawMessageType multiset" where
  "agg (Collect_Miss r P) n = (if n = r then {#DIR_2_APP_WRITE_MISS_SHARED_AGGACK_ACK#} else {#})"
| "agg (Collect_Upgrade r P) n = (if n = r then {#DIR_2_APP_WRITE_SHARED_NOTONLY_AGGACK_ACK#} else {#})"
| "agg a n = {#}"

fun expected :: "dir_abs \<Rightarrow> (RawMessageType \<times> nat \<times> nat) multiset" where
  "expected (To_Shared w r) = {#(AGENT_2_DIR_READ_MISS_DIRTY_ACKDATA, r, w)#}"
| "expected (To_Dirty w r) = {#(AGENT_2_DIR_WRITE_MISS_DIRTY_ACK, r, w)#}"
| "expected (Collect_Miss r P) = image_mset (\<lambda>g. (AGENT_2_DIR_WRITE_MISS_SHARED_ACK, r, g)) (mset_set P)"
| "expected (Collect_Upgrade r P) = image_mset (\<lambda>g. (AGENT_2_DIR_WRITE_SHARED_NOTONLY_ACK, r, g)) (mset_set P)"
| "expected a = {#}"

text \<open>What one decision sends to a node: replies, notices, and the line of a former owner.\<close>

definition mc_notice :: "RawMessageType \<Rightarrow> RawMessageType" where
  "mc_notice q = (if q = R_WRITE_SHARED then DIR_2_AGENT_WRITE_SHARED_NOTONLY else DIR_2_AGENT_WRITE_MISS_SHARED)"

definition notices_to :: "(RawMessageType \<times> nat) list \<Rightarrow> nat set \<Rightarrow> RawMessageType \<Rightarrow> nat \<Rightarrow> RawMessageType list" where
  "notices_to ms mc q n = map fst (filter (\<lambda>(t, k). is_notice t \<and> k = n) ms) @ (if n \<in> mc then [mc_notice q] else [])"

definition replies_to :: "(RawMessageType \<times> nat) list \<Rightarrow> nat \<Rightarrow> RawMessageType multiset" where
  "replies_to ms n = mset (map fst (filter (\<lambda>(t, k). \<not> is_notice t \<and> k = n) ms))"

definition owner_data :: "(RawMessageType \<times> nat) list \<Rightarrow> RawMessageType multiset" where
  "owner_data ms = mset (concat (map (data_types \<circ> fst) ms))"

fun abs_ok :: "dir_abs \<Rightarrow> bool" where
  "abs_ok (Shared S) \<longleftrightarrow> S \<noteq> {} \<and> finite S"
| "abs_ok (To_Shared w r) \<longleftrightarrow> r \<noteq> w"
| "abs_ok (To_Dirty w r) \<longleftrightarrow> r \<noteq> w"
| "abs_ok (Collect_Miss r P) \<longleftrightarrow> P \<noteq> {} \<and> r \<notin> P \<and> finite P"
| "abs_ok (Collect_Upgrade r P) \<longleftrightarrow> P \<noteq> {} \<and> r \<notin> P \<and> finite P"
| "abs_ok a \<longleftrightarrow> True"

lemma rel_abs_ok: "dir_rel e a \<Longrightarrow> abs_ok a"
  by (cases a) (auto dest: shape_finite)

lemmas decide_defs = refuse_def notices_to_def replies_to_def owner_data_def is_notice_def is_request_def mc_notice_def
  dir_spec_def inv_shared_def

lemma request_cases:
  assumes "request_type pc = Some q"
  obtains "pc = L_Read" "q = R_READ_MISS" | "pc = L_Write" "q = R_WRITE_MISS" | "pc = L_Upgrade" "q = R_WRITE_SHARED"
  | "pc = L_Evict EVICT_SHARED" "q = R_EVICT_SHARED" | "pc = L_Evict EVICT_DIRTY" "q = R_EVICT_DIRTY"
  using assms by (cases pc rule: request_type.cases) auto

lemma is_request_type: "request_type pc = Some q \<Longrightarrow> is_request q"
  by (erule request_cases) (simp_all add: is_request_def)

text \<open>A node that is not the requester: its view changes by at most the notices it is sent.\<close>

definition informed :: "view \<Rightarrow> RawMessageType list \<Rightarrow> view \<Rightarrow> bool" where
  "informed v N v' \<longleftrightarrow> N = [] \<and> v' = v \<or> v = V_S \<and> v' = V_I \<and> (\<exists>t. N = [t] \<and> inv_shared t)
     \<or> v = V_M \<and> v' = V_S \<and> N = [DIR_2_AGENT_READ_MISS_DIRTY] \<or> v = V_M \<and> v' = V_I \<and> N = [DIR_2_AGENT_WRITE_MISS_DIRTY]"

lemma node_informed:
  assumes "node_ok v pc t g R C L" "informed v N v'"
  shows "node_ok v' pc t g R C (L @ N)"
proof -
  obtain b where b: "pend_ok b v L" "tag_ok pc b t" "stage_ok pc b v g R C" using assms(1) by (rule node_okE)
  have "pend_ok b v' (L @ N)" using b(1) assms(2) by (cases b) (auto simp: informed_def inv_shared_def)
  moreover have "stage_ok pc b v' g R C" using b(3) assms(2) by (auto simp: stage_ok_def informed_def)
  ultimately show ?thesis using b(2) by (intro node_okI)
qed

lemma decide_others:
  assumes "is_request q" "dir_spec a q r ag = Some (a', ms, mc)" "abs_ok a" "n \<noteq> r"
  shows "informed (dir_view a n) (notices_to ms mc q n) (dir_view a' n)" "agg a' n = agg a n" "replies_to ms n = {#}"
proof -
  have q: "q = R_READ_MISS \<or> q = R_WRITE_MISS \<or> q = R_WRITE_SHARED \<or> q = R_EVICT_SHARED \<or> q = R_EVICT_DIRTY"
    using assms(1) by (simp add: is_request_def)
  show "informed (dir_view a n) (notices_to ms mc q n) (dir_view a' n)"
    using assms(2-) q by (elim disjE; cases a; simp add: decide_defs split: if_splits; (clarsimp simp: informed_def inv_shared_def)?)
  show "agg a' n = agg a n"
    using assms(2-) q by (elim disjE; cases a; simp add: decide_defs split: if_splits; clarsimp?)
  show "replies_to ms n = {#}"
    using assms(2-) q by (elim disjE; cases a; simp add: decide_defs split: if_splits; clarsimp?)
qed

text \<open>The requester: its request is answered by a grant that fits what it holds, or by a refusal.\<close>

lemma node_refused:
  assumes "pend_ok b v L" "tag_ok pc b t" "b \<in> before pc"
  shows "node_ok v pc t (False, False) {#} {#DIR_2_APP_M_CHECK_FAIL#} L"
    and "v = V_I \<Longrightarrow> b \<noteq> B_I \<Longrightarrow> node_ok v pc t (False, False) {#} {#DIR_2_APP_BITMAP_CHECK_FAIL#} L"
  using assms by (auto intro!: node_okI [of b] simp: stage_ok_def)

lemma node_granted:
  assumes "pend_ok b' v L" "tag_ok pc b t" "b' \<in> after pc" "statuses pc b = statuses pc b'" "b \<noteq> B_F" "b' \<noteq> B_F" "granted pc (False, False) C"
  shows "node_ok v pc t (False, False) {#} C L"
  using assms by (auto intro!: node_okI [of b'] simp: stage_ok_def tag_ok_def)

lemma decide_requester:
  assumes "request_type pc = Some q" "dir_spec a q r ag = Some (a', ms, mc)" "abs_ok a"
    and "node_ok (dir_view a r) pc t g {#q#} C L" "agg a r \<subseteq># C"
  shows "node_ok (dir_view a' r) pc t g {#} (replies_to ms r + owner_data ms + agg a' r) (L @ notices_to ms mc q r)"
    and "C = {#}"
proof -
  obtain b where b: "pend_ok b (dir_view a r) L" "tag_ok pc b t" "stage_ok pc b (dir_view a r) g {#q#} C"
    using assms(4) by (rule node_okE)
  have C: "b \<in> before pc" "g = (False, False)" "C = {#}" "agg a r = {#}"
    using b(3) assms(1,5) by (auto simp: stage_ok_def)
  note ref = node_refused [OF b(1,2) C(1)] and gr = node_granted [OF _ b(2)]
  show "node_ok (dir_view a' r) pc t g {#} (replies_to ms r + owner_data ms + agg a' r) (L @ notices_to ms mc q r)"
    using assms(1)
  proof (cases rule: request_cases)
    case 1
    then show ?thesis
      using assms(2,3) b(1) ref gr C by (cases a) (auto simp: decide_defs split: if_splits)
  next
    case 2
    then show ?thesis
      using assms(2,3) b(1) ref gr C by (cases a) (auto simp: decide_defs split: if_splits)
  next
    case 3
    then show ?thesis
      using assms(2,3) b(1) ref gr C by (cases a) (auto simp: decide_defs split: if_splits)
  next
    case 4
    then show ?thesis
      using assms(2,3) b(1) ref gr C by (cases a) (auto simp: decide_defs split: if_splits)
  next
    case 5
    then show ?thesis
      using assms(2,3) b(1) ref gr C by (cases a) (auto simp: decide_defs split: if_splits)
  qed
  show "C = {#}" by (rule C(3))
qed

text \<open>The acknowledgements due are what the directory expects, and an expected one changes no view.\<close>

lemma decide_expects:
  assumes "is_request q" "dir_spec a q r ag = Some (a', ms, mc)" "abs_ok a"
  shows "abs_ok a'" "finite mc"
    "expected a' = expected a + mset (map (\<lambda>(t, n). (ack_type t, r, n)) (filter (\<lambda>(t, n). is_notice t) ms))
       + image_mset (\<lambda>n. (ack_type (mc_notice q), r, n)) (mset_set mc)"
proof -
  have q: "q = R_READ_MISS \<or> q = R_WRITE_MISS \<or> q = R_WRITE_SHARED \<or> q = R_EVICT_SHARED \<or> q = R_EVICT_DIRTY"
    using assms(1) by (simp add: is_request_def)
  show "abs_ok a'"
    using assms(2-) q by (elim disjE; cases a; simp add: decide_defs split: if_splits; clarsimp?)
  show "finite mc"
    using assms(2-) q by (elim disjE; cases a; simp add: decide_defs split: if_splits; clarsimp?)
  show "expected a' = expected a + mset (map (\<lambda>(t, n). (ack_type t, r, n)) (filter (\<lambda>(t, n). is_notice t) ms))
       + image_mset (\<lambda>n. (ack_type (mc_notice q), r, n)) (mset_set mc)"
    using assms(2-) q by (elim disjE; cases a; simp add: decide_defs split: if_splits; clarsimp?)
qed

lemma ack_decided:
  assumes "(t, r, g) \<in># expected a" "abs_ok a"
  obtains a' ms where "dir_spec a t r g = Some (a', ms, {})" "expected a' = expected a - {#(t, r, g)#}" "abs_ok a'"
    "dir_view a' = dir_view a" "\<And>n. replies_to ms n + agg a' n = agg a n" "\<And>x. x \<in> set ms \<Longrightarrow> \<not> is_notice (fst x)"
proof -
  have "\<exists>a' ms. dir_spec a t r g = Some (a', ms, {}) \<and> expected a' = expected a - {#(t, r, g)#} \<and> abs_ok a'
    \<and> dir_view a' = dir_view a \<and> (\<forall>n. replies_to ms n + agg a' n = agg a n) \<and> (\<forall>x \<in> set ms. \<not> is_notice (fst x))"
  proof (cases a)
    case (Collect_Miss r' P)
    then have P: "t = AGENT_2_DIR_WRITE_MISS_SHARED_ACK" "r' = r" "g \<in> P" "finite P" "r \<notin> P" using assms by auto
    then have "mset_set P = add_mset g (mset_set (P - {g}))" by (simp add: mset_set.remove)
    then show ?thesis using P Collect_Miss by (auto simp: decide_defs fun_eq_iff)
  next
    case (Collect_Upgrade r' P)
    then have P: "t = AGENT_2_DIR_WRITE_SHARED_NOTONLY_ACK" "r' = r" "g \<in> P" "finite P" "r \<notin> P" using assms by auto
    then have "mset_set P = add_mset g (mset_set (P - {g}))" by (simp add: mset_set.remove)
    then show ?thesis using P Collect_Upgrade by (auto simp: decide_defs fun_eq_iff)
  qed (use assms in \<open>auto simp: decide_defs fun_eq_iff\<close>)
  then show thesis using that by blast
qed

section \<open>What the relation says\<close>

text \<open>A line that is valid and has no notice pending is what the directory takes the node to hold.\<close>

lemma node_valid:
  assumes "node_ok v pc t g R C []"
  shows "at_status t = C_MODIFIED \<Longrightarrow> v = V_M" "at_status t = C_SHARED \<Longrightarrow> v = V_S"
proof -
  obtain b where "pend_ok b v []" "tag_ok pc b t" using assms by (auto elim: node_okE)
  then show "at_status t = C_MODIFIED \<Longrightarrow> v = V_M" "at_status t = C_SHARED \<Longrightarrow> v = V_S"
    by (cases rule: statuses.cases [of "(pc, b)"]; auto simp: tag_ok_def split: if_splits)+
qed

lemma node_quiet:
  assumes "node_ok v pc t g {#} {#} []"
  shows "pc = L_Idle \<and> \<not> at_flag t \<and> (case v of V_I \<Rightarrow> at_status t \<in> {C_INVALID, C_PRESERVED} | V_S \<Rightarrow> at_status t = C_SHARED | V_M \<Rightarrow> at_status t = C_MODIFIED)"
proof -
  obtain b where b: "pend_ok b v []" "tag_ok pc b t" "stage_ok pc b v g {#} {#}" using assms by (rule node_okE)
  have idle: "pc = L_Idle" using b(3) by (cases "(pc, g, {#} :: RawMessageType multiset)" rule: granted.cases) (auto simp: stage_ok_def)
  then show ?thesis using b by (cases b) (auto simp: tag_ok_def)
qed

text \<open>A pending notice can be applied at once, or the line waits for a grant that is on its way.\<close>

lemma node_pending:
  assumes "node_ok v pc t g R C (n # L)"
  shows "(\<exists>a. agent_iteration n (at_status t) t = Some (True, a))
    \<or> n = DIR_2_AGENT_READ_MISS_DIRTY \<and> at_status t = C_TO_MODIFIED \<and> (pc = L_Write \<or> pc = L_Upgrade) \<and> R = {#} \<and> C \<noteq> {#}"
proof -
  obtain b where b: "pend_ok b v (n # L)" "tag_ok pc b t" "stage_ok pc b v g R C" using assms by (rule node_okE)
  then have "b = B_S \<or> b = B_M" by (cases b) auto
  then show ?thesis using b
    by (cases t; cases "(pc, b)" rule: statuses.cases)
      (auto simp: tag_ok_def stage_ok_def agent_iteration_def agent_invalidate_shared_def agent_invalidate_dirty_def
        agent_downgrade_def casFlagAndStatus_def inv_shared_def)
qed

lemma node_not_preserved:
  assumes "node_ok v pc t g R C (n # L)"
  shows "at_status t \<noteq> C_PRESERVED"
proof -
  obtain b where b: "pend_ok b v (n # L)" "tag_ok pc b t" using assms by (auto elim: node_okE)
  then have "b = B_S \<or> b = B_M" by (cases b) auto
  then show ?thesis using b(2) by (cases "(pc, b)" rule: statuses.cases) (auto simp: tag_ok_def)
qed

lemma node_reply_expected: "node_ok v pc t g R (add_mset m C) L \<Longrightarrow> wait_reply pc (fst g) (snd g) m \<noteq> None"
  by (metis node_okE reply_expected)

end
