(* ===== verification/Coherence.thy ===== *)
theory Coherence
  imports Coh_Node Fabric
begin

text \<open>
  The coherence protocol of one block as a closed system: the directory of the home node (\<open>dir_handle\<close> and
  the multicast), the cache controllers of the FPGAs (\<open>cacheCtrlHLS_from_net\<close>), and on every node the thread
  that works on the line and the agent. Messages to the directory and replies to a thread arrive in any order; notices to a node arrive in the
  order the directory sent them, on one system ring.
\<close>

section \<open>Messages\<close>

abbreviation req_of :: "ctrl_msg \<Rightarrow> nat" where "req_of m \<equiv> node_of (cm_req_cline_nodeID m)"
abbreviation agent_of :: "ctrl_msg \<Rightarrow> nat" where "agent_of m \<equiv> node_of (cm_agent_cline_nodeID m)"
abbreviation dst_of :: "ctrl_msg \<Rightarrow> nat" where "dst_of m \<equiv> node_of (cm_dst_node_id m)"

definition mty :: "ctrl_msg \<Rightarrow> RawMessageType" where
  "mty m = (case mtype_of (cm_mtype m) of Some t \<Rightarrow> t | None \<Rightarrow> INIT_DIR)"

definition known :: "ctrl_msg \<Rightarrow> bool" where
  "known m \<longleftrightarrow> mtype_of (cm_mtype m) \<noteq> None"

lemma mty_code: "cm_mtype m = mtype_code t \<Longrightarrow> mty m = t" "cm_mtype m = mtype_code t \<Longrightarrow> known m"
  by (simp_all add: mty_def known_def)

lemma code_mty: "known m \<Longrightarrow> cm_mtype m = mtype_code (mty m)"
  by (auto simp: known_def mty_def)

lemma built [simp]:
  "mty (to_req t m) = t" "known (to_req t m)" "req_of (to_req t m) = req_of m"
  "mty (to_agent t n e m) = t" "known (to_agent t n e m)" "req_of (to_agent t n e m) = req_of m"
  "agent_of (to_agent t n e m) = node_of n" "dst_of (to_agent t n e m) = node_of n"
  by (simp_all add: mty_def known_def to_req_def to_agent_def)

section \<open>State\<close>

record coherence =
  co_entry :: dir_data_e
  co_home :: "ctrl_msg list"
  co_link :: "ctrl_msg list"
  co_notice :: "nat \<Rightarrow> RawMessageType list"
  co_seen :: "nat \<Rightarrow> CacheStatus option"
  co_app :: "nat \<Rightarrow> RawMessageType list"
  co_pc :: "nat \<Rightarrow> line_pc"
  co_tag :: "nat \<Rightarrow> AtomicTag"
  co_got :: "nat \<Rightarrow> bool \<times> bool"

text \<open>A message on its way: to the directory, to a cache controller, or to a thread.\<close>

definition to_directory :: "RawMessageType \<Rightarrow> bool" where
  "to_directory t \<longleftrightarrow> is_request t \<or> t \<in> {AGENT_2_DIR_WRITE_SHARED_NOTONLY_ACK, AGENT_2_DIR_WRITE_MISS_SHARED_ACK,
     AGENT_2_DIR_READ_MISS_DIRTY_ACKDATA, AGENT_2_DIR_WRITE_MISS_DIRTY_ACK}"

definition route :: "ctrl_msg \<Rightarrow> coherence \<Rightarrow> coherence" where
  "route m s =
     (if to_directory (mty m) then s\<lparr>co_home := co_home s @ [m]\<rparr>
      else if is_notice (mty m) then s\<lparr>co_link := co_link s @ [m]\<rparr>
      else s\<lparr>co_app := (co_app s)(dst_of m := co_app s (dst_of m) @ [mty m])\<rparr>)"

text \<open>Everything a decision of the directory sends, the multicast run to its end.\<close>

definition dir_outputs :: "dir_res \<Rightarrow> ctrl_msg list" where
  "dir_outputs res = dr_out res
     @ (case dr_copy res of
          None \<Rightarrow> []
        | Some (m, e) \<Rightarrow> snd (copy_run (Suc max_node_num) \<lparr>dt_copy_flag = 1, dt_ctrl_msg = m, dt_dir_data = e\<rparr>))"

text \<open>The cache controller on one message, the cycle for its second reply included.\<close>

definition controller :: "ctrl_msg \<Rightarrow> cache_from_net" where
  "controller m = (cacheCtrlHLS_from_net ^^ 2)
     \<lparr>cf_copy_flag = 0, cf_ctrl_msg = m, cf_D_in = [m], cf_CMD_out = [], cf_CC_out = []\<rparr>"

section \<open>Steps\<close>

definition begin_request :: "nat \<Rightarrow> line_pc \<Rightarrow> AtomicTag \<Rightarrow> ctrl_msg \<Rightarrow> coherence \<Rightarrow> coherence" where
  "begin_request n pc a m s = route m (s\<lparr>co_pc := (co_pc s)(n := pc), co_tag := (co_tag s)(n := a)\<rparr>)"

definition end_request_at :: "nat \<Rightarrow> AtomicTag \<Rightarrow> coherence \<Rightarrow> coherence" where
  "end_request_at n a s = s\<lparr>co_pc := (co_pc s)(n := L_Idle), co_tag := (co_tag s)(n := a), co_got := (co_got s)(n := (False, False))\<rparr>"

definition set_app :: "nat \<Rightarrow> RawMessageType list \<Rightarrow> coherence \<Rightarrow> coherence" where
  "set_app n rs s = s\<lparr>co_app := (co_app s)(n := rs)\<rparr>"

inductive coh_step :: "coherence \<Rightarrow> coherence \<Rightarrow> bool" where
  read_miss: "n < max_node_num \<Longrightarrow> co_pc s n = L_Idle \<Longrightarrow> begin_read (co_tag s n) = (True, a) \<Longrightarrow>
    cm_mtype m = mtype_code R_READ_MISS \<Longrightarrow> req_of m = n \<Longrightarrow> coh_step s (begin_request n L_Read a m s)"
| upgrade: "n < max_node_num \<Longrightarrow> co_pc s n = L_Idle \<Longrightarrow> begin_upgrade (co_tag s n) = (True, a) \<Longrightarrow>
    cm_mtype m = mtype_code R_WRITE_SHARED \<Longrightarrow> req_of m = n \<Longrightarrow> coh_step s (begin_request n L_Upgrade a m s)"
| write_miss: "n < max_node_num \<Longrightarrow> co_pc s n = L_Idle \<Longrightarrow> begin_write (co_tag s n) = (True, a) \<Longrightarrow>
    cm_mtype m = mtype_code R_WRITE_MISS \<Longrightarrow> req_of m = n \<Longrightarrow> coh_step s (begin_request n L_Write a m s)"
| evict: "n < max_node_num \<Longrightarrow> co_pc s n = L_Idle \<Longrightarrow> tmp = C_SHARED \<or> tmp = C_MODIFIED \<Longrightarrow>
    begin_evict seen tmp (co_tag s n) = (True, a) \<Longrightarrow>
    cm_mtype m = mtype_code (if tmp = C_SHARED then R_EVICT_SHARED else R_EVICT_DIRTY) \<Longrightarrow> req_of m = n \<Longrightarrow>
    coh_step s (begin_request n (L_Evict (evict_type_of tmp)) a m s)"
| slot: "co_pc s n = L_Idle \<Longrightarrow> at_status (co_tag s n) \<in> {C_INVALID, C_PRESERVED} \<Longrightarrow> st \<in> {C_INVALID, C_PRESERVED} \<Longrightarrow>
    coh_step s (s\<lparr>co_tag := (co_tag s)(n := setFlagAndStatus False st (co_tag s n))\<rparr>)"
| directory: "co_home s = ms1 @ m # ms2 \<Longrightarrow> dir_handle m (co_entry s) = Some res \<Longrightarrow>
    coh_step s (fold route (dir_outputs res) (s\<lparr>co_entry := dr_entry res, co_home := ms1 @ ms2\<rparr>))"
| control: "co_link s = ms1 @ m # ms2 \<Longrightarrow> \<forall>x \<in> set ms1. dst_of x \<noteq> dst_of m \<Longrightarrow>
    coh_step s (fold route (cf_CC_out (controller m))
      (s\<lparr>co_link := ms1 @ ms2,
         co_notice := (co_notice s)(dst_of m := co_notice s (dst_of m) @ map mty (cf_CMD_out (controller m)))\<rparr>))"
| agent_load: "co_notice s n \<noteq> [] \<Longrightarrow> coh_step s (s\<lparr>co_seen := (co_seen s)(n := Some (at_status (co_tag s n)))\<rparr>)"
| agent_swap: "co_notice s n = t # ts \<Longrightarrow> co_seen s n = Some tmp \<Longrightarrow> agent_iteration t tmp (co_tag s n) = Some (b, a) \<Longrightarrow>
    coh_step s (s\<lparr>co_seen := (co_seen s)(n := None), co_notice := (co_notice s)(n := if b then ts else t # ts),
                  co_tag := (co_tag s)(n := a)\<rparr>)"
| more: "co_app s n = rs1 @ t # rs2 \<Longrightarrow> wait_reply (co_pc s n) (fst (co_got s n)) (snd (co_got s n)) t = Some (W_More d c) \<Longrightarrow>
    coh_step s (set_app n (rs1 @ rs2) (s\<lparr>co_got := (co_got s)(n := (d, c))\<rparr>))"
| returned: "co_app s n = rs1 @ t # rs2 \<Longrightarrow> wait_reply (co_pc s n) (fst (co_got s n)) (snd (co_got s n)) t = Some (W_Done succ) \<Longrightarrow>
    end_wait (co_pc s n) succ (co_tag s n) = Some (x, a) \<Longrightarrow>
    coh_step s (end_request_at n a (set_app n (rs1 @ rs2) s))"
| flag_seen: "co_app s n = rs1 @ t # rs2 \<Longrightarrow> wait_reply (co_pc s n) (fst (co_got s n)) (snd (co_got s n)) t = Some W_Flag \<Longrightarrow>
    at_flag (co_tag s n) \<Longrightarrow> end_wait (co_pc s n) (flag_result (co_pc s n)) (co_tag s n) = Some (x, a) \<Longrightarrow>
    coh_step s (end_request_at n a (set_app n (rs1 @ rs2) s))"

text \<open>An unshared block of which no node has a line.\<close>

definition coh_start :: "dir_data_e \<Rightarrow> coherence" where
  "coh_start e = \<lparr>co_entry = e, co_home = [], co_link = [], co_notice = \<lambda>_. [], co_seen = \<lambda>_. None, co_app = \<lambda>_. [],
     co_pc = \<lambda>_. L_Idle, co_tag = \<lambda>_. \<lparr>at_flag = False, at_status = C_PRESERVED\<rparr>, co_got = \<lambda>_. (False, False)\<rparr>"

section \<open>What a decision sends\<close>

definition out_ok :: "ctrl_msg \<Rightarrow> ctrl_msg \<Rightarrow> bool" where
  "out_ok m x \<longleftrightarrow> known x \<and> req_of x = req_of m \<and> \<not> to_directory (mty x)
     \<and> (is_notice (mty x) \<longrightarrow> agent_of x = dst_of x)"

lemma out_ok_built:
  "\<not> to_directory t \<Longrightarrow> \<not> is_notice t \<Longrightarrow> out_ok m (to_req t m)"
  "\<not> to_directory t \<Longrightarrow> out_ok m (to_agent t n e m)"
  by (simp_all add: out_ok_def)

lemma annotated_out: "out_ok (dir_annotate m e) x = out_ok m x"
  by (simp add: out_ok_def)

lemma outs_of:
  "dr_out (reply t m e) = [to_req t m]" "dr_out (forward t n m e) = [to_agent t n e m]" "dr_out (silent m e) = []"
  by (simp_all add: reply_def forward_def silent_def)

lemma kinds:
  "\<not> to_directory DIR_2_APP_READ_MISS_ACKDATA" "\<not> to_directory DIR_2_APP_WRITE_MISS_ACKDATA"
  "\<not> to_directory DIR_2_APP_WRITE_MISS_SHAREDDATA" "\<not> to_directory DIR_2_APP_WRITE_MISS_SHARED_AGGACK_ACK"
  "\<not> to_directory DIR_2_APP_WRITE_SHARED_ONLYACK" "\<not> to_directory DIR_2_APP_WRITE_SHARED_NOTONLY_AGGACK_ACK"
  "\<not> to_directory DIR_2_APP_EVICT_SHARED_ACK" "\<not> to_directory DIR_2_APP_EVICT_DIRTY_ACK"
  "\<not> to_directory DIR_2_APP_M_CHECK_FAIL" "\<not> to_directory DIR_2_APP_BITMAP_CHECK_FAIL"
  "\<not> is_notice DIR_2_APP_READ_MISS_ACKDATA" "\<not> is_notice DIR_2_APP_WRITE_MISS_ACKDATA"
  "\<not> is_notice DIR_2_APP_WRITE_MISS_SHAREDDATA" "\<not> is_notice DIR_2_APP_WRITE_MISS_SHARED_AGGACK_ACK"
  "\<not> is_notice DIR_2_APP_WRITE_SHARED_ONLYACK" "\<not> is_notice DIR_2_APP_WRITE_SHARED_NOTONLY_AGGACK_ACK"
  "\<not> is_notice DIR_2_APP_EVICT_SHARED_ACK" "\<not> is_notice DIR_2_APP_EVICT_DIRTY_ACK"
  "\<not> is_notice DIR_2_APP_M_CHECK_FAIL" "\<not> is_notice DIR_2_APP_BITMAP_CHECK_FAIL"
  "is_notice t \<Longrightarrow> \<not> to_directory t"
  by (auto simp: to_directory_def is_request_def is_notice_def)

lemmas handler_out = out_ok_built outs_of kinds is_notice_def

lemma handler_outs:
  "dir_read_miss m e g = Some res \<Longrightarrow> \<forall>x \<in> set (dr_out res). out_ok m x"
  "dir_write_miss m e g = Some res \<Longrightarrow> \<forall>x \<in> set (dr_out res). out_ok m x"
  "dir_write_shared m e = Some res \<Longrightarrow> \<forall>x \<in> set (dr_out res). out_ok m x"
  "dir_evict_shared m e = Some res \<Longrightarrow> \<forall>x \<in> set (dr_out res). out_ok m x"
  "dir_evict_dirty m e = Some res \<Longrightarrow> \<forall>x \<in> set (dr_out res). out_ok m x"
  by (auto simp: dir_read_miss_def dir_write_miss_def dir_write_shared_def dir_evict_shared_def dir_evict_dirty_def
      handler_out split: option.splits RawState.splits if_splits Option.bind_splits)

lemma ack_outs:
  "dir_read_miss_dirty_ack m e = Some res \<Longrightarrow> \<forall>x \<in> set (dr_out res). out_ok m x"
  "dir_write_miss_dirty_ack m e = Some res \<Longrightarrow> \<forall>x \<in> set (dr_out res). out_ok m x"
  "dir_write_miss_shared_ack m e = Some res \<Longrightarrow> \<forall>x \<in> set (dr_out res). out_ok m x"
  "dir_write_shared_notonly_ack m e = Some res \<Longrightarrow> \<forall>x \<in> set (dr_out res). out_ok m x"
  by (auto simp: dir_read_miss_dirty_ack_def dir_write_miss_dirty_ack_def dir_write_miss_shared_ack_def
      dir_write_shared_notonly_ack_def handler_out split: option.splits if_splits Option.bind_splits)

lemma decision_outs:
  assumes "dir_handle m e = Some res"
  shows "\<forall>x \<in> set (dr_out res). out_ok m x"
proof -
  have "\<forall>x \<in> set (dr_out res). out_ok (dir_annotate m e) x"
    using assms handler_outs [of "dir_annotate m e" e] ack_outs [of "dir_annotate m e" e]
    by (auto simp: dir_handle_def Let_def outs_of split: option.splits RawMessageType.splits)
  then show ?thesis by (simp add: annotated_out)
qed

lemma copy_run_stopped: "dt_copy_flag r = 0 \<Longrightarrow> copy_run k r = (r, [])"
  by (cases k) simp_all

lemma copy_run_more:
  assumes "copy_run n r = (r', out)" "dt_copy_flag r' = 0"
  shows "copy_run (n + k) r = (r', out)"
  using assms
proof (induction n arbitrary: r out)
  case 0
  then show ?case by (simp add: copy_run_stopped)
next
  case (Suc n)
  show ?case
  proof (cases "dt_copy_flag r = 0")
    case True
    then show ?thesis using Suc.prems by simp
  next
    case False
    obtain r1 o1 where s: "copy_step r = (r1, o1)" by fastforce
    obtain r2 o2 where t: "copy_run n r1 = (r2, o2)" by fastforce
    have "r' = r2" "out = o1 @ o2" using Suc.prems(1) False s t by auto
    then show ?thesis using Suc.IH [of r1 o2] Suc.prems(2) False s t by simp
  qed
qed

lemma multicast_notices:
  assumes "dir_rel e (Shared S)" "q = R_WRITE_MISS \<or> q = R_WRITE_SHARED" "cm_mtype m = mtype_code q"
    and "q = R_WRITE_MISS \<Longrightarrow> req_of m \<notin> S"
  shows "\<exists>cs. distinct cs \<and> set cs = S - {req_of m}
    \<and> snd (copy_run (Suc max_node_num) \<lparr>dt_copy_flag = 1, dt_ctrl_msg = m, dt_dir_data = e\<rparr>)
      = map (\<lambda>n. to_agent (mc_notice q) (of_nat n) e m) cs"
proof -
  let ?r = "\<lparr>dt_copy_flag = 1, dt_ctrl_msg = m, dt_dir_data = e\<rparr>"
  have sh: "entry_shape e S_SHARED S (card S)" using assms(1) by simp
  have cop: "copying ?r" using sh assms(2,3) by (auto simp: copying_def shape_defs)
  have S: "remaining ?r = S" using sh by (simp add: shape_defs)
  obtain r' where run: "copy_run (Suc (card S)) ?r = (r', concat (map (notice ?r) (rev (sorted_list_of_set S))))"
    "dt_copy_flag r' = 0" using copy_run_notices [OF cop] S by auto
  have "card S \<le> max_node_num" using shape_card [OF sh] by (simp add: max_node_num_def)
  then have eq: "snd (copy_run (Suc max_node_num) ?r) = concat (map (notice ?r) (rev (sorted_list_of_set S)))"
    using copy_run_more [OF run, of "max_node_num - card S"] by simp
  define cs where "cs = filter (\<lambda>n. n \<noteq> req_of m) (rev (sorted_list_of_set S))"
  have node: "n < max_node_num" if "n \<in> S" for n using shape_node_less [OF sh that] .
  have one: "notice ?r n = (if n = req_of m then [] else [to_agent (mc_notice q) (of_nat n) e m])" if "n \<in> S" for n
  proof -
    have "(of_nat n :: u8) = cm_req_cline_nodeID m \<longleftrightarrow> n = req_of m"
      using unat_of_nat_node [OF node [OF that]] by (auto simp: word_unat_eq_iff)
    then show ?thesis using that assms(2-4) by (auto simp: notice_def mc_notice_def)
  qed
  have fin: "finite S" by (rule shape_finite [OF sh])
  have "concat (map (notice ?r) ns) = map (\<lambda>n. to_agent (mc_notice q) (of_nat n) e m) (filter (\<lambda>n. n \<noteq> req_of m) ns)"
    if "set ns \<subseteq> S" for ns
    using that by (induction ns) (auto simp: one)
  then have "concat (map (notice ?r) (rev (sorted_list_of_set S))) = map (\<lambda>n. to_agent (mc_notice q) (of_nat n) e m) cs"
    using fin by (simp add: cs_def)
  moreover have "distinct cs" "set cs = S - {req_of m}" using fin by (auto simp: cs_def)
  ultimately show ?thesis using eq by auto
qed

lemma spec_multicast:
  assumes "dir_spec a q r g = Some (a', ms, mc)" "mc \<noteq> {}"
  obtains S where "a = Shared S" "q = R_WRITE_MISS \<or> q = R_WRITE_SHARED" "q = R_WRITE_MISS \<Longrightarrow> r \<notin> S" "mc = S - {r}"
proof -
  have "\<exists>S. a = Shared S \<and> (q = R_WRITE_MISS \<or> q = R_WRITE_SHARED) \<and> (q = R_WRITE_MISS \<longrightarrow> r \<notin> S) \<and> mc = S - {r}"
    using assms by (cases a; cases q) (auto simp: dir_spec_def refuse_def split: if_splits)
  then show thesis using that by blast
qed

lemma decision_sends:
  assumes rel: "dir_rel e a" and r: "req_of m < max_node_num" and q: "cm_mtype m = mtype_code q"
    and spec: "dir_spec a q (req_of m) (agent_of m) = Some (a', ms, mc)"
  obtains res cs where "dir_handle m e = Some res" "dir_rel (dr_entry res) a'" "distinct cs" "set cs = mc"
    "map (\<lambda>x. (mty x, dst_of x)) (dir_outputs res) = ms @ map (\<lambda>n. (mc_notice q, n)) cs"
    "\<forall>x \<in> set (dir_outputs res). out_ok m x"
proof -
  obtain res where res: "dir_handle m e = Some res" "implements (dir_annotate m e) e res (a', ms, mc)"
    using handle_implements [OF rel r q spec] by blast
  have outs: "\<forall>x \<in> set (dr_out res). out_ok m x" by (rule decision_outs [OF res(1)])
  have "map (\<lambda>x. (mtype_code (mty x), dst_of x)) (dr_out res) = map (\<lambda>(t, n). (mtype_code t, n)) ms"
  proof -
    have "map (\<lambda>x. (mtype_code (mty x), dst_of x)) (dr_out res) = map (\<lambda>x. (cm_mtype x, dst_of x)) (dr_out res)"
      using outs code_mty by (intro map_cong) (auto simp: out_ok_def)
    also have "\<dots> = map (\<lambda>(t, n). (mtype_code t, n)) ms" using res(2) by (simp add: implements_def)
    finally show ?thesis .
  qed
  from arg_cong [where f = "map (\<lambda>(w, n). (the (mtype_of w), n))", OF this]
  have ks: "map (\<lambda>x. (mty x, dst_of x)) (dr_out res) = ms" by (simp add: comp_def split_def)
  show thesis
  proof (cases "mc = {}")
    case True
    then have "dir_outputs res = dr_out res" using res(2) by (simp add: implements_def dir_outputs_def)
    then show thesis using True res ks outs by (intro that [of res "[]"]) (auto simp: implements_def)
  next
    case False
    obtain S where S: "a = Shared S" "q = R_WRITE_MISS \<or> q = R_WRITE_SHARED" "q = R_WRITE_MISS \<Longrightarrow> req_of m \<notin> S" "mc = S - {req_of m}"
      using spec_multicast [OF spec False] by blast
    obtain cs where cs: "distinct cs" "set cs = mc"
      "snd (copy_run (Suc max_node_num) \<lparr>dt_copy_flag = 1, dt_ctrl_msg = dir_annotate m e, dt_dir_data = e\<rparr>)
        = map (\<lambda>n. to_agent (mc_notice q) (of_nat n) e (dir_annotate m e)) cs"
      using multicast_notices [OF rel [unfolded S(1)] S(2), of "dir_annotate m e"] q S(3,4) by auto
    have all: "dir_outputs res = dr_out res @ map (\<lambda>n. to_agent (mc_notice q) (of_nat n) e (dir_annotate m e)) cs"
      using res(2) False cs(3) by (simp add: implements_def dir_outputs_def)
    have node: "n < max_node_num" if "n \<in> set cs" for n
      using that cs(2) S(1,4) rel by (auto dest: shape_node_less)
    have notice: "is_notice (mc_notice q)" by (simp add: mc_notice_def is_notice_def)
    have "map (\<lambda>x. (mty x, dst_of x)) (map (\<lambda>n. to_agent (mc_notice q) (of_nat n) e (dir_annotate m e)) cs) = map (\<lambda>n. (mc_notice q, n)) cs"
      using node by (auto simp: unat_of_nat_node)
    moreover have "\<forall>x \<in> set (map (\<lambda>n. to_agent (mc_notice q) (of_nat n) e (dir_annotate m e)) cs). out_ok m x"
      using out_ok_built(2) [of "mc_notice q" "dir_annotate m e"] kinds(21) [OF notice] by (simp add: annotated_out)
    ultimately show thesis
      using res ks outs cs(1,2) all by (intro that [of res cs]) (auto simp: implements_def)
  qed
qed

section \<open>Routing\<close>

lemma fold_route:
  "co_home (fold route ms s) = co_home s @ filter (\<lambda>m. to_directory (mty m)) ms"
  "co_link (fold route ms s) = co_link s @ filter (\<lambda>m. is_notice (mty m)) ms"
  "co_app (fold route ms s) n = co_app s n @ map mty (filter (\<lambda>m. \<not> to_directory (mty m) \<and> \<not> is_notice (mty m) \<and> dst_of m = n) ms)"
  "co_entry (fold route ms s) = co_entry s" "co_notice (fold route ms s) = co_notice s" "co_seen (fold route ms s) = co_seen s"
  "co_pc (fold route ms s) = co_pc s" "co_tag (fold route ms s) = co_tag s" "co_got (fold route ms s) = co_got s"
  using kinds(21) by (induction ms arbitrary: s) (auto simp: route_def)

section \<open>Invariant\<close>

definition reqs_of :: "nat \<Rightarrow> ctrl_msg list \<Rightarrow> RawMessageType multiset" where
  "reqs_of n ms = mset (map mty (filter (\<lambda>m. is_request (mty m) \<and> req_of m = n) ms))"

definition acks_of :: "ctrl_msg list \<Rightarrow> (RawMessageType \<times> nat \<times> nat) multiset" where
  "acks_of ms = mset (map (\<lambda>m. (mty m, req_of m, agent_of m)) (filter (\<lambda>m. \<not> is_request (mty m)) ms))"

definition due_acks :: "ctrl_msg list \<Rightarrow> (RawMessageType \<times> nat \<times> nat) multiset" where
  "due_acks ms = mset (map (\<lambda>m. (ack_type (mty m), req_of m, agent_of m)) ms)"

definition due_data :: "nat \<Rightarrow> ctrl_msg list \<Rightarrow> RawMessageType multiset" where
  "due_data n ms = mset (concat (map (data_types \<circ> mty) (filter (\<lambda>m. req_of m = n) ms)))"

definition coming :: "dir_abs \<Rightarrow> coherence \<Rightarrow> nat \<Rightarrow> RawMessageType multiset" where
  "coming a s n = mset (co_app s n) + (due_data n (co_link s) + agg a n)"

definition notices_at :: "nat \<Rightarrow> ctrl_msg list \<Rightarrow> RawMessageType list" where
  "notices_at n ms = map mty (filter (\<lambda>m. dst_of m = n) ms)"

definition pending_at :: "coherence \<Rightarrow> nat \<Rightarrow> RawMessageType list" where
  "pending_at s n = co_notice s n @ notices_at n (co_link s)"

definition msgs_ok :: "coherence \<Rightarrow> bool" where
  "msgs_ok s \<longleftrightarrow> (\<forall>m \<in> set (co_home s). known m \<and> to_directory (mty m) \<and> req_of m < max_node_num)
     \<and> (\<forall>m \<in> set (co_link s). known m \<and> is_notice (mty m) \<and> agent_of m = dst_of m \<and> req_of m < max_node_num)"

definition seen_ok :: "coherence \<Rightarrow> nat \<Rightarrow> bool" where
  "seen_ok s n \<longleftrightarrow> (\<forall>x. co_seen s n = Some x \<longrightarrow> x \<noteq> C_PRESERVED)"

definition at_node :: "dir_abs \<Rightarrow> coherence \<Rightarrow> nat \<Rightarrow> bool" where
  "at_node a s n \<longleftrightarrow> node_ok (dir_view a n) (co_pc s n) (co_tag s n) (co_got s n) (reqs_of n (co_home s)) (coming a s n) (pending_at s n)
     \<and> seen_ok s n"

definition coh_rel :: "dir_abs \<Rightarrow> coherence \<Rightarrow> bool" where
  "coh_rel a s \<longleftrightarrow> dir_rel (co_entry s) a \<and> msgs_ok s \<and> acks_of (co_home s) + due_acks (co_link s) = expected a \<and> (\<forall>n. at_node a s n)"

lemmas count_defs = reqs_of_def acks_of_def due_acks_def due_data_def notices_at_def

lemma count_simps [simp]:
  "reqs_of n [] = {#}" "acks_of [] = {#}" "due_acks [] = {#}" "due_data n [] = {#}" "notices_at n [] = []"
  "reqs_of n (xs @ ys) = reqs_of n xs + reqs_of n ys" "acks_of (xs @ ys) = acks_of xs + acks_of ys"
  "due_acks (xs @ ys) = due_acks xs + due_acks ys" "due_data n (xs @ ys) = due_data n xs + due_data n ys"
  "notices_at n (xs @ ys) = notices_at n xs @ notices_at n ys"
  by (simp_all add: count_defs)

lemma coh_start_rel: "dir_rel e Unshared \<Longrightarrow> coh_rel Unshared (coh_start e)"
  by (simp add: coh_rel_def coh_start_def msgs_ok_def at_node_def seen_ok_def coming_def pending_at_def)
    (auto intro!: node_okI [of B_I] simp: stage_idle tag_ok_def)

section \<open>Steps keep the invariant\<close>

lemma at_node_idle:
  "at_node a s n \<Longrightarrow> co_pc s n = L_Idle \<Longrightarrow> reqs_of n (co_home s) = {#} \<and> coming a s n = {#} \<and> co_got s n = (False, False)"
  by (auto simp: at_node_def stage_idle elim!: node_okE)

text \<open>A step of one node that sends at most a request.\<close>

definition requests_of :: "nat \<Rightarrow> ctrl_msg list \<Rightarrow> bool" where
  "requests_of n hs \<longleftrightarrow> (\<forall>m \<in> set hs. known m \<and> is_request (mty m) \<and> req_of m = n \<and> n < max_node_num)"

lemma requests_counts:
  assumes "requests_of n hs"
  shows "acks_of hs = {#}" "k \<noteq> n \<Longrightarrow> reqs_of k hs = {#}"
  using assms by (auto simp: count_defs requests_of_def filter_empty_conv)

lemma node_step:
  assumes "coh_rel a s" "requests_of n hs"
    and "co_entry s' = co_entry s" "co_home s' = co_home s @ hs" "co_link s' = co_link s"
    and "\<And>k. k \<noteq> n \<Longrightarrow> co_notice s' k = co_notice s k \<and> co_seen s' k = co_seen s k \<and> co_app s' k = co_app s k
      \<and> co_pc s' k = co_pc s k \<and> co_tag s' k = co_tag s k \<and> co_got s' k = co_got s k"
    and "at_node a s' n"
  shows "coh_rel a s'"
proof -
  have "at_node a s' k" for k
  proof (cases "k = n")
    case False
    then have "reqs_of k (co_home s') = reqs_of k (co_home s)" "coming a s' k = coming a s k" "pending_at s' k = pending_at s k"
      using assms(2,4-6) requests_counts(2) [OF assms(2)] by (simp_all add: coming_def pending_at_def)
    then show ?thesis using assms(1,6) False by (simp add: coh_rel_def at_node_def seen_ok_def)
  qed (use assms(7) in simp)
  moreover have "msgs_ok s'"
    using assms(1,2,4,5) by (auto simp: coh_rel_def msgs_ok_def requests_of_def to_directory_def)
  ultimately show ?thesis using assms(1-5) requests_counts(1) [OF assms(2)] by (simp add: coh_rel_def)
qed

lemma begin_step:
  assumes "coh_rel a s" "n < max_node_num" "co_pc s n = L_Idle" "cm_mtype m = mtype_code q" "req_of m = n"
    and "request_type pc = Some q"
    and "node_ok (dir_view a n) pc t (False, False) {#q#} {#} (pending_at s n)"
  shows "coh_rel a (begin_request n pc t m s)"
proof (rule node_step [OF assms(1), of n "[m]"])
  have q: "mty m = q" "known m" "is_request q" "to_directory q"
    using mty_code [OF assms(4)] is_request_type [OF assms(6)] by (auto simp: to_directory_def)
  then show "requests_of n [m]" using assms(2,4,5) by (simp add: requests_of_def)
  have n: "at_node a s n" using assms(1) by (simp add: coh_rel_def)
  have "reqs_of n (co_home (begin_request n pc t m s)) = {#q#}"
    using at_node_idle [OF n assms(3)] q assms(5) by (simp add: begin_request_def route_def reqs_of_def)
  moreover have "coming a (begin_request n pc t m s) n = {#}" "pending_at (begin_request n pc t m s) n = pending_at s n"
    using at_node_idle [OF n assms(3)] q by (simp_all add: begin_request_def route_def coming_def pending_at_def)
  ultimately show "at_node a (begin_request n pc t m s) n"
    using n assms(7) q at_node_idle [OF n assms(3)] by (simp add: at_node_def seen_ok_def begin_request_def route_def)
qed (use mty_code [OF assms(4)] is_request_type [OF assms(6)] in \<open>auto simp: begin_request_def route_def to_directory_def\<close>)

text \<open>A reply is taken from those that have arrived.\<close>

lemma reply_step:
  assumes "coh_rel a s" "co_app s n = rs1 @ t # rs2"
    and "s' = s\<lparr>co_app := (co_app s)(n := rs1 @ rs2), co_pc := (co_pc s)(n := pc), co_tag := (co_tag s)(n := g),
                co_got := (co_got s)(n := h)\<rparr>"
    and "\<And>R C L. node_ok (dir_view a n) (co_pc s n) (co_tag s n) (co_got s n) R (add_mset t C) L \<Longrightarrow>
      node_ok (dir_view a n) pc g h R C L"
  shows "coh_rel a s'"
proof (rule node_step [OF assms(1), of n "[]"])
  have n: "at_node a s n" using assms(1) by (simp add: coh_rel_def)
  have "coming a s n = add_mset t (coming a s' n)" using assms(2,3) by (simp add: coming_def)
  then have "node_ok (dir_view a n) pc g h (reqs_of n (co_home s)) (coming a s' n) (pending_at s n)"
    using n assms(4) by (simp add: at_node_def)
  then show "at_node a s' n" using n assms(3) by (simp add: at_node_def seen_ok_def pending_at_def)
qed (use assms(3) in \<open>auto simp: requests_of_def\<close>)

text \<open>The agent of a node.\<close>

lemma agent_step:
  assumes "coh_rel a s" "co_notice s n = t # ts" "co_seen s n = Some tmp" "agent_iteration t tmp (co_tag s n) = Some (b, g)"
    and "s' = s\<lparr>co_seen := (co_seen s)(n := None), co_notice := (co_notice s)(n := if b then ts else t # ts), co_tag := (co_tag s)(n := g)\<rparr>"
  shows "coh_rel a s'"
proof (rule node_step [OF assms(1), of n "[]"])
  have n: "at_node a s n" using assms(1) by (simp add: coh_rel_def)
  have tmp: "tmp \<noteq> C_PRESERVED" using n assms(3) by (simp add: at_node_def seen_ok_def)
  have "node_ok (dir_view a n) (co_pc s n) (co_tag s n) (co_got s n) (reqs_of n (co_home s)) (coming a s n)
      (t # (ts @ notices_at n (co_link s)))"
    using n assms(2) by (simp add: at_node_def pending_at_def)
  from node_agent [OF this tmp assms(4)]
  show "at_node a s' n" using n assms(2,5) by (auto simp: at_node_def seen_ok_def pending_at_def coming_def)
qed (use assms(5) in \<open>auto simp: requests_of_def\<close>)

section \<open>The directory and the cache controllers\<close>

lemma data_types_nil: "\<not> is_notice t \<Longrightarrow> data_types t = []"
  by (cases t) (simp_all add: is_notice_def)

lemma mc_notice_kind [simp]: "is_notice (mc_notice q)" "data_types (mc_notice q) = []"
  by (simp_all add: mc_notice_def is_notice_def)

lemma filter_one: "distinct cs \<Longrightarrow> filter (\<lambda>k. k = n) cs = (if n \<in> set cs then [n] else [])"
  by (induction cs) auto

lemma kinds_filter:
  "map mty (filter (\<lambda>x. P (mty x) (dst_of x)) outs) = map fst (filter (\<lambda>(t, k). P t k) (map (\<lambda>x. (mty x, dst_of x)) outs))"
  by (simp add: filter_map comp_def)

lemma sent_counts:
  assumes K: "map (\<lambda>x. (mty x, dst_of x)) outs = ms @ map (\<lambda>n. (mc_notice q, n)) cs" and cs: "distinct cs" "set cs = mc"
    and ok: "\<forall>x \<in> set outs. out_ok m x"
  shows "filter (\<lambda>x. to_directory (mty x)) outs = []"
    and "mset (map mty (filter (\<lambda>x. \<not> to_directory (mty x) \<and> \<not> is_notice (mty x) \<and> dst_of x = n) outs)) = replies_to ms n"
    and "due_data n (filter (\<lambda>x. is_notice (mty x)) outs) = (if n = req_of m then owner_data ms else {#})"
    and "notices_at n (filter (\<lambda>x. is_notice (mty x)) outs) = notices_to ms mc q n"
    and "due_acks (filter (\<lambda>x. is_notice (mty x)) outs)
      = mset (map (\<lambda>(t, n). (ack_type t, req_of m, n)) (filter (\<lambda>(t, n). is_notice t) ms))
        + image_mset (\<lambda>n. (ack_type (mc_notice q), req_of m, n)) (mset_set mc)"
proof -
  show "filter (\<lambda>x. to_directory (mty x)) outs = []" using ok by (simp add: out_ok_def filter_empty_conv)
  have "filter (\<lambda>x. \<not> to_directory (mty x) \<and> \<not> is_notice (mty x) \<and> dst_of x = n) outs
      = filter (\<lambda>x. \<not> is_notice (mty x) \<and> dst_of x = n) outs"
    using ok by (intro filter_cong) (auto simp: out_ok_def)
  then show "mset (map mty (filter (\<lambda>x. \<not> to_directory (mty x) \<and> \<not> is_notice (mty x) \<and> dst_of x = n) outs)) = replies_to ms n"
    using kinds_filter [of "\<lambda>t k. \<not> is_notice t \<and> k = n" outs] K
    by (simp add: replies_to_def filter_map comp_def)
  have d: "concat (map (data_types \<circ> mty) xs) = concat (map (data_types \<circ> fst) (map (\<lambda>x. (mty x, dst_of x)) xs))" for xs
    by (simp add: comp_def)
  have nil: "concat (map (\<lambda>x. data_types (mty x)) (filter (\<lambda>x. is_notice (mty x)) xs)) = concat (map (\<lambda>x. data_types (mty x)) xs)" for xs
    by (induction xs) (auto simp: data_types_nil)
  have "filter (\<lambda>x. req_of x = n) (filter (\<lambda>x. is_notice (mty x)) outs) = (if n = req_of m then filter (\<lambda>x. is_notice (mty x)) outs else [])"
    using ok by (auto simp: out_ok_def filter_empty_conv intro!: filter_cong)
  then show "due_data n (filter (\<lambda>x. is_notice (mty x)) outs) = (if n = req_of m then owner_data ms else {#})"
    using d [of outs] K by (simp add: due_data_def owner_data_def comp_def nil)
  have "map mty (filter (\<lambda>x. is_notice (mty x) \<and> dst_of x = n) outs) = notices_to ms mc q n"
    using kinds_filter [of "\<lambda>t k. is_notice t \<and> k = n" outs] K filter_one [OF cs(1), of n] cs(2)
    by (simp add: notices_to_def filter_map comp_def)
  then show "notices_at n (filter (\<lambda>x. is_notice (mty x)) outs) = notices_to ms mc q n"
    by (simp add: notices_at_def conj_commute)
  have "map (\<lambda>x. (ack_type (mty x), req_of x, agent_of x)) (filter (\<lambda>x. is_notice (mty x)) outs)
      = map (\<lambda>(t, n). (ack_type t, req_of m, n)) (filter (\<lambda>(t, k). is_notice t) (map (\<lambda>x. (mty x, dst_of x)) outs))"
    using ok by (simp add: filter_map comp_def out_ok_def)
  then show "due_acks (filter (\<lambda>x. is_notice (mty x)) outs)
      = mset (map (\<lambda>(t, n). (ack_type t, req_of m, n)) (filter (\<lambda>(t, n). is_notice t) ms))
        + image_mset (\<lambda>n. (ack_type (mc_notice q), req_of m, n)) (mset_set mc)"
    using K mset_set_set [OF cs(1)] cs(2) by (simp add: due_acks_def filter_map comp_def)
qed

text \<open>A decision, from what it does to each node.\<close>

lemma decision_step:
  assumes rel: "coh_rel a s" and home: "co_home s = ms1 @ m # ms2" and dir: "dir_rel (dr_entry res) a'"
    and K: "map (\<lambda>x. (mty x, dst_of x)) (dir_outputs res) = ms @ map (\<lambda>n. (mc_notice q, n)) cs" "distinct cs" "set cs = mc"
    and ok: "\<forall>x \<in> set (dir_outputs res). out_ok m x"
    and acks: "acks_of (ms1 @ ms2) + due_acks (co_link s)
       + (mset (map (\<lambda>(t, n). (ack_type t, req_of m, n)) (filter (\<lambda>(t, n). is_notice t) ms))
          + image_mset (\<lambda>n. (ack_type (mc_notice q), req_of m, n)) (mset_set mc)) = expected a'"
    and nodes: "\<And>n. node_ok (dir_view a' n) (co_pc s n) (co_tag s n) (co_got s n) (reqs_of n (ms1 @ ms2))
       (mset (co_app s n) + replies_to ms n + (due_data n (co_link s) + (if n = req_of m then owner_data ms else {#}) + agg a' n))
       (pending_at s n @ notices_to ms mc q n)"
  shows "coh_rel a' (fold route (dir_outputs res) (s\<lparr>co_entry := dr_entry res, co_home := ms1 @ ms2\<rparr>))"
proof -
  let ?s = "fold route (dir_outputs res) (s\<lparr>co_entry := dr_entry res, co_home := ms1 @ ms2\<rparr>)"
  note cnt = sent_counts [OF K ok]
  have m: "req_of m < max_node_num" using rel home by (simp add: coh_rel_def msgs_ok_def)
  have "msgs_ok ?s"
    using rel home ok m cnt(1) by (auto simp: coh_rel_def msgs_ok_def fold_route out_ok_def)
  moreover have "at_node a' ?s n" for n
  proof -
    have "seen_ok s n" using rel by (simp add: coh_rel_def at_node_def)
    then show ?thesis using nodes [of n] cnt(1,3,4) cnt(2) [of n]
      by (simp add: at_node_def seen_ok_def fold_route coming_def pending_at_def ac_simps)
  qed
  ultimately show ?thesis using dir acks cnt(1,5) by (simp add: coh_rel_def fold_route ac_simps)
qed

lemma request_always:
  assumes "is_request q"
  obtains a' ms mc where "dir_spec a q r g = Some (a', ms, mc)"
proof -
  have "\<exists>out. dir_spec a q r g = Some out" using assms by (auto simp: is_request_def dir_spec_def) (metis prod_cases3)+
  then show thesis using that by (metis prod_cases3)
qed

lemma stage_request:
  assumes "node_ok v pc t g (add_mset q R) C L"
  shows "request_type pc = Some q" "R = {#}"
  using assms by (auto elim!: node_okE simp: stage_ok_def)

lemma node_of_others: "node_ok v pc t g R C L \<Longrightarrow> R = R' \<Longrightarrow> C = C' \<Longrightarrow> L = L' \<Longrightarrow> node_ok v pc t g R' C' L'"
  by simp

text \<open>A request: it is the only one of its node, and every other node is at most sent a notice.\<close>

lemma request_step:
  assumes rel: "coh_rel a s" and home: "co_home s = ms1 @ m # ms2" and q: "is_request (mty m)"
  shows "\<exists>res a'. dir_handle m (co_entry s) = Some res
    \<and> coh_rel a' (fold route (dir_outputs res) (s\<lparr>co_entry := dr_entry res, co_home := ms1 @ ms2\<rparr>))"
proof -
  let ?q = "mty m" and ?r = "req_of m"
  have m: "cm_mtype m = mtype_code ?q" "?r < max_node_num" "dir_rel (co_entry s) a"
    using rel home code_mty by (auto simp: coh_rel_def msgs_ok_def)
  have aok: "abs_ok a" by (rule rel_abs_ok [OF m(3)])
  obtain a' ms mc where spec: "dir_spec a ?q ?r (agent_of m) = Some (a', ms, mc)" using request_always [OF q] by blast
  obtain res cs where res: "dir_handle m (co_entry s) = Some res" "dir_rel (dr_entry res) a'" "distinct cs" "set cs = mc"
    "map (\<lambda>x. (mty x, dst_of x)) (dir_outputs res) = ms @ map (\<lambda>n. (mc_notice ?q, n)) cs"
    "\<forall>x \<in> set (dir_outputs res). out_ok m x"
    using decision_sends [OF m(3,2,1) spec] by blast
  have at: "at_node a s n" for n using rel by (simp add: coh_rel_def)
  have reqs: "reqs_of n (co_home s) = (if n = ?r then add_mset ?q (reqs_of n (ms1 @ ms2)) else reqs_of n (ms1 @ ms2))" for n
    using home q by (simp add: reqs_of_def)
  have "coh_rel a' (fold route (dir_outputs res) (s\<lparr>co_entry := dr_entry res, co_home := ms1 @ ms2\<rparr>))"
  proof (rule decision_step [OF rel home res(2,5,3,4,6)])
    have "acks_of (ms1 @ ms2) = acks_of (co_home s)" using home q by (simp add: acks_of_def)
    then show "acks_of (ms1 @ ms2) + due_acks (co_link s)
       + (mset (map (\<lambda>(t, n). (ack_type t, ?r, n)) (filter (\<lambda>(t, n). is_notice t) ms))
          + image_mset (\<lambda>n. (ack_type (mc_notice ?q), ?r, n)) (mset_set mc)) = expected a'"
      using rel decide_expects(3) [OF q spec aok] by (simp add: coh_rel_def ac_simps)
    show "node_ok (dir_view a' n) (co_pc s n) (co_tag s n) (co_got s n) (reqs_of n (ms1 @ ms2))
       (mset (co_app s n) + replies_to ms n + (due_data n (co_link s) + (if n = ?r then owner_data ms else {#}) + agg a' n))
       (pending_at s n @ notices_to ms mc ?q n)" for n
    proof (cases "n = ?r")
      case True
      have node: "node_ok (dir_view a ?r) (co_pc s ?r) (co_tag s ?r) (co_got s ?r) (add_mset ?q (reqs_of ?r (ms1 @ ms2)))
          (coming a s ?r) (pending_at s ?r)" using at [of ?r] reqs [of ?r] by (simp add: at_node_def)
      note st = stage_request [OF node]
      have sub: "agg a ?r \<subseteq># coming a s ?r" by (simp add: coming_def)
      note dec = decide_requester [OF st(1) spec aok node [unfolded st(2)] sub]
      have "mset (co_app s ?r) = {#}" "due_data ?r (co_link s) = {#}" using dec(2) by (simp_all add: coming_def)
      then show ?thesis using dec(1) True st(2) by (simp add: ac_simps)
    next
      case False
      note oth = decide_others [OF q spec aok False]
      have "node_ok (dir_view a n) (co_pc s n) (co_tag s n) (co_got s n) (reqs_of n (ms1 @ ms2)) (coming a s n) (pending_at s n)"
        using at [of n] reqs [of n] False by (simp add: at_node_def)
      from node_informed [OF this oth(1)] show ?thesis using False oth(2,3) by (simp add: coming_def)
    qed
  qed
  with res(1) show ?thesis by blast
qed

text \<open>An acknowledgement: the directory expects it.\<close>

lemma no_notices: "\<forall>x \<in> set ms. \<not> is_notice (fst x) \<Longrightarrow> notices_to ms {} q n = []
    \<and> owner_data ms = {#} \<and> filter (\<lambda>(t, n). is_notice t) ms = []"
  by (auto simp: notices_to_def owner_data_def filter_empty_conv data_types_nil)

lemma ack_step:
  assumes rel: "coh_rel a s" and home: "co_home s = ms1 @ m # ms2" and q: "\<not> is_request (mty m)"
  shows "\<exists>res a'. dir_handle m (co_entry s) = Some res
    \<and> coh_rel a' (fold route (dir_outputs res) (s\<lparr>co_entry := dr_entry res, co_home := ms1 @ ms2\<rparr>))"
proof -
  let ?q = "mty m" and ?r = "req_of m" and ?g = "agent_of m"
  have m: "cm_mtype m = mtype_code ?q" "?r < max_node_num" "dir_rel (co_entry s) a"
    using rel home code_mty by (auto simp: coh_rel_def msgs_ok_def)
  have acks: "acks_of (co_home s) = add_mset (?q, ?r, ?g) (acks_of (ms1 @ ms2))" using home q by (simp add: acks_of_def)
  then have exp: "add_mset (?q, ?r, ?g) (acks_of (ms1 @ ms2) + due_acks (co_link s)) = expected a"
    using rel by (simp add: coh_rel_def)
  then have "(?q, ?r, ?g) \<in># expected a" by (metis union_single_eq_member)
  then obtain a' ms where spec: "dir_spec a ?q ?r ?g = Some (a', ms, {})" "expected a' = expected a - {#(?q, ?r, ?g)#}"
    "dir_view a' = dir_view a" "\<And>n. replies_to ms n + agg a' n = agg a n" "\<And>x. x \<in> set ms \<Longrightarrow> \<not> is_notice (fst x)"
    by (rule ack_decided) (use rel_abs_ok [OF m(3)] in auto)
  obtain res cs where res: "dir_handle m (co_entry s) = Some res" "dir_rel (dr_entry res) a'" "distinct cs" "set cs = {}"
    "map (\<lambda>x. (mty x, dst_of x)) (dir_outputs res) = ms @ map (\<lambda>n. (mc_notice ?q, n)) cs"
    "\<forall>x \<in> set (dir_outputs res). out_ok m x"
    using decision_sends [OF m(3,2,1) spec(1)] by blast
  have none: "notices_to ms {} ?q n = []" "owner_data ms = {#}" "filter (\<lambda>(t, n). is_notice t) ms = []" for n
    using no_notices [of ms] spec(5) by auto
  have reqs: "reqs_of n (ms1 @ ms2) = reqs_of n (co_home s)" for n using home q by (simp add: reqs_of_def)
  have "coh_rel a' (fold route (dir_outputs res) (s\<lparr>co_entry := dr_entry res, co_home := ms1 @ ms2\<rparr>))"
  proof (rule decision_step [OF rel home res(2,5,3,4,6)])
    show "acks_of (ms1 @ ms2) + due_acks (co_link s)
       + (mset (map (\<lambda>(t, n). (ack_type t, ?r, n)) (filter (\<lambda>(t, n). is_notice t) ms))
          + image_mset (\<lambda>n. (ack_type (mc_notice ?q), ?r, n)) (mset_set {})) = expected a'"
      using none(3) spec(2) by (simp flip: exp)
    show "node_ok (dir_view a' n) (co_pc s n) (co_tag s n) (co_got s n) (reqs_of n (ms1 @ ms2))
       (mset (co_app s n) + replies_to ms n + (due_data n (co_link s) + (if n = ?r then owner_data ms else {#}) + agg a' n))
       (pending_at s n @ notices_to ms {} ?q n)" for n
    proof -
      have "mset (co_app s n) + replies_to ms n + (due_data n (co_link s) + agg a' n) = coming a s n"
        by (simp add: coming_def ac_simps flip: spec(4) [of n])
      moreover have "(if n = ?r then owner_data ms else {#}) = {#}" using none(2) by simp
      ultimately show ?thesis using rel none(1) spec(3) reqs by (simp only: coh_rel_def at_node_def append_Nil2 add_0_right add_0_left)
    qed
  qed
  with res(1) show ?thesis by blast
qed

text \<open>A cache controller passes a notice on and answers it.\<close>

lemma controller_sends:
  assumes "is_notice (mty m)" "known m"
  shows "cf_CC_out (controller m) = map (\<lambda>t. ack_req t (to_sys m)) (data_types (mty m)) @ [ack_dir (ack_type (mty m)) (to_sys m)]"
    and "map mty (cf_CMD_out (controller m)) = [mty m]"
proof -
  have c: "cm_mtype m = mtype_code (mty m)" by (rule code_mty [OF assms(2)])
  then have k: "mty (to_sys m) = mty m" by (simp add: mty_def)
  have t: "mty m = DIR_2_AGENT_WRITE_SHARED_NOTONLY \<or> mty m = DIR_2_AGENT_WRITE_MISS_SHARED
      \<or> mty m = DIR_2_AGENT_READ_MISS_DIRTY \<or> mty m = DIR_2_AGENT_WRITE_MISS_DIRTY"
    using assms(1) by (simp add: is_notice_def)
  show "cf_CC_out (controller m) = map (\<lambda>t. ack_req t (to_sys m)) (data_types (mty m)) @ [ack_dir (ack_type (mty m)) (to_sys m)]"
    using t c by (elim disjE) (simp_all add: controller_def cacheCtrlHLS_from_net_def numeral_2_eq_2)
  show "map mty (cf_CMD_out (controller m)) = [mty m]"
    using t c k by (elim disjE) (simp_all add: controller_def cacheCtrlHLS_from_net_def numeral_2_eq_2)
qed

lemma reply_built [simp]:
  "mty (ack_req t m) = t" "known (ack_req t m)" "req_of (ack_req t m) = req_of m" "dst_of (ack_req t m) = req_of m"
  "mty (ack_dir t m) = t" "known (ack_dir t m)" "req_of (ack_dir t m) = req_of m" "agent_of (ack_dir t m) = agent_of m"
  "req_of (to_sys m) = req_of m" "agent_of (to_sys m) = agent_of m"
  by (simp_all add: mty_def known_def ack_req_def ack_dir_def to_sys_def)

lemma reply_kinds:
  assumes "is_notice t"
  shows "to_directory (ack_type t)" "\<not> is_request (ack_type t)" "\<not> is_notice (ack_type t)"
    "x \<in> set (data_types t) \<Longrightarrow> \<not> to_directory x \<and> \<not> is_notice x"
  using assms by (auto simp: is_notice_def to_directory_def is_request_def)

lemma control_step:
  assumes rel: "coh_rel a s" and link: "co_link s = ms1 @ m # ms2" and first: "\<forall>x \<in> set ms1. dst_of x \<noteq> dst_of m"
    and s': "s' = fold route (cf_CC_out (controller m)) (s\<lparr>co_link := ms1 @ ms2,
         co_notice := (co_notice s)(dst_of m := co_notice s (dst_of m) @ map mty (cf_CMD_out (controller m)))\<rparr>)"
  shows "coh_rel a s'"
proof -
  let ?t = "mty m" and ?ack = "ack_dir (ack_type (mty m)) (to_sys m)"
  have m: "is_notice ?t" "known m" "agent_of m = dst_of m" "req_of m < max_node_num"
    using rel link by (auto simp: coh_rel_def msgs_ok_def)
  note out = controller_sends [OF m(1,2)] and kind = reply_kinds [OF m(1)]
  have none: "filter (\<lambda>x. to_directory x) (data_types ?t) = []" "filter (\<lambda>x. is_notice x) (data_types ?t) = []"
    "filter (\<lambda>x. \<not> to_directory x \<and> \<not> is_notice x) (data_types ?t) = data_types ?t"
    using kind(4) by (auto simp: filter_empty_conv filter_id_conv)
  have home: "co_home s' = co_home s @ [?ack]"
    unfolding s' fold_route out(1) using none(1) kind(1) by (simp add: filter_map comp_def)
  have links: "co_link s' = ms1 @ ms2"
    unfolding s' fold_route out(1) using none(2) kind(3) by (simp add: filter_map comp_def)
  have app: "co_app s' n = co_app s n @ (if n = req_of m then data_types ?t else [])" for n
    unfolding s' fold_route out(1) using none(3) kind(1,3) by (auto simp: filter_map comp_def filter_empty_conv)
  have notice: "co_notice s' n = co_notice s n @ (if n = dst_of m then [?t] else [])" for n
    unfolding s' fold_route out(2) by simp
  have same: "co_entry s' = co_entry s" "co_pc s' = co_pc s" "co_tag s' = co_tag s" "co_got s' = co_got s" "co_seen s' = co_seen s"
    by (simp_all add: s' fold_route)
  have acks: "acks_of (co_home s') + due_acks (co_link s') = acks_of (co_home s) + due_acks (co_link s)"
    using kind(2) m(3) by (simp add: home links link) (simp add: acks_of_def due_acks_def)
  have at: "at_node a s' n" for n
  proof -
    have "reqs_of n (co_home s') = reqs_of n (co_home s)" using kind(2) by (simp add: home) (simp add: reqs_of_def)
    moreover have "coming a s' n = coming a s n"
      by (simp add: coming_def app links link) (simp add: due_data_def)
    moreover have "notices_at (dst_of m) ms1 = []" using first by (auto simp: notices_at_def filter_empty_conv)
    then have "pending_at s' n = pending_at s n"
      by (simp add: pending_at_def notice links link) (simp add: notices_at_def)
    moreover have "at_node a s n" using rel by (simp add: coh_rel_def)
    ultimately show ?thesis by (simp add: at_node_def seen_ok_def same)
  qed
  have "msgs_ok s'"
    using rel m kind(1) by (auto simp: coh_rel_def msgs_ok_def home links link)
  then show ?thesis using rel acks at same(1) by (simp add: coh_rel_def)
qed

section \<open>Reachable states\<close>

lemma coh_step_rel:
  assumes "coh_step s s'" "\<exists>a. coh_rel a s"
  shows "\<exists>a. coh_rel a s'"
proof -
  obtain a where rel: "coh_rel a s" using assms(2) by blast
  then have at: "node_ok (dir_view a n) (co_pc s n) (co_tag s n) (co_got s n) (reqs_of n (co_home s)) (coming a s n) (pending_at s n)" for n
    by (simp add: coh_rel_def at_node_def)
  have idle: "node_ok (dir_view a n) L_Idle (co_tag s n) (False, False) {#} {#} (pending_at s n)" if "co_pc s n = L_Idle" for n
    using at [of n] that at_node_idle [of a s n] rel by (simp add: coh_rel_def)
  show ?thesis using assms(1)
  proof cases
    case (read_miss n b m)
    with begin_step [OF rel read_miss(2,3,5,6), of L_Read] node_begin(1) [OF idle [OF read_miss(3)]] show ?thesis by auto
  next
    case (upgrade n b m)
    with begin_step [OF rel upgrade(2,3,5,6), of L_Upgrade] node_begin(2) [OF idle [OF upgrade(3)]] show ?thesis by auto
  next
    case (write_miss n b m)
    with begin_step [OF rel write_miss(2,3,5,6), of L_Write] node_begin(3) [OF idle [OF write_miss(3)]] show ?thesis by auto
  next
    case (evict n tmp seen b m)
    have "request_type (L_Evict (evict_type_of tmp)) = Some (if tmp = C_SHARED then R_EVICT_SHARED else R_EVICT_DIRTY)"
      using evict(4) by (auto simp: evict_type_of_def)
    with begin_step [OF rel evict(2,3,6,7) this] node_begin_evict [OF idle [OF evict(3)] evict(4,5) this] show ?thesis
      using evict(1) by blast
  next
    case (slot n st)
    have "coh_rel a s'"
    proof (rule node_step [OF rel, of n "[]"])
      show "at_node a s' n"
        using node_slot [OF at [of n, unfolded slot(2)] slot(3,4)] rel slot(1,2)
        by (simp add: coh_rel_def at_node_def seen_ok_def coming_def pending_at_def)
    qed (use slot(1) in \<open>auto simp: requests_of_def\<close>)
    then show ?thesis ..
  next
    case (directory ms1 m ms2 res)
    then show ?thesis
      using request_step [OF rel directory(2)] ack_step [OF rel directory(2)] by (cases "is_request (mty m)") auto
  next
    case (control ms1 m ms2)
    then show ?thesis using control_step [OF rel control(2,3,1)] by blast
  next
    case (agent_load n)
    have "coh_rel a s'"
    proof (rule node_step [OF rel, of n "[]"])
      have "at_status (co_tag s n) \<noteq> C_PRESERVED"
        using agent_load(2) at [of n] node_not_preserved by (cases "co_notice s n") (auto simp: pending_at_def)
      then show "at_node a s' n"
        using at [of n] agent_load(1) by (simp add: at_node_def seen_ok_def coming_def pending_at_def)
    qed (use agent_load(1) in \<open>auto simp: requests_of_def\<close>)
    then show ?thesis ..
  next
    case (agent_swap n t ts tmp b g)
    then show ?thesis using agent_step [OF rel agent_swap(2-4,1)] by blast
  next
    case (more n rs1 t rs2 d c)
    have "coh_rel a s'"
      by (rule reply_step [OF rel more(2), where pc = "co_pc s n" and g = "co_tag s n" and h = "(d, c)"])
        (use more(1,3) node_more in \<open>auto simp: set_app_def\<close>)
    then show ?thesis ..
  next
    case (returned n rs1 t rs2 succ x g)
    have "coh_rel a s'"
      by (rule reply_step [OF rel returned(2), where pc = L_Idle and g = g and h = "(False, False)"])
        (use returned(1) node_done [OF _ returned(3,4)] in \<open>auto simp: set_app_def end_request_at_def\<close>)
    then show ?thesis ..
  next
    case (flag_seen n rs1 t rs2 x g)
    have "coh_rel a s'"
      by (rule reply_step [OF rel flag_seen(2), where pc = L_Idle and g = g and h = "(False, False)"])
        (use flag_seen(1) node_flag [OF _ flag_seen(3,4,5)] in \<open>auto simp: set_app_def end_request_at_def\<close>)
    then show ?thesis ..
  qed
qed

lemma coh_reach_rel:
  assumes "coh_step\<^sup>*\<^sup>* (coh_start e) s" "dir_rel e Unshared"
  obtains a where "coh_rel a s"
proof -
  have "\<exists>a. coh_rel a s"
    using assms(1) by (induction) (use coh_start_rel [OF assms(2)] coh_step_rel in blast)+
  then show thesis using that by blast
qed

end
