(* ===== verification/Coh_Safety.thy ===== *)
theory Coh_Safety
  imports Coherence Cache_Access
begin

text \<open>
  What the coherence protocol guarantees in every reachable state of a block, and what it does not: the
  FPGA of a node answers for its host before the host has applied the notice.
\<close>

section \<open>Replies as the loops take them\<close>

text \<open>One message of the loops of \<open>readMiss\<close>, \<open>writeMiss\<close> and \<open>writeShared\<close> is a step of \<open>wait_reply\<close>.\<close>

definition after_reply :: "wait option \<Rightarrow> bool \<Rightarrow> (bool \<Rightarrow> bool \<Rightarrow> (bool \<times> host) outcome) \<Rightarrow> host \<Rightarrow> (bool \<times> host) outcome \<Rightarrow> bool" where
  "after_reply w flag go h res \<longleftrightarrow>
     (case w of
        Some (W_More d c) \<Rightarrow> res = go d c
      | Some (W_Done b) \<Rightarrow> res = Returned (b, h)
      | Some W_Flag \<Rightarrow> res = (if flag then Returned (False, h) else Waits)
      | None \<Rightarrow> res = Aborts \<or> res = Hangs)"

lemma read_loop_reply:
  assumes "rm_cline_tag (ar_msg r) = getTag addr" "rm_mtype (ar_msg r) = mtype_code t"
  shows "after_reply (wait_reply L_Read False False t) (line_flag addr i (take_arrival r rs h)) (\<lambda>d c. Hangs)
    (take_arrival r rs h) (readMiss_loop addr i (r # rs) h)"
  using assms by (cases t) (simp_all add: after_reply_def Let_def)

lemma upgrade_loop_reply:
  assumes "rm_cline_tag (ar_msg r) = getTag addr" "rm_mtype (ar_msg r) = mtype_code t"
  shows "after_reply (wait_reply L_Upgrade False False t) (line_flag addr i (take_arrival r rs h)) (\<lambda>d c. Hangs)
    (take_arrival r rs h) (writeShared_loop addr i (r # rs) h)"
  using assms by (cases t) (simp_all add: after_reply_def Let_def)

lemma write_loop_reply:
  assumes "rm_cline_tag (ar_msg r) = getTag addr" "rm_mtype (ar_msg r) = mtype_code t" "copies = 0 \<or> copies = -1"
  shows "after_reply (wait_reply L_Write d (copies = 0) t) (line_flag addr i (take_arrival r rs h))
    (\<lambda>d' c. writeMiss_loop addr i d' (if c then 0 else -1) rs (take_arrival r rs h))
    (take_arrival r rs h) (writeMiss_loop addr i d copies (r # rs) h)"
  using assms by (cases t) (auto simp: after_reply_def Let_def)

section \<open>Schedules\<close>

datatype coh_move = C_Read nat | C_Write nat | C_Upgrade nat | C_Evict nat | C_Slot nat CacheStatus
  | C_Dir nat | C_Ctrl nat | C_Load nat | C_Swap nat | C_Reply nat nat

definition request_of :: "RawMessageType \<Rightarrow> nat \<Rightarrow> ctrl_msg" where
  "request_of t n = sample_msg t (of_nat n) 0"

definition begin_if :: "nat \<Rightarrow> line_pc \<Rightarrow> RawMessageType \<Rightarrow> bool \<times> AtomicTag \<Rightarrow> coherence \<Rightarrow> coherence option" where
  "begin_if n pc t r s = (if fst r \<and> n < max_node_num \<and> co_pc s n = L_Idle then Some (begin_request n pc (snd r) (request_of t n) s) else None)"

definition without :: "nat \<Rightarrow> 'a list \<Rightarrow> 'a list" where
  "without k xs = take k xs @ drop (Suc k) xs"

fun run_coh :: "coh_move \<Rightarrow> coherence \<Rightarrow> coherence option" where
  "run_coh (C_Read n) s = begin_if n L_Read R_READ_MISS (begin_read (co_tag s n)) s"
| "run_coh (C_Write n) s = begin_if n L_Write R_WRITE_MISS (begin_write (co_tag s n)) s"
| "run_coh (C_Upgrade n) s = begin_if n L_Upgrade R_WRITE_SHARED (begin_upgrade (co_tag s n)) s"
| "run_coh (C_Evict n) s =
     (let tmp = at_status (co_tag s n) in
      if tmp = C_SHARED then begin_if n (L_Evict EVICT_SHARED) R_EVICT_SHARED (begin_evict (at_flag (co_tag s n)) tmp (co_tag s n)) s
      else if tmp = C_MODIFIED then begin_if n (L_Evict EVICT_DIRTY) R_EVICT_DIRTY (begin_evict (at_flag (co_tag s n)) tmp (co_tag s n)) s
      else None)"
| "run_coh (C_Slot n st) s =
     (if co_pc s n = L_Idle \<and> at_status (co_tag s n) \<in> {C_INVALID, C_PRESERVED} \<and> st \<in> {C_INVALID, C_PRESERVED}
      then Some (s\<lparr>co_tag := (co_tag s)(n := setFlagAndStatus False st (co_tag s n))\<rparr>) else None)"
| "run_coh (C_Dir k) s =
     (if k < length (co_home s) then
        map_option (\<lambda>res. fold route (dir_outputs res) (s\<lparr>co_entry := dr_entry res, co_home := without k (co_home s)\<rparr>))
          (dir_handle (co_home s ! k) (co_entry s))
      else None)"
| "run_coh (C_Ctrl k) s =
     (if k < length (co_link s) \<and> (\<forall>x \<in> set (take k (co_link s)). dst_of x \<noteq> dst_of (co_link s ! k)) then
        (let m = co_link s ! k in
         Some (fold route (cf_CC_out (controller m))
           (s\<lparr>co_link := without k (co_link s),
              co_notice := (co_notice s)(dst_of m := co_notice s (dst_of m) @ map mty (cf_CMD_out (controller m)))\<rparr>)))
      else None)"
| "run_coh (C_Load n) s =
     (if co_notice s n \<noteq> [] then Some (s\<lparr>co_seen := (co_seen s)(n := Some (at_status (co_tag s n)))\<rparr>) else None)"
| "run_coh (C_Swap n) s =
     (case (co_notice s n, co_seen s n) of
        (t # ts, Some tmp) \<Rightarrow>
          map_option (\<lambda>(b, a). s\<lparr>co_seen := (co_seen s)(n := None), co_notice := (co_notice s)(n := if b then ts else t # ts),
                                co_tag := (co_tag s)(n := a)\<rparr>) (agent_iteration t tmp (co_tag s n))
      | _ \<Rightarrow> None)"
| "run_coh (C_Reply n k) s =
     (if k < length (co_app s n) then
        (let s' = set_app n (without k (co_app s n)) s in
         case wait_reply (co_pc s n) (fst (co_got s n)) (snd (co_got s n)) (co_app s n ! k) of
           None \<Rightarrow> None
         | Some (W_More d c) \<Rightarrow> Some (set_app n (without k (co_app s n)) (s\<lparr>co_got := (co_got s)(n := (d, c))\<rparr>))
         | Some (W_Done succ) \<Rightarrow> map_option (\<lambda>(x, a). end_request_at n a s') (end_wait (co_pc s n) succ (co_tag s n))
         | Some W_Flag \<Rightarrow>
             if at_flag (co_tag s n)
             then map_option (\<lambda>(x, a). end_request_at n a s') (end_wait (co_pc s n) (flag_result (co_pc s n)) (co_tag s n))
             else None)
      else None)"

primrec run_cohs :: "coh_move list \<Rightarrow> coherence \<Rightarrow> coherence option" where
  "run_cohs [] s = Some s"
| "run_cohs (mv # mvs) s = (case run_coh mv s of None \<Rightarrow> None | Some s \<Rightarrow> run_cohs mvs s)"

lemma without_split: "k < length xs \<Longrightarrow> xs = take k xs @ xs ! k # drop (Suc k) xs"
  by (rule id_take_nth_drop)

lemma begin_if_Some:
  assumes "begin_if n pc t r s = Some s'"
  shows "r = (True, snd r)" "n < max_node_num" "co_pc s n = L_Idle" "s' = begin_request n pc (snd r) (request_of t n) s"
    "cm_mtype (request_of t n) = mtype_code t" "req_of (request_of t n) = n"
  using assms by (auto simp: begin_if_def request_of_def prod_eq_iff unat_of_nat_node split: if_splits)

lemma run_coh_step: "run_coh mv s = Some s' \<Longrightarrow> coh_step s s'"
proof (cases mv)
  case (C_Read n)
  assume "run_coh mv s = Some s'"
  then have "begin_if n L_Read R_READ_MISS (begin_read (co_tag s n)) s = Some s'" using C_Read by simp
  from begin_if_Some [OF this] show ?thesis by (metis coh_step.read_miss)
next
  case (C_Write n)
  assume "run_coh mv s = Some s'"
  then have "begin_if n L_Write R_WRITE_MISS (begin_write (co_tag s n)) s = Some s'" using C_Write by simp
  from begin_if_Some [OF this] show ?thesis by (metis coh_step.write_miss)
next
  case (C_Upgrade n)
  assume "run_coh mv s = Some s'"
  then have "begin_if n L_Upgrade R_WRITE_SHARED (begin_upgrade (co_tag s n)) s = Some s'" using C_Upgrade by simp
  from begin_if_Some [OF this] show ?thesis by (metis coh_step.upgrade)
next
  case (C_Evict n)
  let ?tmp = "at_status (co_tag s n)"
  assume "run_coh mv s = Some s'"
  then have tmp: "?tmp = C_SHARED \<or> ?tmp = C_MODIFIED" and
    run: "begin_if n (L_Evict (evict_type_of ?tmp)) (if ?tmp = C_SHARED then R_EVICT_SHARED else R_EVICT_DIRTY)
      (begin_evict (at_flag (co_tag s n)) ?tmp (co_tag s n)) s = Some s'"
    using C_Evict by (auto simp: Let_def evict_type_of_def split: if_splits)
  note b = begin_if_Some [OF run]
  show ?thesis unfolding b(4) by (rule coh_step.evict [OF b(2,3) tmp b(1,5,6)])
next
  case (C_Dir k)
  assume "run_coh mv s = Some s'"
  then obtain res where res: "k < length (co_home s)" "dir_handle (co_home s ! k) (co_entry s) = Some res"
    "s' = fold route (dir_outputs res) (s\<lparr>co_entry := dr_entry res, co_home := without k (co_home s)\<rparr>)"
    using C_Dir by (auto split: if_splits)
  show ?thesis unfolding res(3) without_def by (rule coh_step.directory [OF without_split [OF res(1)] res(2)])
next
  case (C_Ctrl k)
  assume run: "run_coh mv s = Some s'"
  then have k: "k < length (co_link s)" "\<forall>x \<in> set (take k (co_link s)). dst_of x \<noteq> dst_of (co_link s ! k)"
    using C_Ctrl by (auto split: if_splits)
  show ?thesis using run C_Ctrl k coh_step.control [OF without_split [OF k(1)] k(2)] by (simp add: Let_def without_def)
next
  case (C_Swap n)
  assume run: "run_coh mv s = Some s'"
  then obtain t ts tmp b a where "co_notice s n = t # ts" "co_seen s n = Some tmp" "agent_iteration t tmp (co_tag s n) = Some (b, a)"
    "s' = s\<lparr>co_seen := (co_seen s)(n := None), co_notice := (co_notice s)(n := if b then ts else t # ts), co_tag := (co_tag s)(n := a)\<rparr>"
    using C_Swap by (fastforce split: list.splits option.splits)
  then show ?thesis using coh_step.agent_swap by blast
next
  case (C_Reply n k)
  assume run: "run_coh mv s = Some s'"
  then have k: "k < length (co_app s n)" using C_Reply by (simp split: if_splits)
  note rule = coh_step.more [OF without_split [OF k]] coh_step.returned [OF without_split [OF k]] coh_step.flag_seen [OF without_split [OF k]]
  show ?thesis using run C_Reply k rule by (auto simp: without_def Let_def split: option.splits wait.splits if_splits)
qed (auto split: if_splits list.splits option.splits intro: coh_step.slot coh_step.agent_load)

lemma run_cohs_reach: "run_cohs mvs s = Some s' \<Longrightarrow> coh_step\<^sup>*\<^sup>* s s'"
  by (induction mvs arbitrary: s) (auto split: option.splits intro: converse_rtranclp_into_rtranclp dest: run_coh_step)

section \<open>A block at rest\<close>

definition at_rest :: "coherence \<Rightarrow> bool" where
  "at_rest s \<longleftrightarrow> co_home s = [] \<and> co_link s = [] \<and> (\<forall>n. co_notice s n = [] \<and> co_app s n = [])"

lemma rest_rel:
  assumes "coh_rel a s" "at_rest s"
  shows "node_ok (dir_view a n) (co_pc s n) (co_tag s n) (co_got s n) {#} {#} []" "expected a = {#}" "abs_ok a" "dir_rel (co_entry s) a"
proof -
  show e: "expected a = {#}" using assms by (simp add: coh_rel_def at_rest_def)
  show ok: "abs_ok a" "dir_rel (co_entry s) a" using assms rel_abs_ok by (auto simp: coh_rel_def)
  have "agg a n = {#}" using e ok(1) by (cases a) (auto simp: mset_set_empty_iff)
  moreover have "at_node a s n" using assms(1) by (simp add: coh_rel_def)
  ultimately show "node_ok (dir_view a n) (co_pc s n) (co_tag s n) (co_got s n) {#} {#} []"
    using assms(2) by (simp add: at_rest_def at_node_def coming_def pending_at_def)
qed

text \<open>The statuses of the nodes and the entry of a block at rest.\<close>

lemma rest_view:
  assumes "coh_rel a s" "at_rest s"
  shows "co_pc s n = L_Idle" "at_status (co_tag s n) = C_MODIFIED \<longleftrightarrow> dir_view a n = V_M"
    "at_status (co_tag s n) = C_SHARED \<longleftrightarrow> dir_view a n = V_S"
    "at_status (co_tag s n) \<in> {C_INVALID, C_PRESERVED} \<longleftrightarrow> dir_view a n = V_I"
proof -
  have q: "co_pc s n = L_Idle \<and> \<not> at_flag (co_tag s n) \<and> (case dir_view a n of V_I \<Rightarrow> at_status (co_tag s n) \<in> {C_INVALID, C_PRESERVED}
      | V_S \<Rightarrow> at_status (co_tag s n) = C_SHARED | V_M \<Rightarrow> at_status (co_tag s n) = C_MODIFIED)"
    by (rule node_quiet [OF rest_rel(1) [OF assms]])
  show "co_pc s n = L_Idle" using q by simp
  show "at_status (co_tag s n) = C_MODIFIED \<longleftrightarrow> dir_view a n = V_M"
    "at_status (co_tag s n) = C_SHARED \<longleftrightarrow> dir_view a n = V_S"
    "at_status (co_tag s n) \<in> {C_INVALID, C_PRESERVED} \<longleftrightarrow> dir_view a n = V_I"
    using q by (cases "dir_view a n"; auto)+
qed

lemma rest_entry:
  assumes "expected a = {#}" "abs_ok a" "dir_rel e a"
  shows "sharers (de_gblock_bitmap e) = {n. dir_view a n \<noteq> V_I}"
    and "de_state e = state_code S_DIRTY \<longleftrightarrow> (\<exists>n. dir_view a n = V_M)"
    and "dir_view a n = V_M \<Longrightarrow> k \<noteq> n \<Longrightarrow> dir_view a k = V_I"
proof -
  show "sharers (de_gblock_bitmap e) = {n. dir_view a n \<noteq> V_I}"
    using assms by (cases a) (auto simp: entry_shape_def mset_set_empty_iff)
  have "state_code S_DIRTY \<noteq> state_code S_SHARED" "state_code S_DIRTY \<noteq> state_code S_UNSHARED" by (simp_all add: state_code.simps)
  then show "de_state e = state_code S_DIRTY \<longleftrightarrow> (\<exists>n. dir_view a n = V_M)"
    using assms by (cases a) (auto simp: entry_shape_def mset_set_empty_iff)
  show "dir_view a n = V_M \<Longrightarrow> k \<noteq> n \<Longrightarrow> dir_view a k = V_I"
    using assms by (cases a) (auto split: if_splits)
qed

text \<open>No message goes to a node outside the cluster.\<close>

definition outer_ok :: "coherence \<Rightarrow> bool" where
  "outer_ok s \<longleftrightarrow> (\<forall>n \<ge> max_node_num. co_pc s n = L_Idle \<and> at_status (co_tag s n) \<in> {C_INVALID, C_PRESERVED})"

lemma outer_quiet:
  assumes "coh_rel a s" "outer_ok s" "max_node_num \<le> n"
  shows "co_notice s n = []" "co_app s n = []"
proof -
  have n: "at_node a s n" using assms(1) by (simp add: coh_rel_def)
  have idle: "co_pc s n = L_Idle" "at_status (co_tag s n) \<in> {C_INVALID, C_PRESERVED}" using assms(2,3) by (simp_all add: outer_ok_def)
  show "co_app s n = []" using at_node_idle [OF n idle(1)] by (simp add: coming_def)
  obtain b where b: "pend_ok b (dir_view a n) (pending_at s n)" "tag_ok L_Idle b (co_tag s n)"
    using n idle(1) by (auto simp: at_node_def elim: node_okE)
  then have "b = B_I" using idle(2) by (cases b) (auto simp: tag_ok_def)
  then show "co_notice s n = []" using b(1) by (simp add: pending_at_def)
qed

lemma outer_step:
  assumes "coh_step s s'" "coh_rel a s" "outer_ok s"
  shows "outer_ok s'"
  using assms(1)
proof cases
  case (agent_swap n t ts tmp b g)
  then have "n < max_node_num" using outer_quiet [OF assms(2,3), of n] by (metis leI list.discI)
  then show ?thesis using agent_swap(1) assms(3) by (simp add: outer_ok_def)
next
  case (returned n rs1 t rs2 succ x g)
  then have "n < max_node_num" using outer_quiet [OF assms(2,3), of n] by (metis Nil_is_append_conv leI list.discI)
  then show ?thesis using returned(1) assms(3) by (simp add: outer_ok_def set_app_def end_request_at_def)
next
  case (flag_seen n rs1 t rs2 x g)
  then have "n < max_node_num" using outer_quiet [OF assms(2,3), of n] by (metis Nil_is_append_conv leI list.discI)
  then show ?thesis using flag_seen(1) assms(3) by (simp add: outer_ok_def set_app_def end_request_at_def)
next
  case (slot n st)
  then show ?thesis using assms(3) by (auto simp: outer_ok_def setFlagAndStatus_def)
qed (use assms(3) in \<open>auto simp: outer_ok_def fold_route begin_request_def route_def set_app_def\<close>)

lemma coh_reach:
  assumes "coh_step\<^sup>*\<^sup>* (coh_start e) s" "dir_rel e Unshared"
  obtains a where "coh_rel a s" "outer_ok s"
proof -
  have "(\<exists>a. coh_rel a s) \<and> outer_ok s"
    using assms(1)
  proof induction
    case base
    then show ?case using coh_start_rel [OF assms(2)] by (auto simp: outer_ok_def coh_start_def)
  next
    case (step s s')
    then show ?case using coh_step_rel outer_step by blast
  qed
  then show thesis using that by blast
qed

lemma home_expected:
  assumes "coh_rel a s" "m \<in> set (co_home s)"
  shows "\<exists>t out. cm_mtype m = mtype_code t \<and> dir_spec a t (req_of m) (agent_of m) = Some out"
proof -
  have m: "cm_mtype m = mtype_code (mty m)" "dir_rel (co_entry s) a"
    using assms code_mty by (auto simp: coh_rel_def msgs_ok_def)
  have "\<exists>out. dir_spec a (mty m) (req_of m) (agent_of m) = Some out"
  proof (cases "is_request (mty m)")
    case True
    then show ?thesis by (rule request_always) blast
  next
    case False
    then have "(mty m, req_of m, agent_of m) \<in># acks_of (co_home s)" using assms(2) by (force simp: acks_of_def)
    then have "(mty m, req_of m, agent_of m) \<in># expected a" using assms(1) by (metis coh_rel_def union_iff)
    then show ?thesis by (rule ack_decided) (use rel_abs_ok [OF m(2)] in auto)
  qed
  with m(1) show ?thesis by blast
qed

section \<open>Properties\<close>

text \<open>An unshared block, and two writers on nodes 1 and 2: the second has the line before the first has
  applied the notice; then the rest of the messages.\<close>

definition fresh_block :: coherence where
  "fresh_block = coh_start blank_dir_data_e"

definition two_writers :: "coh_move list" where
  "two_writers = [C_Slot 1 C_INVALID, C_Write 1, C_Dir 0, C_Reply 1 0, C_Slot 2 C_INVALID, C_Write 2, C_Dir 0, C_Ctrl 0, C_Reply 2 0]"

definition all_delivered :: "coh_move list" where
  "all_delivered = two_writers @ [C_Dir 0, C_Load 1, C_Swap 1]"

lemma two_writers_run:
  "case run_cohs two_writers fresh_block of None \<Rightarrow> False
   | Some s \<Rightarrow> at_status (co_tag s 1) = C_MODIFIED \<and> at_status (co_tag s 2) = C_MODIFIED
       \<and> co_notice s 1 = [DIR_2_AGENT_WRITE_MISS_DIRTY] \<and> length (co_home s) = 1
       \<and> co_pc s 1 = L_Idle \<and> co_pc s 2 = L_Idle"
  by code_simp

lemma all_delivered_run:
  "case run_cohs all_delivered fresh_block of None \<Rightarrow> False
   | Some s \<Rightarrow> at_status (co_tag s 1) = C_INVALID \<and> at_status (co_tag s 2) = C_MODIFIED \<and> co_home s = [] \<and> co_link s = []
       \<and> list_all (\<lambda>n. co_notice s n = [] \<and> co_app s n = []) [0..<max_node_num]"
  by code_simp

lemma blank_start: "dir_rel blank_dir_data_e Unshared"
  by (rule blank_rel)





text \<open>(C6) Two nodes can have a modified copy of the same block at the same time: the cache controller of
  the first writer sends the line on and acknowledges before the host has applied the notice.\<close>

theorem two_writers_at_once:
  "\<exists>s. coh_step\<^sup>*\<^sup>* (coh_start blank_dir_data_e) s \<and> at_status (co_tag s 1) = C_MODIFIED \<and> at_status (co_tag s 2) = C_MODIFIED
     \<and> co_pc s 1 = L_Idle \<and> co_pc s 2 = L_Idle"
proof -
  obtain s where s: "run_cohs two_writers fresh_block = Some s" "at_status (co_tag s 1) = C_MODIFIED" "at_status (co_tag s 2) = C_MODIFIED"
    "co_pc s 1 = L_Idle" "co_pc s 2 = L_Idle"
    using two_writers_run by (auto split: option.splits)
  then show ?thesis using run_cohs_reach [OF s(1), unfolded fresh_block_def] by blast
qed





end
