(* ===== verification/Slabs.thy ===== *)
theory Slabs
  imports Host_Types Complex_Main
begin

text \<open>
  The slab allocator over the DMA memory of a node (\<open>slabs.h\<close>, \<open>slabs.cpp\<close>). Memory is taken in pages of a cache
  line's size; a page belongs to one class and is cut into blocks of the class's size. The linked list
  of free items of a class is a list of block addresses, and an item is found by its block's address, as in \<open>stats_map\<close>.
  Addresses and sizes are natural numbers; the two byte counters keep their width. The growth factor is
  a rational, and the products that the code forms in floating point are taken to be exact.
\<close>

definition ITEM_SIZE_MAX :: nat where "ITEM_SIZE_MAX = 4096"
definition POWER_SMALLEST :: nat where "POWER_SMALLEST = 1"
definition POWER_LARGEST :: nat where "POWER_LARGEST = 200"
definition CHUNK_ALIGN_BYTES :: nat where "CHUNK_ALIGN_BYTES = 8"
definition ITEM_SLABBED :: u8 where "ITEM_SLABBED = 4"
definition SB_PREFIX_SIZE :: nat where "SB_PREFIX_SIZE = 0"
definition smallest_chunk :: nat where "smallest_chunk = 48"

record slabclass =
  sc_size :: nat
  sc_perslab :: nat
  sc_slots :: "nat list"
  sc_sl_curr :: nat
  sc_slabs :: nat
  sc_slab_list :: "nat list"
  sc_list_size :: nat
  sc_requested :: u64

record item =
  it_size :: nat
  it_flags :: u8
  it_clsid :: nat

record slabs =
  sl_class :: "nat \<Rightarrow> slabclass"
  sl_mem_limit :: nat
  sl_mem_malloced :: nat
  sl_power_largest :: nat
  sl_mem_base :: nat
  sl_mem_current :: nat
  sl_mem_avail :: nat
  sl_mem_free :: u64
  sl_items :: "nat \<rightharpoonup> item"

abbreviation set_class :: "nat \<Rightarrow> slabclass \<Rightarrow> slabs \<Rightarrow> slabs" where
  "set_class k p s \<equiv> s\<lparr>sl_class := (sl_class s)(k := p)\<rparr>"

section \<open>Operations\<close>

text \<open>The smallest class whose blocks are large enough; 0 is none.\<close>

definition slabs_clsid :: "nat \<Rightarrow> slabs \<Rightarrow> nat" where
  "slabs_clsid sz s =
     (if sz = 0 then 0
      else case find (\<lambda>r. sz \<le> sc_size (sl_class s r)) [POWER_SMALLEST..<Suc (sl_power_largest s)] of
             Some r \<Rightarrow> r | None \<Rightarrow> 0)"

definition align_chunk :: "nat \<Rightarrow> nat" where
  "align_chunk sz = (if sz mod CHUNK_ALIGN_BYTES \<noteq> 0 then sz + (CHUNK_ALIGN_BYTES - sz mod CHUNK_ALIGN_BYTES) else sz)"

definition memory_allocate :: "nat \<Rightarrow> slabs \<Rightarrow> nat option \<times> slabs" where
  "memory_allocate sz s =
     (if sl_mem_base s = 0 then (None, s)
      else if sl_mem_avail s < sz then (None, s)
      else (let sz = align_chunk sz in
            (Some (sl_mem_current s),
             s\<lparr>sl_mem_current := sl_mem_current s + sz,
               sl_mem_avail := (if sz < sl_mem_avail s then sl_mem_avail s - sz else 0)\<rparr>)))"

text \<open>\<open>realloc\<close> is taken to succeed.\<close>

definition grow_slab_list :: "nat \<Rightarrow> slabs \<Rightarrow> slabs" where
  "grow_slab_list k s =
     (let p = sl_class s k in
      if sc_slabs p = sc_list_size p
      then set_class k (p\<lparr>sc_list_size := (if sc_list_size p \<noteq> 0 then sc_list_size p * 2 else 16)\<rparr>) s else s)"

definition do_slabs_free :: "nat \<Rightarrow> nat \<Rightarrow> nat \<Rightarrow> slabs \<Rightarrow> slabs option" where
  "do_slabs_free ptr sz k s =
     (if k < POWER_SMALLEST \<or> sl_power_largest s < k then None
      else (let p = sl_class s k;
                it = (case sl_items s ptr of Some it \<Rightarrow> it | None \<Rightarrow> \<lparr>it_size = 0, it_flags = 0, it_clsid = 0\<rparr>)
            in Some (set_class k (p\<lparr>sc_slots := ptr # sc_slots p, sc_sl_curr := sc_sl_curr p + 1,
                                     sc_requested := sc_requested p - of_nat sz\<rparr>)
                       (s\<lparr>sl_items := (sl_items s)(ptr \<mapsto> it\<lparr>it_flags := it_flags it OR ITEM_SLABBED\<rparr>),
                          sl_mem_free := (if sz \<noteq> 0 then sl_mem_free s + of_nat (sc_size p) else sl_mem_free s)\<rparr>))))"

fun split_slab_page_into_freelist :: "nat \<Rightarrow> nat \<Rightarrow> nat \<Rightarrow> slabs \<Rightarrow> slabs option" where
  "split_slab_page_into_freelist 0 ptr k s = Some s"
| "split_slab_page_into_freelist (Suc n) ptr k s =
     (case do_slabs_free ptr 0 k s of
        None \<Rightarrow> None
      | Some s' \<Rightarrow> split_slab_page_into_freelist n (ptr + sc_size (sl_class s k)) k s')"

text \<open>\<open>slab_reassign\<close> is set, so a page always has the largest size.\<close>

definition do_slabs_newslab :: "nat \<Rightarrow> slabs \<Rightarrow> (bool \<times> slabs) option" where
  "do_slabs_newslab k s =
     (let len = ITEM_SIZE_MAX in
      if sl_mem_limit s \<noteq> 0 \<and> sl_mem_limit s < sl_mem_malloced s + len \<and> 0 < sc_slabs (sl_class s k) then Some (False, s)
      else (case memory_allocate len (grow_slab_list k s) of
              (None, s) \<Rightarrow> Some (False, s)
            | (Some ptr, s) \<Rightarrow>
                map_option (\<lambda>s. let p = sl_class s k in
                    (True, set_class k (p\<lparr>sc_slab_list := sc_slab_list p @ [ptr], sc_slabs := sc_slabs p + 1\<rparr>)
                             (s\<lparr>sl_mem_malloced := sl_mem_malloced s + len\<rparr>)))
                  (split_slab_page_into_freelist (sc_perslab (sl_class s k)) ptr k s)))"

text \<open>The first free block of the class; a null pointer is \<open>None\<close>.\<close>

definition take_item :: "nat \<Rightarrow> nat \<Rightarrow> slabs \<Rightarrow> (nat option \<times> slabs) outcome" where
  "take_item sz k s =
     (let p = sl_class s k in
      case sc_slots p of
        [] \<Rightarrow> Aborts
      | ptr # ptrs \<Rightarrow>
          (case sl_items s ptr of
             None \<Rightarrow> Aborts
           | Some it \<Rightarrow>
               Returned (Some ptr,
                 set_class k (p\<lparr>sc_slots := ptrs, sc_sl_curr := sc_sl_curr p - 1, sc_requested := sc_requested p + of_nat sz\<rparr>)
                   (s\<lparr>sl_items := (sl_items s)(ptr \<mapsto> it\<lparr>it_size := sz, it_clsid := k\<rparr>),
                      sl_mem_free := sl_mem_free s - of_nat (sc_size p)\<rparr>))))"

definition first_is_free :: "nat \<Rightarrow> slabs \<Rightarrow> bool" where
  "first_is_free k s =
     (case sc_slots (sl_class s k) of
        [] \<Rightarrow> False | ptr # _ \<Rightarrow> (case sl_items s ptr of None \<Rightarrow> False | Some it \<Rightarrow> it_clsid it = 0))"

definition do_slabs_alloc :: "nat \<Rightarrow> nat \<Rightarrow> slabs \<Rightarrow> (nat option \<times> slabs) outcome" where
  "do_slabs_alloc sz k s =
     (if k < POWER_SMALLEST \<or> sl_power_largest s < k then Returned (None, s)
      else if sc_sl_curr (sl_class s k) \<noteq> 0 then (if first_is_free k s then take_item sz k s else Aborts)
      else (case do_slabs_newslab k s of
              None \<Rightarrow> Aborts
            | Some (False, s) \<Rightarrow> Returned (None, s)
            | Some (True, s) \<Rightarrow> if sc_sl_curr (sl_class s k) \<noteq> 0 then take_item sz k s else Returned (None, s)))"

definition sb_malloc :: "nat \<Rightarrow> slabs \<Rightarrow> (nat option \<times> slabs) outcome" where
  "sb_malloc sz s =
     (if sl_mem_limit s = 0 then Returned (None, s)
      else (let newsize = sz + SB_PREFIX_SIZE in
            case do_slabs_alloc newsize (slabs_clsid newsize s) s of
              Returned (Some p, s) \<Rightarrow> Returned (Some p, s)
            | _ \<Rightarrow> Aborts))"

definition sb_aligned_malloc :: "nat \<Rightarrow> nat \<Rightarrow> slabs \<Rightarrow> (nat option \<times> slabs) outcome" where
  "sb_aligned_malloc sz block s =
     (if sl_mem_limit s = 0 then Returned (None, s)
      else (let newsize = unat (ALIGN (of_nat (sz + SB_PREFIX_SIZE)) (of_nat block)) in
            case do_slabs_alloc newsize (slabs_clsid newsize s) s of
              Returned (Some p, s) \<Rightarrow> if p mod block = 0 then Returned (Some p, s) else Aborts
            | _ \<Rightarrow> Aborts))"

text \<open>The third component is the number of bytes set to zero.\<close>

definition sb_calloc :: "nat \<Rightarrow> nat \<Rightarrow> slabs \<Rightarrow> (nat option \<times> slabs \<times> nat) outcome" where
  "sb_calloc count sz s =
     (if sl_mem_limit s = 0 then Returned (None, s, 0)
      else case sb_malloc (count * sz) s of Returned (Some p, s) \<Rightarrow> Returned (Some p, s, sz) | _ \<Rightarrow> Aborts)"

definition sb_aligned_calloc :: "nat \<Rightarrow> nat \<Rightarrow> nat \<Rightarrow> slabs \<Rightarrow> (nat option \<times> slabs \<times> nat) outcome" where
  "sb_aligned_calloc count sz block s =
     (if sl_mem_limit s = 0 then Returned (None, s, 0)
      else case sb_aligned_malloc (count * sz) block s of Returned (Some p, s) \<Rightarrow> Returned (Some p, s, sz) | _ \<Rightarrow> Aborts)"

definition set_item :: "nat \<Rightarrow> item \<Rightarrow> slabs \<Rightarrow> slabs" where
  "set_item ptr it s = s\<lparr>sl_items := (sl_items s)(ptr \<mapsto> it)\<rparr>"

definition sb_free :: "nat \<Rightarrow> slabs \<Rightarrow> (nat \<times> slabs) outcome" where
  "sb_free ptr s =
     (if sl_mem_limit s = 0 then Returned (0, s)
      else case sl_items s ptr of
        None \<Rightarrow> Aborts
      | Some it \<Rightarrow>
          if it_clsid it \<noteq> slabs_clsid (it_size it) s then Aborts
          else (case do_slabs_free ptr (it_size it) (it_clsid it) (set_item ptr (it\<lparr>it_size := 0, it_clsid := 0\<rparr>) s) of
                  None \<Rightarrow> Aborts | Some s \<Rightarrow> Returned (it_size it, s)))"

definition is_free :: "nat \<Rightarrow> slabs \<Rightarrow> bool option" where
  "is_free ptr s = map_option (\<lambda>it. it_clsid it = 0) (sl_items s ptr)"

definition get_size :: "nat \<Rightarrow> slabs \<Rightarrow> nat option" where
  "get_size ptr s = map_option it_size (sl_items s ptr)"

definition slabs_adjust_mem_requested :: "nat \<Rightarrow> nat \<Rightarrow> nat \<Rightarrow> slabs \<Rightarrow> slabs option" where
  "slabs_adjust_mem_requested k old ntotal s =
     (if k < POWER_SMALLEST \<or> sl_power_largest s < k then None
      else (let p = sl_class s k in
            Some (set_class k (p\<lparr>sc_requested := sc_requested p - of_nat old + of_nat ntotal\<rparr>) s)))"

text \<open>The third component is the copy the call makes: where to, from where, how many bytes. In the branch
  that moves to another class the second \<open>ptr\<close> hides the argument, so the source is the new block.\<close>

definition sb_realloc :: "nat option \<Rightarrow> nat \<Rightarrow> slabs \<Rightarrow> (nat option \<times> slabs \<times> (nat \<times> nat \<times> nat) option) outcome" where
  "sb_realloc ptr sz s =
     (if sl_mem_limit s = 0 then Returned (None, s, None)
      else case ptr of
        None \<Rightarrow> (case sb_malloc sz s of Returned (p, s) \<Rightarrow> Returned (p, s, None) | _ \<Rightarrow> Aborts)
      | Some ptr \<Rightarrow>
          (case sl_items s ptr of
             None \<Rightarrow> Aborts
           | Some it1 \<Rightarrow>
               (let id1 = it_clsid it1; size1 = it_size it1; size2 = sz + SB_PREFIX_SIZE; id2 = slabs_clsid size2 s in
                if id1 \<noteq> slabs_clsid size1 s then Aborts
                else if id1 = id2 then
                  (case slabs_adjust_mem_requested id1 size1 size2 (set_item ptr (it1\<lparr>it_size := size2\<rparr>) s) of
                     None \<Rightarrow> Aborts | Some s \<Rightarrow> Returned (Some ptr, s, None))
                else if size1 = size2 then Aborts
                else (case do_slabs_alloc size2 id2 s of
                        Returned (Some p, s) \<Rightarrow>
                          (case do_slabs_free ptr size1 id1 (set_item ptr (it1\<lparr>it_clsid := 0\<rparr>) s) of
                             None \<Rightarrow> Aborts
                           | Some s \<Rightarrow> Returned (Some p, s,
                               Some (p, p, if size2 < size1 then sz else size1 - SB_PREFIX_SIZE)))
                      | _ \<Rightarrow> Aborts))))"

section \<open>Set-up\<close>

definition empty_class :: slabclass where
  "empty_class = \<lparr>sc_size = 0, sc_perslab = 0, sc_slots = [], sc_sl_curr = 0, sc_slabs = 0, sc_slab_list = [], sc_list_size = 0, sc_requested = 0\<rparr>"

definition sized :: "nat \<Rightarrow> slabclass" where
  "sized sz = empty_class\<lparr>sc_size := sz, sc_perslab := ITEM_SIZE_MAX div sz\<rparr>"

text \<open>The loop over the classes, at the test of its condition: the class's number before it is
  increased, the previous size and the next one.\<close>

function init_classes :: "rat \<Rightarrow> nat \<Rightarrow> nat \<Rightarrow> nat \<Rightarrow> (nat \<Rightarrow> slabclass) \<Rightarrow> nat \<times> (nat \<Rightarrow> slabclass)" where
  "init_classes factor i pre sz cl =
     (let i = i + 1 in
      if i < POWER_LARGEST \<and> of_nat sz \<le> of_nat ITEM_SIZE_MAX / factor then
        (let sz = align_chunk sz;
             (i, cl) = (if pre div ITEM_SIZE_MAX < sz div ITEM_SIZE_MAX \<and> sz mod ITEM_SIZE_MAX \<noteq> 0
                        then (i + 1, cl(i := sized (sz div ITEM_SIZE_MAX * ITEM_SIZE_MAX))) else (i, cl))
         in init_classes factor i sz (nat \<lfloor>of_nat sz * factor\<rfloor>) (cl(i := sized sz)))
      else (i, cl))"
  by pat_completeness auto
termination by (relation "measure (\<lambda>(factor, i, pre, sz, cl). POWER_LARGEST - i)") (auto split: if_splits)

declare init_classes.simps [simp del]

fun slabs_preallocate :: "nat list \<Rightarrow> nat \<Rightarrow> nat \<Rightarrow> slabs \<Rightarrow> slabs option" where
  "slabs_preallocate [] prealloc maxslabs s = Some s"
| "slabs_preallocate (i # is) prealloc maxslabs s =
     (if maxslabs < prealloc + 1 then Some s
      else case do_slabs_newslab i s of
             Some (True, s) \<Rightarrow> slabs_preallocate is (prealloc + 1) maxslabs s
           | _ \<Rightarrow> None)"

text \<open>\<open>None\<close> is an exit, or an access outside the array of classes. The environment does not set the
  amount of memory that counts as used already.\<close>

definition slabs_init :: "nat \<Rightarrow> rat \<Rightarrow> nat \<Rightarrow> slabs option" where
  "slabs_init limit factor base =
     (let size = SB_PREFIX_SIZE + smallest_chunk; (i, cl) = init_classes factor (POWER_SMALLEST - 1) size size (\<lambda>_. empty_class) in
      if POWER_LARGEST < i then None
      else slabs_preallocate [POWER_SMALLEST..<Suc POWER_LARGEST] 0 i
             \<lparr>sl_class = cl(i := (cl i)\<lparr>sc_size := ITEM_SIZE_MAX, sc_perslab := 1\<rparr>), sl_mem_limit = limit, sl_mem_malloced = 0,
              sl_power_largest = i, sl_mem_base = base, sl_mem_current = base, sl_mem_avail = limit,
              sl_mem_free = of_nat limit, sl_items = Map.empty\<rparr>)"

end
