(* ===== verification/Slabs_Proof.thy ===== *)
theory Slabs_Proof
  imports Slabs
begin

text \<open>
  The blocks of the slab allocator: which exist, which are free, and that no two overlap, whatever is
  allocated, resized and freed.
\<close>

section \<open>Blocks of a page\<close>

definition blocks :: "nat \<Rightarrow> nat \<Rightarrow> nat \<Rightarrow> nat list" where
  "blocks n ptr sz = map (\<lambda>j. ptr + j * sz) [0..<n]"

lemma blocks_Suc: "blocks (Suc n) ptr sz = ptr # blocks n (ptr + sz) sz"
proof -
  have "map (\<lambda>j. ptr + j * sz) [0..<Suc n] = ptr # map (\<lambda>j. ptr + j * sz) (map Suc [0..<n])"
    by (simp only: upt_conv_Cons [of 0 "Suc n"] map_Suc_upt zero_less_Suc list.map) simp
  then show ?thesis by (simp add: blocks_def ac_simps comp_def)
qed

lemma length_blocks [simp]: "length (blocks n ptr sz) = n"
  by (simp add: blocks_def)

lemma set_blocks: "p \<in> set (blocks n ptr sz) \<longleftrightarrow> (\<exists>j < n. p = ptr + j * sz)"
  by (auto simp: blocks_def)

lemma distinct_blocks: "0 < sz \<Longrightarrow> distinct (blocks n ptr sz)"
  by (simp add: blocks_def distinct_map inj_on_def)

lemma block_in_page:
  assumes "p \<in> set (blocks (ITEM_SIZE_MAX div sz) ptr sz)"
  shows "ptr \<le> p" "p + sz \<le> ptr + ITEM_SIZE_MAX"
proof -
  obtain j where j: "j < ITEM_SIZE_MAX div sz" "p = ptr + j * sz" using assms by (auto simp: set_blocks)
  then show "ptr \<le> p" by simp
  have "(j + 1) * sz \<le> (ITEM_SIZE_MAX div sz) * sz" using j(1) by (intro mult_le_mono1) simp
  also have "\<dots> \<le> ITEM_SIZE_MAX" by simp
  finally show "p + sz \<le> ptr + ITEM_SIZE_MAX" using j(2) by simp
qed

lemma page_blocks_apart:
  assumes "p \<in> set (blocks n ptr sz)" "q \<in> set (blocks n ptr sz)" "p < q"
  shows "p + sz \<le> q"
proof -
  obtain i j where ij: "p = ptr + i * sz" "q = ptr + j * sz" using assms(1,2) by (auto simp: set_blocks)
  then have "i < j" using assms(3) by (metis add_le_cancel_left linorder_not_less mult_le_mono1)
  then have "(i + 1) * sz \<le> j * sz" by (intro mult_le_mono1) simp
  then show ?thesis using ij by simp
qed

section \<open>A new page\<close>

definition mark :: "nat \<Rightarrow> (nat \<rightharpoonup> item) \<Rightarrow> (nat \<rightharpoonup> item)" where
  "mark p its = its(p \<mapsto> (case its p of Some it \<Rightarrow> it\<lparr>it_flags := it_flags it OR ITEM_SLABBED\<rparr>
     | None \<Rightarrow> \<lparr>it_size = 0, it_flags = ITEM_SLABBED, it_clsid = 0\<rparr>))"

lemma do_slabs_free_eq:
  assumes "POWER_SMALLEST \<le> k" "k \<le> sl_power_largest s"
  shows "do_slabs_free ptr sz k s = Some (set_class k ((sl_class s k)\<lparr>sc_slots := ptr # sc_slots (sl_class s k),
      sc_sl_curr := sc_sl_curr (sl_class s k) + 1, sc_requested := sc_requested (sl_class s k) - of_nat sz\<rparr>)
    (s\<lparr>sl_items := mark ptr (sl_items s),
       sl_mem_free := (if sz \<noteq> 0 then sl_mem_free s + of_nat (sc_size (sl_class s k)) else sl_mem_free s)\<rparr>))"
  using assms by (auto simp: do_slabs_free_def mark_def Let_def split: option.splits)

lemma split_page:
  assumes "POWER_SMALLEST \<le> k" "k \<le> sl_power_largest s"
  shows "split_slab_page_into_freelist n ptr k s = Some (set_class k ((sl_class s k)
      \<lparr>sc_slots := rev (blocks n ptr (sc_size (sl_class s k))) @ sc_slots (sl_class s k), sc_sl_curr := sc_sl_curr (sl_class s k) + n\<rparr>)
    (s\<lparr>sl_items := fold mark (blocks n ptr (sc_size (sl_class s k))) (sl_items s)\<rparr>))"
  using assms
proof (induction n arbitrary: ptr s)
  case 0
  then show ?case by (simp add: blocks_def)
next
  case (Suc n)
  then show ?case by (simp add: do_slabs_free_eq blocks_Suc fun_upd_def cong: if_cong)
qed

lemma fold_mark:
  "fold mark ps its p = (if p \<in> set ps then (case its p of Some it \<Rightarrow> Some (it\<lparr>it_flags := it_flags it OR ITEM_SLABBED\<rparr>)
     | None \<Rightarrow> Some \<lparr>it_size = 0, it_flags = ITEM_SLABBED, it_clsid = 0\<rparr>) else its p)" if "distinct ps"
  using that by (induction ps arbitrary: its) (auto simp: mark_def split: option.splits)

section \<open>Invariant\<close>

definition class_blocks :: "slabclass \<Rightarrow> nat set" where
  "class_blocks p = (\<Union>pg \<in> set (sc_slab_list p). set (blocks (sc_perslab p) pg (sc_size p)))"

text \<open>A class: its size, its pages below the current end of the memory, its free list.\<close>

definition class_ok :: "nat \<Rightarrow> nat \<Rightarrow> slabclass \<Rightarrow> bool" where
  "class_ok base cur p \<longleftrightarrow> 0 < sc_size p \<and> sc_size p \<le> ITEM_SIZE_MAX \<and> sc_perslab p = ITEM_SIZE_MAX div sc_size p
     \<and> (\<forall>pg \<in> set (sc_slab_list p). base \<le> pg \<and> ITEM_SIZE_MAX dvd pg - base \<and> pg + ITEM_SIZE_MAX \<le> cur)
     \<and> distinct (sc_slab_list p) \<and> sc_slabs p = length (sc_slab_list p)
     \<and> distinct (sc_slots p) \<and> set (sc_slots p) \<subseteq> class_blocks p \<and> sc_sl_curr p = length (sc_slots p)"

definition item_ok :: "slabs \<Rightarrow> nat \<Rightarrow> nat \<Rightarrow> item \<Rightarrow> bool" where
  "item_ok s k p it \<longleftrightarrow> (if p \<in> set (sc_slots (sl_class s k)) then it_clsid it = 0
     else it_clsid it = k \<and> slabs_clsid (it_size it) s = k)"

definition classes :: "slabs \<Rightarrow> nat set" where "classes s = {POWER_SMALLEST..sl_power_largest s}"

definition slabs_ok :: "slabs \<Rightarrow> bool" where
  "slabs_ok s \<longleftrightarrow> 0 < sl_mem_base s \<and> sl_mem_base s \<le> sl_mem_current s
     \<and> sl_mem_current s + sl_mem_avail s = sl_mem_base s + sl_mem_limit s
     \<and> ITEM_SIZE_MAX dvd sl_mem_current s - sl_mem_base s
     \<and> (\<forall>k \<in> classes s. class_ok (sl_mem_base s) (sl_mem_current s) (sl_class s k))
     \<and> (\<forall>k \<in> classes s. \<forall>j \<in> classes s. k \<noteq> j \<longrightarrow> set (sc_slab_list (sl_class s k)) \<inter> set (sc_slab_list (sl_class s j)) = {})
     \<and> dom (sl_items s) = (\<Union>k \<in> classes s. class_blocks (sl_class s k))
     \<and> (\<forall>k \<in> classes s. \<forall>p \<in> class_blocks (sl_class s k). item_ok s k p (the (sl_items s p)))"

text \<open>Blocks that are handed out, with their class.\<close>

definition live_block :: "slabs \<Rightarrow> nat \<Rightarrow> nat \<Rightarrow> bool" where
  "live_block s k p \<longleftrightarrow> k \<in> classes s \<and> p \<in> class_blocks (sl_class s k) \<and> p \<notin> set (sc_slots (sl_class s k))"

text \<open>What the allocator promises: the blocks that are handed out and their sizes, as \<open>is_free\<close> and
  \<open>get_size\<close> report them.\<close>

definition handed_out :: "slabs \<Rightarrow> (nat \<rightharpoonup> nat)" where
  "handed_out s = (\<lambda>p. if is_free p s = Some False then get_size p s else None)"

lemma handed_out_alt:
  "handed_out s p = (case sl_items s p of Some it \<Rightarrow> if it_clsid it \<noteq> 0 then Some (it_size it) else None | None \<Rightarrow> None)"
  by (simp add: handed_out_def is_free_def get_size_def split: option.splits)

lemma pages_apart:
  assumes "(b::nat) \<le> p" "b \<le> q" "ITEM_SIZE_MAX dvd p - b" "ITEM_SIZE_MAX dvd q - b" "p < q"
  shows "p + ITEM_SIZE_MAX \<le> q"
proof -
  obtain i j where "p = b + ITEM_SIZE_MAX * i" "q = b + ITEM_SIZE_MAX * j"
    using assms(1-4) by (metis dvdE le_add_diff_inverse)
  moreover from this have "i < j" using assms(5) by (simp add: ITEM_SIZE_MAX_def)
  then have "ITEM_SIZE_MAX * (i + 1) \<le> ITEM_SIZE_MAX * j" by (intro mult_le_mono2) simp
  ultimately show ?thesis by simp
qed

lemma block_page:
  assumes ok: "slabs_ok s" and k: "k \<in> classes s" "p \<in> class_blocks (sl_class s k)"
  obtains pg where "pg \<in> set (sc_slab_list (sl_class s k))" "p \<in> set (blocks (sc_perslab (sl_class s k)) pg (sc_size (sl_class s k)))"
    "pg \<le> p" "p + sc_size (sl_class s k) \<le> pg + ITEM_SIZE_MAX" "sl_mem_base s \<le> pg" "ITEM_SIZE_MAX dvd pg - sl_mem_base s"
    "pg + ITEM_SIZE_MAX \<le> sl_mem_current s" "0 < sc_size (sl_class s k)"
proof -
  have A: "class_ok (sl_mem_base s) (sl_mem_current s) (sl_class s k)" using ok k(1) by (auto simp: slabs_ok_def)
  obtain pg where pg: "pg \<in> set (sc_slab_list (sl_class s k))" "p \<in> set (blocks (sc_perslab (sl_class s k)) pg (sc_size (sl_class s k)))"
    using k(2) by (auto simp: class_blocks_def)
  with A block_in_page show thesis by (intro that [OF pg]) (auto simp: class_ok_def)
qed

lemma same_page:
  assumes "slabs_ok s" "k \<in> classes s" "j \<in> classes s" "pg \<in> set (sc_slab_list (sl_class s k))" "pg \<in> set (sc_slab_list (sl_class s j))"
  shows "k = j"
  using assms by (auto simp: slabs_ok_def)

lemma blocks_disjoint:
  assumes ok: "slabs_ok s" and k: "k \<in> classes s" "p \<in> class_blocks (sl_class s k)"
    and j: "j \<in> classes s" "q \<in> class_blocks (sl_class s j)"
  shows "p < q \<Longrightarrow> p + sc_size (sl_class s k) \<le> q" "p = q \<Longrightarrow> k = j"
proof -
  obtain pg where pg: "pg \<in> set (sc_slab_list (sl_class s k))" "p \<in> set (blocks (sc_perslab (sl_class s k)) pg (sc_size (sl_class s k)))"
    "pg \<le> p" "p + sc_size (sl_class s k) \<le> pg + ITEM_SIZE_MAX" "sl_mem_base s \<le> pg" "ITEM_SIZE_MAX dvd pg - sl_mem_base s"
    "pg + ITEM_SIZE_MAX \<le> sl_mem_current s" "0 < sc_size (sl_class s k)" by (rule block_page [OF ok k])
  obtain qg where qg: "qg \<in> set (sc_slab_list (sl_class s j))" "q \<in> set (blocks (sc_perslab (sl_class s j)) qg (sc_size (sl_class s j)))"
    "qg \<le> q" "q + sc_size (sl_class s j) \<le> qg + ITEM_SIZE_MAX" "sl_mem_base s \<le> qg" "ITEM_SIZE_MAX dvd qg - sl_mem_base s"
    "qg + ITEM_SIZE_MAX \<le> sl_mem_current s" "0 < sc_size (sl_class s j)" by (rule block_page [OF ok j])
  have apart: "pg < qg \<Longrightarrow> pg + ITEM_SIZE_MAX \<le> qg" "qg < pg \<Longrightarrow> qg + ITEM_SIZE_MAX \<le> pg"
    using pages_apart pg(5,6) qg(5,6) by auto
  show "p + sc_size (sl_class s k) \<le> q" if less: "p < q"
  proof (cases "pg = qg")
    case True
    then have "k = j" using same_page [OF ok k(1) j(1)] pg(1) qg(1) by simp
    then show ?thesis using page_blocks_apart [OF pg(2) _ less] qg(2) True by simp
  next
    case False
    then show ?thesis using apart pg(3,4,8) qg(3,4,8) less by linarith
  qed
  show "k = j" if eq: "p = q"
  proof -
    have "pg = qg" using apart pg(3,4,8) qg(3,4,8) eq by linarith
    then show ?thesis using same_page [OF ok k(1) j(1)] pg(1) qg(1) by simp
  qed
qed

text \<open>The class of a size depends on the sizes of the classes only.\<close>

lemma clsid_cong:
  assumes "\<And>j. sc_size (sl_class s' j) = sc_size (sl_class s j)" "sl_power_largest s' = sl_power_largest s"
  shows "slabs_clsid sz s' = slabs_clsid sz s" "classes s' = classes s"
  using assms by (simp_all add: slabs_clsid_def classes_def)

text \<open>An operation on one class.\<close>

lemma slabs_ok_update:
  assumes ok: "slabs_ok s" and k: "k \<in> classes s"
    and cls: "sl_class s' = (sl_class s)(k := p')" "sc_size p' = sc_size (sl_class s k)"
    and same: "sl_power_largest s' = sl_power_largest s" "sl_mem_base s' = sl_mem_base s" "sl_mem_limit s' = sl_mem_limit s"
    and mem: "sl_mem_current s \<le> sl_mem_current s'" "sl_mem_current s' + sl_mem_avail s' = sl_mem_base s + sl_mem_limit s"
      "ITEM_SIZE_MAX dvd sl_mem_current s' - sl_mem_base s"
    and new: "class_ok (sl_mem_base s) (sl_mem_current s') p'"
      "set (sc_slab_list p') \<subseteq> set (sc_slab_list (sl_class s k)) \<union> {sl_mem_current s..}"
      "class_blocks (sl_class s k) \<subseteq> class_blocks p'"
    and items: "dom (sl_items s') = dom (sl_items s) \<union> class_blocks p'"
      "\<And>q. q \<in> dom (sl_items s) \<Longrightarrow> q \<notin> class_blocks (sl_class s k) \<Longrightarrow> sl_items s' q = sl_items s q"
      "\<And>q. q \<in> class_blocks p' \<Longrightarrow> item_ok s' k q (the (sl_items s' q))"
  shows "slabs_ok s'"
proof -
  have sizes: "sc_size (sl_class s' j) = sc_size (sl_class s j)" for j using cls by simp
  note cong = clsid_cong [of s' s, OF sizes same(1)]
  have others: "class_ok (sl_mem_base s) (sl_mem_current s') (sl_class s j)" if "j \<in> classes s" for j
    using ok that mem(1) by (fastforce simp: slabs_ok_def class_ok_def)
  have below: "set (sc_slab_list (sl_class s j)) \<inter> {sl_mem_current s..} = {}" if "j \<in> classes s" for j
  proof -
    have "class_ok (sl_mem_base s) (sl_mem_current s) (sl_class s j)" using ok that by (auto simp: slabs_ok_def)
    then show ?thesis by (fastforce simp: class_ok_def ITEM_SIZE_MAX_def)
  qed
  have disj: "set (sc_slab_list (sl_class s' i)) \<inter> set (sc_slab_list (sl_class s' j)) = {}"
    if "i \<in> classes s" "j \<in> classes s" "i \<noteq> j" for i j
  proof -
    have old: "set (sc_slab_list (sl_class s i)) \<inter> set (sc_slab_list (sl_class s j)) = {}"
      using ok that by (auto simp: slabs_ok_def)
    show ?thesis using old new(2) below [OF that(1)] below [OF that(2)] that(3) cls(1) by auto
  qed
  have item: "item_ok s' j q (the (sl_items s' q))" if j: "j \<in> classes s" "q \<in> class_blocks (sl_class s' j)" for j q
  proof (cases "j = k")
    case True
    then show ?thesis using items(3) j(2) cls(1) by simp
  next
    case False
    then have q: "q \<in> class_blocks (sl_class s j)" using j(2) cls(1) by simp
    then have "q \<notin> class_blocks (sl_class s k)" using blocks_disjoint(2) [OF ok j(1) q k] False by blast
    moreover have "q \<in> dom (sl_items s)" using ok j(1) q by (auto simp: slabs_ok_def)
    ultimately have "sl_items s' q = sl_items s q" by (intro items(2))
    moreover have "item_ok s j q (the (sl_items s q))" using ok j(1) q by (auto simp: slabs_ok_def)
    ultimately show ?thesis using False cls(1) cong(1) by (simp add: item_ok_def)
  qed
  have dom: "dom (sl_items s') = (\<Union>j \<in> classes s. class_blocks (sl_class s' j))"
  proof -
    have "dom (sl_items s) = (\<Union>j \<in> classes s. class_blocks (sl_class s j))" using ok by (simp add: slabs_ok_def)
    then show ?thesis unfolding items(1) cls(1) using new(3) k by (auto split: if_splits) (metis subsetD)
  qed
  have "class_ok (sl_mem_base s) (sl_mem_current s') (sl_class s' j)" if "j \<in> classes s" for j
    using others [OF that] new(1) cls(1) by simp
  moreover have "0 < sl_mem_base s" "sl_mem_base s \<le> sl_mem_current s'" using ok mem(1) by (auto simp: slabs_ok_def)
  ultimately show ?thesis unfolding slabs_ok_def cong(2) same(2,3) using mem(2,3) disj dom item by blast
qed

section \<open>Each operation\<close>

definition grown :: "slabclass \<Rightarrow> slabclass" where
  "grown p = (if sc_slabs p = sc_list_size p then p\<lparr>sc_list_size := (if sc_list_size p \<noteq> 0 then sc_list_size p * 2 else 16)\<rparr> else p)"

lemma grow_eq: "grow_slab_list k s = set_class k (grown (sl_class s k)) s"
  by (simp add: grow_slab_list_def grown_def Let_def)

lemma grown_simps [simp]:
  "sc_size (grown p) = sc_size p" "sc_perslab (grown p) = sc_perslab p" "sc_slots (grown p) = sc_slots p"
  "sc_sl_curr (grown p) = sc_sl_curr p" "sc_slabs (grown p) = sc_slabs p" "sc_slab_list (grown p) = sc_slab_list p"
  "class_blocks (grown p) = class_blocks p" "class_ok b c (grown p) = class_ok b c p"
  by (simp_all add: grown_def class_blocks_def class_ok_def)

lemma item_ok_cong:
  assumes "\<And>j. sc_size (sl_class s' j) = sc_size (sl_class s j)" "sl_power_largest s' = sl_power_largest s"
    and "set (sc_slots (sl_class s' k)) = set (sc_slots (sl_class s k))"
  shows "item_ok s' k q it = item_ok s k q it"
  using assms clsid_cong(1) [of s' s] by (simp add: item_ok_def)

lemma classes_bounds: "k \<in> classes s \<longleftrightarrow> POWER_SMALLEST \<le> k \<and> k \<le> sl_power_largest s"
  by (simp add: classes_def)

lemma slabs_okD:
  assumes "slabs_ok s"
  shows "k \<in> classes s \<Longrightarrow> class_ok (sl_mem_base s) (sl_mem_current s) (sl_class s k)"
    and "sl_mem_current s + sl_mem_avail s = sl_mem_base s + sl_mem_limit s" "0 < sl_mem_base s" "sl_mem_base s \<le> sl_mem_current s"
    and "ITEM_SIZE_MAX dvd sl_mem_current s - sl_mem_base s"
    and "dom (sl_items s) = (\<Union>k \<in> classes s. class_blocks (sl_class s k))"
    and "k \<in> classes s \<Longrightarrow> p \<in> class_blocks (sl_class s k) \<Longrightarrow> item_ok s k p (the (sl_items s p))"
  using assms by (simp_all add: slabs_ok_def)

text \<open>A page is taken: the state after it, written out.\<close>

definition new_page :: "nat \<Rightarrow> slabs \<Rightarrow> slabs" where
  "new_page k s =
     (let p = grown (sl_class s k); bs = blocks (sc_perslab p) (sl_mem_current s) (sc_size p) in
      s\<lparr>sl_class := (sl_class s)(k := p\<lparr>sc_slots := rev bs @ sc_slots p, sc_sl_curr := sc_sl_curr p + sc_perslab p,
             sc_slab_list := sc_slab_list p @ [sl_mem_current s], sc_slabs := sc_slabs p + 1\<rparr>),
        sl_mem_malloced := sl_mem_malloced s + ITEM_SIZE_MAX, sl_mem_current := sl_mem_current s + ITEM_SIZE_MAX,
        sl_mem_avail := sl_mem_avail s - ITEM_SIZE_MAX, sl_items := fold mark bs (sl_items s)\<rparr>)"

lemma page_aligned [simp]: "align_chunk ITEM_SIZE_MAX = ITEM_SIZE_MAX"
  by (simp add: align_chunk_def ITEM_SIZE_MAX_def CHUNK_ALIGN_BYTES_def)

lemma newslab_cases:
  assumes "k \<in> classes s"
  shows "do_slabs_newslab k s =
    (if sl_mem_limit s \<noteq> 0 \<and> sl_mem_limit s < sl_mem_malloced s + ITEM_SIZE_MAX \<and> 0 < sc_slabs (sl_class s k) then Some (False, s)
     else if sl_mem_base s = 0 \<or> sl_mem_avail s < ITEM_SIZE_MAX then Some (False, grow_slab_list k s)
     else Some (True, new_page k s))"
  using assms
  by (auto simp: do_slabs_newslab_def memory_allocate_def grow_eq split_page classes_bounds new_page_def Let_def fun_upd_def cong: if_cong)

lemma new_page_ok:
  assumes ok: "slabs_ok s" and k: "k \<in> classes s" and avail: "ITEM_SIZE_MAX \<le> sl_mem_avail s"
  shows "slabs_ok (new_page k s)" "handed_out (new_page k s) = handed_out s"
    "set (blocks (sc_perslab (sl_class s k)) (sl_mem_current s) (sc_size (sl_class s k))) \<inter> dom (sl_items s) = {}"
proof -
  let ?p = "sl_class s k" and ?c = "sl_mem_current s" and ?b = "sl_mem_base s" and ?s = "new_page k s"
  let ?bs = "blocks (sc_perslab ?p) ?c (sc_size ?p)"
  have A: "class_ok ?b ?c ?p" by (rule slabs_okD(1) [OF ok k])
  have old: "q < ?c" if "q \<in> dom (sl_items s)" for q
  proof -
    obtain j where j: "j \<in> classes s" "q \<in> class_blocks (sl_class s j)" using \<open>q \<in> dom _\<close> slabs_okD(6) [OF ok] by blast
    show ?thesis by (rule block_page [OF ok j]) simp
  qed
  have fresh: "set ?bs \<inter> dom (sl_items s) = {}" using old by (fastforce simp: set_blocks)
  then show "set (blocks (sc_perslab ?p) ?c (sc_size ?p)) \<inter> dom (sl_items s) = {}" .
  define p' where "p' = (grown ?p)\<lparr>sc_slots := rev ?bs @ sc_slots ?p, sc_sl_curr := sc_sl_curr ?p + sc_perslab ?p,
     sc_slab_list := sc_slab_list ?p @ [?c], sc_slabs := sc_slabs ?p + 1\<rparr>"
  have s': "sl_class ?s = (sl_class s)(k := p')" "sl_items ?s = fold mark ?bs (sl_items s)" "sl_mem_current ?s = ?c + ITEM_SIZE_MAX"
    "sl_mem_avail ?s = sl_mem_avail s - ITEM_SIZE_MAX" "sl_mem_base ?s = ?b" "sl_mem_limit ?s = sl_mem_limit s"
    "sl_power_largest ?s = sl_power_largest s"
    by (simp_all add: new_page_def Let_def p'_def)
  have cb: "class_blocks p' = class_blocks ?p \<union> set ?bs" by (auto simp: class_blocks_def p'_def)
  have dist: "distinct ?bs" using A by (intro distinct_blocks) (simp add: class_ok_def)
  have cls_old: "class_blocks ?p \<subseteq> dom (sl_items s)" using slabs_okD(6) [OF ok] k by blast
  have pages: "\<forall>pg \<in> set (sc_slab_list ?p). pg + ITEM_SIZE_MAX \<le> ?c" using A by (simp add: class_ok_def)
  have "?c \<notin> set (sc_slab_list ?p)" using pages by (fastforce simp: ITEM_SIZE_MAX_def)
  moreover have "set (sc_slots ?p) \<subseteq> dom (sl_items s)" using A cls_old by (auto simp: class_ok_def)
  ultimately have p'_ok: "class_ok ?b (?c + ITEM_SIZE_MAX) p'"
    using A slabs_okD(4,5) [OF ok] fresh dist cb
    by (auto simp: class_ok_def p'_def)
  have mark: "sl_items ?s q = (if q \<in> set ?bs then Some \<lparr>it_size = 0, it_flags = ITEM_SLABBED, it_clsid = 0\<rparr> else sl_items s q)" for q
    using fold_mark [OF dist, of "sl_items s" q] fresh by (auto simp: s'(2) split: option.splits)
  have sizes: "sc_size (sl_class ?s j) = sc_size (sl_class s j)" for j by (simp add: s'(1) p'_def)
  show "slabs_ok ?s"
  proof (rule slabs_ok_update [OF ok k s'(1)])
    show "dom (sl_items ?s) = dom (sl_items s) \<union> class_blocks p'" using mark cls_old cb by (auto simp: dom_def split: if_splits)
    show "sl_items ?s q = sl_items s q" if "q \<in> dom (sl_items s)" for q using mark fresh that by auto
    show "item_ok ?s k q (the (sl_items ?s q))" if "q \<in> class_blocks p'" for q
    proof (cases "q \<in> set ?bs")
      case True
      then show ?thesis by (simp add: item_ok_def mark s'(1) p'_def)
    next
      case False
      then have "q \<in> class_blocks ?p" using that cb by simp
      then have "item_ok s k q (the (sl_items s q))" by (rule slabs_okD(7) [OF ok k])
      then show ?thesis using False clsid_cong(1) [OF sizes s'(7)] by (simp add: item_ok_def mark s'(1) p'_def)
    qed
    show "sl_mem_current ?s + sl_mem_avail ?s = ?b + sl_mem_limit s" using slabs_okD(2) [OF ok] avail by (simp add: s')
    show "ITEM_SIZE_MAX dvd sl_mem_current ?s - ?b"
    proof -
      have "?c + ITEM_SIZE_MAX - ?b = (?c - ?b) + ITEM_SIZE_MAX" using slabs_okD(4) [OF ok] by simp
      then show ?thesis using slabs_okD(5) [OF ok] by (simp add: s'(3))
    qed
    show "class_ok ?b (sl_mem_current ?s) p'" using p'_ok by (simp add: s')
  qed (use s' cb p'_def in \<open>auto simp: p'_def\<close>)
  show "handed_out ?s = handed_out s"
    using fresh by (intro ext) (auto simp: handed_out_alt mark split: option.splits)
qed

text \<open>A new page for a class, or the refusal, keeps the invariant and the blocks that are handed out.\<close>

lemma newslab_ok:
  assumes ok: "slabs_ok s" and k: "k \<in> classes s"
  obtains b s' where "do_slabs_newslab k s = Some (b, s')" "slabs_ok s'" "handed_out s' = handed_out s" "classes s' = classes s"
    "\<And>j. sc_size (sl_class s' j) = sc_size (sl_class s j)" "sl_power_largest s' = sl_power_largest s"
    "sl_mem_limit s' = sl_mem_limit s" "sl_mem_base s' = sl_mem_base s"
    "b \<Longrightarrow> sc_slots (sl_class s' k) \<noteq> []"
proof (cases "sl_mem_limit s \<noteq> 0 \<and> sl_mem_limit s < sl_mem_malloced s + ITEM_SIZE_MAX \<and> 0 < sc_slabs (sl_class s k)")
  case True
  then show thesis using newslab_cases [OF k] ok by (intro that [of False s]) auto
next
  case more: False
  show thesis
  proof (cases "sl_mem_base s = 0 \<or> sl_mem_avail s < ITEM_SIZE_MAX")
    case True
    let ?s = "grow_slab_list k s"
    have sizes: "sc_size (sl_class ?s j) = sc_size (sl_class s j)" for j by (simp add: grow_eq)
    have "slabs_ok ?s"
    proof (rule slabs_ok_update [OF ok k, of _ "grown (sl_class s k)"])
      show "dom (sl_items ?s) = dom (sl_items s) \<union> class_blocks (grown (sl_class s k))"
        using slabs_okD(6) [OF ok] k by (auto simp: grow_eq)
      show "item_ok ?s k q (the (sl_items ?s q))" if "q \<in> class_blocks (grown (sl_class s k))" for q
        using slabs_okD(7) [OF ok k] that item_ok_cong [of ?s s k q, OF sizes] by (simp add: grow_eq)
    qed (use slabs_okD(1) [OF ok k] slabs_okD(2,5) [OF ok] in \<open>auto simp: grow_eq\<close>)
    moreover have "handed_out ?s = handed_out s"
      by (intro ext) (simp add: handed_out_alt grow_eq)
    ultimately show thesis
      using newslab_cases [OF k] more True by (intro that [of False ?s]) (auto simp: grow_eq classes_def)
  next
    case False
    have "class_ok (sl_mem_base s) (sl_mem_current s) (sl_class s k)" by (rule slabs_okD(1) [OF ok k])
    then have "0 < sc_perslab (sl_class s k)" by (auto simp: class_ok_def div_greater_zero_iff)
    then have "sc_slots (sl_class (new_page k s) k) \<noteq> []" by (simp add: new_page_def Let_def blocks_def)
    then show thesis
      using newslab_cases [OF k] more False new_page_ok [OF ok k]
      by (intro that [of True "new_page k s"]) (auto simp: new_page_def Let_def classes_def)
  qed
qed

lemma take_item_ok:
  assumes ok: "slabs_ok s" and k: "k \<in> classes s" and sz: "slabs_clsid sz s = k" and ne: "sc_slots (sl_class s k) \<noteq> []"
  obtains ptr s' where "take_item sz k s = Returned (Some ptr, s')" "slabs_ok s'" "handed_out s ptr = None"
    "ptr \<in> class_blocks (sl_class s k)" "handed_out s' = (handed_out s)(ptr \<mapsto> sz)"
    "\<And>j. sc_size (sl_class s' j) = sc_size (sl_class s j)" "sl_power_largest s' = sl_power_largest s"
    "sl_mem_limit s' = sl_mem_limit s" "sl_mem_base s' = sl_mem_base s"
proof -
  let ?p = "sl_class s k"
  obtain ptr ptrs where sl: "sc_slots ?p = ptr # ptrs" using ne by (cases "sc_slots ?p") auto
  have A: "class_ok (sl_mem_base s) (sl_mem_current s) ?p" by (rule slabs_okD(1) [OF ok k])
  then have ptr: "ptr \<in> class_blocks ?p" "ptr \<notin> set ptrs" using sl by (auto simp: class_ok_def)
  then obtain it where it: "sl_items s ptr = Some it" using slabs_okD(6) [OF ok] k by blast
  define p' where "p' = ?p\<lparr>sc_slots := ptrs, sc_sl_curr := sc_sl_curr ?p - 1, sc_requested := sc_requested ?p + of_nat sz\<rparr>"
  define s' where "s' = set_class k p' (s\<lparr>sl_items := (sl_items s)(ptr \<mapsto> it\<lparr>it_size := sz, it_clsid := k\<rparr>),
      sl_mem_free := sl_mem_free s - of_nat (sc_size ?p)\<rparr>)"
  have run: "take_item sz k s = Returned (Some ptr, s')" using sl it by (simp add: take_item_def Let_def s'_def p'_def)
  have cb: "class_blocks p' = class_blocks ?p" by (simp add: p'_def class_blocks_def)
  have p': "sc_size p' = sc_size ?p" "sc_perslab p' = sc_perslab ?p" "sc_slab_list p' = sc_slab_list ?p" "sc_slabs p' = sc_slabs ?p"
    "sc_slots p' = ptrs" "sc_sl_curr p' = sc_sl_curr ?p - 1" by (simp_all add: p'_def)
  have sizes: "sc_size (sl_class s' j) = sc_size (sl_class s j)" for j by (simp add: s'_def p'_def)
  have largest: "sl_power_largest s' = sl_power_largest s" by (simp add: s'_def)
  have "slabs_ok s'"
  proof (rule slabs_ok_update [OF ok k, of _ p'])
    show "dom (sl_items s') = dom (sl_items s) \<union> class_blocks p'"
      using slabs_okD(6) [OF ok] k cb ptr(1) by (auto simp: s'_def)
    show "sl_items s' q = sl_items s q" if "q \<in> dom (sl_items s)" "q \<notin> class_blocks ?p" for q
      using that ptr(1) by (auto simp: s'_def)
    show "item_ok s' k q (the (sl_items s' q))" if "q \<in> class_blocks p'" for q
    proof -
      have "item_ok s k q (the (sl_items s q))" using slabs_okD(7) [OF ok k] that cb by simp
      then show ?thesis using sl ptr(2) sz clsid_cong(1) [OF sizes largest]
        by (auto simp: item_ok_def s'_def p'_def split: if_splits)
    qed
    show "class_ok (sl_mem_base s) (sl_mem_current s') p'" using A sl by (auto simp: class_ok_def p' cb s'_def)
  qed (use slabs_okD(2,5) [OF ok] cb in \<open>auto simp: s'_def p'_def\<close>)
  moreover have "handed_out s' = (handed_out s)(ptr \<mapsto> sz)"
    using k by (intro ext) (simp add: handed_out_alt s'_def classes_def POWER_SMALLEST_def)
  moreover have "handed_out s ptr = None"
    using slabs_okD(7) [OF ok k ptr(1)] sl it by (simp add: handed_out_alt item_ok_def)
  moreover have "sl_mem_limit s' = sl_mem_limit s" "sl_mem_base s' = sl_mem_base s" by (simp_all add: s'_def)
  ultimately show thesis using that [OF run] ptr(1) sizes largest by blast
qed

text \<open>What an allocation of some size does: nothing if the size is too large or the memory used up,
  else a block that was not handed out is.\<close>

lemma alloc_ok:
  assumes ok: "slabs_ok s" and sz: "slabs_clsid sz s = k"
  obtains (none) s' where "do_slabs_alloc sz k s = Returned (None, s')" "slabs_ok s'" "handed_out s' = handed_out s"
    "\<And>j. sc_size (sl_class s' j) = sc_size (sl_class s j)" "sl_power_largest s' = sl_power_largest s"
    "sl_mem_limit s' = sl_mem_limit s" "sl_mem_base s' = sl_mem_base s"
  | (some) ptr s' where "do_slabs_alloc sz k s = Returned (Some ptr, s')" "slabs_ok s'" "k \<in> classes s" "handed_out s ptr = None"
    "handed_out s' = (handed_out s)(ptr \<mapsto> sz)"
    "\<And>j. sc_size (sl_class s' j) = sc_size (sl_class s j)" "sl_power_largest s' = sl_power_largest s"
    "sl_mem_limit s' = sl_mem_limit s" "sl_mem_base s' = sl_mem_base s"
proof (cases "k \<in> classes s")
  case False
  then show thesis using ok none [of s] by (auto simp: do_slabs_alloc_def classes_bounds not_le)
next
  case k: True
  then have bounds: "\<not> (k < POWER_SMALLEST \<or> sl_power_largest s < k)" by (auto simp: classes_bounds)
  have A: "class_ok (sl_mem_base s) (sl_mem_current s) (sl_class s k)" by (rule slabs_okD(1) [OF ok k])
  show thesis
  proof (cases "sc_slots (sl_class s k) = []")
    case False
    obtain ptr s' where t: "take_item sz k s = Returned (Some ptr, s')" "slabs_ok s'" "handed_out s ptr = None"
      "ptr \<in> class_blocks (sl_class s k)" "handed_out s' = (handed_out s)(ptr \<mapsto> sz)"
      "\<And>j. sc_size (sl_class s' j) = sc_size (sl_class s j)" "sl_power_largest s' = sl_power_largest s"
      "sl_mem_limit s' = sl_mem_limit s" "sl_mem_base s' = sl_mem_base s"
      by (rule take_item_ok [OF ok k sz False]) blast
    have "first_is_free k s"
    proof -
      obtain p ps where ps: "sc_slots (sl_class s k) = p # ps" using False by (cases "sc_slots (sl_class s k)") auto
      then have "p \<in> class_blocks (sl_class s k)" using A by (auto simp: class_ok_def)
      then have "item_ok s k p (the (sl_items s p))" "p \<in> dom (sl_items s)"
        using slabs_okD(6,7) [OF ok] k by blast+
      then show ?thesis using ps by (auto simp: first_is_free_def item_ok_def split: option.splits)
    qed
    then have "do_slabs_alloc sz k s = Returned (Some ptr, s')"
      using bounds A False t(1) by (simp add: do_slabs_alloc_def class_ok_def)
    then show thesis using some t k by blast
  next
    case True
    then have "sc_sl_curr (sl_class s k) = 0" using A by (simp add: class_ok_def)
    moreover obtain b s1 where n: "do_slabs_newslab k s = Some (b, s1)" "slabs_ok s1" "handed_out s1 = handed_out s" "classes s1 = classes s"
      "\<And>j. sc_size (sl_class s1 j) = sc_size (sl_class s j)" "sl_power_largest s1 = sl_power_largest s"
      "sl_mem_limit s1 = sl_mem_limit s" "sl_mem_base s1 = sl_mem_base s" "b \<Longrightarrow> sc_slots (sl_class s1 k) \<noteq> []"
      by (rule newslab_ok [OF ok k]) blast
    ultimately have run: "do_slabs_alloc sz k s = (if \<not> b then Returned (None, s1)
        else if sc_sl_curr (sl_class s1 k) \<noteq> 0 then take_item sz k s1 else Returned (None, s1))"
      using bounds by (cases b) (simp_all add: do_slabs_alloc_def)
    show thesis
    proof (cases b)
      case False
      then show thesis using none [of s1] run n by auto
    next
      case b: True
      have k1: "k \<in> classes s1" using k n(4) by simp
      have "slabs_clsid sz s1 = k" using clsid_cong(1) [of s1 s, OF n(5,6)] sz by simp
      then obtain ptr s' where t: "take_item sz k s1 = Returned (Some ptr, s')" "slabs_ok s'" "handed_out s1 ptr = None"
        "ptr \<in> class_blocks (sl_class s1 k)" "handed_out s' = (handed_out s1)(ptr \<mapsto> sz)"
        "\<And>j. sc_size (sl_class s' j) = sc_size (sl_class s1 j)" "sl_power_largest s' = sl_power_largest s1"
        "sl_mem_limit s' = sl_mem_limit s1" "sl_mem_base s' = sl_mem_base s1"
        using take_item_ok [OF n(2) k1 _ n(9) [OF b]] by metis
      have "sc_sl_curr (sl_class s1 k) \<noteq> 0"
        using slabs_okD(1) [OF n(2) k1] n(9) [OF b] by (simp add: class_ok_def)
      then have "do_slabs_alloc sz k s = Returned (Some ptr, s')" using run b t(1) by simp
      then show thesis using some t n k by metis
    qed
  qed
qed

text \<open>Giving a block back.\<close>

lemma give_back_ok:
  assumes ok: "slabs_ok s" and live: "live_block s k ptr" and it: "it_clsid it = 0"
  obtains s' where "do_slabs_free ptr sz k (set_item ptr it s) = Some s'" "slabs_ok s'"
    "handed_out s' = (handed_out s)(ptr := None)"
    "\<And>j. sc_size (sl_class s' j) = sc_size (sl_class s j)" "sl_power_largest s' = sl_power_largest s"
    "sl_mem_limit s' = sl_mem_limit s" "sl_mem_base s' = sl_mem_base s"
proof -
  let ?p = "sl_class s k"
  have k: "k \<in> classes s" "ptr \<in> class_blocks ?p" "ptr \<notin> set (sc_slots ?p)" using live by (auto simp: live_block_def)
  have A: "class_ok (sl_mem_base s) (sl_mem_current s) ?p" by (rule slabs_okD(1) [OF ok k(1)])
  define p' where "p' = ?p\<lparr>sc_slots := ptr # sc_slots ?p, sc_sl_curr := sc_sl_curr ?p + 1, sc_requested := sc_requested ?p - of_nat sz\<rparr>"
  define s' where "s' = set_class k p' ((set_item ptr it s)\<lparr>sl_items := mark ptr (sl_items (set_item ptr it s)),
       sl_mem_free := (if sz \<noteq> 0 then sl_mem_free s + of_nat (sc_size ?p) else sl_mem_free s)\<rparr>)"
  have run: "do_slabs_free ptr sz k (set_item ptr it s) = Some s'"
    using k(1) by (subst do_slabs_free_eq) (auto simp: classes_bounds set_item_def s'_def p'_def)
  have cb: "class_blocks p' = class_blocks ?p" by (simp add: p'_def class_blocks_def)
  have p': "sc_size p' = sc_size ?p" "sc_perslab p' = sc_perslab ?p" "sc_slab_list p' = sc_slab_list ?p" "sc_slabs p' = sc_slabs ?p"
    "sc_slots p' = ptr # sc_slots ?p" "sc_sl_curr p' = sc_sl_curr ?p + 1" by (simp_all add: p'_def)
  have cls: "sl_class s' = (sl_class s)(k := p')" by (simp add: s'_def set_item_def)
  have sizes: "sc_size (sl_class s' j) = sc_size (sl_class s j)" for j by (simp add: cls p')
  have largest: "sl_power_largest s' = sl_power_largest s" by (simp add: s'_def set_item_def)
  have items: "sl_items s' q = (if q = ptr then Some (it\<lparr>it_flags := it_flags it OR ITEM_SLABBED\<rparr>) else sl_items s q)" for q
    by (simp add: s'_def set_item_def mark_def)
  have "slabs_ok s'"
  proof (rule slabs_ok_update [OF ok k(1), of _ p'])
    show "dom (sl_items s') = dom (sl_items s) \<union> class_blocks p'"
      using slabs_okD(6) [OF ok] k(1,2) cb by (auto simp: items dom_def split: if_splits)
    show "sl_items s' q = sl_items s q" if "q \<in> dom (sl_items s)" "q \<notin> class_blocks ?p" for q
      using that k(2) by (auto simp: items)
    show "item_ok s' k q (the (sl_items s' q))" if "q \<in> class_blocks p'" for q
    proof -
      have "item_ok s k q (the (sl_items s q))" using slabs_okD(7) [OF ok k(1)] that cb by simp
      then show ?thesis using it clsid_cong(1) [OF sizes largest]
        by (auto simp: item_ok_def items cls p')
    qed
    show "class_ok (sl_mem_base s) (sl_mem_current s') p'" using A k(2,3) by (auto simp: class_ok_def p' cb s'_def set_item_def)
  qed (use slabs_okD(2,5) [OF ok] cb p' in \<open>auto simp: cls s'_def set_item_def\<close>)
  moreover have "handed_out s' = (handed_out s)(ptr := None)"
    using it by (intro ext) (simp add: handed_out_alt items)
  moreover have "sl_mem_limit s' = sl_mem_limit s" "sl_mem_base s' = sl_mem_base s" by (simp_all add: s'_def set_item_def)
  ultimately show thesis using that [OF run] sizes largest by blast
qed

end
