(* ===== verification/Slabs_Spec.thy ===== *)
theory Slabs_Spec
  imports Slabs_Proof
begin

text \<open>
  The contract of the slab allocator: any sequence of calls on a fresh allocator hands out blocks that lie
  in the region, are as large as was asked for and never overlap; what each call does to the set of
  blocks that are handed out.
\<close>

section \<open>Blocks that are handed out\<close>

lemma handed_out_live:
  assumes ok: "slabs_ok s" and out: "handed_out s p = Some n"
  obtains k it where "sl_items s p = Some it" "it_size it = n" "it_clsid it = k" "slabs_clsid n s = k" "live_block s k p"
proof -
  obtain it where it: "sl_items s p = Some it" "it_size it = n" "it_clsid it \<noteq> 0"
    using out by (auto simp: handed_out_alt split: option.splits if_splits)
  then obtain k where k: "k \<in> classes s" "p \<in> class_blocks (sl_class s k)" using slabs_okD(6) [OF ok] by blast
  then show thesis using slabs_okD(7) [OF ok k] it
    by (intro that [of it k]) (auto simp: item_ok_def live_block_def split: if_splits)
qed

lemma find_in: "find P xs = Some x \<Longrightarrow> P x \<and> x \<in> set xs"
  by (induction xs) (auto split: if_splits)

lemma clsid_0 [simp]: "slabs_clsid 0 s = 0"
  by (simp add: slabs_clsid_def)

lemma clsid_fits:
  assumes "slabs_clsid n s = k" "k \<noteq> 0"
  shows "k \<in> classes s" "n \<le> sc_size (sl_class s k)"
proof -
  have "find (\<lambda>r. n \<le> sc_size (sl_class s r)) [POWER_SMALLEST..<Suc (sl_power_largest s)] = Some k"
    using assms unfolding slabs_clsid_def by (cases "n = 0") (auto simp del: upt_Suc split: option.splits)
  from find_in [OF this] show "k \<in> classes s" "n \<le> sc_size (sl_class s k)" by (auto simp: classes_def simp del: upt_Suc)
qed

lemma clsid_pos: "slabs_clsid n s = k \<Longrightarrow> k \<noteq> 0 \<Longrightarrow> n \<noteq> 0"
  by (cases "n = 0") auto

lemma live_class: "live_block s k p \<Longrightarrow> k \<noteq> 0"
  by (auto simp: live_block_def classes_def POWER_SMALLEST_def)

text \<open>Blocks lie in the region and apart.\<close>

lemma handed_out_inside:
  assumes ok: "slabs_ok s" and out: "handed_out s p = Some n"
  shows "sl_mem_base s \<le> p" "p + n \<le> sl_mem_base s + sl_mem_limit s" "0 < n"
proof -
  obtain k where k: "slabs_clsid n s = k" "live_block s k p" by (rule handed_out_live [OF ok out])
  note fits = clsid_fits [OF k(1) live_class [OF k(2)]]
  have in_k: "k \<in> classes s" "p \<in> class_blocks (sl_class s k)" using k(2) by (simp_all add: live_block_def)
  obtain pg where "pg \<le> p" "p + sc_size (sl_class s k) \<le> pg + ITEM_SIZE_MAX" "sl_mem_base s \<le> pg" "pg + ITEM_SIZE_MAX \<le> sl_mem_current s"
    by (rule block_page [OF ok in_k])
  then show "sl_mem_base s \<le> p" "p + n \<le> sl_mem_base s + sl_mem_limit s"
    using fits(2) slabs_okD(2) [OF ok] by linarith+
  show "0 < n" using clsid_pos [OF k(1) live_class [OF k(2)]] by simp
qed

lemma handed_out_apart:
  assumes ok: "slabs_ok s" and out: "handed_out s p = Some n" "handed_out s q = Some m" and less: "p < q"
  shows "p + n \<le> q"
proof -
  obtain k where k: "slabs_clsid n s = k" "live_block s k p" by (rule handed_out_live [OF ok out(1)])
  obtain j where j: "slabs_clsid m s = j" "live_block s j q" by (rule handed_out_live [OF ok out(2)])
  have "p + sc_size (sl_class s k) \<le> q"
    using k(2) j(2) unfolding live_block_def by (intro blocks_disjoint(1) [OF ok _ _ _ _ less]) blast+
  then show ?thesis using clsid_fits(2) [OF k(1) live_class [OF k(2)]] by linarith
qed

section \<open>Each call\<close>

text \<open>What an operation leaves alone.\<close>

definition same_region :: "slabs \<Rightarrow> slabs \<Rightarrow> bool" where
  "same_region s s' \<longleftrightarrow> sl_mem_base s' = sl_mem_base s \<and> sl_mem_limit s' = sl_mem_limit s"

lemma same_region_refl [simp]: "same_region s s"
  by (simp add: same_region_def)

lemma alloc_some:
  assumes ok: "slabs_ok s" and run: "do_slabs_alloc n (slabs_clsid n s) s = Returned (Some p, s')"
  shows "slabs_ok s'" "same_region s s'" "handed_out s p = None" "handed_out s' = (handed_out s)(p \<mapsto> n)"
    "\<And>j. sc_size (sl_class s' j) = sc_size (sl_class s j)" "sl_power_largest s' = sl_power_largest s"
  by (rule alloc_ok [OF ok refl, of n]; simp add: run same_region_def)+

lemma malloc_ok:
  assumes ok: "slabs_ok s" and run: "sb_malloc sz s = Returned (Some p, s')"
  shows "slabs_ok s'" "same_region s s'" "handed_out s p = None" "handed_out s' = (handed_out s)(p \<mapsto> sz)"
proof -
  have "do_slabs_alloc sz (slabs_clsid sz s) s = Returned (Some p, s')"
    using run by (simp add: sb_malloc_def SB_PREFIX_SIZE_def split: if_splits outcome.splits option.splits prod.splits)
  from alloc_some [OF ok this] show "slabs_ok s'" "same_region s s'" "handed_out s p = None" "handed_out s' = (handed_out s)(p \<mapsto> sz)"
    by simp_all
qed

lemma aligned_malloc_ok:
  assumes ok: "slabs_ok s" and run: "sb_aligned_malloc sz block s = Returned (Some p, s')"
  defines "n \<equiv> unat (ALIGN (of_nat sz) (of_nat block) :: u64)"
  shows "slabs_ok s'" "same_region s s'" "handed_out s p = None" "handed_out s' = (handed_out s)(p \<mapsto> n)" "p mod block = 0"
proof -
  have "do_slabs_alloc n (slabs_clsid n s) s = Returned (Some p, s')" "p mod block = 0"
    using run by (simp_all add: sb_aligned_malloc_def SB_PREFIX_SIZE_def n_def Let_def split: if_splits outcome.splits option.splits prod.splits)
  with alloc_some [OF ok this(1)] show "slabs_ok s'" "same_region s s'" "handed_out s p = None"
    "handed_out s' = (handed_out s)(p \<mapsto> n)" "p mod block = 0" by simp_all
qed

lemma no_class [simp]: "do_slabs_free p n 0 s = None"
  by (simp add: do_slabs_free_def POWER_SMALLEST_def)

lemma free_ok:
  assumes ok: "slabs_ok s" and lim: "sl_mem_limit s \<noteq> 0" and run: "sb_free p s = Returned (n, s')"
  shows "slabs_ok s'" "same_region s s'" "handed_out s p = Some n" "handed_out s' = (handed_out s)(p := None)"
proof -
  obtain it where it: "sl_items s p = Some it" using run lim by (cases "sl_items s p") (simp_all add: sb_free_def)
  have cls: "it_clsid it = slabs_clsid (it_size it) s"
    and f: "do_slabs_free p (it_size it) (it_clsid it) (set_item p (it\<lparr>it_size := 0, it_clsid := 0\<rparr>) s) = Some s'" "n = it_size it"
    using run lim it by (simp_all add: sb_free_def split: if_splits option.splits)
  have "it_clsid it \<noteq> 0" using f(1) by (intro notI) simp
  then show out: "handed_out s p = Some n" using it f(2) by (simp add: handed_out_alt)
  obtain k where "live_block s k p" "slabs_clsid n s = k" by (rule handed_out_live [OF ok out])
  then have live: "live_block s (it_clsid it) p" using cls f(2) by simp
  obtain s2 where "do_slabs_free p (it_size it) (it_clsid it) (set_item p (it\<lparr>it_size := 0, it_clsid := 0\<rparr>) s) = Some s2" "slabs_ok s2"
    "handed_out s2 = (handed_out s)(p := None)" "sl_mem_limit s2 = sl_mem_limit s" "sl_mem_base s2 = sl_mem_base s"
    using give_back_ok [OF ok live, of "it\<lparr>it_size := 0, it_clsid := 0\<rparr>" "it_size it"] by (metis item.select_convs(3) item.update_convs(3) item.update_convs(1) item.surjective)
  then show "slabs_ok s'" "same_region s s'" "handed_out s' = (handed_out s)(p := None)" using f(1) by (simp_all add: same_region_def)
qed

text \<open>Resizing within the class.\<close>

lemma resize_ok:
  assumes ok: "slabs_ok s" and it: "sl_items s p = Some it" "it_clsid it = k" "slabs_clsid n s = k"
    and run: "slabs_adjust_mem_requested k old n (set_item p (it\<lparr>it_size := n\<rparr>) s) = Some s'"
  shows "slabs_ok s'" "same_region s s'" "handed_out s' = (handed_out s)(p \<mapsto> n)"
proof -
  let ?c = "sl_class s k"
  have k: "k \<in> classes s" using run by (simp add: slabs_adjust_mem_requested_def set_item_def classes_bounds split: if_splits)
  then have k0: "k \<noteq> 0" by (auto simp: classes_bounds POWER_SMALLEST_def)
  define p' where "p' = ?c\<lparr>sc_requested := sc_requested ?c - of_nat old + of_nat n\<rparr>"
  have s': "s' = set_class k p' (set_item p (it\<lparr>it_size := n\<rparr>) s)"
    using run by (simp add: slabs_adjust_mem_requested_def set_item_def Let_def p'_def split: if_splits)
  have items: "sl_items s' q = (if q = p then Some (it\<lparr>it_size := n\<rparr>) else sl_items s q)" for q by (simp add: s' set_item_def)
  have "handed_out s p = Some (it_size it)" using it k0 by (simp add: handed_out_alt)
  then obtain j where j: "live_block s j p" "slabs_clsid (it_size it) s = j" by (rule handed_out_live [OF ok])
  obtain i where i: "i \<in> classes s" "p \<in> class_blocks (sl_class s i)" using it(1) slabs_okD(6) [OF ok] by blast
  have p_in: "p \<in> class_blocks ?c" "p \<notin> set (sc_slots ?c)"
    using slabs_okD(7) [OF ok i] it i k0 by (auto simp: item_ok_def split: if_splits)
  have p': "sc_size p' = sc_size ?c" "class_blocks p' = class_blocks ?c" "sc_slots p' = sc_slots ?c" "sc_slab_list p' = sc_slab_list ?c"
    and cong: "class_ok b c p' = class_ok b c ?c" for b c by (simp_all add: p'_def class_blocks_def class_ok_def)
  have sizes: "sc_size (sl_class s' j) = sc_size (sl_class s j)" for j by (simp add: s' p' set_item_def)
  have largest: "sl_power_largest s' = sl_power_largest s" by (simp add: s' set_item_def)
  show "slabs_ok s'"
  proof (rule slabs_ok_update [OF ok k, of _ p'])
    show "dom (sl_items s') = dom (sl_items s) \<union> class_blocks p'"
      using slabs_okD(6) [OF ok] k it(1) by (auto simp: items dom_def p' split: if_splits)
    show "sl_items s' q = sl_items s q" if "q \<in> dom (sl_items s)" "q \<notin> class_blocks ?c" for q
      using that p_in by (auto simp: items)
    show "item_ok s' k q (the (sl_items s' q))" if "q \<in> class_blocks p'" for q
    proof -
      have "item_ok s k q (the (sl_items s q))" using slabs_okD(7) [OF ok k] that p' by simp
      then show ?thesis using it p_in clsid_cong(1) [OF sizes largest] by (simp add: item_ok_def items s' p' set_item_def split: if_splits)
    qed
  qed (use slabs_okD(1) [OF ok k] slabs_okD(2,5) [OF ok] p' cong in \<open>auto simp: s' set_item_def\<close>)
  show "same_region s s'" by (simp add: s' set_item_def same_region_def)
  show "handed_out s' = (handed_out s)(p \<mapsto> n)" using it k0 by (intro ext) (simp add: handed_out_alt items)
qed

text \<open>A call of \<open>sb_realloc\<close> either keeps the block or moves to another one. What it copies then is the new
  block onto itself.\<close>

definition resized :: "nat \<Rightarrow> slabs \<Rightarrow> nat \<Rightarrow> nat option \<Rightarrow> slabs \<Rightarrow> (nat \<times> nat \<times> nat) option \<Rightarrow> bool" where
  "resized sz s p r s' c \<longleftrightarrow> p \<in> dom (handed_out s)
     \<and> (r = Some p \<and> handed_out s' = (handed_out s)(p \<mapsto> sz) \<and> c = None
        \<or> (\<exists>q len. q \<noteq> p \<and> handed_out s q = None \<and> r = Some q \<and> handed_out s' = (handed_out s)(p := None, q \<mapsto> sz)
             \<and> c = Some (q, q, len)))"

lemma realloc_ok:
  assumes ok: "slabs_ok s" and lim: "sl_mem_limit s \<noteq> 0" and run: "sb_realloc (Some p) sz s = Returned (r, s', c)"
  shows "slabs_ok s'" "same_region s s'"
    "resized sz s p r s' c"
proof -
  obtain it where it: "sl_items s p = Some it" using run lim by (cases "sl_items s p") (simp_all add: sb_realloc_def)
  have cls: "slabs_clsid (it_size it) s = it_clsid it" using run lim it by (simp add: sb_realloc_def Let_def split: if_splits)
  have "slabs_ok s' \<and> same_region s s' \<and> resized sz s p r s' c"
  proof (cases "it_clsid it = slabs_clsid sz s")
    case True
    then have a: "slabs_adjust_mem_requested (it_clsid it) (it_size it) sz (set_item p (it\<lparr>it_size := sz\<rparr>) s) = Some s'" "r = Some p" "c = None"
      using run lim it cls by (simp_all add: sb_realloc_def SB_PREFIX_SIZE_def Let_def split: if_splits option.splits)
    have "it_clsid it \<noteq> 0" using a(1) by (intro notI) (simp add: slabs_adjust_mem_requested_def POWER_SMALLEST_def)
    then have "handed_out s p = Some (it_size it)" using it by (simp add: handed_out_alt)
    then show ?thesis using resize_ok [OF ok it refl True [symmetric] a(1)] a by (simp add: resized_def domI)
  next
    case False
    obtain q s1 where a: "do_slabs_alloc sz (slabs_clsid sz s) s = Returned (Some q, s1)"
      and f: "do_slabs_free p (it_size it) (it_clsid it) (set_item p (it\<lparr>it_clsid := 0\<rparr>) s1) = Some s'"
      and rc: "r = Some q" "\<exists>len. c = Some (q, q, len)"
      using run lim it cls False
      by (auto simp: sb_realloc_def SB_PREFIX_SIZE_def Let_def split: if_splits option.splits outcome.splits prod.splits)
    note n = alloc_some [OF ok a]
    have k0: "it_clsid it \<noteq> 0" using f by (intro notI) simp
    then have out: "handed_out s p = Some (it_size it)" using it by (simp add: handed_out_alt)
    then have pq: "p \<noteq> q" using n(3) by auto
    then have out1: "handed_out s1 p = Some (it_size it)" using n(4) out by simp
    obtain k where "live_block s1 k p" "slabs_clsid (it_size it) s1 = k" by (rule handed_out_live [OF n(1) out1])
    then have live: "live_block s1 (it_clsid it) p" using cls clsid_cong(1) [of s1 s, OF n(5,6)] by simp
    obtain s2 where "do_slabs_free p (it_size it) (it_clsid it) (set_item p (it\<lparr>it_clsid := 0\<rparr>) s1) = Some s2" "slabs_ok s2"
      "handed_out s2 = (handed_out s1)(p := None)" "sl_mem_limit s2 = sl_mem_limit s1" "sl_mem_base s2 = sl_mem_base s1"
      by (rule give_back_ok [OF n(1) live, of "it\<lparr>it_clsid := 0\<rparr>" "it_size it"]) auto
    then show ?thesis using f n(2,3,4) rc pq out by (auto simp: same_region_def resized_def fun_upd_twist)
  qed
  then show "slabs_ok s'" "same_region s s'" "resized sz s p r s' c" by blast+
qed

section \<open>Sequences of calls\<close>

datatype slab_call =
  Malloc nat | Aligned_Malloc nat nat | Calloc nat nat | Aligned_Calloc nat nat nat | Realloc "nat option" nat | Free nat

text \<open>\<open>None\<close> is a call that does not return.\<close>

fun slab_do :: "slab_call \<Rightarrow> slabs \<Rightarrow> slabs option" where
  "slab_do (Malloc sz) s = (case sb_malloc sz s of Returned (_, s) \<Rightarrow> Some s | _ \<Rightarrow> None)"
| "slab_do (Aligned_Malloc sz block) s = (case sb_aligned_malloc sz block s of Returned (_, s) \<Rightarrow> Some s | _ \<Rightarrow> None)"
| "slab_do (Calloc n sz) s = (case sb_calloc n sz s of Returned (_, s, _) \<Rightarrow> Some s | _ \<Rightarrow> None)"
| "slab_do (Aligned_Calloc n sz block) s = (case sb_aligned_calloc n sz block s of Returned (_, s, _) \<Rightarrow> Some s | _ \<Rightarrow> None)"
| "slab_do (Realloc p sz) s = (case sb_realloc p sz s of Returned (_, s, _) \<Rightarrow> Some s | _ \<Rightarrow> None)"
| "slab_do (Free p) s = (case sb_free p s of Returned (_, s) \<Rightarrow> Some s | _ \<Rightarrow> None)"

fun run_calls :: "('c \<Rightarrow> 's \<Rightarrow> 's option) \<Rightarrow> 'c list \<Rightarrow> 's \<Rightarrow> 's option" where
  "run_calls f [] s = Some s"
| "run_calls f (c # cs) s = (case f c s of None \<Rightarrow> None | Some s \<Rightarrow> run_calls f cs s)"

text \<open>An allocator over a region: the client sees the blocks that are handed out.\<close>

locale region_allocator =
  fixes ok :: "'s \<Rightarrow> bool"
    and out :: "'s \<Rightarrow> (nat \<rightharpoonup> nat)"
    and base :: "'s \<Rightarrow> nat"
    and limit :: "'s \<Rightarrow> nat"
    and call :: "'c \<Rightarrow> 's \<Rightarrow> 's option"
  assumes keeps: "ok s \<Longrightarrow> call c s = Some s' \<Longrightarrow> ok s' \<and> base s' = base s \<and> limit s' = limit s"
    and inside: "ok s \<Longrightarrow> out s p = Some n \<Longrightarrow> base s \<le> p \<and> p + n \<le> base s + limit s"
    and apart: "ok s \<Longrightarrow> out s p = Some n \<Longrightarrow> out s q = Some m \<Longrightarrow> p < q \<Longrightarrow> p + n \<le> q"
begin

lemma run_keeps: "ok s \<Longrightarrow> run_calls call cs s = Some s' \<Longrightarrow> ok s' \<and> base s' = base s \<and> limit s' = limit s"
proof (induction cs arbitrary: s)
  case Nil
  then show ?case by simp
next
  case (Cons c cs)
  then obtain s1 where s1: "call c s = Some s1" "run_calls call cs s1 = Some s'" by (auto split: option.splits)
  then show ?case using Cons.IH [OF _ s1(2)] keeps [OF Cons.prems(1) s1(1)] by simp
qed

lemma run_blocks:
  assumes "ok s" "run_calls call cs s = Some s'" "out s' p = Some n" "out s' q = Some m"
  shows "base s \<le> p \<and> p + n \<le> base s + limit s \<and> (p \<noteq> q \<longrightarrow> p + n \<le> q \<or> q + m \<le> p)"
  using run_keeps [OF assms(1,2)] inside [of s' p n] apart [of s' p n q m] apart [of s' q m p n] assms(3,4)
  by (metis linorder_neqE_nat)

end

text \<open>A null pointer is returned by an allocator without memory only.\<close>

lemma not_null:
  assumes "sl_mem_limit s \<noteq> 0"
  shows "sb_malloc n s = Returned (r, s') \<Longrightarrow> \<exists>p. r = Some p" "sb_aligned_malloc n b s = Returned (r, s') \<Longrightarrow> \<exists>p. r = Some p"
  using assms by (auto simp: sb_malloc_def sb_aligned_malloc_def Let_def split: outcome.splits option.splits prod.splits if_splits)

lemma calls_keep:
  assumes ok: "slabs_ok s" and run: "slab_do c s = Some s'"
  shows "slabs_ok s' \<and> sl_mem_base s' = sl_mem_base s \<and> sl_mem_limit s' = sl_mem_limit s"
proof (cases "sl_mem_limit s = 0")
  case True
  then have "s' = s" using run
    by (cases c) (auto simp: sb_malloc_def sb_aligned_malloc_def sb_calloc_def sb_aligned_calloc_def sb_realloc_def sb_free_def)
  then show ?thesis using ok by simp
next
  case lim: False
  have m: "slabs_ok s1 \<and> same_region s s1" if "sb_malloc n s = Returned (r, s1)" for n r s1
    using malloc_ok(1,2) [OF ok] not_null(1) [OF lim that] that by blast
  have a: "slabs_ok s1 \<and> same_region s s1" if "sb_aligned_malloc n b s = Returned (r, s1)" for n b r s1
    using aligned_malloc_ok(1,2) [OF ok] not_null(2) [OF lim that] that by blast
  have "slabs_ok s' \<and> same_region s s'"
  proof (cases c)
    case (Malloc n)
    then obtain r where "sb_malloc n s = Returned (r, s')" using run by (simp split: outcome.splits prod.splits)
    then show ?thesis by (rule m)
  next
    case (Aligned_Malloc n b)
    then obtain r where "sb_aligned_malloc n b s = Returned (r, s')" using run by (simp split: outcome.splits prod.splits)
    then show ?thesis by (rule a)
  next
    case (Calloc n sz)
    then obtain r where "sb_malloc (n * sz) s = Returned (r, s')"
      using run lim by (simp add: sb_calloc_def split: outcome.splits option.splits prod.splits)
    then show ?thesis by (rule m)
  next
    case (Aligned_Calloc n sz b)
    then obtain r where "sb_aligned_malloc (n * sz) b s = Returned (r, s')"
      using run lim by (simp add: sb_aligned_calloc_def split: outcome.splits option.splits prod.splits)
    then show ?thesis by (rule a)
  next
    case (Realloc p n)
    show ?thesis
    proof (cases p)
      case None
      then obtain r where "sb_malloc n s = Returned (r, s')"
        using Realloc run lim by (simp add: sb_realloc_def split: outcome.splits prod.splits)
      then show ?thesis by (rule m)
    next
      case (Some ptr)
      then obtain r d where "sb_realloc (Some ptr) n s = Returned (r, s', d)"
        using Realloc run by (simp split: outcome.splits prod.splits)
      then show ?thesis using realloc_ok(1,2) [OF ok lim] by blast
    qed
  next
    case (Free p)
    then obtain n where "sb_free p s = Returned (n, s')" using run by (simp split: outcome.splits prod.splits)
    then show ?thesis using free_ok(1,2) [OF ok lim] by blast
  qed
  then show ?thesis by (simp add: same_region_def)
qed

interpretation slab_region: region_allocator slabs_ok handed_out sl_mem_base sl_mem_limit slab_do
  by unfold_locales (use calls_keep handed_out_inside handed_out_apart in \<open>blast+\<close>)

section \<open>Set-up\<close>

lemma align_chunk_le: "sz \<le> ITEM_SIZE_MAX \<Longrightarrow> sz \<le> align_chunk sz \<and> align_chunk sz \<le> ITEM_SIZE_MAX"
  unfolding align_chunk_def ITEM_SIZE_MAX_def CHUNK_ALIGN_BYTES_def by presburger

definition fresh_classes :: "nat \<Rightarrow> (nat \<Rightarrow> slabclass) \<Rightarrow> bool" where
  "fresh_classes i cl \<longleftrightarrow> (\<forall>j. 1 \<le> j \<and> j < i \<longrightarrow> (\<exists>z. 0 < z \<and> z \<le> ITEM_SIZE_MAX \<and> cl j = sized z)) \<and> (\<forall>j \<ge> i. cl j = empty_class)"

lemma init_classes_ok:
  assumes "1 \<le> factor" "0 < sz" "fresh_classes (i + 1) cl" "i < POWER_LARGEST" "init_classes factor i pre sz cl = (i', cl')"
  shows "fresh_classes i' cl' \<and> i < i' \<and> i' \<le> POWER_LARGEST"
  using assms
proof (induction "POWER_LARGEST - i" arbitrary: i pre sz cl rule: less_induct)
  case less
  show ?case
  proof (cases "i + 1 < POWER_LARGEST \<and> rat_of_nat sz \<le> of_nat ITEM_SIZE_MAX / factor")
    case False
    then show ?thesis using less.prems by (auto simp: init_classes.simps [of factor i pre sz cl] Let_def split: if_splits)
  next
    case True
    have f: "0 < factor" using less.prems(1) by simp
    have "of_nat sz * factor \<le> of_nat ITEM_SIZE_MAX" using True f by (simp add: pos_le_divide_eq)
    moreover have "of_nat sz * 1 \<le> of_nat sz * factor" using less.prems(1) by (intro mult_left_mono) auto
    ultimately have "rat_of_nat sz \<le> of_nat ITEM_SIZE_MAX" by simp
    then have "sz \<le> ITEM_SIZE_MAX" by (simp only: of_nat_le_iff)
    note a = align_chunk_le [OF this]
    let ?z = "align_chunk sz"
    have no: "\<not> (pre div ITEM_SIZE_MAX < ?z div ITEM_SIZE_MAX \<and> ?z mod ITEM_SIZE_MAX \<noteq> 0)"
      using a by (cases "?z = ITEM_SIZE_MAX") auto
    have rec: "init_classes factor i pre sz cl = init_classes factor (i + 1) ?z (nat \<lfloor>of_nat ?z * factor\<rfloor>) (cl(i + 1 := sized ?z))"
      by (subst init_classes.simps, unfold Let_def, subst if_P [OF True], subst if_not_P [OF no]) simp
    have z: "0 < ?z" using a less.prems(2) by simp
    have "of_nat ?z * 1 \<le> of_nat ?z * factor" using less.prems(1) by (intro mult_left_mono) auto
    then have "of_nat ?z \<le> of_nat ?z * factor" by simp
    then have pos: "0 < nat \<lfloor>of_nat ?z * factor\<rfloor>" using z by linarith
    have "fresh_classes (i + 1 + 1) (cl(i + 1 := sized ?z))"
      using less.prems(3) z a by (auto simp: fresh_classes_def less_Suc_eq)
    from less.hyps [OF _ less.prems(1) pos this _ less.prems(5) [unfolded rec]]
    have "fresh_classes i' cl' \<and> i + 1 < i' \<and> i' \<le> POWER_LARGEST" using less.prems(4) True by linarith
    then show ?thesis by simp
  qed
qed

lemma preallocate_ok:
  assumes "slabs_ok s" "slabs_preallocate [i..<j] (i - 1) (sl_power_largest s) s = Some s'" "1 \<le> i"
  shows "slabs_ok s' \<and> same_region s s' \<and> handed_out s' = handed_out s"
  using assms
proof (induction "j - i" arbitrary: i s)
  case 0
  then show ?case by simp
next
  case (Suc d)
  then have upt: "[i..<j] = i # [Suc i..<j]" by (simp add: upt_conv_Cons)
  show ?case
  proof (cases "sl_power_largest s < i")
    case True
    then show ?thesis using Suc.prems upt by simp
  next
    case False
    then have k: "i \<in> classes s" using Suc.prems(3) by (simp add: classes_def POWER_SMALLEST_def)
    obtain b s1 where n: "do_slabs_newslab i s = Some (b, s1)" "slabs_ok s1" "handed_out s1 = handed_out s" "classes s1 = classes s"
      "\<And>j. sc_size (sl_class s1 j) = sc_size (sl_class s j)" "sl_power_largest s1 = sl_power_largest s"
      "sl_mem_limit s1 = sl_mem_limit s" "sl_mem_base s1 = sl_mem_base s"
      by (rule newslab_ok [OF Suc.prems(1) k]) blast
    have b: "b" "slabs_preallocate [Suc i..<j] (Suc i - 1) (sl_power_largest s1) s1 = Some s'"
      using Suc.prems(2,3) False n(1,6) upt by (auto split: bool.splits)
    have "slabs_ok s' \<and> same_region s1 s' \<and> handed_out s' = handed_out s1"
      using Suc.hyps(2) by (intro Suc.hyps(1) [OF _ n(2) b(2)]) auto
    then show ?thesis using n by (simp add: same_region_def)
  qed
qed

lemma slabs_init_ok:
  assumes run: "slabs_init limit factor base = Some s" and f: "1 \<le> factor" and base: "0 < base"
  shows "slabs_ok s" "sl_mem_base s = base" "sl_mem_limit s = limit" "handed_out s = Map.empty"
proof -
  obtain i cl where c: "init_classes factor 0 48 48 (\<lambda>_. empty_class) = (i, cl)" by fastforce
  have "fresh_classes (0 + 1) (\<lambda>_. empty_class)" by (simp add: fresh_classes_def)
  from init_classes_ok [OF f _ this _ c] have i: "fresh_classes i cl" "0 < i" "i \<le> POWER_LARGEST"
    by (simp_all add: POWER_LARGEST_def)
  define s0 where "s0 = \<lparr>sl_class = cl(i := (cl i)\<lparr>sc_size := ITEM_SIZE_MAX, sc_perslab := 1\<rparr>), sl_mem_limit = limit, sl_mem_malloced = 0,
      sl_power_largest = i, sl_mem_base = base, sl_mem_current = base, sl_mem_avail = limit, sl_mem_free = of_nat limit, sl_items = Map.empty\<rparr>"
  have pre: "slabs_preallocate [1..<Suc POWER_LARGEST] (1 - 1) (sl_power_largest s0) s0 = Some s"
    using run c i(3) by (simp add: slabs_init_def SB_PREFIX_SIZE_def smallest_chunk_def POWER_SMALLEST_def Let_def s0_def)
  have cls: "\<exists>z. 0 < z \<and> z \<le> ITEM_SIZE_MAX \<and> sl_class s0 k = sized z" if "k \<in> classes s0" for k
  proof (cases "k = i")
    case True
    then have "sl_class s0 k = sized ITEM_SIZE_MAX"
      using i(1) by (simp add: s0_def fresh_classes_def sized_def empty_class_def ITEM_SIZE_MAX_def)
    then show ?thesis by (auto simp: ITEM_SIZE_MAX_def)
  next
    case False
    then show ?thesis using that i(1) by (auto simp: s0_def classes_def POWER_SMALLEST_def fresh_classes_def)
  qed
  have sz: "class_ok base base (sized z)" "class_blocks (sized z) = {}" "sc_slab_list (sized z) = []" if "0 < z" "z \<le> ITEM_SIZE_MAX" for z
    using that by (simp_all add: sized_def empty_class_def class_ok_def class_blocks_def)
  have none: "class_blocks (sl_class s0 k) = {}" "class_ok base base (sl_class s0 k)" "sc_slab_list (sl_class s0 k) = []"
    if "k \<in> classes s0" for k
    using cls [OF that] sz by auto
  have "slabs_ok s0"
    unfolding slabs_ok_def using none base by (auto simp: s0_def)
  moreover have "handed_out s0 = Map.empty" by (intro ext) (simp add: handed_out_alt s0_def)
  ultimately show "slabs_ok s" "sl_mem_base s = base" "sl_mem_limit s = limit" "handed_out s = Map.empty"
    using preallocate_ok [OF _ pre] by (simp_all add: same_region_def s0_def)
qed

section \<open>Properties\<close>

text \<open>(C28) Whatever is allocated, cleared, resized and freed after the set-up of a slab allocator, the blocks
  that are handed out lie in its region and no two of them overlap.\<close>

theorem slab_blocks_apart:
  assumes "slabs_init limit factor base = Some s0" "1 \<le> factor" "0 < base" "run_calls slab_do cs s0 = Some s"
    and "is_free p s = Some False" "get_size p s = Some n" "is_free q s = Some False" "get_size q s = Some m"
  shows "base \<le> p \<and> p + n \<le> base + limit \<and> (p \<noteq> q \<longrightarrow> p + n \<le> q \<or> q + m \<le> p)"
  using slab_region.run_blocks [OF slabs_init_ok(1) [OF assms(1-3)] assms(4), of p n q m] slabs_init_ok(2,3) [OF assms(1-3)] assms(5-8)
  by (simp add: handed_out_def)

lemma init_classes_example: "init_classes 64 0 48 48 (\<lambda>_. empty_class) = (2, (\<lambda>_. empty_class)(1 := sized 48))"
  by (simp add: init_classes.simps align_chunk_def CHUNK_ALIGN_BYTES_def ITEM_SIZE_MAX_def POWER_LARGEST_def)

definition example_slabs :: slabs where
  "example_slabs = \<lparr>sl_class = (\<lambda>_. empty_class)(1 := sized 48, 2 := sized 4096), sl_mem_limit = 16384, sl_mem_malloced = 0,
     sl_power_largest = 2, sl_mem_base = 4096, sl_mem_current = 4096, sl_mem_avail = 16384, sl_mem_free = 16384, sl_items = Map.empty\<rparr>"

lemma init_example: "slabs_init 16384 64 4096 = Some (new_page 2 (new_page 1 example_slabs))"
proof -
  have "[POWER_SMALLEST..<Suc POWER_LARGEST] = 1 # 2 # 3 # [4..<Suc POWER_LARGEST]"
    by (simp add: POWER_SMALLEST_def POWER_LARGEST_def upt_conv_Cons)
  moreover have "do_slabs_newslab 1 example_slabs = Some (True, new_page 1 example_slabs)"
    by (subst newslab_cases) (simp_all add: classes_def example_slabs_def POWER_SMALLEST_def ITEM_SIZE_MAX_def)
  moreover have "do_slabs_newslab 2 (new_page 1 example_slabs) = Some (True, new_page 2 (new_page 1 example_slabs))"
    by (subst newslab_cases) (simp_all add: new_page_def Let_def classes_def example_slabs_def POWER_SMALLEST_def ITEM_SIZE_MAX_def)
  moreover have "sized 4096 = empty_class\<lparr>sc_size := ITEM_SIZE_MAX, sc_perslab := 1\<rparr>"
    by (simp add: sized_def ITEM_SIZE_MAX_def)
  ultimately show ?thesis
    by (simp add: slabs_init_def SB_PREFIX_SIZE_def smallest_chunk_def init_classes_example POWER_LARGEST_def example_slabs_def
        POWER_SMALLEST_def Let_def del: upt_Suc)
qed

lemma rev_blocks: "0 < n \<Longrightarrow> rev (blocks n p sz) = (p + (n - 1) * sz) # rev (blocks (n - 1) p sz)"
  by (cases n) (simp_all add: blocks_def)

lemma example_pages:
  defines "s \<equiv> new_page 2 (new_page 1 example_slabs)"
  shows "sl_items s 8192 = Some \<lparr>it_size = 0, it_flags = ITEM_SLABBED, it_clsid = 0\<rparr>"
    "sl_items s 8128 = Some \<lparr>it_size = 0, it_flags = ITEM_SLABBED, it_clsid = 0\<rparr>"
    "sc_slots (sl_class s 1) = 8128 # rev (blocks 84 4096 48)" "sc_slots (sl_class s 2) = [8192]"
    "sc_sl_curr (sl_class s 1) = 85" "sc_sl_curr (sl_class s 2) = 1" "sc_size (sl_class s 1) = 48" "sc_size (sl_class s 2) = 4096"
    "sl_power_largest s = 2" "sl_mem_limit s = 16384"
proof -
  have it: "fold mark (blocks n p sz) m q = (if q \<in> set (blocks n p sz) then (case m q of Some it \<Rightarrow> Some (it\<lparr>it_flags := it_flags it OR ITEM_SLABBED\<rparr>)
     | None \<Rightarrow> Some \<lparr>it_size = 0, it_flags = ITEM_SLABBED, it_clsid = 0\<rparr>) else m q)" if "0 < sz" for n p sz q m
    by (rule fold_mark [OF distinct_blocks [OF that]])
  note defs = s_def new_page_def Let_def example_slabs_def grown_def sized_def empty_class_def ITEM_SIZE_MAX_def
  have "\<exists>j < 85. (8128::nat) = 4096 + j * 48" by (rule exI [of _ 84]) simp
  moreover have "\<not> (\<exists>j < 85. (8192::nat) = 4096 + j * 48)" by presburger
  ultimately show "sl_items s 8192 = Some \<lparr>it_size = 0, it_flags = ITEM_SLABBED, it_clsid = 0\<rparr>"
    "sl_items s 8128 = Some \<lparr>it_size = 0, it_flags = ITEM_SLABBED, it_clsid = 0\<rparr>"
    by (simp_all add: defs it set_blocks)
  show "sc_slots (sl_class s 1) = 8128 # rev (blocks 84 4096 48)" "sc_slots (sl_class s 2) = [8192]"
    by (simp_all add: defs rev_blocks) (simp_all add: blocks_def)
  show "sc_sl_curr (sl_class s 1) = 85" "sc_sl_curr (sl_class s 2) = 1" "sc_size (sl_class s 1) = 48" "sc_size (sl_class s 2) = 4096"
    "sl_power_largest s = 2" "sl_mem_limit s = 16384" by (simp_all add: defs)
qed

lemma two_classes:
  "sl_power_largest s = 2 \<Longrightarrow> slabs_clsid n s = (if n = 0 then 0 else if n \<le> sc_size (sl_class s 1) then 1
     else if n \<le> sc_size (sl_class s 2) then 2 else 0)"
  by (simp add: slabs_clsid_def POWER_SMALLEST_def upt_conv_Cons numeral_2_eq_2)

lemma slab_run_example:
  "\<exists>s. run_calls slab_do [Malloc 100, Malloc 40] (new_page 2 (new_page 1 example_slabs)) = Some s
     \<and> is_free 8128 s = Some False \<and> get_size 8128 s = Some 40 \<and> is_free 8192 s = Some False \<and> get_size 8192 s = Some 100"
proof -
  define s where "s = new_page 2 (new_page 1 example_slabs)"
  note e = example_pages [folded s_def]
  show ?thesis unfolding s_def [symmetric]
    by (simp add: sb_malloc_def do_slabs_alloc_def take_item_def first_is_free_def two_classes SB_PREFIX_SIZE_def POWER_SMALLEST_def Let_def
        e is_free_def get_size_def del: One_nat_def)
qed

theorem slab_blocks_apart_witness:
  "\<exists>s0 s. slabs_init 16384 64 4096 = Some s0 \<and> run_calls slab_do [Malloc 100, Malloc 40] s0 = Some s
     \<and> get_size 8128 s = Some 40 \<and> get_size 8192 s = Some 100 \<and> (4096 \<le> (8128::nat) \<and> 8128 + 40 \<le> 4096 + (16384::nat)
     \<and> ((8128::nat) \<noteq> 8192 \<longrightarrow> 8128 + 40 \<le> (8192::nat) \<or> 8192 + 100 \<le> (8128::nat)))"
proof -
  obtain s where s: "run_calls slab_do [Malloc 100, Malloc 40] (new_page 2 (new_page 1 example_slabs)) = Some s"
    "is_free 8128 s = Some False" "get_size 8128 s = Some 40" "is_free 8192 s = Some False" "get_size 8192 s = Some 100"
    using slab_run_example by blast
  show ?thesis using slab_blocks_apart [OF init_example _ _ s] init_example s(1,3,5) by simp
qed


lemma slab_realloc_example:
  "\<exists>s s3. run_calls slab_do [Malloc 40] (new_page 2 (new_page 1 example_slabs)) = Some s
     \<and> sb_realloc (Some 8128) 100 s = Returned (Some 8192, s3, Some (8192, 8192, 40))"
proof -
  define s where "s = new_page 2 (new_page 1 example_slabs)"
  note e = example_pages [folded s_def]
  show ?thesis unfolding s_def [symmetric]
    by (simp add: sb_malloc_def sb_realloc_def do_slabs_alloc_def do_slabs_free_def take_item_def first_is_free_def two_classes
        SB_PREFIX_SIZE_def POWER_SMALLEST_def Let_def e set_item_def del: One_nat_def)
qed


end
