(* ===== verification/Dsm_Setup.thy ===== *)
theory Dsm_Setup
  imports Slabs_Spec Cache_Set Allocators
begin

text \<open>
  The set-up of a node (\<open>DSM::DSM\<close>, \<open>Cache::initLine\<close>, \<open>node_resource\<close>): the memory pool is divided among
  three slab allocators, every block of the node's shared memory is announced to the directory, the
  network addresses to the network modules, and the buffers of the cache lines are dealt to the threads.
  The message a loop fills is not initialised, so its other fields are arguments.
\<close>

section \<open>Construction\<close>

definition config_factor :: rat where "config_factor = 1"

definition get_data_base_addr :: "nat \<Rightarrow> nat" where
  "get_data_base_addr base = base + unat GB"

text \<open>The blocks of the shared memory, with the message about each.\<close>

fun init_dir :: "(nat \<Rightarrow> RawMessage) \<Rightarrow> nat \<Rightarrow> nat \<Rightarrow> slabs \<Rightarrow> (RawMessage list \<times> slabs) outcome" where
  "init_dir m0 i 0 s = Returned ([], s)"
| "init_dir m0 i (Suc n) s =
     (case sb_aligned_calloc 1 DSM_CACHE_LINE_SIZE DSM_CACHE_LINE_SIZE s of
        Returned (p, s, _) \<Rightarrow>
          (case init_dir m0 (i + 1) n s of
             Returned (ms, s) \<Rightarrow>
               Returned ((m0 i)\<lparr>rm_mtype := mtype_code INIT_DIR,
                   rm_dir_gblock_addr := (case p of None \<Rightarrow> 0 | Some a \<Rightarrow> of_nat a), rm_dir_gblock_index := of_nat i,
                   rm_dir_gblock_bitmap := replicate max_node_num 0, rm_init_state := state_code S_UNSHARED\<rparr> # ms, s)
           | _ \<Rightarrow> Aborts)
      | _ \<Rightarrow> Aborts)"

definition init_net :: "(nat \<Rightarrow> RawMessage) \<Rightarrow> u8 list list \<Rightarrow> RawMessage list" where
  "init_net m0 macs =
     map (\<lambda>i. (m0 i)\<lparr>rm_mtype := mtype_code INIT_NET, rm_dir_gblock_nodeID := of_nat i, rm_init_mac := take 6 (macs ! i)\<rparr>)
       [0..<max_node_num]"

fun line_buffers :: "nat \<Rightarrow> slabs \<Rightarrow> (u64 list \<times> slabs) outcome" where
  "line_buffers 0 s = Returned ([], s)"
| "line_buffers (Suc n) s =
     (case sb_aligned_calloc 1 DSM_CACHE_LINE_SIZE DSM_CACHE_LINE_SIZE s of
        Returned (p, s, _) \<Rightarrow>
          (case line_buffers n s of
             Returned (bs, s) \<Rightarrow> Returned ((case p of None \<Rightarrow> 0 | Some a \<Rightarrow> of_nat a) # bs, s)
           | _ \<Rightarrow> Aborts)
      | _ \<Rightarrow> Aborts)"

record dsm_node =
  nd_ring_sb :: slabs
  nd_gblock_sb :: slabs
  nd_cline_sb :: slabs
  nd_sent :: "RawMessage list"
  nd_buffers :: "u64 list"
  nd_cache :: cache
  nd_chunk_alloc :: "GlobalAllocator list"

text \<open>A slab allocator that cannot be set up ends the program. The print-out at the end of \<open>initLine\<close> reads the
  first thread's last buffer, so a node without lines or threads is undefined.\<close>

definition new_DSM :: "(nat \<Rightarrow> RawMessage) \<Rightarrow> (nat \<Rightarrow> RawMessage) \<Rightarrow> dsm_config \<Rightarrow> nat \<Rightarrow> cache \<Rightarrow> dsm_node outcome" where
  "new_DSM m0 m1 c base ca =
     (let gblock_data_base = get_data_base_addr base;
          cline_data_base = gblock_data_base + unat (cf_gmem_size_per_node c)
      in case slabs_init (unat GB) config_factor base of None \<Rightarrow> Aborts | Some ring_sb \<Rightarrow>
         case slabs_init (unat (cf_gmem_size_per_node c) * 3 div 2) config_factor gblock_data_base of None \<Rightarrow> Aborts | Some gblock_sb \<Rightarrow>
         case slabs_init (unat (cf_cache_size_per_node c) * 3 div 2) config_factor cline_data_base of None \<Rightarrow> Aborts | Some cline_sb \<Rightarrow>
         case init_dir m0 0 (nat (cf_gblock_num_per_node c)) gblock_sb of
           Returned (ms, gblock_sb) \<Rightarrow>
             (if cf_cline_num_per_node c \<le> 0 \<or> cf_appt_num_per_node c \<le> 0 then Aborts
              else case line_buffers (nat (cf_cline_num_per_node c)) cline_sb of
                Returned (bufs, cline_sb) \<Rightarrow>
                  Returned \<lparr>nd_ring_sb = ring_sb, nd_gblock_sb = gblock_sb, nd_cline_sb = cline_sb,
                     nd_sent = ms @ init_net m1 (cf_mac_vec c), nd_buffers = bufs,
                     nd_cache = initLine bufs (nat (cf_appt_num_per_node c)) ca,
                     nd_chunk_alloc = map (\<lambda>i. system_allocator (of_int (cf_node_id c)) (cf_gmem_size_per_node c)
                         (nat (cf_syst_num_per_node c)) i) [0..<nat (cf_syst_num_per_node c)]\<rparr>
              | _ \<Rightarrow> Aborts)
         | _ \<Rightarrow> Aborts)"

section \<open>The slab allocators after the set-up\<close>

text \<open>With the default factor every class but the last has the smallest size.\<close>

lemma init_classes_default:
  "i \<le> 199 \<Longrightarrow> init_classes 1 i 48 48 cl = (200, \<lambda>j. if i < j \<and> j < 200 then sized 48 else cl j)"
proof (induction "199 - i" arbitrary: i cl)
  case 0
  then show ?case by (subst init_classes.simps) (auto simp: POWER_LARGEST_def fun_eq_iff)
next
  case (Suc d)
  have i: "i < 199" using Suc(2) by simp
  have "init_classes 1 i 48 48 cl = init_classes 1 (i + 1) 48 48 (cl(i + 1 := sized 48))"
    using i
    by (subst init_classes.simps) (simp add: POWER_LARGEST_def align_chunk_def CHUNK_ALIGN_BYTES_def ITEM_SIZE_MAX_def)
  also have "\<dots> = (200, \<lambda>j. if i + 1 < j \<and> j < 200 then sized 48 else (cl(i + 1 := sized 48)) j)"
    using Suc(2) by (intro Suc(1)) auto
  also have "\<dots> = (200, \<lambda>j. if i < j \<and> j < 200 then sized 48 else cl j)" using Suc(2,3) by (auto simp: fun_eq_iff)
  finally show ?case .
qed

text \<open>While pages are taken in order: how far the memory is used, and how many pages.\<close>

definition default_sizes :: "slabs \<Rightarrow> bool" where
  "default_sizes s \<longleftrightarrow> (\<forall>j. sc_size (sl_class s j) = (if 1 \<le> j \<and> j < 200 then 48 else if j = 200 then 4096 else 0)) \<and> sl_power_largest s = 200"

definition pages_used :: "nat \<Rightarrow> slabs \<Rightarrow> bool" where
  "pages_used n s \<longleftrightarrow> slabs_ok s \<and> default_sizes s \<and> sl_mem_current s = sl_mem_base s + n * 4096 \<and> sl_mem_malloced s = n * 4096"

lemma pages_usedD:
  assumes "pages_used n s"
  shows "slabs_ok s" "sl_power_largest s = 200" "sl_mem_current s = sl_mem_base s + n * 4096" "sl_mem_malloced s = n * 4096"
    "1 \<le> k \<Longrightarrow> k \<le> 200 \<Longrightarrow> k \<in> classes s" "sl_mem_base s \<noteq> 0" "sl_mem_avail s = sl_mem_limit s - n * 4096"
  using assms slabs_okD(2,3) [of s] by (auto simp: pages_used_def default_sizes_def classes_bounds POWER_SMALLEST_def)

text \<open>One more page.\<close>

lemma next_page:
  assumes pu: "pages_used n s" and k: "1 \<le> k" "k \<le> 200" and room: "(n + 1) * 4096 \<le> sl_mem_limit s"
  shows "do_slabs_newslab k s = Some (True, new_page k s)" "pages_used (n + 1) (new_page k s)"
    "sl_mem_base (new_page k s) = sl_mem_base s" "sl_mem_limit (new_page k s) = sl_mem_limit s"
    "\<And>j. j \<noteq> k \<Longrightarrow> sl_class (new_page k s) j = sl_class s j"
    "sc_slots (sl_class (new_page k s) k) =
       rev (blocks (sc_perslab (sl_class s k)) (sl_mem_base s + n * 4096) (sc_size (sl_class s k))) @ sc_slots (sl_class s k)"
proof -
  note D = pages_usedD [OF pu]
  have kc: "k \<in> classes s" using D(5) k by simp
  have avail: "ITEM_SIZE_MAX \<le> sl_mem_avail s" using room D(7) by (simp add: ITEM_SIZE_MAX_def)
  show "do_slabs_newslab k s = Some (True, new_page k s)"
    unfolding newslab_cases [OF kc] using D(4,6) room avail by (auto simp: ITEM_SIZE_MAX_def)
  have "default_sizes (new_page k s)"
    using pu by (auto simp: pages_used_def default_sizes_def new_page_def Let_def)
  then show "pages_used (n + 1) (new_page k s)"
    using new_page_ok(1) [OF D(1) kc avail] D(3,4) by (simp add: pages_used_def) (simp add: new_page_def Let_def ITEM_SIZE_MAX_def)
  show "sl_mem_base (new_page k s) = sl_mem_base s" "sl_mem_limit (new_page k s) = sl_mem_limit s"
    "\<And>j. j \<noteq> k \<Longrightarrow> sl_class (new_page k s) j = sl_class s j"
    "sc_slots (sl_class (new_page k s) k) =
       rev (blocks (sc_perslab (sl_class s k)) (sl_mem_base s + n * 4096) (sc_size (sl_class s k))) @ sc_slots (sl_class s k)"
    using D(3) by (simp_all add: new_page_def Let_def)
qed

text \<open>The pages the set-up takes, one for every class.\<close>

lemma preallocate_pages:
  assumes "pages_used i s" "i < 200" "200 * 4096 \<le> sl_mem_limit s" "\<And>j. i < j \<Longrightarrow> sc_slots (sl_class s j) = []"
    and "sc_perslab (sl_class s 200) = 1"
  shows "\<exists>s'. slabs_preallocate [i + 1..<201] i 200 s = Some s' \<and> pages_used 200 s' \<and> sl_mem_base s' = sl_mem_base s
    \<and> sl_mem_limit s' = sl_mem_limit s \<and> sc_slots (sl_class s' 200) = [sl_mem_base s + 199 * 4096] \<and> sc_perslab (sl_class s' 200) = 1"
  using assms
proof (induction "199 - i" arbitrary: i s)
  case 0
  then have i: "i = 199" by simp
  note p = next_page [OF "0.prems"(1), of 200]
  have "sc_size (sl_class s 200) = 4096" using "0.prems"(1) by (simp add: pages_used_def default_sizes_def)
  then have "sc_slots (sl_class (new_page 200 s) 200) = [sl_mem_base s + 199 * 4096]"
    using p(6) "0.prems"(3,4) "0.prems"(5) i by (simp add: blocks_def)
  then show ?case using p(1-4) "0.prems"(3,5) i by (simp add: upt_conv_Cons) (simp add: new_page_def Let_def)
next
  case (Suc d)
  let ?s = "new_page (i + 1) s"
  have room: "(i + 1) * 4096 \<le> sl_mem_limit s" using Suc.prems(2,3) by simp
  note p = next_page [OF Suc.prems(1), of "i + 1", OF _ _ room]
  have i: "i + 1 \<le> 199" using Suc.hyps(2) by simp
  have "\<exists>s'. slabs_preallocate [i + 1 + 1..<201] (i + 1) 200 ?s = Some s' \<and> pages_used 200 s' \<and> sl_mem_base s' = sl_mem_base ?s
    \<and> sl_mem_limit s' = sl_mem_limit ?s \<and> sc_slots (sl_class s' 200) = [sl_mem_base ?s + 199 * 4096] \<and> sc_perslab (sl_class s' 200) = 1"
    using p(2,4,5) Suc.prems i by (intro Suc.hyps(1)) (use Suc.hyps(2) in auto)
  then show ?case using p(1,3,4) i by (simp add: upt_conv_Cons [of "Suc i"])
qed

lemma default_init:
  assumes base: "0 < base" and limit: "200 * 4096 \<le> limit"
  obtains s where "slabs_init limit config_factor base = Some s" "pages_used 200 s" "sl_mem_base s = base" "sl_mem_limit s = limit"
    "sc_slots (sl_class s 200) = [base + 199 * 4096]" "sc_perslab (sl_class s 200) = 1"
proof -
  define s0 where "s0 = \<lparr>sl_class = (\<lambda>j. if 0 < j \<and> j < 200 then sized 48 else empty_class)(200 := empty_class\<lparr>sc_size := ITEM_SIZE_MAX, sc_perslab := 1\<rparr>),
     sl_mem_limit = limit, sl_mem_malloced = 0, sl_power_largest = 200, sl_mem_base = base, sl_mem_current = base, sl_mem_avail = limit,
     sl_mem_free = of_nat limit, sl_items = Map.empty\<rparr>"
  have run: "slabs_init limit config_factor base = slabs_preallocate [0 + 1..<201] 0 200 s0"
    by (simp add: slabs_init_def config_factor_def SB_PREFIX_SIZE_def smallest_chunk_def POWER_SMALLEST_def POWER_LARGEST_def
        init_classes_default s0_def Let_def)
  have cls: "class_ok base base (sl_class s0 k)" "class_blocks (sl_class s0 k) = {}" "sc_slab_list (sl_class s0 k) = []"
    if "1 \<le> k" "k \<le> 200" for k
    using that by (auto simp: s0_def class_ok_def sized_def empty_class_def ITEM_SIZE_MAX_def class_blocks_def)
  have "slabs_ok s0"
  proof -
    have "classes s0 = {1..200}" by (simp add: classes_def s0_def POWER_SMALLEST_def)
    then show ?thesis unfolding slabs_ok_def using cls base by (auto simp: s0_def)
  qed
  moreover have "default_sizes s0" by (simp add: default_sizes_def s0_def sized_def empty_class_def ITEM_SIZE_MAX_def)
  ultimately have "pages_used 0 s0" by (simp add: pages_used_def s0_def)
  moreover have "sc_slots (sl_class s0 j) = []" "sc_perslab (sl_class s0 200) = 1" for j by (auto simp: s0_def sized_def empty_class_def)
  ultimately obtain s where "slabs_preallocate [0 + 1..<201] 0 200 s0 = Some s" "pages_used 200 s" "sl_mem_base s = sl_mem_base s0"
    "sl_mem_limit s = sl_mem_limit s0" "sc_slots (sl_class s 200) = [sl_mem_base s0 + 199 * 4096]" "sc_perslab (sl_class s 200) = 1"
    using preallocate_pages [of 0 s0] limit by (auto simp: s0_def)
  then show thesis using run by (intro that [of s]) (auto simp: s0_def)
qed

section \<open>Blocks of a line's size\<close>

definition lines_given :: "nat \<Rightarrow> slabs \<Rightarrow> bool" where
  "lines_given n s \<longleftrightarrow> sc_perslab (sl_class s 200) = 1
     \<and> (if n = 0 then pages_used 200 s \<and> sc_slots (sl_class s 200) = [sl_mem_base s + 199 * 4096]
        else pages_used (199 + n) s \<and> sc_slots (sl_class s 200) = [])"

lemma take_item_simps:
  assumes "take_item sz k s = Returned (Some p, s')"
  shows "sc_slots (sl_class s k) = p # sc_slots (sl_class s' k)" "sc_perslab (sl_class s' k) = sc_perslab (sl_class s k)"
    "sl_mem_current s' = sl_mem_current s" "sl_mem_malloced s' = sl_mem_malloced s" "same_region s s'"
  using assms by (auto simp: take_item_def Let_def same_region_def split: list.splits option.splits)

lemma line_class:
  assumes "default_sizes s"
  shows "slabs_clsid 4096 s = 200"
proof -
  have "[POWER_SMALLEST..<Suc (sl_power_largest s)] = [1..<200] @ [200]"
    using assms by (simp add: default_sizes_def POWER_SMALLEST_def upt_Suc_append [of 1 200, simplified])
  moreover have "find (\<lambda>r. 4096 \<le> sc_size (sl_class s r)) [1..<200] = None"
    using assms by (auto simp: find_None_iff default_sizes_def)
  moreover have "find P (xs @ ys) = (case find P xs of None \<Rightarrow> find P ys | Some x \<Rightarrow> Some x)" for P and xs ys :: "nat list"
    by (induction xs) auto
  moreover have "sc_size (sl_class s 200) = 4096" using assms by (simp add: default_sizes_def)
  ultimately show ?thesis by (simp add: slabs_clsid_def)
qed

lemma line_taken:
  assumes "pages_used n s" "sc_slots (sl_class s 200) = [p]"
  obtains s' where "take_item 4096 200 s = Returned (Some p, s')" "pages_used n s'" "sc_slots (sl_class s' 200) = []"
    "sc_perslab (sl_class s' 200) = sc_perslab (sl_class s 200)" "same_region s s'"
proof -
  note D = pages_usedD [OF assms(1)]
  have sizes: "default_sizes s" using assms(1) by (simp add: pages_used_def)
  have k: "200 \<in> classes s" by (rule D(5)) simp_all
  obtain q s' where t: "take_item 4096 200 s = Returned (Some q, s')" "slabs_ok s'"
    "\<And>j. sc_size (sl_class s' j) = sc_size (sl_class s j)" "sl_power_largest s' = sl_power_largest s"
    using take_item_ok [OF D(1) k line_class [OF sizes]] assms(2) by (metis list.distinct(1))
  note e = take_item_simps [OF t(1)]
  have "default_sizes s'" using sizes t(3,4) by (simp add: default_sizes_def)
  then have "pages_used n s'" using t(2) e(3-5) D(3,4) by (simp add: pages_used_def same_region_def)
  then show thesis using that [of s'] t(1) e assms(2) by simp
qed

lemma line_alloc:
  assumes given: "lines_given n s" and base: "4096 dvd sl_mem_base s" and room: "(200 + n) * 4096 \<le> sl_mem_limit s"
  obtains s' where "sb_aligned_calloc 1 4096 4096 s = Returned (Some (sl_mem_base s + (199 + n) * 4096), s', 4096)"
    "lines_given (n + 1) s'" "same_region s s'"
proof -
  let ?p = "sl_mem_base s + (199 + n) * 4096"
  obtain m where pu: "pages_used m s" using given by (auto simp: lines_given_def split: if_splits)
  note D = pages_usedD [OF pu]
  have sizes: "default_sizes s" using pu by (simp add: pages_used_def)
  have k: "200 \<in> classes s" by (rule D(5)) simp_all
  have ok: "class_ok (sl_mem_base s) (sl_mem_current s) (sl_class s 200)" by (rule slabs_okD(1) [OF D(1) k])
  have "\<exists>s'. do_slabs_alloc 4096 200 s = Returned (Some ?p, s') \<and> lines_given (n + 1) s' \<and> same_region s s'"
  proof (cases "n = 0")
    case True
    then have g: "pages_used 200 s" "sc_slots (sl_class s 200) = [?p]" "sc_perslab (sl_class s 200) = 1"
      using given by (simp_all add: lines_given_def)
    obtain s' where t: "take_item 4096 200 s = Returned (Some ?p, s')" "pages_used 200 s'" "sc_slots (sl_class s' 200) = []"
      "sc_perslab (sl_class s' 200) = sc_perslab (sl_class s 200)" "same_region s s'" by (rule line_taken [OF g(1,2)])
    have "?p \<in> class_blocks (sl_class s 200)" using ok g(2) by (simp add: class_ok_def)
    then have "item_ok s 200 ?p (the (sl_items s ?p))" "?p \<in> dom (sl_items s)" using slabs_okD(6,7) [OF D(1)] k by blast+
    then have "first_is_free 200 s" using g(2) by (auto simp: first_is_free_def item_ok_def split: option.splits)
    moreover have "sc_sl_curr (sl_class s 200) \<noteq> 0" using ok g(2) by (simp add: class_ok_def)
    ultimately have "do_slabs_alloc 4096 200 s = Returned (Some ?p, s')"
      using D(2) t(1) by (simp add: do_slabs_alloc_def POWER_SMALLEST_def)
    then show ?thesis using t(2-5) g(3) True by (simp add: lines_given_def)
  next
    case False
    then have g: "pages_used (199 + n) s" "sc_slots (sl_class s 200) = []" "sc_perslab (sl_class s 200) = 1"
      using given by (simp_all add: lines_given_def)
    have "(199 + n + 1) * 4096 \<le> sl_mem_limit s" using room by simp
    note p = next_page [OF g(1) _ _ this, of 200]
    have "sc_size (sl_class s 200) = 4096" using sizes by (simp add: default_sizes_def)
    then have sl: "sc_slots (sl_class (new_page 200 s) 200) = [?p]" using p(6) g(2,3) by (simp add: blocks_def add.commute)
    have pu': "pages_used (199 + n + 1) (new_page 200 s)" using p(2) by simp
    obtain s' where t: "take_item 4096 200 (new_page 200 s) = Returned (Some ?p, s')" "pages_used (199 + n + 1) s'" "sc_slots (sl_class s' 200) = []"
      "sc_perslab (sl_class s' 200) = sc_perslab (sl_class (new_page 200 s) 200)" "same_region (new_page 200 s) s'"
      by (rule line_taken [OF pu' sl])
    have curr: "sc_sl_curr (sl_class s 200) = 0" using ok g(2) by (simp add: class_ok_def)
    have "200 \<in> classes (new_page 200 s)" by (rule pages_usedD(5) [OF pu']) simp_all
    from slabs_okD(1) [OF pages_usedD(1) [OF pu'] this]
    have "sc_sl_curr (sl_class (new_page 200 s) 200) \<noteq> 0" using sl by (simp add: class_ok_def)
    then have "do_slabs_alloc 4096 200 s = Returned (Some ?p, s')"
      using D(2) t(1) p(1) curr by (simp add: do_slabs_alloc_def POWER_SMALLEST_def)
    moreover have "sc_perslab (sl_class (new_page 200 s) 200) = 1" using g(3) by (simp add: new_page_def Let_def)
    ultimately show ?thesis using t(2-5) p(3,4) by (simp add: lines_given_def same_region_def ac_simps)
  qed
  then obtain s' where a: "do_slabs_alloc 4096 200 s = Returned (Some ?p, s')" "lines_given (n + 1) s'" "same_region s s'" by blast
  have "ALIGN 4096 4096 = (4096 :: u64)" by (simp add: ALIGN_def ALIGN_MASK_def)
  moreover have "?p mod 4096 = 0" using base by simp
  ultimately have "sb_aligned_malloc 4096 4096 s = Returned (Some ?p, s')"
    using a(1) room line_class [OF sizes] by (simp add: sb_aligned_malloc_def SB_PREFIX_SIZE_def Let_def)
  then show thesis using that [OF _ a(2,3)] room by (simp add: sb_aligned_calloc_def)
qed

lemma line_bytes_eq: "DSM_CACHE_LINE_SIZE = 4096"
  by (simp add: DSM_CACHE_LINE_SIZE_def DSM_CACHE_LINE_WIDTH_def)

definition dir_message :: "(nat \<Rightarrow> RawMessage) \<Rightarrow> nat \<Rightarrow> nat \<Rightarrow> RawMessage" where
  "dir_message m0 base i = (m0 i)\<lparr>rm_mtype := mtype_code INIT_DIR, rm_dir_gblock_addr := of_nat (base + (199 + i) * 4096),
     rm_dir_gblock_index := of_nat i, rm_dir_gblock_bitmap := replicate max_node_num 0, rm_init_state := state_code S_UNSHARED\<rparr>"

lemma init_dir_blocks:
  assumes "lines_given i s" "4096 dvd sl_mem_base s" "(199 + i + n) * 4096 \<le> sl_mem_limit s"
  shows "\<exists>s'. init_dir m0 i n s = Returned (map (dir_message m0 (sl_mem_base s)) [i..<i + n], s') \<and> lines_given (i + n) s'"
  using assms
proof (induction n arbitrary: i s)
  case 0
  then show ?case by simp
next
  case (Suc n)
  then have room: "(200 + i) * 4096 \<le> sl_mem_limit s" by simp
  obtain s1 where s1: "sb_aligned_calloc 1 4096 4096 s = Returned (Some (sl_mem_base s + (199 + i) * 4096), s1, 4096)"
    "lines_given (i + 1) s1" "same_region s s1" by (rule line_alloc [OF Suc.prems(1,2) room])
  then obtain s' where "init_dir m0 (i + 1) n s1 = Returned (map (dir_message m0 (sl_mem_base s)) [i + 1..<i + 1 + n], s')"
    "lines_given (i + 1 + n) s'"
    using Suc.IH [OF s1(2)] Suc.prems(2,3) by (auto simp: same_region_def)
  moreover have "[i..<i + Suc n] = i # [i + 1..<i + 1 + n]" by (simp add: upt_conv_Cons del: upt_Suc)
  ultimately show ?case using s1(1) by (simp add: line_bytes_eq dir_message_def del: upt_Suc)
qed

lemma line_buffers_blocks:
  assumes "lines_given i s" "4096 dvd sl_mem_base s" "(199 + i + n) * 4096 \<le> sl_mem_limit s"
  shows "\<exists>s'. line_buffers n s = Returned (map (\<lambda>i. of_nat (sl_mem_base s + (199 + i) * 4096)) [i..<i + n], s') \<and> lines_given (i + n) s'"
  using assms
proof (induction n arbitrary: i s)
  case 0
  then show ?case by simp
next
  case (Suc n)
  then have room: "(200 + i) * 4096 \<le> sl_mem_limit s" by simp
  obtain s1 where s1: "sb_aligned_calloc 1 4096 4096 s = Returned (Some (sl_mem_base s + (199 + i) * 4096), s1, 4096)"
    "lines_given (i + 1) s1" "same_region s s1" by (rule line_alloc [OF Suc.prems(1,2) room])
  then obtain s' where "line_buffers n s1 = Returned (map (\<lambda>i. of_nat (sl_mem_base s + (199 + i) * 4096)) [i + 1..<i + 1 + n], s')"
    "lines_given (i + 1 + n) s'"
    using Suc.IH [OF s1(2)] Suc.prems(2,3) by (auto simp: same_region_def)
  moreover have "[i..<i + Suc n] = i # [i + 1..<i + 1 + n]" by (simp add: upt_conv_Cons del: upt_Suc)
  ultimately show ?case using s1(1) by (simp add: line_bytes_eq del: upt_Suc)
qed

text \<open>The numbers of a configuration.\<close>

lemma config_numbers:
  assumes "DSMConfig node_id node_num appt syst gmem cache bus macs = Some c" "unat gmem < 2 ^ 43" "unat cache < 2 ^ 43"
  shows "nat (cf_gblock_num_per_node c) = unat gmem div 4096" "nat (cf_cline_num_per_node c) = unat cache div 4096"
    "cf_appt_num_per_node c = appt" "cf_gmem_size_per_node c = region_size gmem" "cf_cache_size_per_node c = region_size cache"
    "unat (cf_cpu_pool_size c) = 2 * 2 ^ 30 + unat (region_size gmem) + unat (region_size cache)"
proof -
  have n: "nat (to_int32 (u div of_nat DSM_CACHE_LINE_SIZE)) = unat u div 4096" if "unat u < 2 ^ 43" for u :: u64
  proof -
    have "unat (u div 4096) = unat u div 4096" by (simp add: unat_div)
    moreover from this that have "unat (u div 4096) < 2 ^ 31" by (simp add: less_mult_imp_div_less)
    ultimately show ?thesis by (simp add: to_int32_small line_bytes_eq)
  qed
  then show "nat (cf_gblock_num_per_node c) = unat gmem div 4096" "nat (cf_cline_num_per_node c) = unat cache div 4096"
    "cf_appt_num_per_node c = appt" "cf_gmem_size_per_node c = region_size gmem" "cf_cache_size_per_node c = region_size cache"
    using assms by (auto simp: DSMConfig_def Let_def split: if_splits)
  have c: "cf_cpu_pool_size c = 0 + 1 * GB + region_size gmem + region_size cache + 1 * GB"
    using assms(1) by (auto simp: DSMConfig_def Let_def split: if_splits)
  have "unat (region_size cache) \<le> 2 ^ 44" "unat (region_size gmem) \<le> 2 ^ 44"
    using region_size_bounds(4) [of cache] region_size_bounds(4) [of gmem] assms(2,3) by auto
  then show "unat (cf_cpu_pool_size c) = 2 * 2 ^ 30 + unat (region_size gmem) + unat (region_size cache)"
    unfolding c by (simp add: GB_def MB_def unat_word_ariths)
qed

lemma region_room:
  assumes "unat u < 2 ^ 43"
  shows "(199 + unat u div 4096) * 4096 \<le> unat (region_size u) * 3 div 2" "unat u div 4096 * 4096 \<le> unat (region_size u)"
    "200 * 4096 \<le> unat (region_size u) * 3 div 2" "4096 dvd unat (region_size u)"
proof -
  have u: "unat u < 2 ^ 62" using assms by simp
  note r = region_size_bounds [OF u]
  define d R where "d = unat u div 4096 * 4096" and "R = unat (region_size u)"
  have dR: "d < R" "209715200 < R" using r(1,2) div_times_less_eq_dividend [of "unat u" 4096] unfolding d_def R_def by simp_all
  then have "815104 + d \<le> R * 3 div 2" "819200 \<le> R * 3 div 2" by linarith+
  then show "(199 + unat u div 4096) * 4096 \<le> unat (region_size u) * 3 div 2" "unat u div 4096 * 4096 \<le> unat (region_size u)"
    "200 * 4096 \<le> unat (region_size u) * 3 div 2" using dR unfolding d_def R_def by simp_all
  show "4096 dvd unat (region_size u)" using r(3) by (rule dvd_trans [rotated]) simp
qed

text \<open>Where the blocks and the buffers are.\<close>

definition positions :: "nat \<Rightarrow> nat \<Rightarrow> nat \<Rightarrow> nat \<Rightarrow> nat list" where
  "positions gb g cb l = map (\<lambda>i. gb + (199 + i) * 4096) [0..<g] @ map (\<lambda>i. cb + (199 + i) * 4096) [0..<l]"

lemma next_position: "i < n \<Longrightarrow> (i + 1) * 4096 \<le> n * (4096 :: nat)"
  by (intro mult_le_mono1) simp

lemma positions_sorted:
  assumes "gb + g * 4096 \<le> cb"
  shows "sorted_wrt (\<lambda>p q. p + 4096 \<le> q) (positions gb g cb l)"
  unfolding positions_def sorted_wrt_append sorted_wrt_map
proof (intro conjI ballI)
  show "sorted_wrt (\<lambda>x y. gb + (199 + x) * 4096 + 4096 \<le> gb + (199 + y) * 4096) [0..<g]"
    "sorted_wrt (\<lambda>x y. cb + (199 + x) * 4096 + 4096 \<le> cb + (199 + y) * 4096) [0..<l]"
    by (rule sorted_wrt_mono_rel [OF _ sorted_wrt_upt], auto)+
next
  fix p q
  assume "p \<in> set (map (\<lambda>i. gb + (199 + i) * 4096) [0..<g])" "q \<in> set (map (\<lambda>i. cb + (199 + i) * 4096) [0..<l])"
  then obtain i j where ij: "i < g" "p = gb + (199 + i) * 4096" "q = cb + (199 + j) * 4096" by auto
  then show "p + 4096 \<le> q" using next_position [OF ij(1)] assms by simp
qed

lemma positions_bounds:
  assumes "p \<in> set (positions gb g cb l)" "4096 dvd gb" "4096 dvd cb" "gb + g * 4096 \<le> cb" "cb + (199 + l) * 4096 \<le> m"
  shows "4096 dvd p \<and> gb \<le> p \<and> p + 4096 \<le> m"
proof -
  consider i where "i < g" "p = gb + (199 + i) * 4096" | i where "i < l" "p = cb + (199 + i) * 4096"
    using assms(1) by (auto simp: positions_def)
  then show ?thesis
  proof cases
    case 1
    have "4096 dvd p" unfolding 1(2) by (rule dvd_add [OF assms(2) dvd_triv_right])
    then show ?thesis using 1(2) next_position [OF 1(1)] assms(4,5) by simp
  next
    case 2
    have "4096 dvd p" unfolding 2(2) by (rule dvd_add [OF assms(3) dvd_triv_right])
    then show ?thesis using 2(2) next_position [OF 2(1)] assms(4,5) by simp
  qed
qed

lemma word_position:
  assumes "4096 dvd p" "p < 2 ^ 64"
  shows "unat (of_nat p :: u64) = p" "(of_nat p :: u64) mod 4096 = 0"
proof -
  show un: "unat (of_nat p :: u64) = p" using assms(2) by (simp add: unat_of_nat take_bit_nat_eq_self)
  have "unat ((of_nat p :: u64) mod 4096) = 0" unfolding unat_mod un using assms(1) by simp
  then show "(of_nat p :: u64) mod 4096 = 0" by (simp add: unat_eq_zero)
qed

lemma new_DSM_runs:
  assumes "DSMConfig node_id node_num appt syst gmem cache bus macs = Some c" "unat gmem < 2 ^ 43" "unat cache < 2 ^ 43"
    and "0 < appt" "4096 \<le> unat cache" "0 < base" "4096 dvd base"
  defines "gb \<equiv> base + 2 ^ 30" and "cb \<equiv> base + 2 ^ 30 + unat (region_size gmem)"
  obtains d where "new_DSM m0 m1 c base ca = Returned d" "4096 dvd gb" "4096 dvd cb"
    "nd_buffers d = map (\<lambda>i. of_nat (cb + (199 + i) * 4096)) [0..<unat cache div 4096]"
    "nd_sent d = map (dir_message m0 gb) [0..<unat gmem div 4096] @ init_net m1 (cf_mac_vec c)"
proof -
  note cf = config_numbers [OF assms(1-3)]
  note rg = region_room [OF assms(2)] and rc = region_room [OF assms(3)]
  let ?g = "unat gmem div 4096" and ?l = "unat cache div 4096"
  have GB: "unat GB = 2 ^ 30" by (simp add: GB_def MB_def)
  obtain r where r: "slabs_init (2 ^ 30) config_factor base = Some r" by (rule default_init [of base "2 ^ 30"]) (use assms(6) in auto)
  obtain sg where sg: "slabs_init (unat (region_size gmem) * 3 div 2) config_factor gb = Some sg" "pages_used 200 sg"
    "sl_mem_base sg = gb" "sl_mem_limit sg = unat (region_size gmem) * 3 div 2" "sc_slots (sl_class sg 200) = [gb + 199 * 4096]"
    "sc_perslab (sl_class sg 200) = 1" by (rule default_init [of gb, OF _ rg(3)]) (simp_all add: gb_def)
  obtain sc where sc: "slabs_init (unat (region_size cache) * 3 div 2) config_factor cb = Some sc" "pages_used 200 sc"
    "sl_mem_base sc = cb" "sl_mem_limit sc = unat (region_size cache) * 3 div 2" "sc_slots (sl_class sc 200) = [cb + 199 * 4096]"
    "sc_perslab (sl_class sc 200) = 1" by (rule default_init [of cb, OF _ rc(3)]) (simp_all add: cb_def)
  have gd: "4096 dvd gb" using assms(7) unfolding gb_def by (intro dvd_add) (simp_all add: dvd_def)
  have cd: "4096 dvd cb" unfolding cb_def by (rule dvd_add [OF gd [unfolded gb_def] rg(4)])
  obtain sg' where ms: "init_dir m0 0 ?g sg = Returned (map (dir_message m0 gb) [0..<?g], sg')"
    using init_dir_blocks [of 0 sg ?g m0] sg gd rg(1) by (auto simp: lines_given_def)
  obtain sc' where bufs: "line_buffers ?l sc = Returned (map (\<lambda>i. of_nat (cb + (199 + i) * 4096)) [0..<?l], sc')"
    using line_buffers_blocks [of 0 sc ?l] sc cd rc(1) by (auto simp: lines_given_def)
  have "0 < ?l" using assms(5) by (simp add: div_greater_zero_iff)
  then have "0 < cf_cline_num_per_node c" using cf(2) by linarith
  then obtain d where d: "new_DSM m0 m1 c base ca = Returned d" "nd_buffers d = map (\<lambda>i. of_nat (cb + (199 + i) * 4096)) [0..<?l]"
    "nd_sent d = map (dir_message m0 gb) [0..<?g] @ init_net m1 (cf_mac_vec c)"
    using r sg(1) sc(1) ms bufs cf assms(4) by (simp add: new_DSM_def get_data_base_addr_def GB gb_def cb_def)
  show thesis by (rule that [OF d(1) gd cd d(2,3)])
qed



end
