(* ===== verification/Db_Memory.thy ===== *)
theory Db_Memory
  imports Dsm Allocators
begin

text \<open>
  What the database sees of the shared memory (\<open>DSM.h\<close>, \<open>gallocator.h\<close>): flat bytes, which is what
  \<open>DSM::read\<close> and \<open>DSM::write\<close> provide, and blocks from the thread's allocator. The operations below are the
  members of \<open>DSM\<close> with a capital letter; the lock operations among them are stubs.
\<close>

type_synonym shared = "GlobalAddress \<Rightarrow> u8"

text \<open>A call that goes on with the result of another.\<close>

definition outcome_bind :: "'a outcome \<Rightarrow> ('a \<Rightarrow> 'b outcome) \<Rightarrow> 'b outcome" where
  "outcome_bind r f = (case r of Returned v \<Rightarrow> f v | Waits \<Rightarrow> Waits | Hangs \<Rightarrow> Hangs | Aborts \<Rightarrow> Aborts)"

section \<open>Reads and writes\<close>

definition Read :: "GlobalAddress \<Rightarrow> nat \<Rightarrow> shared \<Rightarrow> u8 list" where
  "Read a n m = map (\<lambda>k. m (step_addr k a)) [0..<n]"

definition Write :: "GlobalAddress \<Rightarrow> u8 list \<Rightarrow> shared \<Rightarrow> shared" where
  "Write a bs m = written a bs m"

text \<open>The variants with an offset, which becomes an \<open>int\<close>.\<close>

definition Read_at :: "GlobalAddress \<Rightarrow> nat \<Rightarrow> nat \<Rightarrow> shared \<Rightarrow> u8 list" where
  "Read_at a off n m = Read (GADD a (of_nat off)) n m"

definition Write_at :: "GlobalAddress \<Rightarrow> nat \<Rightarrow> u8 list \<Rightarrow> shared \<Rightarrow> shared" where
  "Write_at a off bs m = Write (GADD a (of_nat off)) bs m"

text \<open>\<open>Try_RLock\<close> and \<open>Try_WLock\<close> return 0, \<open>UnLock\<close> does nothing, and \<open>RLock\<close> and \<open>WLock\<close> throw an exception that
  nothing catches.\<close>

definition Try_RLock :: "GlobalAddress \<Rightarrow> nat \<Rightarrow> shared \<Rightarrow> int \<times> shared" where "Try_RLock a n m = (0, m)"
definition Try_WLock :: "GlobalAddress \<Rightarrow> nat \<Rightarrow> shared \<Rightarrow> int \<times> shared" where "Try_WLock a n m = (0, m)"
definition UnLock :: "GlobalAddress \<Rightarrow> nat \<Rightarrow> shared \<Rightarrow> shared" where "UnLock a n m = m"
definition WLock :: "GlobalAddress \<Rightarrow> nat \<Rightarrow> shared \<Rightarrow> shared outcome" where "WLock a n m = Aborts"

lemma length_Read [simp]: "length (Read a n m) = n"
  by (simp add: Read_def)

lemma nth_Read: "k < n \<Longrightarrow> Read a n m ! k = m (step_addr k a)"
  by (simp add: Read_def)

lemma GADD_step: "off < 2 ^ 31 \<Longrightarrow> GADD a (of_nat off) = step_addr off a"
proof -
  assume off: "off < 2 ^ 31"
  have "uint (of_nat off :: u32) = int off" using off by (simp add: unsigned_of_nat take_bit_nat_eq_self)
  moreover have "signed_take_bit 31 (int off) = int off" using off by (intro signed_take_bit_int_eq_self) auto
  ultimately have "(scast (of_nat off :: u32) :: u64) = of_nat off"
    by (simp add: scast_eq sint_uint)
  then show "GADD a (of_nat off) = step_addr off a" by (simp add: GADD_def step_addr_def)
qed

lemma covers_step: "in_range a n \<Longrightarrow> j < n \<Longrightarrow> covers b l (step_addr j a) \<longleftrightarrow>
    ga_nodeID a = ga_nodeID b \<and> unat (ga_addr b) \<le> unat (ga_addr a) + j \<and> unat (ga_addr a) + j < unat (ga_addr b) + l"
  by (simp add: covers_def step_addr_simps)

lemma Read_Write_same: "in_range a (length bs) \<Longrightarrow> Read a (length bs) (Write a bs m) = bs"
  by (rule nth_equalityI) (simp_all add: nth_Read Write_def written_def covers_step step_addr_simps(1))

lemma Read_Write_part:
  assumes "in_range a (length bs)" "k + n \<le> length bs"
  shows "Read (step_addr k a) n (Write a bs m) = take n (drop k bs)"
proof (rule nth_equalityI)
  fix i assume "i < length (Read (step_addr k a) n (Write a bs m))"
  then have i: "i < n" by simp
  then have "k + i < length bs" using assms(2) by simp
  then show "Read (step_addr k a) n (Write a bs m) ! i = take n (drop k bs) ! i"
    using assms i by (simp add: nth_Read Write_def written_def step_addr_simps(4) covers_step step_addr_simps(1))
qed (use assms in simp)

lemma Read_Write_other:
  assumes "in_range a n" "area a n \<inter> area b (length bs) = {}"
  shows "Read a n (Write b bs m) = Read a n m"
proof (rule nth_equalityI)
  fix i assume "i < length (Read a n (Write b bs m))"
  then have i: "i < n" by simp
  then have "(ga_nodeID a, unat (ga_addr a) + i) \<in> area a n" by (simp add: area_def)
  then have "(ga_nodeID a, unat (ga_addr a) + i) \<notin> area b (length bs)" using assms(2) by blast
  then have "\<not> covers b (length bs) (step_addr i a)" using assms(1) i by (auto simp: covers_step area_def)
  then show "Read a n (Write b bs m) ! i = Read a n m ! i" using i by (simp add: nth_Read Write_def written_def)
qed simp

section \<open>Addresses as bytes\<close>

text \<open>A global address is a packed structure of ten bytes.\<close>

definition ga_bytes :: "GlobalAddress \<Rightarrow> u8 list" where
  "ga_bytes a = bytes_of 8 (ga_addr a) @ [ga_nodeID a, ga_org a]"

definition ga_of_bytes :: "u8 list \<Rightarrow> GlobalAddress" where
  "ga_of_bytes bs = \<lparr>ga_addr = of_bytes (take 8 bs), ga_nodeID = bs ! 8, ga_org = bs ! 9\<rparr>"

lemma length_ga_bytes [simp]: "length (ga_bytes a) = 10"
  by (simp add: ga_bytes_def)

lemma ga_roundtrip [simp]: "ga_of_bytes (ga_bytes a) = a"
  by (simp add: ga_bytes_def ga_of_bytes_def nth_append of_bytes_bytes_of)

section \<open>Allocation\<close>

text \<open>The database as one thread of a node sees it: the memory, the thread's allocator, the replies to the
  requests for chunks it will still make, and the number of nodes.\<close>

record db =
  db_mem :: shared
  db_thread :: malloc_thread
  db_chunks :: "u64 option list"
  db_nodes :: u32

definition db_malloc :: "nat \<Rightarrow> bool \<Rightarrow> db \<Rightarrow> (GlobalAddress \<times> db) outcome" where
  "db_malloc sz align s =
     (case cache_malloc (of_nat sz) align (db_nodes s) None (db_thread s) of
        Returned (a, t) \<Rightarrow> Returned (a, s\<lparr>db_thread := t\<rparr>)
      | Hangs \<Rightarrow>
          (case db_chunks s of
             [] \<Rightarrow> Waits
           | c # cs \<Rightarrow>
               (case cache_malloc (of_nat sz) align (db_nodes s) c (db_thread s) of
                  Returned (a, t) \<Rightarrow> Returned (a, s\<lparr>db_thread := t, db_chunks := cs\<rparr>)
                | Waits \<Rightarrow> Waits | Hangs \<Rightarrow> Hangs | Aborts \<Rightarrow> Aborts))
      | Waits \<Rightarrow> Waits | Aborts \<Rightarrow> Aborts)"

abbreviation Malloc :: "nat \<Rightarrow> db \<Rightarrow> (GlobalAddress \<times> db) outcome" where "Malloc sz \<equiv> db_malloc sz False"
abbreviation AlignedMalloc :: "nat \<Rightarrow> db \<Rightarrow> (GlobalAddress \<times> db) outcome" where "AlignedMalloc sz \<equiv> db_malloc sz True"

text \<open>The chunks the thread will be granted, from one node after the other.\<close>

fun chunks_to_come :: "u32 \<Rightarrow> u32 \<Rightarrow> u64 option list \<Rightarrow> GlobalAddress list" where
  "chunks_to_come n node [] = []"
| "chunks_to_come n node (None # cs) = []"
| "chunks_to_come n node (Some a # cs) = \<lparr>ga_addr = a, ga_nodeID = ucast node, ga_org = 0\<rparr> # chunks_to_come n ((node + 1) mod n) cs"

text \<open>What the thread can still be given is apart from the bytes in use and from each other.\<close>

definition room :: "db \<Rightarrow> (u8 \<times> nat) set \<Rightarrow> bool" where
  "room s used \<longleftrightarrow>
     (let l = mt_alloc (db_thread s); cs = chunks_to_come (db_nodes s) (mt_next_allocator_node (db_thread s)) (db_chunks s) in
      local_ok l \<and> available l \<inter> used = {} \<and> sorted_wrt (\<lambda>c d. chunk_area c \<inter> chunk_area d = {}) cs
      \<and> (\<forall>c \<in> set cs. unat (ga_addr c) < 2 ^ 62 \<and> chunk_area c \<inter> (used \<union> available l) = {}))"

lemma room_mem [simp]: "room (s\<lparr>db_mem := m\<rparr>) used = room s used"
  by (simp add: room_def)

lemma room_less: "room s used \<Longrightarrow> used' \<subseteq> used \<Longrightarrow> room s used'"
  unfolding room_def Let_def by blast

text \<open>Cutting a block from the thread's chunk, or from the next one.\<close>

lemma set_chunck_available:
  assumes "unat (ga_addr c) < 2 ^ 62"
  shows "local_ok (set_chunck c l)" "available (set_chunck c l) = chunk_area c"
  using assms by (auto simp: local_ok_def set_chunck_def available_def area_def)

lemma cut_room:
  assumes "local_ok l" "local_malloc (of_nat sz) al l = Some ((a, False), l')" "sz \<le> chunk_bytes"
  shows "area a sz \<subseteq> available l" "available l' \<subseteq> available l - area a sz" "local_ok l'" "al \<longrightarrow> ga_addr a mod 4096 = 0"
    "in_range a sz"
proof -
  have u: "unat (of_nat sz :: u64) = sz" using assms(3) by (simp add: unsigned_of_nat take_bit_nat_eq_self)
  have le: "unat (of_nat sz :: u64) \<le> chunk_bytes" using assms(3) u by simp
  note c = local_malloc_cuts [OF assms(1,2) le, unfolded u]
  show "area a sz \<subseteq> available l" "available l' \<subseteq> available l - area a sz" "local_ok l'" "al \<longrightarrow> ga_addr a mod 4096 = 0"
    using c by simp_all
  show "in_range a sz"
  proof (cases "sz = 0")
    case True
    then show ?thesis unfolding in_range_def using unsigned_less [of "ga_addr a", where 'a = nat] by simp
  next
    case False
    then have "(ga_nodeID a, unat (ga_addr a) + (sz - 1)) \<in> area a sz" by (simp add: area_def)
    then have "(ga_nodeID a, unat (ga_addr a) + (sz - 1)) \<in> available l" using c(1) by blast
    then have "unat (ga_addr a) + sz \<le> unat (ga_addr (lc_head l)) + chunk_bytes" "lc_log_heads l \<noteq> []"
      by (auto simp: available_def split: if_splits)
    then show ?thesis using assms(1) by (simp add: in_range_def local_ok_def)
  qed
qed

lemma db_malloc_room:
  assumes rm: "room s used" and run: "db_malloc sz al s = Returned (a, s')" and sz: "sz \<le> chunk_bytes"
  shows "area a sz \<inter> used = {}" "room s' (area a sz \<union> used)" "db_mem s' = db_mem s" "in_range a sz" "al \<longrightarrow> ga_addr a mod 4096 = 0"
proof -
  let ?t = "db_thread s" and ?n = "db_nodes s"
  let ?cs = "chunks_to_come ?n (mt_next_allocator_node ?t) (db_chunks s)"
  have r: "local_ok (mt_alloc ?t)" "available (mt_alloc ?t) \<inter> used = {}" "sorted_wrt (\<lambda>c d. chunk_area c \<inter> chunk_area d = {}) ?cs"
    "\<And>c. c \<in> set ?cs \<Longrightarrow> unat (ga_addr c) < 2 ^ 62 \<and> chunk_area c \<inter> (used \<union> available (mt_alloc ?t)) = {}"
    using rm by (simp_all add: room_def Let_def)
  have "area a sz \<inter> used = {} \<and> room s' (area a sz \<union> used) \<and> db_mem s' = db_mem s \<and> in_range a sz \<and> (al \<longrightarrow> ga_addr a mod 4096 = 0)"
  proof (cases "cache_malloc (of_nat sz) al ?n None ?t")
    case (Returned p)
    then obtain t where t: "cache_malloc (of_nat sz) al ?n None ?t = Returned (a, t)" "s' = s\<lparr>db_thread := t\<rparr>"
      using run by (cases p) (auto simp: db_malloc_def)
    note c = cut_room [OF r(1) cache_malloc_old(1) [OF t(1)] sz]
    have "mt_next_allocator_node t = mt_next_allocator_node ?t"
      using t(1) by (auto simp: cache_malloc_def split: option.splits if_splits)
    then have "room s' (area a sz \<union> used)"
      using r c(1-3) unfolding room_def Let_def t(2) by simp blast
    then show ?thesis using c r(2) t(2) by auto
  next
    case Hangs
    then obtain ch cs t where ch: "db_chunks s = ch # cs" "cache_malloc (of_nat sz) al ?n ch ?t = Returned (a, t)"
      "s' = s\<lparr>db_thread := t, db_chunks := cs\<rparr>"
      using run by (auto simp: db_malloc_def split: list.splits outcome.splits)
    obtain ad where ad: "ch = Some ad" using ch(2) Hangs by (cases ch) auto
    define c where "c = \<lparr>ga_addr = ad, ga_nodeID = ucast (mt_next_allocator_node ?t), ga_org = 0\<rparr>"
    have cs: "?cs = c # chunks_to_come ?n ((mt_next_allocator_node ?t + 1) mod ?n) cs" by (simp add: ch(1) ad c_def)
    obtain l where l: "local_malloc (of_nat sz) al (set_chunck c l) = Some ((a, False), mt_alloc t)"
      by (rule cache_malloc_new [OF Hangs, of c]) (use ch(2) ad in \<open>auto simp: c_def\<close>)
    have small: "unat (ga_addr c) < 2 ^ 62" "chunk_area c \<inter> used = {}" using r(4) [of c] cs by auto
    note sc = set_chunck_available [OF small(1), of l]
    note k = cut_room [OF sc(1) l sz]
    have "mt_next_allocator_node t = (mt_next_allocator_node ?t + 1) mod ?n"
      using ch(2) Hangs ad by (auto simp: cache_malloc_def Let_def split: option.splits if_splits)
    moreover have "\<forall>d \<in> set (chunks_to_come ?n ((mt_next_allocator_node ?t + 1) mod ?n) cs). chunk_area c \<inter> chunk_area d = {}
        \<and> unat (ga_addr d) < 2 ^ 62 \<and> chunk_area d \<inter> used = {}"
      using r(3,4) cs by auto
    ultimately have "room s' (area a sz \<union> used)"
      using r(3) cs k(1-3) sc(2) small(2) unfolding room_def Let_def ch(3) by simp blast
    then show ?thesis using k sc(2) small(2) ch(3) by auto
  qed (use run in \<open>auto simp: db_malloc_def\<close>)
  then show "area a sz \<inter> used = {}" "room s' (area a sz \<union> used)" "db_mem s' = db_mem s" "in_range a sz" "al \<longrightarrow> ga_addr a mod 4096 = 0"
    by blast+
qed

end
