(* ===== verification/Db_Schema.thy ===== *)
theory Db_Schema
  imports Db_Memory
begin

text \<open>
  Columns, schemas and records (\<open>ColumnInfo.h\<close>, \<open>RecordSchema.h\<close>, \<open>Record.h\<close>, \<open>Records.h\<close>): the layout of a record in bytes,
  and the values of its columns.
\<close>

section \<open>Columns\<close>

datatype ValueType = V_INT | V_INT8 | V_INT16 | V_INT32 | V_INT64 | V_DOUBLE | V_FLOAT | V_VARCHAR | V_META

definition type_no :: "ValueType \<Rightarrow> u64" where
  "type_no v = (case v of V_INT \<Rightarrow> 0 | V_INT8 \<Rightarrow> 1 | V_INT16 \<Rightarrow> 2 | V_INT32 \<Rightarrow> 3 | V_INT64 \<Rightarrow> 4 | V_DOUBLE \<Rightarrow> 5 | V_FLOAT \<Rightarrow> 6
     | V_VARCHAR \<Rightarrow> 7 | V_META \<Rightarrow> 8)"

record ColumnInfo =
  column_name :: "u8 list"
  column_type :: u64
  column_size :: u64
  column_offset :: u64

text \<open>A name is a string without its final zero; the bytes after that zero are not set, and are zero here. An enumeration of
  underlying type \<open>size_t\<close> is its number.\<close>

definition ColumnInfo_Init :: "u8 list \<Rightarrow> ValueType \<Rightarrow> u64 \<Rightarrow> ColumnInfo outcome" where
  "ColumnInfo_Init name v len =
     (if 16 \<le> length name then Aborts
      else let c = \<lparr>column_name = name @ replicate (16 - length name) 0, column_type = type_no v, column_size = 0, column_offset = 0\<rparr> in
        case v of
          V_INT \<Rightarrow> Returned (c\<lparr>column_size := 4\<rparr>)
        | V_INT8 \<Rightarrow> Returned (c\<lparr>column_size := 1\<rparr>)
        | V_INT16 \<Rightarrow> Returned (c\<lparr>column_size := 2\<rparr>)
        | V_INT32 \<Rightarrow> Returned (c\<lparr>column_size := 4\<rparr>)
        | V_INT64 \<Rightarrow> Returned (c\<lparr>column_size := 8\<rparr>)
        | V_DOUBLE \<Rightarrow> Returned (c\<lparr>column_size := 8\<rparr>)
        | V_FLOAT \<Rightarrow> Returned (c\<lparr>column_size := 4\<rparr>)
        | V_META \<Rightarrow> Returned (c\<lparr>column_size := 1\<rparr>)
        | V_VARCHAR \<Rightarrow> if 0 < len then Returned (c\<lparr>column_size := len\<rparr>) else Aborts)"

section \<open>Schemas\<close>

record RecordSchema =
  rs_table_id :: u64
  rs_column_count :: u64
  rs_column_offset :: u64
  rs_primary_ids :: "u64 list"
  rs_primary_num :: u64
  rs_secondary_ids :: "u64 list list"
  rs_secondary_nums :: "u64 list"
  rs_secondary_index_num :: u64
  rs_partition_ids :: "u64 list"
  rs_partition_num :: u64
  rs_columns :: "ColumnInfo list"

definition kMaxColumnNum :: nat where "kMaxColumnNum = 32"

text \<open>The arrays are not set by the constructor, and hold zero here.\<close>

definition new_RecordSchema :: "u64 \<Rightarrow> RecordSchema" where
  "new_RecordSchema table_id =
     \<lparr>rs_table_id = table_id, rs_column_count = 0, rs_column_offset = 0, rs_primary_ids = replicate 5 0, rs_primary_num = 0,
      rs_secondary_ids = replicate 3 (replicate 5 0), rs_secondary_nums = replicate 3 0, rs_secondary_index_num = 0,
      rs_partition_ids = replicate 5 0, rs_partition_num = 0, rs_columns = []\<rparr>"

fun insert_columns :: "ColumnInfo list \<Rightarrow> RecordSchema \<Rightarrow> RecordSchema" where
  "insert_columns [] sc = sc"
| "insert_columns (c # cs) sc =
     insert_columns cs (sc\<lparr>rs_columns := rs_columns sc @ [c\<lparr>column_offset := rs_column_offset sc\<rparr>],
                          rs_column_offset := rs_column_offset sc + column_size c\<rparr>)"

definition InsertColumns :: "ColumnInfo list \<Rightarrow> RecordSchema \<Rightarrow> RecordSchema outcome" where
  "InsertColumns cols sc =
     (if kMaxColumnNum < length cols then Aborts
      else Returned (insert_columns cols (sc\<lparr>rs_column_count := of_nat (length cols), rs_columns := []\<rparr>)))"

definition GetColumnType :: "RecordSchema \<Rightarrow> u64 \<Rightarrow> u64 outcome" where
  "GetColumnType sc i = (if i < rs_column_count sc then Returned (column_type (rs_columns sc ! unat i)) else Aborts)"

definition GetColumnOffset :: "RecordSchema \<Rightarrow> u64 \<Rightarrow> u64 outcome" where
  "GetColumnOffset sc i = (if i < rs_column_count sc then Returned (column_offset (rs_columns sc ! unat i)) else Aborts)"

definition GetColumnSize :: "RecordSchema \<Rightarrow> u64 \<Rightarrow> u64 outcome" where
  "GetColumnSize sc i = (if i < rs_column_count sc then Returned (column_size (rs_columns sc ! unat i)) else Aborts)"

abbreviation GetSchemaSize :: "RecordSchema \<Rightarrow> u64" where "GetSchemaSize \<equiv> rs_column_offset"

definition GetMetaColumnId :: "RecordSchema \<Rightarrow> u64" where "GetMetaColumnId sc = rs_column_count sc - 1"

text \<open>The three sets of keys. A list of column numbers is copied to the front of its array; the fourth secondary index writes
  past the end of its arrays before the assertion fails.\<close>

definition SetPrimaryColumns :: "u64 list \<Rightarrow> RecordSchema \<Rightarrow> RecordSchema outcome" where
  "SetPrimaryColumns ids sc =
     (if 5 < length ids then Aborts
      else Returned (sc\<lparr>rs_primary_num := of_nat (length ids), rs_primary_ids := ids @ drop (length ids) (rs_primary_ids sc)\<rparr>))"

definition AddSecondaryColumns :: "u64 list \<Rightarrow> RecordSchema \<Rightarrow> RecordSchema outcome" where
  "AddSecondaryColumns ids sc =
     (let n = unat (rs_secondary_index_num sc) in
      if 5 < length ids \<or> 3 \<le> n then Aborts
      else Returned (sc\<lparr>rs_secondary_nums := (rs_secondary_nums sc)[n := of_nat (length ids)],
                        rs_secondary_ids := (rs_secondary_ids sc)[n := ids @ drop (length ids) (rs_secondary_ids sc ! n)],
                        rs_secondary_index_num := rs_secondary_index_num sc + 1\<rparr>))"

definition SetPartitionColumns :: "u64 list \<Rightarrow> RecordSchema \<Rightarrow> RecordSchema outcome" where
  "SetPartitionColumns ids sc =
     (if 5 \<le> length ids then Aborts
      else Returned (sc\<lparr>rs_partition_num := of_nat (length ids), rs_partition_ids := ids @ drop (length ids) (rs_partition_ids sc)\<rparr>))"

section \<open>Records\<close>

record Record =
  rec_schema :: RecordSchema
  rec_data :: "u8 list"

text \<open>The constructor allocates the bytes and does not set them; \<open>heap\<close> is what they happen to be.\<close>

definition new_Record :: "RecordSchema \<Rightarrow> (nat \<Rightarrow> u8) \<Rightarrow> Record" where
  "new_Record sc heap = \<lparr>rec_schema = sc, rec_data = map heap [0..<unat (GetSchemaSize sc)]\<rparr>"

text \<open>A copy into the record's bytes. One that leaves them is undefined, which is a failure here.\<close>

definition put_bytes :: "nat \<Rightarrow> u8 list \<Rightarrow> Record \<Rightarrow> Record outcome" where
  "put_bytes off bs r =
     (if off + length bs \<le> length (rec_data r)
      then Returned (r\<lparr>rec_data := take off (rec_data r) @ bs @ drop (off + length bs) (rec_data r)\<rparr>) else Aborts)"

text \<open>\<open>SetColumn\<close> takes as many bytes from its argument as the column has, or as many as it is told.\<close>

definition SetColumn :: "u64 \<Rightarrow> u8 list \<Rightarrow> Record \<Rightarrow> Record outcome" where
  "SetColumn col_id bs r =
     outcome_bind (GetColumnOffset (rec_schema r) col_id) (\<lambda>offset.
     outcome_bind (GetColumnSize (rec_schema r) col_id) (\<lambda>col_size.
     if unat col_size \<le> length bs then put_bytes (unat offset) (take (unat col_size) bs) r else Aborts))"

definition SetColumn_sized :: "u64 \<Rightarrow> u8 list \<Rightarrow> u64 \<Rightarrow> Record \<Rightarrow> Record outcome" where
  "SetColumn_sized col_id bs data_size r =
     outcome_bind (GetColumnOffset (rec_schema r) col_id) (\<lambda>offset.
     if unat data_size \<le> length bs then put_bytes (unat offset) (take (unat data_size) bs) r else Aborts)"

definition GetColumn :: "u64 \<Rightarrow> Record \<Rightarrow> u8 list outcome" where
  "GetColumn col_id r =
     outcome_bind (GetColumnOffset (rec_schema r) col_id) (\<lambda>offset.
     outcome_bind (GetColumnSize (rec_schema r) col_id) (\<lambda>col_size.
     if unat offset + unat col_size \<le> length (rec_data r)
     then Returned (take (unat col_size) (drop (unat offset) (rec_data r))) else Aborts))"

text \<open>The visibility is one byte in the last column, read into a structure of one byte.\<close>

definition GetVisible :: "Record \<Rightarrow> bool outcome" where
  "GetVisible r =
     outcome_bind (GetColumn (GetMetaColumnId (rec_schema r)) r) (\<lambda>bs. if length bs = 1 then Returned (hd bs \<noteq> 0) else Aborts)"

definition SetVisible :: "bool \<Rightarrow> Record \<Rightarrow> Record outcome" where
  "SetVisible val r =
     outcome_bind (GetColumn (GetMetaColumnId (rec_schema r)) r) (\<lambda>bs.
     if length bs = 1 then SetColumn (GetMetaColumnId (rec_schema r)) [of_bool val] r else Aborts)"

definition record_Serialize :: "GlobalAddress \<Rightarrow> Record \<Rightarrow> shared \<Rightarrow> shared" where
  "record_Serialize addr r m = Write addr (rec_data r) m"

definition record_Serialize_column :: "GlobalAddress \<Rightarrow> u64 \<Rightarrow> Record \<Rightarrow> shared \<Rightarrow> shared outcome" where
  "record_Serialize_column addr col_id r m =
     outcome_bind (GetColumnOffset (rec_schema r) col_id) (\<lambda>offset.
     outcome_bind (GetColumn col_id r) (\<lambda>bs. Returned (Write_at addr (unat offset) bs m)))"

definition record_Deserialize :: "GlobalAddress \<Rightarrow> Record \<Rightarrow> shared \<Rightarrow> Record" where
  "record_Deserialize addr r m = r\<lparr>rec_data := Read addr (unat (GetSchemaSize (rec_schema r))) m\<rparr>"

text \<open>\<open>Records\<close>: a list of bounded length.\<close>

record Records =
  rcs_max_size :: u64
  rcs_records :: "Record list"

definition new_Records :: "u64 \<Rightarrow> Records" where "new_Records max_size = \<lparr>rcs_max_size = max_size, rcs_records = []\<rparr>"

definition Records_InsertRecord :: "Record \<Rightarrow> Records \<Rightarrow> Records outcome" where
  "Records_InsertRecord r rs =
     (if length (rcs_records rs) < unat (rcs_max_size rs) then Returned (rs\<lparr>rcs_records := rcs_records rs @ [r]\<rparr>) else Aborts)"

definition Records_Clear :: "Records \<Rightarrow> Records" where "Records_Clear rs = rs\<lparr>rcs_records := []\<rparr>"

end
