(* ===== verification/Db_Bucket.thy ===== *)
theory Db_Bucket
  imports Db_Memory
begin

text \<open>
  A bucket of the hash index (\<open>HashIndexHelper.h\<close>): a list of nodes in the shared memory, one for each key, and for each
  node a list of blocks with the addresses of the records, two in a block.
\<close>

section \<open>Structures in memory\<close>

text \<open>The layouts follow the alignment of a 64-bit machine. Padding bytes are zero here; no read looks at them.\<close>

definition SLOT_NUM :: nat where "SLOT_NUM = 2"

record Items =
  it_record_ptrs :: "GlobalAddress list"
  it_record_ptrs_count :: u64
  it_next :: GlobalAddress

record BucketNode =
  bn_key :: u64
  bn_next :: GlobalAddress
  bn_items_list :: GlobalAddress

definition sizeof_Items :: nat where "sizeof_Items = 48"
definition sizeof_BucketNode :: nat where "sizeof_BucketNode = 32"

definition items_bytes :: "Items \<Rightarrow> u8 list" where
  "items_bytes it = ga_bytes (it_record_ptrs it ! 0) @ ga_bytes (it_record_ptrs it ! 1) @ replicate 4 0
     @ bytes_of 8 (it_record_ptrs_count it) @ ga_bytes (it_next it) @ replicate 6 0"

definition items_of_bytes :: "u8 list \<Rightarrow> Items" where
  "items_of_bytes bs = \<lparr>it_record_ptrs = [ga_of_bytes (take 10 bs), ga_of_bytes (take 10 (drop 10 bs))],
     it_record_ptrs_count = of_bytes (take 8 (drop 24 bs)), it_next = ga_of_bytes (take 10 (drop 32 bs))\<rparr>"

definition node_bytes :: "BucketNode \<Rightarrow> u8 list" where
  "node_bytes nd = bytes_of 8 (bn_key nd) @ ga_bytes (bn_next nd) @ ga_bytes (bn_items_list nd) @ replicate 4 0"

definition node_of_bytes :: "u8 list \<Rightarrow> BucketNode" where
  "node_of_bytes bs = \<lparr>bn_key = of_bytes (take 8 bs), bn_next = ga_of_bytes (take 10 (drop 8 bs)),
     bn_items_list = ga_of_bytes (take 10 (drop 18 bs))\<rparr>"

definition read_items :: "GlobalAddress \<Rightarrow> shared \<Rightarrow> Items" where
  "read_items a m = items_of_bytes (Read a sizeof_Items m)"

definition read_node :: "GlobalAddress \<Rightarrow> shared \<Rightarrow> BucketNode" where
  "read_node a m = node_of_bytes (Read a sizeof_BucketNode m)"

section \<open>Operations\<close>

abbreviation is_null :: "GlobalAddress \<Rightarrow> bool" where "is_null a \<equiv> ga_eq a Null"

text \<open>\<open>Items::Init\<close> on a new block. It does not set the slots, which hold null here; none is read before it is set.\<close>

definition Items_Init :: Items where
  "Items_Init = \<lparr>it_record_ptrs = replicate SLOT_NUM Null, it_record_ptrs_count = 0, it_next = Null\<rparr>"

definition BucketNode_Init :: "u64 \<Rightarrow> BucketNode" where
  "BucketNode_Init k = \<lparr>bn_key = k, bn_next = Null, bn_items_list = Null\<rparr>"

definition AddRecordPtr :: "GlobalAddress \<Rightarrow> Items \<Rightarrow> (bool \<times> Items) option" where
  "AddRecordPtr p it =
     (if of_nat SLOT_NUM < it_record_ptrs_count it then None
      else if it_record_ptrs_count it = of_nat SLOT_NUM then Some (False, it)
      else Some (True, it\<lparr>it_record_ptrs := (it_record_ptrs it)[unat (it_record_ptrs_count it) := p],
                          it_record_ptrs_count := it_record_ptrs_count it + 1\<rparr>))"

text \<open>The loop over the nodes, with the previous and the current address and the node read last. It does not end on a cyclic list.\<close>

partial_function (option) find_node ::
  "u64 \<Rightarrow> GlobalAddress \<Rightarrow> GlobalAddress \<Rightarrow> BucketNode \<Rightarrow> shared \<Rightarrow> (GlobalAddress \<times> GlobalAddress \<times> BucketNode) option" where
  "find_node key prev cur nd m =
     (if is_null cur then Some (prev, cur, nd)
      else if bn_key (read_node cur m) = key then Some (prev, cur, read_node cur m)
      else find_node key cur (bn_next (read_node cur m)) (read_node cur m) m)"

declare find_node.simps [code]

definition set_mem :: "(shared \<Rightarrow> shared) \<Rightarrow> db \<Rightarrow> db" where
  "set_mem f s = s\<lparr>db_mem := f (db_mem s)\<rparr>"

text \<open>The key has a node: its first block takes the record, or a new block in front of it.\<close>

definition insert_existing :: "GlobalAddress \<Rightarrow> GlobalAddress \<Rightarrow> BucketNode \<Rightarrow> db \<Rightarrow> db outcome" where
  "insert_existing record_ptr cur nd s =
     (case AddRecordPtr record_ptr (read_items (bn_items_list nd) (db_mem s)) of
        None \<Rightarrow> Aborts
      | Some (True, items) \<Rightarrow> Returned (set_mem (Write (bn_items_list nd) (items_bytes items)) s)
      | Some (False, items) \<Rightarrow>
          (case AddRecordPtr record_ptr Items_Init of
             None \<Rightarrow> Aborts
           | Some (_, new_items) \<Rightarrow>
               outcome_bind (Malloc sizeof_Items s) (\<lambda>(a, s).
               Returned (set_mem (Write cur (node_bytes (nd\<lparr>bn_items_list := a\<rparr>)))
                 (set_mem (Write a (items_bytes (new_items\<lparr>it_next := bn_items_list nd\<rparr>))) s)))))"

text \<open>The key is new: a block and a node, at the end of the list.\<close>

definition insert_new :: "u64 \<Rightarrow> GlobalAddress \<Rightarrow> GlobalAddress \<Rightarrow> GlobalAddress \<Rightarrow> db \<Rightarrow> (GlobalAddress \<times> db) outcome" where
  "insert_new key record_ptr prev head s =
     (case AddRecordPtr record_ptr Items_Init of
        None \<Rightarrow> Aborts
      | Some (_, new_items) \<Rightarrow>
          outcome_bind (Malloc sizeof_Items s) (\<lambda>(ia, s).
          let s = set_mem (Write ia (items_bytes new_items)) s in
          outcome_bind (Malloc sizeof_BucketNode s) (\<lambda>(na, s).
          let s = set_mem (Write na (node_bytes ((BucketNode_Init key)\<lparr>bn_items_list := ia\<rparr>))) s in
          if \<not> is_null prev then
            (let prev_node = read_node prev (db_mem s) in
             if \<not> is_null (bn_next prev_node) then Aborts
             else Returned (head, set_mem (Write prev (node_bytes (prev_node\<lparr>bn_next := na\<rparr>))) s))
          else if \<not> is_null head then Aborts
          else Returned (na, s))))"

text \<open>\<open>BucketHeader\<close> holds the address of the first node. The result is whether the key is new; \<open>None\<close> is a
  call that does not return.\<close>

definition InsertNode :: "u64 \<Rightarrow> GlobalAddress \<Rightarrow> GlobalAddress \<Rightarrow> db \<Rightarrow> (bool \<times> GlobalAddress \<times> db) outcome option" where
  "InsertNode key record_ptr head s =
     (case find_node key Null head (BucketNode_Init 0) (db_mem s) of
        None \<Rightarrow> None
      | Some (prev, cur, nd) \<Rightarrow>
          Some (if \<not> is_null cur
                then outcome_bind (insert_existing record_ptr cur nd s) (\<lambda>s. Returned (False, head, s))
                else outcome_bind (insert_new key record_ptr prev head s) (\<lambda>(head, s). Returned (True, head, s))))"

definition SearchNode :: "u64 \<Rightarrow> GlobalAddress \<Rightarrow> shared \<Rightarrow> GlobalAddress option option" where
  "SearchNode key head m =
     (case find_node key Null head (BucketNode_Init 0) m of
        None \<Rightarrow> None
      | Some (_, cur, nd) \<Rightarrow> Some (if \<not> is_null cur then Some (bn_items_list nd) else None))"

text \<open>The iterator over the records of a key: the block's address, the position (negative before a block is read),
  the block.\<close>

record ItemsIter =
  ii_items_addr :: GlobalAddress
  ii_pos :: int
  ii_items :: Items

definition new_ItemsIter :: "GlobalAddress \<Rightarrow> ItemsIter" where
  "new_ItemsIter a = \<lparr>ii_items_addr = a, ii_pos = -1, ii_items = Items_Init\<rparr>"

definition GetNext :: "shared \<Rightarrow> ItemsIter \<Rightarrow> (GlobalAddress \<times> ItemsIter) option" where
  "GetNext m i =
     (if is_null (ii_items_addr i) then Some (Null, i)
      else let i = (if ii_pos i < 0 then i\<lparr>ii_items := read_items (ii_items_addr i) m, ii_pos := 0\<rparr> else i) in
        if int (unat (it_record_ptrs_count (ii_items i))) \<le> ii_pos i then None
        else let ret = it_record_ptrs (ii_items i) ! nat (ii_pos i); i = i\<lparr>ii_pos := ii_pos i + 1\<rparr> in
          Some (ret, if ii_pos i = int (unat (it_record_ptrs_count (ii_items i)))
                     then i\<lparr>ii_items_addr := it_next (ii_items i), ii_pos := -1\<rparr> else i))"

end
