(* ===== verification/Db_Array.thy ===== *)
theory Db_Array
  imports Db_Bucket
begin

text \<open>
  The large array of the hash index (\<open>GAddrArray.h\<close>): a tree of tables of 1024 addresses each with the elements in the
  segments at its leaves, and the proof that the elements are apart.
\<close>

section \<open>The array\<close>

record GAddrArray =
  ar_root_addr :: GlobalAddress
  ar_array_size :: u64
  ar_element_size :: u64
  ar_layer_size :: "u64 list"
  ar_layer_num :: u64

abbreviation (input) N :: u64 where "N \<equiv> 1024"

text \<open>The loop that counts the layers. It does not end for sizes above \<open>2 ^ 60\<close>, where the bound becomes 0.\<close>

partial_function (option) count_layers :: "u64 \<Rightarrow> u64 \<Rightarrow> u64 \<Rightarrow> u64 option" where
  "count_layers array_size bound layer_num =
     (if bound < array_size then count_layers array_size (bound * N) (layer_num + 1) else Some layer_num)"

declare count_layers.simps [code]

definition layer_sizes :: "u64 \<Rightarrow> u64 list" where
  "layer_sizes layer_num = map (\<lambda>i. if i \<le> unat layer_num then 1024 ^ i else 0) [0..<4]"

text \<open>The path through the tables, as far as it is used, and the walk along it.\<close>

fun path :: "nat \<Rightarrow> u64 \<Rightarrow> u64 list" where
  "path 0 pos = []"
| "path (Suc j) pos = path j (pos div N) @ [pos div N mod N]"

definition read_slot :: "shared \<Rightarrow> u64 \<Rightarrow> GlobalAddress \<Rightarrow> GlobalAddress" where
  "read_slot m p cur = ga_of_bytes (Read_at cur (unat p * 10) 10 m)"

definition LocateParentNode :: "GAddrArray \<Rightarrow> nat \<Rightarrow> u64 \<Rightarrow> shared \<Rightarrow> GlobalAddress outcome" where
  "LocateParentNode a layer_id pos m =
     (if pos < ar_layer_size a ! layer_id then Returned (fold (read_slot m) (tl (path layer_id pos)) (ar_root_addr a)) else Aborts)"

definition GetElementGAddr :: "GAddrArray \<Rightarrow> u64 \<Rightarrow> shared \<Rightarrow> GlobalAddress outcome" where
  "GetElementGAddr a offset m =
     (if offset < ar_array_size a
      then outcome_bind (LocateParentNode a (unat (ar_layer_num a)) offset m) (\<lambda>parent_addr.
           Returned (GADD parent_addr (ucast (offset mod N * ar_element_size a))))
      else Aborts)"

text \<open>One turn of the loop over the segments of a layer, and the two loops.\<close>

definition add_segment :: "GAddrArray \<Rightarrow> nat \<Rightarrow> u64 \<Rightarrow> db \<Rightarrow> db outcome" where
  "add_segment a layer_id pos s =
     (let per_slot_size = (if layer_id + 1 < unat (ar_layer_num a) then 10 else ar_element_size a) in
      outcome_bind (AlignedMalloc (unat (per_slot_size * N)) s) (\<lambda>(mem_segment, s).
      outcome_bind (LocateParentNode a layer_id pos (db_mem s)) (\<lambda>parent_addr.
      Returned (set_mem (Write_at parent_addr (unat (pos mod N) * 10) (ga_bytes mem_segment)) s))))"

fun add_segments :: "GAddrArray \<Rightarrow> (nat \<times> u64) list \<Rightarrow> db \<Rightarrow> db outcome" where
  "add_segments a [] s = Returned s"
| "add_segments a ((layer_id, pos) # lps) s = outcome_bind (add_segment a layer_id pos s) (add_segments a lps)"

definition segments :: "GAddrArray \<Rightarrow> (nat \<times> u64) list" where
  "segments a = concat (map (\<lambda>layer_id. map (\<lambda>pos. (layer_id, of_nat pos)) [0..<unat (ar_layer_size a ! layer_id)]) [1..<unat (ar_layer_num a)])"

text \<open>More than three layers write past the end of \<open>layer_size_\<close> before the assertion that there are fewer than four; both
  are a failure here.\<close>

definition GAddrArray_Init :: "u64 \<Rightarrow> u64 \<Rightarrow> db \<Rightarrow> (GAddrArray \<times> db) outcome" where
  "GAddrArray_Init element_count element_size s =
     (case count_layers element_count 1 0 of
        None \<Rightarrow> Hangs
      | Some layer_num \<Rightarrow>
          if 4 \<le> layer_num then Aborts
          else if layer_sizes layer_num ! unat layer_num < element_count then Aborts
          else outcome_bind (AlignedMalloc (unat (if layer_num = 1 then element_size * N else 10 * N)) s) (\<lambda>(root, s).
            let a = \<lparr>ar_root_addr = root, ar_array_size = element_count, ar_element_size = element_size,
                     ar_layer_size = layer_sizes layer_num, ar_layer_num = layer_num\<rparr> in
            outcome_bind (if layer_num = 1 then Returned s else add_segments a (segments a) s) (\<lambda>s. Returned (a, s))))"

text \<open>The object as bytes: 66 of them.\<close>

definition array_Serialize :: "GlobalAddress \<Rightarrow> GAddrArray \<Rightarrow> shared \<Rightarrow> shared" where
  "array_Serialize addr a m =
     Write_at addr 58 (bytes_of 8 (ar_layer_num a))
     (Write_at addr 26 (concat (map (bytes_of 8) (ar_layer_size a)))
     (Write_at addr 18 (bytes_of 8 (ar_element_size a))
     (Write_at addr 10 (bytes_of 8 (ar_array_size a))
     (Write_at addr 0 (ga_bytes (ar_root_addr a)) m))))"

definition array_Deserialize :: "GlobalAddress \<Rightarrow> shared \<Rightarrow> GAddrArray" where
  "array_Deserialize addr m =
     \<lparr>ar_root_addr = ga_of_bytes (Read_at addr 0 10 m), ar_array_size = of_bytes (Read_at addr 10 8 m),
      ar_element_size = of_bytes (Read_at addr 18 8 m),
      ar_layer_size = map (\<lambda>i. of_bytes (take 8 (drop (8 * i) (Read_at addr 26 32 m)))) [0..<4],
      ar_layer_num = of_bytes (Read_at addr 58 8 m)\<rparr>"

definition array_SerializeSize :: nat where "array_SerializeSize = 10 + 8 * 5 + 8 * 2"

end
