(* ===== verification/Db_Index.thy ===== *)
theory Db_Index
  imports Db_Array
begin

text \<open>
  The hash index (\<open>HashIndex.h\<close>): a \<open>GAddrArray\<close> of bucket headers, each the address of a bucket's first node.
\<close>

section \<open>Operations\<close>

record HashIndex =
  ix_buckets :: GAddrArray
  ix_buckets_count :: u64
  ix_record_count :: u64

definition header_Serialize :: "GlobalAddress \<Rightarrow> GlobalAddress \<Rightarrow> shared \<Rightarrow> shared" where
  "header_Serialize addr head m = Write addr (ga_bytes head) m"

definition header_Deserialize :: "GlobalAddress \<Rightarrow> shared \<Rightarrow> GlobalAddress" where
  "header_Deserialize addr m = ga_of_bytes (Read addr 10 m)"

definition header_SerializeSize :: nat where "header_SerializeSize = 10"

fun init_headers :: "GAddrArray \<Rightarrow> u64 list \<Rightarrow> db \<Rightarrow> db outcome" where
  "init_headers a [] s = Returned s"
| "init_headers a (i # is) s =
     outcome_bind (GetElementGAddr a i (db_mem s)) (\<lambda>bk_hd_addr. init_headers a is (set_mem (header_Serialize bk_hd_addr Null) s))"

definition HashIndex_Init :: "u64 \<Rightarrow> db \<Rightarrow> (HashIndex \<times> db) outcome" where
  "HashIndex_Init buckets_count s =
     outcome_bind (GAddrArray_Init buckets_count (of_nat header_SerializeSize) s) (\<lambda>(a, s).
     outcome_bind (init_headers a (map of_nat [0..<unat buckets_count]) s) (\<lambda>s.
     Returned (\<lparr>ix_buckets = a, ix_buckets_count = buckets_count, ix_record_count = 0\<rparr>, s)))"

text \<open>The address of a key's header. The remainder by zero traps.\<close>

definition header_addr :: "HashIndex \<Rightarrow> u64 \<Rightarrow> shared \<Rightarrow> GlobalAddress outcome" where
  "header_addr ix key m = (if ix_buckets_count ix = 0 then Aborts else GetElementGAddr (ix_buckets ix) (key mod ix_buckets_count ix) m)"

text \<open>What \<open>InsertRecord\<close> does once it has the lock of the header.\<close>

definition insert_locked :: "HashIndex \<Rightarrow> u64 \<Rightarrow> GlobalAddress \<Rightarrow> GlobalAddress \<Rightarrow> db \<Rightarrow> (bool \<times> HashIndex \<times> db) outcome option" where
  "insert_locked ix key record_ptr hd_addr s =
     (case InsertNode key record_ptr (header_Deserialize hd_addr (db_mem s)) s of
        None \<Rightarrow> None
      | Some r \<Rightarrow> Some (outcome_bind r (\<lambda>(ret, head, s).
          let s = set_mem (header_Serialize hd_addr head) s;
              s = set_mem (UnLock hd_addr header_SerializeSize) s
          in Returned (ret, ix\<lparr>ix_record_count := ix_record_count ix + 1\<rparr>, s))))"

definition InsertRecord :: "HashIndex \<Rightarrow> u64 \<Rightarrow> GlobalAddress \<Rightarrow> db \<Rightarrow> (bool \<times> HashIndex \<times> db) outcome option" where
  "InsertRecord ix key record_ptr s =
     (case header_addr ix key (db_mem s) of
        Returned hd_addr \<Rightarrow>
          (case WLock hd_addr header_SerializeSize (db_mem s) of
             Returned m \<Rightarrow> insert_locked ix key record_ptr hd_addr (s\<lparr>db_mem := m\<rparr>)
           | Waits \<Rightarrow> Some Waits | Hangs \<Rightarrow> Some Hangs | Aborts \<Rightarrow> Some Aborts)
      | Waits \<Rightarrow> Some Waits | Hangs \<Rightarrow> Some Hangs | Aborts \<Rightarrow> Some Aborts)"

definition SearchRecord :: "HashIndex \<Rightarrow> u64 \<Rightarrow> shared \<Rightarrow> GlobalAddress outcome option" where
  "SearchRecord ix key m =
     (case header_addr ix key m of
        Returned hd_addr \<Rightarrow>
          (case SearchNode key (header_Deserialize hd_addr m) m of
             None \<Rightarrow> None
           | Some None \<Rightarrow> Some (Returned Null)
           | Some (Some items_list) \<Rightarrow> Some (Returned (it_record_ptrs (read_items items_list m) ! 0)))
      | Waits \<Rightarrow> Some Waits | Hangs \<Rightarrow> Some Hangs | Aborts \<Rightarrow> Some Aborts)"

definition index_Serialize :: "GlobalAddress \<Rightarrow> HashIndex \<Rightarrow> shared \<Rightarrow> shared" where
  "index_Serialize addr ix m =
     Write_at addr (array_SerializeSize + 8) (bytes_of 8 (ix_record_count ix))
     (Write_at addr array_SerializeSize (bytes_of 8 (ix_buckets_count ix)) (array_Serialize addr (ix_buckets ix) m))"

definition index_Deserialize :: "GlobalAddress \<Rightarrow> shared \<Rightarrow> HashIndex" where
  "index_Deserialize addr m =
     \<lparr>ix_buckets = array_Deserialize addr m, ix_buckets_count = of_bytes (Read_at addr array_SerializeSize 8 m),
      ix_record_count = of_bytes (Read_at addr (array_SerializeSize + 8) 8 m)\<rparr>"

definition index_SerializeSize :: nat where "index_SerializeSize = array_SerializeSize + 8 * 2"

end
