(* ===== verification/Db_Storage.thy ===== *)
theory Db_Storage
  imports Db_Schema Db_Index
begin

text \<open>
  Tables and the storage manager (\<open>Table.h\<close>, \<open>StorageManager.h\<close>), and the form in which schemas, arrays, indexes, tables and
  the whole catalogue are kept in the shared memory, where the node that creates the database leaves it for the others.
\<close>

section \<open>Schemas in memory\<close>

definition column_bytes :: "ColumnInfo \<Rightarrow> u8 list" where
  "column_bytes c = column_name c @ bytes_of 8 (column_type c) @ bytes_of 8 (column_size c) @ bytes_of 8 (column_offset c)"

definition column_of_bytes :: "u8 list \<Rightarrow> ColumnInfo" where
  "column_of_bytes bs = \<lparr>column_name = take 16 bs, column_type = of_bytes (take 8 (drop 16 bs)),
     column_size = of_bytes (take 8 (drop 24 bs)), column_offset = of_bytes (take 8 (drop 32 bs))\<rparr>"

definition sizeof_ColumnInfo :: nat where "sizeof_ColumnInfo = 40"

text \<open>Arrays of words.\<close>

definition words_bytes :: "u64 list \<Rightarrow> u8 list" where "words_bytes ws = concat (map (bytes_of 8) ws)"

definition words_of_bytes :: "nat \<Rightarrow> u8 list \<Rightarrow> u64 list" where
  "words_of_bytes n bs = map (\<lambda>i. of_bytes (take 8 (drop (8 * i) bs))) [0..<n]"

definition columns_of_bytes :: "nat \<Rightarrow> u8 list \<Rightarrow> ColumnInfo list" where
  "columns_of_bytes n bs = map (\<lambda>i. column_of_bytes (take 40 (drop (40 * i) bs))) [0..<n]"

definition schema_Serialize :: "GlobalAddress \<Rightarrow> RecordSchema \<Rightarrow> shared \<Rightarrow> shared" where
  "schema_Serialize addr sc m =
     (let m = Write_at addr 0 (bytes_of 8 (rs_table_id sc)) m;
          m = Write_at addr 8 (bytes_of 8 (rs_column_count sc)) m;
          m = Write_at addr 16 (bytes_of 8 (rs_column_offset sc)) m;
          m = Write_at addr 24 (words_bytes (rs_primary_ids sc)) m;
          m = Write_at addr 64 (bytes_of 8 (rs_primary_num sc)) m;
          m = Write_at addr 72 (words_bytes (rs_secondary_ids sc ! 0)) m;
          m = Write_at addr 112 (words_bytes (rs_secondary_ids sc ! 1)) m;
          m = Write_at addr 152 (words_bytes (rs_secondary_ids sc ! 2)) m;
          m = Write_at addr 192 (words_bytes (rs_secondary_nums sc)) m;
          m = Write_at addr 216 (bytes_of 8 (rs_secondary_index_num sc)) m;
          m = Write_at addr 224 (words_bytes (rs_partition_ids sc)) m;
          m = Write_at addr 264 (bytes_of 8 (rs_partition_num sc)) m
      in Write_at addr 272 (concat (map column_bytes (rs_columns sc))) m)"

definition schema_Deserialize :: "GlobalAddress \<Rightarrow> shared \<Rightarrow> RecordSchema" where
  "schema_Deserialize addr m =
     (let column_count = of_bytes (Read_at addr 8 8 m) in
      \<lparr>rs_table_id = of_bytes (Read_at addr 0 8 m), rs_column_count = column_count, rs_column_offset = of_bytes (Read_at addr 16 8 m),
       rs_primary_ids = words_of_bytes 5 (Read_at addr 24 40 m), rs_primary_num = of_bytes (Read_at addr 64 8 m),
       rs_secondary_ids = [words_of_bytes 5 (Read_at addr 72 40 m), words_of_bytes 5 (Read_at addr 112 40 m), words_of_bytes 5 (Read_at addr 152 40 m)],
       rs_secondary_nums = words_of_bytes 3 (Read_at addr 192 24 m), rs_secondary_index_num = of_bytes (Read_at addr 216 8 m),
       rs_partition_ids = words_of_bytes 5 (Read_at addr 224 40 m), rs_partition_num = of_bytes (Read_at addr 264 8 m),
       rs_columns = columns_of_bytes (unat column_count) (Read_at addr 272 (sizeof_ColumnInfo * unat column_count) m)\<rparr>)"

definition schema_SerializeSize :: nat where
  "schema_SerializeSize = 8 * 3 + (8 * 5 + 8) + (8 * 3 * 5 + 8 * 3 + 8) + (8 * 5 + 8) + sizeof_ColumnInfo * kMaxColumnNum"

section \<open>Tables\<close>

record Table =
  tb_table_id :: u64
  tb_secondary_count :: u64
  tb_schema :: RecordSchema
  tb_index :: HashIndex

definition kHashIndexBucketHeaderNum :: u64 where "kHashIndexBucketHeaderNum = 1000007"

definition Table_Init :: "u64 \<Rightarrow> RecordSchema \<Rightarrow> db \<Rightarrow> (Table \<times> db) outcome" where
  "Table_Init table_id sc s =
     outcome_bind (HashIndex_Init kHashIndexBucketHeaderNum s) (\<lambda>(ix, s).
     Returned (\<lparr>tb_table_id = table_id, tb_secondary_count = 0, tb_schema = sc, tb_index = ix\<rparr>, s))"

definition Table_InsertRecord :: "u64 list \<Rightarrow> GlobalAddress \<Rightarrow> Table \<Rightarrow> db \<Rightarrow> (bool \<times> Table \<times> db) outcome option" where
  "Table_InsertRecord keys data_addr tb s =
     (if of_nat (length keys) \<noteq> tb_secondary_count tb + 1 then Some Aborts
      else map_option (\<lambda>r. outcome_bind r (\<lambda>(ret, ix, s). Returned (ret, tb\<lparr>tb_index := ix\<rparr>, s)))
             (InsertRecord (tb_index tb) (keys ! 0) data_addr s))"

definition Table_SearchRecord :: "u64 \<Rightarrow> Table \<Rightarrow> shared \<Rightarrow> GlobalAddress outcome option" where
  "Table_SearchRecord key tb m = SearchRecord (tb_index tb) key m"

definition table_Serialize :: "GlobalAddress \<Rightarrow> Table \<Rightarrow> shared \<Rightarrow> shared" where
  "table_Serialize addr tb m =
     (let m = Write_at addr 0 (bytes_of 8 (tb_table_id tb)) m;
          m = Write_at addr 8 (bytes_of 8 (tb_secondary_count tb)) m;
          cur_addr = GADD addr 16;
          m = schema_Serialize cur_addr (tb_schema tb) m;
          cur_addr = GADD cur_addr (of_nat schema_SerializeSize)
      in index_Serialize cur_addr (tb_index tb) m)"

definition table_Deserialize :: "GlobalAddress \<Rightarrow> shared \<Rightarrow> Table" where
  "table_Deserialize addr m =
     (let cur_addr = GADD addr 16; cur_addr' = GADD cur_addr (of_nat schema_SerializeSize) in
      \<lparr>tb_table_id = of_bytes (Read_at addr 0 8 m), tb_secondary_count = of_bytes (Read_at addr 8 8 m),
       tb_schema = schema_Deserialize cur_addr m, tb_index = index_Deserialize cur_addr' m\<rparr>)"

definition table_SerializeSize :: nat where "table_SerializeSize = 8 * 2 + schema_SerializeSize + index_SerializeSize"

section \<open>The catalogue\<close>

definition kMaxTableNum :: nat where "kMaxTableNum = 16"

fun init_tables :: "nat \<Rightarrow> RecordSchema list \<Rightarrow> db \<Rightarrow> (Table list \<times> db) outcome" where
  "init_tables i [] s = Returned ([], s)"
| "init_tables i (sc # scs) s =
     outcome_bind (Table_Init (of_nat i) sc s) (\<lambda>(tb, s).
     outcome_bind (init_tables (i + 1) scs s) (\<lambda>(tbs, s). Returned (tb # tbs, s)))"

text \<open>The manager is its list of tables, whose length is \<open>table_count_\<close>.\<close>

definition RegisterTables :: "RecordSchema list \<Rightarrow> db \<Rightarrow> (Table list \<times> db) outcome" where
  "RegisterTables schemas s = (if length schemas < kMaxTableNum then init_tables 0 schemas s else Aborts)"

fun write_tables :: "GlobalAddress \<Rightarrow> Table list \<Rightarrow> shared \<Rightarrow> shared" where
  "write_tables cur_addr [] m = m"
| "write_tables cur_addr (tb # tbs) m = write_tables (GADD cur_addr (of_nat table_SerializeSize)) tbs (table_Serialize cur_addr tb m)"

fun read_tables :: "nat \<Rightarrow> GlobalAddress \<Rightarrow> shared \<Rightarrow> Table list" where
  "read_tables 0 cur_addr m = []"
| "read_tables (Suc n) cur_addr m = table_Deserialize cur_addr m # read_tables n (GADD cur_addr (of_nat table_SerializeSize)) m"

definition storage_Serialize :: "GlobalAddress \<Rightarrow> Table list \<Rightarrow> shared \<Rightarrow> shared" where
  "storage_Serialize addr tbs m = write_tables (GADD addr 8) tbs (Write addr (bytes_of 8 (of_nat (length tbs) :: u64)) m)"

definition storage_Deserialize :: "GlobalAddress \<Rightarrow> shared \<Rightarrow> Table list" where
  "storage_Deserialize addr m = read_tables (unat (of_bytes (Read addr 8 m) :: u64)) (GADD addr 8) m"

definition storage_SerializeSize :: nat where "storage_SerializeSize = 8 + kMaxTableNum * table_SerializeSize"

end
