(* ===== verification/Db_Txn.thy ===== *)
theory Db_Txn
  imports Db_Storage
begin

text \<open>
  Transactions (\<open>TransactionManager.h\<close>, \<open>TransactionManager2PL.cpp\<close>, \<open>TxnAccess.h\<close>): a manager for each thread keeps the
  list of the records its transaction has accessed, in private copies, and writes the changed ones back when it commits.
\<close>

section \<open>Accesses\<close>

datatype AccessType = READ_ONLY | READ_WRITE | INSERT_ONLY | DELETE_ONLY

record Access =
  ac_access_type :: AccessType
  ac_access_record :: Record
  ac_access_addr :: GlobalAddress

definition kMaxAccessLimit :: nat where "kMaxAccessLimit = 256"
definition kTryLockLimit :: nat where "kTryLockLimit = 1"

text \<open>The manager's list of accesses. A procedure holds a pointer to the record of an access, which is its position here.\<close>

type_synonym access_list = "Access list"

definition NewAccess :: "Access \<Rightarrow> access_list \<Rightarrow> access_list outcome" where
  "NewAccess a al = (if length al < kMaxAccessLimit then Returned (al @ [a]) else Aborts)"

section \<open>Locks\<close>

text \<open>The loop tries a lock until it has it or has tried as often as the limit says.\<close>

fun try_lock :: "(shared \<Rightarrow> int \<times> shared) \<Rightarrow> nat \<Rightarrow> shared \<Rightarrow> bool \<times> shared" where
  "try_lock lock 0 m = (False, m)"
| "try_lock lock (Suc n) m = (case lock m of (r, m) \<Rightarrow> if r = 0 then (True, m) else try_lock lock n m)"

definition TryWLockRecord :: "GlobalAddress \<Rightarrow> u64 \<Rightarrow> shared \<Rightarrow> bool \<times> shared" where
  "TryWLockRecord data_addr schema_size m = try_lock (Try_WLock data_addr (unat schema_size)) kTryLockLimit m"

definition TryRLockRecord :: "GlobalAddress \<Rightarrow> u64 \<Rightarrow> shared \<Rightarrow> bool \<times> shared" where
  "TryRLockRecord data_addr schema_size m = try_lock (Try_RLock data_addr (unat schema_size)) kTryLockLimit m"

definition UnLockRecord :: "GlobalAddress \<Rightarrow> u64 \<Rightarrow> shared \<Rightarrow> shared" where
  "UnLockRecord data_addr schema_size m = UnLock data_addr (unat schema_size) m"

section \<open>Operations\<close>

text \<open>\<open>AbortTransaction\<close>. To free memory changes nothing.\<close>

fun abort_accesses :: "access_list \<Rightarrow> shared \<Rightarrow> shared outcome" where
  "abort_accesses [] m = Returned m"
| "abort_accesses (a # al) m =
     (let m = UnLockRecord (ac_access_addr a) (GetSchemaSize (rec_schema (ac_access_record a))) m in
      if ac_access_type a = INSERT_ONLY
      then outcome_bind (SetVisible False (ac_access_record a)) (\<lambda>_. abort_accesses al m)
      else abort_accesses al m)"

definition AbortTransaction :: "access_list \<Rightarrow> shared \<Rightarrow> (access_list \<times> shared) outcome" where
  "AbortTransaction al m = outcome_bind (abort_accesses al m) (\<lambda>m. Returned ([], m))"

text \<open>\<open>SelectRecordCC\<close>. \<open>heap\<close> is what the bytes of a new record happen to hold.\<close>

definition SelectRecordCC :: "(nat \<Rightarrow> u8) \<Rightarrow> RecordSchema \<Rightarrow> GlobalAddress \<Rightarrow> AccessType \<Rightarrow> access_list \<Rightarrow> shared \<Rightarrow>
    (bool \<times> access_list \<times> shared) outcome" where
  "SelectRecordCC heap sc data_addr access_type al m =
     (let (lock_success, m) = (if access_type = READ_ONLY then TryRLockRecord data_addr (GetSchemaSize sc) m
                               else TryWLockRecord data_addr (GetSchemaSize sc) m) in
      if lock_success
      then (let r = record_Deserialize data_addr (new_Record sc heap) m in
            outcome_bind (if access_type = DELETE_ONLY then SetVisible False r else Returned r) (\<lambda>r.
            outcome_bind (NewAccess \<lparr>ac_access_type = access_type, ac_access_record = r, ac_access_addr = data_addr\<rparr> al) (\<lambda>al.
            Returned (True, al, m))))
      else outcome_bind (AbortTransaction al m) (\<lambda>(al, m). Returned (False, al, m)))"

text \<open>\<open>SearchRecord\<close>. A key without a record is reported and nothing else happens.\<close>

definition txn_SearchRecord :: "(nat \<Rightarrow> u8) \<Rightarrow> Table list \<Rightarrow> nat \<Rightarrow> u64 \<Rightarrow> AccessType \<Rightarrow> access_list \<Rightarrow> shared \<Rightarrow>
    (bool \<times> access_list \<times> shared) outcome option" where
  "txn_SearchRecord heap tables table_id primary_key access_type al m =
     (if length tables \<le> table_id then Some Aborts
      else map_option (\<lambda>r. outcome_bind r (\<lambda>data_addr.
             if \<not> ga_eq data_addr Null then SelectRecordCC heap (tb_schema (tables ! table_id)) data_addr access_type al m
             else Returned (False, al, m)))
           (Table_SearchRecord primary_key (tables ! table_id) m))"

text \<open>\<open>InsertRecord\<close> takes no notice of the keys.\<close>

definition txn_InsertRecord :: "Table list \<Rightarrow> nat \<Rightarrow> u64 list \<Rightarrow> Record \<Rightarrow> GlobalAddress \<Rightarrow> access_list \<Rightarrow> shared \<Rightarrow>
    (bool \<times> access_list \<times> shared) outcome" where
  "txn_InsertRecord tables table_id keys r data_addr al m =
     (if length tables \<le> table_id then Aborts
      else let (lock_success, m) = TryWLockRecord data_addr (GetSchemaSize (tb_schema (tables ! table_id))) m in
        if \<not> lock_success then Aborts
        else outcome_bind (SetVisible True r) (\<lambda>r.
             outcome_bind (NewAccess \<lparr>ac_access_type = INSERT_ONLY, ac_access_record = r, ac_access_addr = data_addr\<rparr> al) (\<lambda>al.
             Returned (True, al, m))))"

text \<open>\<open>CommitTransaction\<close>: the records read for writing or deletion are written back; then the list is cleared.\<close>

fun commit_accesses :: "access_list \<Rightarrow> shared \<Rightarrow> shared" where
  "commit_accesses [] m = m"
| "commit_accesses (a # al) m =
     (let r = ac_access_record a;
          m = (if ac_access_type a = READ_WRITE then record_Serialize (ac_access_addr a) r m
               else if ac_access_type a = DELETE_ONLY then record_Serialize (ac_access_addr a) r m else m)
      in commit_accesses al (UnLockRecord (ac_access_addr a) (GetSchemaSize (rec_schema r)) m))"

definition CommitTransaction :: "access_list \<Rightarrow> shared \<Rightarrow> access_list \<times> shared" where
  "CommitTransaction al m = ([], commit_accesses al m)"

section \<open>What a procedure does in a transaction\<close>

text \<open>The calls of a stored procedure between its start and its commit. \<open>Change\<close> sets a column of the record of an access.\<close>

datatype txn_op =
    Search nat u64 AccessType
  | Insert nat "u64 list" Record GlobalAddress
  | Change nat u64 "u8 list"

definition txn_step :: "(nat \<Rightarrow> u8) \<Rightarrow> Table list \<Rightarrow> txn_op \<Rightarrow> access_list \<Rightarrow> shared \<Rightarrow> (bool \<times> access_list \<times> shared) outcome option" where
  "txn_step heap tables op al m =
     (case op of
        Search table_id key ty \<Rightarrow> txn_SearchRecord heap tables table_id key ty al m
      | Insert table_id keys r addr \<Rightarrow> Some (txn_InsertRecord tables table_id keys r addr al m)
      | Change i col bs \<Rightarrow>
          (if length al \<le> i then Some Aborts
           else Some (outcome_bind (SetColumn col bs (ac_access_record (al ! i))) (\<lambda>r.
                  Returned (True, al[i := (al ! i)\<lparr>ac_access_record := r\<rparr>], m)))))"

text \<open>The macro \<open>DB_QUERY\<close>: a call that fails ends the procedure, which does not abort the transaction.\<close>

fun run_txn :: "(nat \<Rightarrow> u8) \<Rightarrow> Table list \<Rightarrow> txn_op list \<Rightarrow> access_list \<Rightarrow> shared \<Rightarrow> (bool \<times> access_list \<times> shared) outcome option" where
  "run_txn heap tables [] al m = Some (Returned (True, CommitTransaction al m))"
| "run_txn heap tables (op # ops) al m =
     (case txn_step heap tables op al m of
        None \<Rightarrow> None
      | Some (Returned (ok, al, m)) \<Rightarrow> if ok then run_txn heap tables ops al m else Some (Returned (False, al, m))
      | Some Waits \<Rightarrow> Some Waits | Some Hangs \<Rightarrow> Some Hangs | Some Aborts \<Rightarrow> Some Aborts)"

end
