(* ===== verification/Db_Schema_Proof.thy ===== *)
theory Db_Schema_Proof
  imports Db_Schema
begin

text \<open>
  The columns of a record are apart and fill it, so that setting one leaves the others alone.
\<close>

section \<open>Offsets\<close>

definition sizes :: "ColumnInfo list \<Rightarrow> nat list" where "sizes cols = map (unat \<circ> column_size) cols"

definition total :: "ColumnInfo list \<Rightarrow> nat" where "total cols = sum_list (sizes cols)"

lemma total_simps [simp]: "total [] = 0" "total (c # cs) = unat (column_size c) + total cs" "total (xs @ ys) = total xs + total ys"
  by (simp_all add: total_def sizes_def)

lemma total_take_Suc: "i < length cs \<Longrightarrow> total (take (Suc i) cs) = total (take i cs) + unat (column_size (cs ! i))"
  by (simp add: take_Suc_conv_app_nth)

lemma total_take_mono: "i \<le> j \<Longrightarrow> total (take i cs) \<le> total (take j cs)"
  by (metis le_add1 le_add_diff_inverse take_add total_simps(3))

lemma total_take_le: "total (take i cs) \<le> total cs"
  by (metis append_take_drop_id le_add1 total_simps(3))

lemma total_between: "i < j \<Longrightarrow> i < length cs \<Longrightarrow> total (take i cs) + unat (column_size (cs ! i)) \<le> total (take j cs)"
  using total_take_mono [of "Suc i" j cs] by (simp add: total_take_Suc)

definition schema_ok :: "RecordSchema \<Rightarrow> bool" where
  "schema_ok sc \<longleftrightarrow> unat (rs_column_count sc) = length (rs_columns sc) \<and> unat (rs_column_offset sc) = total (rs_columns sc)
     \<and> (\<forall>i<length (rs_columns sc). unat (column_offset (rs_columns sc ! i)) = total (take i (rs_columns sc)))"

lemma insert_columns_ok:
  assumes "unat (rs_column_offset sc) = total (rs_columns sc)"
    and "\<forall>i<length (rs_columns sc). unat (column_offset (rs_columns sc ! i)) = total (take i (rs_columns sc))"
    and "total (rs_columns sc) + total cols < 2 ^ 64"
  shows "let sc' = insert_columns cols sc in
      unat (rs_column_offset sc') = total (rs_columns sc')
      \<and> (\<forall>i<length (rs_columns sc'). unat (column_offset (rs_columns sc' ! i)) = total (take i (rs_columns sc')))
      \<and> sizes (rs_columns sc') = sizes (rs_columns sc) @ sizes cols \<and> rs_column_count sc' = rs_column_count sc"
  using assms
proof (induction cols sc rule: insert_columns.induct)
  case (2 c cs sc)
  let ?sc = "sc\<lparr>rs_columns := rs_columns sc @ [c\<lparr>column_offset := rs_column_offset sc\<rparr>],
      rs_column_offset := rs_column_offset sc + column_size c\<rparr>"
  have "unat (rs_column_offset sc + column_size c) = total (rs_columns sc) + unat (column_size c)"
    using 2(2,4) by (simp add: unat_plus_if')
  then have off: "unat (rs_column_offset ?sc) = total (rs_columns ?sc)" by simp
  have each: "\<forall>i<length (rs_columns ?sc). unat (column_offset (rs_columns ?sc ! i)) = total (take i (rs_columns ?sc))"
    using 2(2,3) by (auto simp: nth_append less_Suc_eq)
  have "total (rs_columns ?sc) + total cs < 2 ^ 64" using 2(4) by simp
  from 2(1) [OF off each this] show ?case by (simp add: Let_def sizes_def)
qed (simp add: sizes_def)

lemma InsertColumns_ok:
  assumes "InsertColumns cols (new_RecordSchema table_id) = Returned sc" "total cols < 2 ^ 64"
  shows "schema_ok sc" "sizes (rs_columns sc) = sizes cols" "length (rs_columns sc) = length cols" "length cols \<le> 32"
proof -
  let ?sc = "(new_RecordSchema table_id)\<lparr>rs_column_count := of_nat (length cols), rs_columns := []\<rparr>"
  have l: "length cols \<le> 32" and sc: "sc = insert_columns cols ?sc"
    using assms(1) by (simp_all add: InsertColumns_def kMaxColumnNum_def split: if_splits)
  have k: "unat (rs_column_offset sc) = total (rs_columns sc)"
    "\<forall>i<length (rs_columns sc). unat (column_offset (rs_columns sc ! i)) = total (take i (rs_columns sc))"
    "sizes (rs_columns sc) = sizes cols" "rs_column_count sc = of_nat (length cols)"
    using insert_columns_ok [of ?sc cols] assms(2) by (simp_all add: Let_def sc new_RecordSchema_def sizes_def)
  show "sizes (rs_columns sc) = sizes cols" by (rule k(3))
  then show len: "length (rs_columns sc) = length cols" by (metis length_map sizes_def)
  show "length cols \<le> 32" by (rule l)
  have "unat (of_nat (length cols) :: u64) = length cols" using l by (simp add: unsigned_of_nat take_bit_nat_eq_self)
  then show "schema_ok sc" using k len by (simp add: schema_ok_def)
qed

lemma nat_of_unat: "of_nat (unat u) = (u :: u64)"
  by simp

section \<open>Columns of a record\<close>

definition record_ok :: "Record \<Rightarrow> bool" where
  "record_ok r \<longleftrightarrow> schema_ok (rec_schema r) \<and> length (rec_data r) = total (rs_columns (rec_schema r))"

abbreviation column_count :: "Record \<Rightarrow> nat" where "column_count r \<equiv> length (rs_columns (rec_schema r))"
abbreviation offset_of :: "Record \<Rightarrow> nat \<Rightarrow> nat" where "offset_of r i \<equiv> total (take i (rs_columns (rec_schema r)))"
abbreviation size_of :: "Record \<Rightarrow> nat \<Rightarrow> nat" where "size_of r i \<equiv> unat (column_size (rs_columns (rec_schema r) ! i))"

lemma column_lookup:
  assumes "record_ok r" "unat i < column_count r"
  obtains off sz where "GetColumnOffset (rec_schema r) i = Returned off" "unat off = offset_of r (unat i)"
    "GetColumnSize (rec_schema r) i = Returned sz" "unat sz = size_of r (unat i)"
    "offset_of r (unat i) + size_of r (unat i) \<le> length (rec_data r)"
proof -
  have "i < rs_column_count (rec_schema r)" using assms by (simp add: record_ok_def schema_ok_def word_less_nat_alt)
  moreover have "offset_of r (unat i) + size_of r (unat i) \<le> length (rec_data r)"
    using assms total_between [of "unat i" "column_count r" "rs_columns (rec_schema r)"] by (simp add: record_ok_def)
  ultimately show thesis
    using that assms by (simp add: GetColumnOffset_def GetColumnSize_def record_ok_def schema_ok_def)
qed

lemma GetColumn_eq:
  assumes "record_ok r" "unat i < column_count r"
  shows "GetColumn i r = Returned (take (size_of r (unat i)) (drop (offset_of r (unat i)) (rec_data r)))"
  by (rule column_lookup [OF assms]) (simp add: GetColumn_def outcome_bind_def)

lemma SetColumn_eq:
  assumes "record_ok r" "unat i < column_count r" "size_of r (unat i) \<le> length bs"
  shows "SetColumn i bs r = Returned (r\<lparr>rec_data := take (offset_of r (unat i)) (rec_data r) @ take (size_of r (unat i)) bs
      @ drop (offset_of r (unat i) + size_of r (unat i)) (rec_data r)\<rparr>)"
  by (rule column_lookup [OF assms(1,2)]) (use assms(3) in \<open>simp add: SetColumn_def outcome_bind_def put_bytes_def min_def\<close>)

lemma take_drop_put:
  assumes "length xs = n" "off + k \<le> n" "length bs = k" "o' + k' \<le> off \<or> off + k \<le> o'"
  shows "take k' (drop o' (take off xs @ bs @ drop (off + k) xs)) = take k' (drop o' xs)"
proof (cases "o' + k' \<le> off")
  case True
  then show ?thesis using assms by (intro nth_equalityI) (auto simp: nth_append)
next
  case False
  then have "off + k \<le> o'" using assms(4) by simp
  then show ?thesis using assms by (simp add: drop_append drop_drop)
qed

lemma SetColumn_GetColumn:
  assumes r: "record_ok r" and i: "unat i < column_count r" and bs: "size_of r (unat i) \<le> length bs" and j: "unat j < column_count r"
  obtains r' where "SetColumn i bs r = Returned r'" "record_ok r'" "rec_schema r' = rec_schema r"
    "GetColumn j r' = (if j = i then Returned (take (size_of r (unat i)) bs) else GetColumn j r)"
proof -
  let ?o = "offset_of r (unat i)" and ?k = "size_of r (unat i)"
  let ?r = "r\<lparr>rec_data := take ?o (rec_data r) @ take ?k bs @ drop (?o + ?k) (rec_data r)\<rparr>"
  have fit: "?o + ?k \<le> length (rec_data r)" by (rule column_lookup [OF r i]) simp
  then have ok: "record_ok ?r" using r bs by (simp add: record_ok_def)
  have "GetColumn j ?r = (if j = i then Returned (take ?k bs) else GetColumn j r)"
  proof (cases "j = i")
    case True
    then show ?thesis using GetColumn_eq [OF ok, of i] i fit bs by simp
  next
    case False
    then have ne: "unat i < unat j \<or> unat j < unat i" by (metis nat_neq_iff word_unat_eq_iff)
    have "offset_of r (unat j) + size_of r (unat j) \<le> ?o \<or> ?o + ?k \<le> offset_of r (unat j)"
      using ne total_between [of "unat i" "unat j" "rs_columns (rec_schema r)"] total_between [of "unat j" "unat i" "rs_columns (rec_schema r)"] i j
      by blast
    then have "take (size_of r (unat j)) (drop (offset_of r (unat j)) (rec_data ?r))
        = take (size_of r (unat j)) (drop (offset_of r (unat j)) (rec_data r))"
      using take_drop_put [OF refl fit, of "take ?k bs"] bs by simp
    then show ?thesis using GetColumn_eq [OF ok, of j] GetColumn_eq [OF r j] j False by simp
  qed
  then show thesis using that SetColumn_eq [OF r i bs] ok by simp
qed

lemma new_Record_ok: "schema_ok sc \<Longrightarrow> record_ok (new_Record sc heap)"
  by (simp add: record_ok_def new_Record_def schema_ok_def)

lemma record_roundtrip:
  assumes "record_ok r" "in_range a (length (rec_data r))" "rec_schema r0 = rec_schema r"
  shows "record_Deserialize a r0 (record_Serialize a r m) = r"
  using Read_Write_same [OF assms(2), of m] assms(1,3) by (cases r; cases r0) (simp add: record_Deserialize_def record_Serialize_def record_ok_def schema_ok_def)

text \<open>(C20) The columns of a record do not overlap. For a schema made of any columns whose sizes add up to less than \<open>2 ^ 64\<close>, a new
  record has a value in each column; \<open>SetColumn\<close> with enough bytes succeeds, \<open>GetColumn\<close> then returns them, and
  every other column has the value it had. If the last column is a \<open>META\<close> column, \<open>GetVisible\<close> returns what
  \<open>SetVisible\<close> set. A record written to the shared memory and read back is the same record.\<close>

theorem record_columns:
  assumes sc: "InsertColumns cols (new_RecordSchema table_id) = Returned sc" "total cols < 2 ^ 64"
    and r: "rec_schema r = sc" "length (rec_data r) = unat (GetSchemaSize sc)"
    and ij: "i < length cols" "j < length cols" and bs: "unat (column_size (cols ! i)) \<le> length bs"
  shows "(\<exists>r'. SetColumn (of_nat i) bs r = Returned r' \<and> rec_schema r' = sc \<and> length (rec_data r') = unat (GetSchemaSize sc)
      \<and> GetColumn (of_nat j) r' = (if j = i then Returned (take (unat (column_size (cols ! i))) bs) else GetColumn (of_nat j) r))
    \<and> (\<exists>v. GetColumn (of_nat j) r = Returned v \<and> length v = unat (column_size (cols ! j)))
    \<and> (column_size (last cols) = 1 \<longrightarrow> (\<exists>r'. SetVisible val r = Returned r' \<and> GetVisible r' = Returned val))
    \<and> (in_range a (length (rec_data r)) \<longrightarrow> record_Deserialize a (new_Record sc heap) (record_Serialize a r m) = r)"
proof -
  note k = InsertColumns_ok [OF sc]
  have ok: "record_ok r" using k(1) r by (simp add: record_ok_def schema_ok_def)
  have u: "unat (of_nat n :: u64) = n" if "n < length cols" for n using that k(4) by (simp add: unsigned_of_nat take_bit_nat_eq_self)
  have cc: "column_count r = length cols" using k(3) r(1) by simp
  have sz: "size_of r n = unat (column_size (cols ! n))" if "n < length cols" for n
    using arg_cong [OF k(2), of "\<lambda>l. l ! n"] that k(3) r(1) by (simp add: sizes_def)
  obtain r' where r': "SetColumn (of_nat i) bs r = Returned r'" "record_ok r'" "rec_schema r' = rec_schema r"
    "GetColumn (of_nat j) r' = (if of_nat j = (of_nat i :: u64) then Returned (take (size_of r (unat (of_nat i :: u64))) bs) else GetColumn (of_nat j) r)"
    by (rule SetColumn_GetColumn [OF ok, of "of_nat i" bs "of_nat j"]) (use ij bs u cc sz in auto)
  have eq: "of_nat j = (of_nat i :: u64) \<longleftrightarrow> j = i" using u ij by metis
  have 1: "\<exists>r'. SetColumn (of_nat i) bs r = Returned r' \<and> rec_schema r' = sc \<and> length (rec_data r') = unat (GetSchemaSize sc)
      \<and> GetColumn (of_nat j) r' = (if j = i then Returned (take (unat (column_size (cols ! i))) bs) else GetColumn (of_nat j) r)"
    using r' eq u ij sz r k(1) by (auto simp: record_ok_def schema_ok_def)
  obtain off s where "offset_of r j + size_of r j \<le> length (rec_data r)"
    by (rule column_lookup [OF ok, of "of_nat j"]) (use u ij cc in auto)
  then have 2: "\<exists>v. GetColumn (of_nat j) r = Returned v \<and> length v = unat (column_size (cols ! j))"
    using GetColumn_eq [OF ok, of "of_nat j"] u ij cc sz by simp
  have 3: "\<exists>r'. SetVisible val r = Returned r' \<and> GetVisible r' = Returned val" if last: "column_size (last cols) = 1"
  proof -
    let ?l = "length cols - 1"
    have l: "?l < length cols" using ij by simp
    have "unat (rs_column_count sc) = length cols" using k(1,3) by (simp add: schema_ok_def)
    then have "rs_column_count sc = of_nat (length cols)" by (metis nat_of_unat)
    then have meta: "GetMetaColumnId sc = of_nat ?l" using ij by (simp add: GetMetaColumnId_def of_nat_diff)
    have one: "size_of r ?l = 1" using sz [OF l] last last_conv_nth [of cols] ij by fastforce
    obtain r' where r': "SetColumn (of_nat ?l) [of_bool val] r = Returned r'" "rec_schema r' = rec_schema r"
      "GetColumn (of_nat ?l) r' = Returned [of_bool val]"
      by (rule SetColumn_GetColumn [OF ok, of "of_nat ?l" "[of_bool val]" "of_nat ?l"]) (use u [OF l] l cc one in auto)
    obtain v where "GetColumn (of_nat ?l) r = Returned v" "length v = 1"
      using GetColumn_eq [OF ok, of "of_nat ?l"] u [OF l] l cc one column_lookup [OF ok, of "of_nat ?l"] by fastforce
    then show ?thesis using r' meta r(1) by (auto simp: SetVisible_def GetVisible_def outcome_bind_def)
  qed
  have 4: "record_Deserialize a (new_Record sc heap) (record_Serialize a r m) = r" if "in_range a (length (rec_data r))"
    by (rule record_roundtrip [OF ok that]) (simp add: new_Record_def r(1))
  show ?thesis using 1 2 3 4 by blast
qed

text \<open>An account: a number of eight bytes, a name of sixteen, and the visibility.\<close>

definition account_columns :: "ColumnInfo list" where
  "account_columns = map (\<lambda>(ty, sz). \<lparr>column_name = replicate 16 0, column_type = type_no ty, column_size = sz, column_offset = 0\<rparr>)
     [(V_INT64, 8), (V_VARCHAR, 16), (V_META, 1)]"

definition account_schema :: RecordSchema where
  "account_schema = insert_columns account_columns ((new_RecordSchema 1)\<lparr>rs_column_count := 3, rs_columns := []\<rparr>)"

definition account :: Record where "account = new_Record account_schema (\<lambda>i. of_nat i)"

lemma account: "InsertColumns account_columns (new_RecordSchema 1) = Returned account_schema" "total account_columns < 2 ^ 64"
    "GetSchemaSize account_schema = 25" "rec_schema account = account_schema" "length (rec_data account) = unat (GetSchemaSize account_schema)"
    "length account_columns = 3" "column_size (account_columns ! 0) = 8" "column_size (account_columns ! 1) = 16"
  by (simp_all add: InsertColumns_def account_columns_def account_schema_def kMaxColumnNum_def new_RecordSchema_def account_def new_Record_def)

theorem record_columns_witness:
  "(\<exists>r'. SetColumn 0 [9, 8, 7, 6, 5, 4, 3, 2] account = Returned r' \<and> GetColumn 0 r' = Returned [9, 8, 7, 6, 5, 4, 3, 2])
     \<and> (\<exists>v. GetColumn 0 account = Returned v \<and> length v = 8) \<and> (\<exists>r'. SetVisible True account = Returned r' \<and> GetVisible r' = Returned True)"
proof -
  note m = record_columns [OF account(1,2,4,5), of 0 0 "[9, 8, 7, 6, 5, 4, 3, 2]" True Null]
  have "\<exists>r'. SetColumn 0 [9, 8, 7, 6, 5, 4, 3, 2] account = Returned r' \<and> GetColumn 0 r' = Returned [9, 8, 7, 6, 5, 4, 3, 2]"
    using m account(6,7) by auto
  moreover have "\<exists>v. GetColumn 0 account = Returned v \<and> length v = 8" using m account(6,7) by auto
  moreover have "\<exists>r'. SetVisible True account = Returned r' \<and> GetVisible r' = Returned True"
    using m account(6,7) by (auto simp: account_columns_def)
  ultimately show ?thesis by blast
qed

end
