(* ===== verification/Db_Bucket_Proof.thy ===== *)
theory Db_Bucket_Proof
  imports Db_Bucket
begin

text \<open>
  The lists of a bucket in the shared memory and what the operations do to them: insertion and search are those of an
  association list, on every branch.
\<close>

section \<open>Layouts\<close>

lemma sizes [simp]: "sizeof_Items = 48" "sizeof_BucketNode = 32"
  by (simp_all add: sizeof_Items_def sizeof_BucketNode_def)

lemma length_structs [simp]: "length (items_bytes it) = 48" "length (node_bytes nd) = 32"
  by (simp_all add: items_bytes_def node_bytes_def)

lemma items_roundtrip: "length (it_record_ptrs it) = 2 \<Longrightarrow> items_of_bytes (items_bytes it) = it"
  by (cases "it_record_ptrs it"; cases "tl (it_record_ptrs it)")
    (auto simp: items_bytes_def items_of_bytes_def of_bytes_bytes_of intro!: Items.equality)

lemma node_roundtrip [simp]: "node_of_bytes (node_bytes nd) = nd"
  by (simp add: node_bytes_def node_of_bytes_def of_bytes_bytes_of)

lemma length_ptrs [simp]: "length (it_record_ptrs (read_items a m)) = 2"
  by (simp add: read_items_def items_of_bytes_def)

lemma read_items_same: "in_range a 48 \<Longrightarrow> length (it_record_ptrs it) = 2 \<Longrightarrow> read_items a (Write a (items_bytes it) m) = it"
  using Read_Write_same [of a "items_bytes it" m] by (simp add: read_items_def items_roundtrip)

lemma read_node_same: "in_range a 32 \<Longrightarrow> read_node a (Write a (node_bytes nd) m) = nd"
  using Read_Write_same [of a "node_bytes nd" m] by (simp add: read_node_def)

lemma read_items_other: "in_range a 48 \<Longrightarrow> area a 48 \<inter> area b (length bs) = {} \<Longrightarrow> read_items a (Write b bs m) = read_items a m"
  by (simp add: read_items_def Read_Write_other)

lemma read_node_other: "in_range a 32 \<Longrightarrow> area a 32 \<inter> area b (length bs) = {} \<Longrightarrow> read_node a (Write b bs m) = read_node a m"
  by (simp add: read_node_def Read_Write_other)

section \<open>Memories that agree on some bytes\<close>

definition same_on :: "(u8 \<times> nat) set \<Rightarrow> shared \<Rightarrow> shared \<Rightarrow> bool" where
  "same_on U m m' \<longleftrightarrow> (\<forall>x. (ga_nodeID x, unat (ga_addr x)) \<in> U \<longrightarrow> m' x = m x)"

lemma same_on_Write: "U \<inter> area a (length bs) = {} \<Longrightarrow> same_on U m m' \<Longrightarrow> same_on U m (Write a bs m')"
  by (fastforce simp: same_on_def Write_def written_def covers_def area_def)

lemma same_on_refl [simp]: "same_on U m m"
  by (simp add: same_on_def)

lemma same_on_trans: "same_on U m m' \<Longrightarrow> same_on U m' m'' \<Longrightarrow> same_on U m m''"
  by (simp add: same_on_def)

lemma same_on_mono: "same_on U m m' \<Longrightarrow> V \<subseteq> U \<Longrightarrow> same_on V m m'"
  by (auto simp: same_on_def)

lemma Read_same_on: "in_range a n \<Longrightarrow> same_on (area a n) m m' \<Longrightarrow> Read a n m' = Read a n m"
  by (rule nth_equalityI) (auto simp: same_on_def nth_Read step_addr_simps area_def)

section \<open>Lists in memory\<close>

type_synonym blocks = "(GlobalAddress \<times> GlobalAddress list) list"
type_synonym nodes = "(GlobalAddress \<times> u64 \<times> blocks) list"

definition holds_ptrs :: "Items \<Rightarrow> GlobalAddress list \<Rightarrow> bool" where
  "holds_ptrs it ps \<longleftrightarrow> ps \<noteq> [] \<and> length ps \<le> 2 \<and> it_record_ptrs_count it = of_nat (length ps) \<and> take (length ps) (it_record_ptrs it) = ps"

fun items_at :: "shared \<Rightarrow> GlobalAddress \<Rightarrow> blocks \<Rightarrow> bool" where
  "items_at m a [] \<longleftrightarrow> is_null a"
| "items_at m a ((b, ps) # bs) \<longleftrightarrow> a = b \<and> \<not> is_null b \<and> in_range b 48 \<and> holds_ptrs (read_items b m) ps
     \<and> items_at m (it_next (read_items b m)) bs"

fun nodes_at :: "shared \<Rightarrow> GlobalAddress \<Rightarrow> nodes \<Rightarrow> bool" where
  "nodes_at m a [] \<longleftrightarrow> is_null a"
| "nodes_at m a ((b, key, bs) # ns) \<longleftrightarrow> a = b \<and> \<not> is_null b \<and> in_range b 32 \<and> bn_key (read_node b m) = key \<and> bs \<noteq> []
     \<and> items_at m (bn_items_list (read_node b m)) bs \<and> nodes_at m (bn_next (read_node b m)) ns"

definition block_areas :: "blocks \<Rightarrow> (u8 \<times> nat) set list" where
  "block_areas bs = map (\<lambda>(b, _). area b 48) bs"

fun areas :: "nodes \<Rightarrow> (u8 \<times> nat) set list" where
  "areas [] = []"
| "areas ((b, key, bs) # ns) = area b 32 # block_areas bs @ areas ns"

abbreviation apart :: "'a set list \<Rightarrow> bool" where "apart \<equiv> sorted_wrt (\<lambda>A B. A \<inter> B = {})"

lemma areas_append [simp]: "areas (xs @ ys) = areas xs @ areas ys"
  by (induction xs rule: areas.induct) simp_all

lemma block_areas_simps [simp]: "block_areas [] = []" "block_areas ((b, ps) # bs) = area b 48 # block_areas bs"
  by (simp_all add: block_areas_def)

lemma read_items_on: "in_range a 48 \<Longrightarrow> same_on (area a 48) m m' \<Longrightarrow> read_items a m' = read_items a m"
  using Read_same_on [of a 48] by (simp add: read_items_def)

lemma read_node_on: "in_range a 32 \<Longrightarrow> same_on (area a 32) m m' \<Longrightarrow> read_node a m' = read_node a m"
  using Read_same_on [of a 32] by (simp add: read_node_def)

lemma items_at_on: "items_at m a bs \<Longrightarrow> same_on (\<Union> (set (block_areas bs))) m m' \<Longrightarrow> items_at m' a bs"
proof (induction m a bs rule: items_at.induct)
  case (2 m a b ps bs)
  have "read_items b m' = read_items b m" using 2(2) by (intro read_items_on [OF _ same_on_mono [OF 2(3)]]) auto
  moreover have "items_at m' (it_next (read_items b m)) bs" using 2(2) by (intro 2(1) [OF _ same_on_mono [OF 2(3)]]) auto
  ultimately show ?case using 2(2) by simp
qed simp

lemma nodes_at_on: "nodes_at m a ns \<Longrightarrow> same_on (\<Union> (set (areas ns))) m m' \<Longrightarrow> nodes_at m' a ns"
proof (induction m a ns rule: nodes_at.induct)
  case (2 m a b key bs ns)
  have "read_node b m' = read_node b m" using 2(2) by (intro read_node_on [OF _ same_on_mono [OF 2(3)]]) auto
  moreover have "items_at m' (bn_items_list (read_node b m)) bs" using 2(2) by (intro items_at_on [OF _ same_on_mono [OF 2(3)]]) auto
  moreover have "nodes_at m' (bn_next (read_node b m)) ns" using 2(2) by (intro 2(1) [OF _ same_on_mono [OF 2(3)]]) auto
  ultimately show ?case using 2(2) by simp
qed simp

section \<open>Search\<close>

text \<open>The node of a key and the address before it.\<close>

fun locate :: "u64 \<Rightarrow> GlobalAddress \<Rightarrow> nodes \<Rightarrow> GlobalAddress \<times> GlobalAddress option" where
  "locate key prev [] = (prev, None)"
| "locate key prev ((b, k, bs) # ns) = (if k = key then (prev, Some b) else locate key b ns)"

lemma find_node_locate:
  assumes "nodes_at m a ns"
  shows "case locate key prev ns of
      (p, Some b) \<Rightarrow> find_node key prev a nd m = Some (p, b, read_node b m)
    | (p, None) \<Rightarrow> \<exists>c nd'. find_node key prev a nd m = Some (p, c, nd') \<and> is_null c"
  using assms
proof (induction ns arbitrary: prev a nd)
  case Nil
  then show ?case by (subst find_node.simps) simp
next
  case (Cons n ns)
  obtain b k bs where n: "n = (b, k, bs)" by (cases n) auto
  have a: "a = b" "\<not> is_null b" "bn_key (read_node b m) = k" using Cons.prems n by simp_all
  have step: "find_node key prev a nd m =
      (if k = key then Some (prev, b, read_node b m) else find_node key b (bn_next (read_node b m)) (read_node b m) m)"
    using a by (subst find_node.simps) simp
  show ?case
  proof (cases "k = key")
    case True
    then show ?thesis using step n by simp
  next
    case False
    then show ?thesis using Cons.IH [where a = "bn_next (read_node b m)" and prev = b and nd = "read_node b m"] Cons.prems step n
      by (auto split: prod.splits option.splits)
  qed
qed

definition keys :: "nodes \<Rightarrow> u64 list" where "keys ns = map (fst \<circ> snd) ns"

lemma locate_None: "snd (locate key prev ns) = None \<longleftrightarrow> key \<notin> set (keys ns)"
  by (induction key prev ns rule: locate.induct) (auto simp: keys_def)

lemma locate_last: "snd (locate key prev ns) = None \<Longrightarrow> fst (locate key prev ns) = last (prev # map fst ns)"
  by (induction key prev ns rule: locate.induct) (auto split: if_splits)

text \<open>The nodes as an association list.\<close>

definition contents :: "nodes \<Rightarrow> (u64 \<times> blocks) list" where "contents ns = map snd ns"

lemma located:
  assumes "nodes_at m a ns" "locate key prev ns = (p, Some b)"
  shows "\<exists>bs. map_of (contents ns) key = Some bs \<and> items_at m (bn_items_list (read_node b m)) bs \<and> bs \<noteq> []
     \<and> bn_key (read_node b m) = key \<and> \<not> is_null b"
  using assms
proof (induction key prev ns arbitrary: a rule: locate.induct)
  case (2 key prev b' k bs ns)
  then show ?case by (cases "k = key") (auto simp: contents_def)
qed simp

lemma SearchNode_list:
  assumes "nodes_at m head ns"
  shows "case map_of (contents ns) key of
      None \<Rightarrow> SearchNode key head m = Some None
    | Some bs \<Rightarrow> \<exists>a. SearchNode key head m = Some (Some a) \<and> items_at m a bs \<and> bs \<noteq> []"
proof (cases "locate key Null ns")
  case (Pair p r)
  show ?thesis
  proof (cases r)
    case None
    then have "map_of (contents ns) key = None"
      using locate_None [of key Null ns] Pair by (simp add: map_of_eq_None_iff keys_def contents_def image_image comp_def)
    then show ?thesis using find_node_locate [OF assms, where key = key and prev = Null and nd = "BucketNode_Init 0"] Pair None
      by (auto simp: SearchNode_def)
  next
    case (Some b)
    obtain bs where "map_of (contents ns) key = Some bs" "items_at m (bn_items_list (read_node b m)) bs" "bs \<noteq> []" "\<not> is_null b"
      using located [OF assms, where key = key and prev = Null and p = p and b = b] Pair Some by blast
    then show ?thesis using find_node_locate [OF assms, where key = key and prev = Null and nd = "BucketNode_Init 0"] Pair Some
      by (auto simp: SearchNode_def)
  qed
qed

section \<open>Insertion\<close>

lemma AddRecordPtr_holds:
  assumes "holds_ptrs it ps" "length (it_record_ptrs it) = 2"
  shows "length ps < 2 \<Longrightarrow> \<exists>it'. AddRecordPtr r it = Some (True, it') \<and> holds_ptrs it' (ps @ [r]) \<and> it_next it' = it_next it
      \<and> length (it_record_ptrs it') = 2"
    and "\<not> length ps < 2 \<Longrightarrow> AddRecordPtr r it = Some (False, it)"
proof -
  have c: "it_record_ptrs_count it = of_nat (length ps)" "take (length ps) (it_record_ptrs it) = ps" "ps \<noteq> []" "length ps \<le> 2"
    using assms(1) by (simp_all add: holds_ptrs_def)
  show "AddRecordPtr r it = Some (False, it)" if "\<not> length ps < 2"
  proof -
    have "length ps = 2" using that c(4) by simp
    then show ?thesis by (simp add: AddRecordPtr_def c(1) SLOT_NUM_def)
  qed
  show "\<exists>it'. AddRecordPtr r it = Some (True, it') \<and> holds_ptrs it' (ps @ [r]) \<and> it_next it' = it_next it
      \<and> length (it_record_ptrs it') = 2" if "length ps < 2"
  proof -
    have len: "length ps = 1" using that c(3) by (cases ps) auto
    then obtain x where x: "ps = [x]" by (cases ps) auto
    obtain p q where pq: "it_record_ptrs it = [p, q]" using assms(2) by (auto simp: length_Suc_conv numeral_2_eq_2)
    then have "p = x" using c(2) x by simp
    then show ?thesis using c(1) pq x by (simp add: AddRecordPtr_def SLOT_NUM_def holds_ptrs_def numeral_2_eq_2)
  qed
qed

lemma new_block: "\<exists>it. AddRecordPtr r Items_Init = Some (True, it) \<and> holds_ptrs it [r] \<and> length (it_record_ptrs it) = 2 \<and> it_next it = Null"
  by (simp add: AddRecordPtr_def Items_Init_def SLOT_NUM_def holds_ptrs_def numeral_2_eq_2)

text \<open>The blocks of a key after one more record, if a new block is at \<open>c\<close>.\<close>

fun add_ptr :: "GlobalAddress \<Rightarrow> GlobalAddress \<Rightarrow> blocks \<Rightarrow> blocks" where
  "add_ptr c r [] = [(c, [r])]"
| "add_ptr c r ((b, ps) # bs) = (if length ps < 2 then (b, ps @ [r]) # bs else (c, [r]) # (b, ps) # bs)"

fun update_key :: "u64 \<Rightarrow> blocks \<Rightarrow> nodes \<Rightarrow> nodes" where
  "update_key key bs' [] = []"
| "update_key key bs' ((b, k, bs) # ns) = (if k = key then (b, k, bs') # ns else (b, k, bs) # update_key key bs' ns)"

lemma nodes_at_same:
  assumes "nodes_at m a ns"
    and "\<And>c k cs x. (c, k, cs) \<in> set ns \<Longrightarrow> read_node c m' = read_node c m \<and> (items_at m x cs \<longrightarrow> items_at m' x cs)"
  shows "nodes_at m' a ns"
  using assms
proof (induction ns arbitrary: a)
  case (Cons n ns)
  obtain c k cs where n: "n = (c, k, cs)" by (cases n) auto
  have "nodes_at m' (bn_next (read_node c m)) ns" using Cons.prems n by (intro Cons.IH) auto
  moreover have "read_node c m' = read_node c m" "items_at m' (bn_items_list (read_node c m)) cs"
    using Cons.prems(1) Cons.prems(2) [of c k cs] n by auto
  ultimately show ?case using Cons.prems(1) n by simp
qed simp

lemma nodes_at_update:
  assumes "nodes_at m a ns" "locate key prev ns = (p, Some b)" "distinct (map fst ns)"
    and "bn_key (read_node b m') = key" "bn_next (read_node b m') = bn_next (read_node b m)"
    and "items_at m' (bn_items_list (read_node b m')) bs'" "bs' \<noteq> []"
    and "\<And>c k cs x. (c, k, cs) \<in> set ns \<Longrightarrow> c \<noteq> b \<Longrightarrow> read_node c m' = read_node c m \<and> (items_at m x cs \<longrightarrow> items_at m' x cs)"
  shows "nodes_at m' a (update_key key bs' ns)"
  using assms
proof (induction ns arbitrary: a prev)
  case (Cons n ns)
  obtain c k cs where n: "n = (c, k, cs)" by (cases n) auto
  have rest: "nodes_at m' x ns" if "nodes_at m x ns" "b \<notin> fst ` set ns" for x
  proof (rule nodes_at_same [OF that(1)])
    fix c k cs x
    assume c: "(c, k, cs) \<in> set ns"
    then have "c \<noteq> b" using that(2) by force
    then show "read_node c m' = read_node c m \<and> (items_at m x cs \<longrightarrow> items_at m' x cs)"
      using Cons.prems(8) [of c k cs x] c by simp
  qed
  show ?case
  proof (cases "k = key")
    case True
    then have "c = b" using Cons.prems(2) n by simp
    then have "nodes_at m' (bn_next (read_node b m)) ns" using Cons.prems(1,3) n by (intro rest) auto
    then show ?thesis using Cons.prems n True \<open>c = b\<close> by simp
  next
    case False
    then have loc: "locate key c ns = (p, Some b)" using Cons.prems(2) n by simp
    then have "b \<in> set (map fst ns)" by (induction key c ns rule: locate.induct) (auto split: if_splits)
    then have "c \<noteq> b" using Cons.prems(3) n by auto
    moreover have "nodes_at m' (bn_next (read_node c m)) (update_key key bs' ns)"
      using Cons.prems n loc by (intro Cons.IH) auto
    ultimately show ?thesis using Cons.prems(1) Cons.prems(8) [of c k cs] n False by simp
  qed
qed simp

lemma nodes_at_append:
  assumes "nodes_at m a ns" "ns \<noteq> []" "\<not> is_null a'" "nodes_at m' a' zs" "l = fst (last ns)" "distinct (map fst ns)"
    and "bn_key (read_node l m') = bn_key (read_node l m)" "bn_items_list (read_node l m') = bn_items_list (read_node l m)"
    and "bn_next (read_node l m') = a'"
    and "\<And>c k cs. (c, k, cs) \<in> set ns \<Longrightarrow> (c \<noteq> l \<longrightarrow> read_node c m' = read_node c m) \<and> (\<forall>x. items_at m x cs \<longrightarrow> items_at m' x cs)"
  shows "nodes_at m' a (ns @ zs)"
  using assms
proof (induction ns arbitrary: a)
  case (Cons n ns)
  obtain c k cs where n: "n = (c, k, cs)" by (cases n) auto
  show ?case
  proof (cases "ns = []")
    case True
    then show ?thesis using Cons.prems n by auto
  next
    case False
    then have "l \<in> set (map fst ns)" using Cons.prems(5) by simp
    then have "c \<noteq> l" using Cons.prems(6) n by auto
    moreover have "nodes_at m' (bn_next (read_node c m)) (ns @ zs)"
      using Cons.prems False n by (intro Cons.IH) auto
    ultimately show ?thesis using Cons.prems(1) Cons.prems(10) [of c k cs] n by simp
  qed
qed simp

lemma apart_nodes:
  assumes "apart (areas ns)" "(b, k, bs) \<in> set ns" "(c, j, cs) \<in> set ns" "b \<noteq> c"
    and "A \<in> set (areas [(b, k, bs)])" "B \<in> set (areas [(c, j, cs)])"
  shows "A \<inter> B = {}"
proof -
  have sub: "set (areas [n]) \<subseteq> set (areas ns)" if "n \<in> set ns" for n and ns :: nodes
    using that by (induction ns rule: areas.induct) auto
  show ?thesis
    using assms
  proof (induction ns rule: areas.induct)
    case (2 b' k' bs' ns)
    have "areas ((b', k', bs') # ns) = areas [(b', k', bs')] @ areas ns" by simp
    then have ap: "apart (areas ns)" "\<forall>X \<in> set (areas [(b', k', bs')]). \<forall>Y \<in> set (areas ns). X \<inter> Y = {}"
      using "2.prems"(1) unfolding sorted_wrt_append \<open>areas _ = _\<close> by blast+
    consider "(b, k, bs) \<in> set ns" "(c, j, cs) \<in> set ns" | "(b, k, bs) = (b', k', bs')" "(c, j, cs) \<in> set ns"
      | "(b, k, bs) \<in> set ns" "(c, j, cs) = (b', k', bs')" using "2.prems"(2-4) by auto
    then show ?case
    proof cases
      case 1
      then show ?thesis using "2.IH" [OF ap(1)] "2.prems"(4-6) by blast
    next
      case 2
      then show ?thesis using ap(2) sub [OF 2(2)] "2.prems"(5,6) by blast
    next
      case 3
      then show ?thesis using ap(2) sub [OF 3(1)] "2.prems"(5,6) by blast
    qed
  qed simp
qed

lemma area_nonempty: "0 < n \<Longrightarrow> area a n \<noteq> {}"
  by (auto simp: area_def)

lemma apart_distinct: "apart (areas ns) \<Longrightarrow> distinct (map fst ns)"
proof (induction ns rule: areas.induct)
  case (2 b k bs ns)
  have "area c 32 \<in> set (areas ns)" if "c \<in> set (map fst ns)" for c
    using that by (induction ns rule: areas.induct) auto
  then have "b \<notin> set (map fst ns)" using 2(2) area_nonempty [of 32 b] by fastforce
  then show ?case using 2 by (simp add: sorted_wrt_append)
qed simp

lemma apart_own: "apart (areas ns) \<Longrightarrow> (c, k, cs) \<in> set ns \<Longrightarrow> \<forall>A \<in> set (block_areas cs). area c 32 \<inter> A = {}"
proof (induction ns rule: areas.induct)
  case (2 b key bs ns)
  then show ?case unfolding areas.simps sorted_wrt.simps sorted_wrt_append by auto
qed simp

section \<open>The bucket as a whole\<close>

lemma located_split:
  assumes "locate key prev ns = (p, Some b)"
  obtains xs bs ys where "ns = xs @ (b, key, bs) # ys" "map_of (contents ns) key = Some bs" "key \<notin> set (keys xs)"
    "\<And>bs'. update_key key bs' ns = xs @ (b, key, bs') # ys"
proof -
  have "\<exists>xs bs ys. ns = xs @ (b, key, bs) # ys \<and> map_of (contents ns) key = Some bs \<and> key \<notin> set (keys xs)
      \<and> (\<forall>bs'. update_key key bs' ns = xs @ (b, key, bs') # ys)"
    using assms
  proof (induction key prev ns rule: locate.induct)
    case (2 key prev c k cs ns)
    show ?case
    proof (cases "k = key")
      case True
      then show ?thesis using 2(2) by (intro exI [of _ "[]"] exI [of _ cs] exI [of _ ns]) (simp add: contents_def keys_def)
    next
      case False
      then obtain xs bs ys where "ns = xs @ (b, key, bs) # ys \<and> map_of (contents ns) key = Some bs \<and> key \<notin> set (keys xs)
        \<and> (\<forall>bs'. update_key key bs' ns = xs @ (b, key, bs') # ys)" using 2 by auto
      then show ?thesis using False by (intro exI [of _ "(c, k, cs) # xs"] exI [of _ bs] exI [of _ ys]) (auto simp: contents_def keys_def)
    qed
  qed simp
  then show thesis using that by blast
qed


text \<open>A bucket with its blocks apart from each other and from the bytes \<open>U\<close> that others use, one of which is
  the byte at the null address.\<close>

definition bucket_ok :: "(u8 \<times> nat) set \<Rightarrow> GlobalAddress \<Rightarrow> nodes \<Rightarrow> db \<Rightarrow> bool" where
  "bucket_ok U head ns s \<longleftrightarrow> nodes_at (db_mem s) head ns \<and> apart (U # areas ns) \<and> room s (\<Union> (set (U # areas ns))) \<and> (0, 0) \<in> U"

lemma not_null_block:
  assumes "area a n \<inter> U = {}" "(0, 0) \<in> U" "0 < n"
  shows "\<not> is_null a"
proof
  assume "is_null a"
  then have "(0, 0) \<in> area a n" using assms(3) by (simp add: area_def ga_eq_def Null_def)
  then show False using assms(1,2) by blast
qed

lemma nodes_at_in_range: "nodes_at m a ns \<Longrightarrow> (c, k, cs) \<in> set ns \<Longrightarrow> in_range c 32"
  by (induction m a ns rule: nodes_at.induct) auto

lemma areas_sub: "n \<in> set ns \<Longrightarrow> set (areas [n]) \<subseteq> set (areas ns)"
  by (induction ns rule: areas.induct) auto

text \<open>A change of the memory that leaves the other nodes alone.\<close>

lemma others_same:
  assumes na: "nodes_at m head ns" and ap: "apart (areas ns)" and b: "(b, key, bs) \<in> set ns" and c: "(c, k, cs) \<in> set ns" "c \<noteq> b"
    and m': "same_on (\<Union> (set (areas ns)) - \<Union> (set (areas [(b, key, bs)]))) m m'"
  shows "read_node c m' = read_node c m" "items_at m x cs \<Longrightarrow> items_at m' x cs"
proof -
  have "A \<inter> B = {}" if "A \<in> set (areas [(c, k, cs)])" "B \<in> set (areas [(b, key, bs)])" for A B
    by (rule apart_nodes [OF ap c(1) b c(2) that])
  then have "\<Union> (set (areas [(c, k, cs)])) \<subseteq> \<Union> (set (areas ns)) - \<Union> (set (areas [(b, key, bs)]))"
    using areas_sub [OF c(1)] by blast
  then have same: "same_on (\<Union> (set (areas [(c, k, cs)]))) m m'" by (rule same_on_mono [OF m'])
  show "read_node c m' = read_node c m"
    by (rule read_node_on [OF nodes_at_in_range [OF na c(1)]]) (auto intro: same_on_mono [OF same])
  show "items_at m' x cs" if "items_at m x cs" by (rule items_at_on [OF that same_on_mono [OF same]]) auto
qed

lemma node_updated:
  assumes ok: "bucket_ok U head ns s" and loc: "locate key prev ns = (p, Some b)" and b: "(b, key, bs) \<in> set ns"
    and m': "same_on (\<Union> (set (areas ns)) - \<Union> (set (areas [(b, key, bs)]))) (db_mem s) (db_mem s')"
    and nd: "bn_key (read_node b (db_mem s')) = key" "bn_next (read_node b (db_mem s')) = bn_next (read_node b (db_mem s))"
    and it: "items_at (db_mem s') (bn_items_list (read_node b (db_mem s'))) bs'" "bs' \<noteq> []"
    and rest: "apart (U # areas (update_key key bs' ns))" "room s' (\<Union> (set (U # areas (update_key key bs' ns))))"
  shows "bucket_ok U head (update_key key bs' ns) s'"
proof -
  have na: "nodes_at (db_mem s) head ns" and ap: "apart (areas ns)" and z: "(0, 0) \<in> U" using ok by (simp_all add: bucket_ok_def)
  have "nodes_at (db_mem s') head (update_key key bs' ns)"
  proof (rule nodes_at_update [OF na loc apart_distinct [OF ap] nd it])
    show "read_node c (db_mem s') = read_node c (db_mem s) \<and> (items_at (db_mem s) x cs \<longrightarrow> items_at (db_mem s') x cs)"
      if "(c, k, cs) \<in> set ns" "c \<noteq> b" for c k cs x
      using others_same [OF na ap b that m'] by blast
  qed
  then show ?thesis using rest z by (simp add: bucket_ok_def)
qed

lemma insert_room_left:
  assumes ok: "bucket_ok U head ns s" and loc: "locate key prev ns = (p, Some b)" and bs: "map_of (contents ns) key = Some ((c, ps) # cs)"
    and few: "length ps < 2"
  obtains s' where "insert_existing r b (read_node b (db_mem s)) s = Returned s'"
    "bucket_ok U head (update_key key ((c, ps @ [r]) # cs) ns) s'" "same_on U (db_mem s) (db_mem s')"
proof -
  let ?m = "db_mem s" and ?nd = "read_node b (db_mem s)"
  have na: "nodes_at ?m head ns" and ap: "apart (U # areas ns)" and rm: "room s (\<Union> (set (U # areas ns)))"
    using ok by (simp_all add: bucket_ok_def)
  obtain xs ys where sp: "ns = xs @ (b, key, (c, ps) # cs) # ys" "\<And>bs'. update_key key bs' ns = xs @ (b, key, bs') # ys"
    using located_split [OF loc] bs by (metis option.inject)
  have at: "items_at ?m (bn_items_list ?nd) ((c, ps) # cs)" "bn_key ?nd = key" using located [OF na loc] bs by auto
  have il: "bn_items_list ?nd = c" "in_range c 48" "holds_ptrs (read_items c ?m) ps" using at by simp_all
  obtain it' where it': "AddRecordPtr r (read_items c ?m) = Some (True, it')" "holds_ptrs it' (ps @ [r])" "it_next it' = it_next (read_items c ?m)"
    "length (it_record_ptrs it') = 2" using AddRecordPtr_holds(1) [OF il(3) _ few] by auto
  let ?m' = "Write c (items_bytes it') ?m" and ?s' = "set_mem (Write c (items_bytes it')) s"
  have run: "insert_existing r b ?nd s = Returned ?s'" by (simp add: insert_existing_def il(1) it'(1))
  have own: "area b 32 \<inter> area c 48 = {}" "\<forall>A \<in> set (block_areas cs). A \<inter> area c 48 = {}" "U \<inter> area c 48 = {}"
    using ap by (auto simp: sp(1) sorted_wrt_append)
  have b: "(b, key, (c, ps) # cs) \<in> set ns" by (simp add: sp(1))
  have nd: "read_node b ?m' = ?nd" using own(1) nodes_at_in_range [OF na b] by (simp add: read_node_other)
  have it: "items_at ?m' (it_next it') cs"
  proof (rule items_at_on)
    show "items_at ?m (it_next it') cs" using at(1) it'(3) by auto
    show "same_on (\<Union> (set (block_areas cs))) ?m ?m'" using own(2) by (intro same_on_Write) auto
  qed
  have same_areas: "areas (update_key key ((c, ps @ [r]) # cs) ns) = areas ns" unfolding sp(2) by (simp add: sp(1))
  have "bucket_ok U head (update_key key ((c, ps @ [r]) # cs) ns) ?s'"
  proof (rule node_updated [OF ok loc b])
    show "same_on (\<Union> (set (areas ns)) - \<Union> (set (areas [(b, key, (c, ps) # cs)]))) ?m (db_mem ?s')"
      by (auto simp: set_mem_def intro!: same_on_Write)
    show "items_at (db_mem ?s') (bn_items_list (read_node b (db_mem ?s'))) ((c, ps @ [r]) # cs)"
      using at(1) it it'(2,4) nd il(1,2) by (simp add: set_mem_def read_items_same)
    show "apart (U # areas (update_key key ((c, ps @ [r]) # cs) ns))" using ap by (simp only: same_areas)
    show "room ?s' (\<Union> (set (U # areas (update_key key ((c, ps @ [r]) # cs) ns))))"
      using rm unfolding same_areas set_mem_def room_mem .
  qed (use nd at(2) in \<open>simp_all add: set_mem_def\<close>)
  moreover have "same_on U ?m ?m'" using own(3) by (intro same_on_Write) simp_all
  ultimately show thesis using that run by (simp add: set_mem_def)
qed

lemma apart_insertI: "apart (xs @ ys) \<Longrightarrow> A \<inter> \<Union> (set (xs @ ys)) = {} \<Longrightarrow> apart (xs @ A # ys)"
  unfolding sorted_wrt_append list.set sorted_wrt.simps by (simp add: Int_Un_distrib) blast

lemma insert_full:
  assumes ok: "bucket_ok U head ns s" and loc: "locate key prev ns = (p, Some b)" and bs: "map_of (contents ns) key = Some ((c, ps) # cs)"
    and full: "\<not> length ps < 2" and run: "insert_existing r b (read_node b (db_mem s)) s = Returned s'"
  obtains a where "bucket_ok U head (update_key key ((a, [r]) # (c, ps) # cs) ns) s'" "same_on U (db_mem s) (db_mem s')"
proof -
  let ?m = "db_mem s" and ?nd = "read_node b (db_mem s)"
  have na: "nodes_at ?m head ns" and ap: "apart (U # areas ns)" and rm: "room s (\<Union> (set (U # areas ns)))" and z: "(0, 0) \<in> U"
    using ok by (simp_all add: bucket_ok_def)
  obtain xs ys where sp: "ns = xs @ (b, key, (c, ps) # cs) # ys" "\<And>bs'. update_key key bs' ns = xs @ (b, key, bs') # ys"
    using located_split [OF loc] bs by (metis option.inject)
  have at: "items_at ?m (bn_items_list ?nd) ((c, ps) # cs)" "bn_key ?nd = key" using located [OF na loc] bs by auto
  have il: "bn_items_list ?nd = c" "holds_ptrs (read_items c ?m) ps" using at by simp_all
  have no: "AddRecordPtr r (read_items c ?m) = Some (False, read_items c ?m)"
    by (rule AddRecordPtr_holds(2) [OF il(2) _ full]) simp
  obtain it' where it': "AddRecordPtr r Items_Init = Some (True, it')" "holds_ptrs it' [r]" "length (it_record_ptrs it') = 2"
    using new_block by blast
  obtain a s1 where a: "Malloc 48 s = Returned (a, s1)"
    "s' = set_mem (Write b (node_bytes (?nd\<lparr>bn_items_list := a\<rparr>))) (set_mem (Write a (items_bytes (it'\<lparr>it_next := c\<rparr>))) s1)"
    using run by (auto simp: insert_existing_def il(1) no it'(1) outcome_bind_def split: outcome.splits)
  note mal = db_malloc_room [OF rm a(1)]
  have new: "area a 48 \<inter> \<Union> (set (U # areas ns)) = {}" "room s1 (area a 48 \<union> \<Union> (set (U # areas ns)))" "db_mem s1 = ?m"
    "in_range a 48" using mal by simp_all
  let ?m1 = "Write a (items_bytes (it'\<lparr>it_next := c\<rparr>)) ?m" and ?nd' = "?nd\<lparr>bn_items_list := a\<rparr>"
  have m': "db_mem s' = Write b (node_bytes ?nd') ?m1" by (simp add: a(2) set_mem_def new(3))
  have own: "area b 32 \<inter> area c 48 = {}" "\<forall>A \<in> set (block_areas cs). A \<inter> area b 32 = {}" "U \<inter> area b 32 = {}" "area a 48 \<inter> area b 32 = {}"
    using ap new(1) by (auto simp: sp(1) sorted_wrt_append)
  have b: "(b, key, (c, ps) # cs) \<in> set ns" by (simp add: sp(1))
  have nd: "read_node b (db_mem s') = ?nd'" unfolding m' by (rule read_node_same [OF nodes_at_in_range [OF na b]])
  have it: "items_at (db_mem s') c ((c, ps) # cs)"
  proof (rule items_at_on)
    show "items_at ?m c ((c, ps) # cs)" using at(1) il(1) by simp
    show "same_on (\<Union> (set (block_areas ((c, ps) # cs)))) ?m (db_mem s')"
      unfolding m' using own new(1) by (intro same_on_Write) (auto simp: sp(1))
  qed
  have nw: "read_items a (db_mem s') = it'\<lparr>it_next := c\<rparr>"
    unfolding m' using own(4) new(4) it'(3) by (simp add: read_items_other read_items_same)
  have nl: "\<not> is_null a" by (rule not_null_block [of a 48 U]) (use new(1) z in auto)
  let ?ns = "update_key key ((a, [r]) # (c, ps) # cs) ns"
  have bas: "areas ?ns = (areas xs @ [area b 32]) @ area a 48 # (area c 48 # block_areas cs @ areas ys)"
    "areas ns = (areas xs @ [area b 32]) @ (area c 48 # block_areas cs @ areas ys)"
    unfolding sp(2) by (simp_all add: sp(1))
  have "bucket_ok U head ?ns s'"
  proof (rule node_updated [OF ok loc b])
    show "same_on (\<Union> (set (areas ns)) - \<Union> (set (areas [(b, key, (c, ps) # cs)]))) ?m (db_mem s')"
      unfolding m' using new(1) by (intro same_on_Write) auto
    show "items_at (db_mem s') (bn_items_list (read_node b (db_mem s'))) ((a, [r]) # (c, ps) # cs)"
      using it nw nd nl new(4) it'(2) by (simp add: holds_ptrs_def)
    have "apart ((U # areas xs @ [area b 32]) @ area a 48 # (area c 48 # block_areas cs @ areas ys))"
    proof (rule apart_insertI)
      have same: "(U # areas xs @ [area b 32]) @ (area c 48 # block_areas cs @ areas ys) = U # areas ns" by (simp add: bas(2))
      show "apart ((U # areas xs @ [area b 32]) @ (area c 48 # block_areas cs @ areas ys))" using ap unfolding same .
      show "area a 48 \<inter> \<Union> (set ((U # areas xs @ [area b 32]) @ (area c 48 # block_areas cs @ areas ys))) = {}"
        using new(1) unfolding same .
    qed
    then show "apart (U # areas ?ns)" using bas(1) by simp
    have "room s1 (\<Union> (set (U # areas ?ns)))" by (rule room_less [OF new(2)]) (auto simp: bas)
    then show "room s' (\<Union> (set (U # areas ?ns)))" by (simp add: a(2) set_mem_def)
  qed (use nd at(2) in simp_all)
  moreover have "same_on U ?m (db_mem s')" unfolding m' using own(3) new(1) by (intro same_on_Write) auto
  ultimately show thesis using that by blast
qed

lemma last_next: "nodes_at m a ns \<Longrightarrow> ns \<noteq> [] \<Longrightarrow> is_null (bn_next (read_node (fst (last ns)) m)) \<and> \<not> is_null (fst (last ns))"
  by (induction m a ns rule: nodes_at.induct) (auto split: if_splits)

lemma insert_new_ok:
  assumes ok: "bucket_ok U head ns s" and loc: "locate key Null ns = (p, None)" and run: "insert_new key r p head s = Returned (h', s')"
  obtains na ia where "bucket_ok U h' (ns @ [(na, key, [(ia, [r])])]) s'" "same_on U (db_mem s) (db_mem s')"
proof -
  let ?m = "db_mem s"
  have na: "nodes_at ?m head ns" and ap: "apart (U # areas ns)" and rm: "room s (\<Union> (set (U # areas ns)))" and z: "(0, 0) \<in> U"
    using ok by (simp_all add: bucket_ok_def)
  have ap': "apart (areas ns)" using ap by simp
  obtain it where it: "AddRecordPtr r Items_Init = Some (True, it)" "holds_ptrs it [r]" "length (it_record_ptrs it) = 2" "it_next it = Null"
    using new_block by blast
  obtain ia s1 n s2 where al: "Malloc 48 s = Returned (ia, s1)" "Malloc 32 (set_mem (Write ia (items_bytes it)) s1) = Returned (n, s2)"
    using run by (auto simp: insert_new_def it(1) outcome_bind_def Let_def split: outcome.splits)
  note mal1 = db_malloc_room [OF rm al(1)]
  have n1: "area ia 48 \<inter> \<Union> (set (U # areas ns)) = {}" "room (set_mem (Write ia (items_bytes it)) s1) (area ia 48 \<union> \<Union> (set (U # areas ns)))"
    "db_mem s1 = ?m" "in_range ia 48" using mal1 by (simp_all add: set_mem_def)
  note mal2 = db_malloc_room [OF n1(2) al(2)]
  have n2: "area n 32 \<inter> (area ia 48 \<union> \<Union> (set (U # areas ns))) = {}" "room s2 (area n 32 \<union> (area ia 48 \<union> \<Union> (set (U # areas ns))))"
    "db_mem s2 = Write ia (items_bytes it) ?m" "in_range n 32" using mal2 n1(3) by (simp_all add: set_mem_def)
  define m2 where "m2 = Write n (node_bytes ((BucketNode_Init key)\<lparr>bn_items_list := ia\<rparr>)) (db_mem s2)"
  let ?zs = "[(n, key, [(ia, [r])])]"
  have nl: "\<not> is_null ia" "\<not> is_null n"
    by (rule not_null_block [of ia 48 U] not_null_block [of n 32 U]; use n1(1) n2(1) z in auto)+
  have fresh: "same_on (\<Union> (set (U # areas ns))) ?m m2"
    unfolding m2_def n2(3) using n1(1) n2(1) by (intro same_on_Write same_on_refl) auto
  have "read_items ia m2 = it"
    unfolding m2_def n2(3) using n2(1) n1(4) it(3) by (subst read_items_other) (auto simp: read_items_same)
  moreover have "read_node n m2 = (BucketNode_Init key)\<lparr>bn_items_list := ia\<rparr>" unfolding m2_def by (rule read_node_same [OF n2(4)])
  ultimately have new: "nodes_at m2 n ?zs" using nl n1(4) n2(4) it(2,4) by (simp add: BucketNode_Init_def ga_eq_def)
  have apz: "apart (U # areas (ns @ ?zs))"
  proof -
    have "apart ((U # areas ns) @ area ia 48 # [])" by (rule apart_insertI) (use ap n1(1) in auto)
    then have "apart ((U # areas ns) @ area n 32 # [area ia 48])" by (rule apart_insertI) (use n2(1) in auto)
    then show ?thesis by simp
  qed
  have rz: "room (s2\<lparr>db_mem := m\<rparr>) (\<Union> (set (U # areas (ns @ ?zs))))" for m
    using room_less [OF n2(2)] by (simp add: Un_ac)
  show thesis
  proof (cases "ns = []")
    case True
    then have "p = Null" "is_null head" using loc na by simp_all
    then have r: "h' = n" "s' = s2\<lparr>db_mem := m2\<rparr>"
      using run by (auto simp: insert_new_def it(1) al(1) al(2) [unfolded set_mem_def] outcome_bind_def Let_def set_mem_def m2_def ga_eq_def)
    have "bucket_ok U h' (ns @ ?zs) s'" using new True z apz rz r by (simp add: bucket_ok_def)
    moreover have "same_on U ?m (db_mem s')" using same_on_mono [OF fresh] r by simp
    ultimately show thesis using that by blast
  next
    case False
    have p: "p = fst (last ns)" using locate_last [of key Null ns] loc False by (simp add: last_map)
    let ?pn = "read_node p ?m"
    have b: "(p, snd (last ns)) \<in> set ns" using p False by simp
    obtain k bs where bk: "(p, k, bs) \<in> set ns" using b by (cases "snd (last ns)") simp
    have pr: "in_range p 32" by (rule nodes_at_in_range [OF na bk])
    have "area p 32 \<subseteq> \<Union> (set (U # areas ns))" using areas_sub [OF bk] by auto
    then have pm2: "read_node p m2 = ?pn" by (intro read_node_on [OF pr] same_on_mono [OF fresh])
    have lst: "is_null (bn_next ?pn)" "\<not> is_null p" using last_next [OF na False] p by simp_all
    define m3 where "m3 = Write p (node_bytes (?pn\<lparr>bn_next := n\<rparr>)) m2"
    have r: "h' = head" "s' = s2\<lparr>db_mem := m3\<rparr>"
      using run lst pm2 by (simp_all add: insert_new_def it(1) al(1) al(2) [unfolded set_mem_def] outcome_bind_def Let_def set_mem_def m2_def m3_def)
    have same: "same_on (\<Union> (set (U # areas ns)) - area p 32) ?m m3"
      unfolding m3_def by (intro same_on_Write same_on_mono [OF fresh]) auto
    have U: "U \<inter> area p 32 = {}" using ap areas_sub [OF bk] by auto
    have "nodes_at m3 head (ns @ ?zs)"
    proof (rule nodes_at_append [OF na False nl(2) _ p apart_distinct [OF ap']])
      show "nodes_at m3 n ?zs"
        unfolding m3_def using n1(1) n2(1) \<open>area p 32 \<subseteq> _\<close> by (intro nodes_at_on [OF new] same_on_Write same_on_refl) auto
      have rd: "read_node p m3 = ?pn\<lparr>bn_next := n\<rparr>" unfolding m3_def by (rule read_node_same [OF pr])
      then show "bn_key (read_node p m3) = bn_key ?pn" "bn_items_list (read_node p m3) = bn_items_list ?pn" "bn_next (read_node p m3) = n"
        by simp_all
      show "(c \<noteq> p \<longrightarrow> read_node c m3 = read_node c ?m) \<and> (\<forall>x. items_at ?m x cs \<longrightarrow> items_at m3 x cs)" if c: "(c, k, cs) \<in> set ns" for c k cs
      proof -
        have "\<forall>A \<in> set (block_areas cs). A \<inter> area p 32 = {}"
        proof (cases "c = p")
          case True
          then show ?thesis using apart_own [OF ap' c] by auto
        next
          case False
          then show ?thesis using apart_nodes [OF ap' c bk] by auto
        qed
        then have "\<Union> (set (block_areas cs)) \<subseteq> \<Union> (set (U # areas ns)) - area p 32" using areas_sub [OF c] by auto
        then have "same_on (\<Union> (set (block_areas cs))) ?m m3" by (rule same_on_mono [OF same])
        moreover have "read_node c m3 = read_node c ?m" if "c \<noteq> p"
        proof (rule read_node_on [OF nodes_at_in_range [OF na c]])
          show "same_on (area c 32) ?m m3"
            using apart_nodes [OF ap' c bk that] areas_sub [OF c] by (intro same_on_mono [OF same]) auto
        qed
        ultimately show ?thesis using items_at_on by blast
      qed
    qed
    then have "bucket_ok U h' (ns @ ?zs) s'" using z apz rz r by (simp add: bucket_ok_def)
    moreover have "same_on U ?m (db_mem s')" using U r by (auto intro: same_on_mono [OF same])
    ultimately show thesis using that by blast
  qed
qed

end
