(* ===== verification/Db_Storage_Proof.thy ===== *)
theory Db_Storage_Proof
  imports Db_Storage Db_Schema_Proof Db_Bucket_Proof
begin

text \<open>
  The catalogue survives the shared memory: what one node serializes is what another deserializes.
\<close>

section \<open>Fields one after the other\<close>

lemma Write_at_step: "off < 2 ^ 31 \<Longrightarrow> Write_at a off bs m = Write (step_addr off a) bs m"
  by (simp only: Write_at_def GADD_step)

lemma Read_at_step: "off < 2 ^ 31 \<Longrightarrow> Read_at a off n m = Read (step_addr off a) n m"
  by (simp only: Read_at_def GADD_step)

lemma Write_append:
  assumes r: "in_range a (length xs + length ys)"
  shows "Write (step_addr (length xs) a) ys (Write a xs m) = Write a (xs @ ys) m"
proof (cases "ys = []")
  case True
  then show ?thesis by (auto simp: Write_def written_def covers_def fun_eq_iff)
next
  case False
  then have u: "unat (ga_addr (step_addr (length xs) a)) = unat (ga_addr a) + length xs"
    by (intro step_addr_simps(1) [OF r]) simp
  show ?thesis by (auto simp: Write_def written_def covers_def u step_addr_simps(2) nth_append fun_eq_iff)
qed

lemma Write_at_append:
  assumes "in_range a (k + length ys)" "length xs = k" "k < 2 ^ 31"
  shows "Write_at a k ys (Write a xs m) = Write a (xs @ ys) m"
  using assms Write_append [of a xs ys m] by (simp add: Write_at_step)

lemma Read_at_part:
  assumes "in_range a (length bs)" "k + n \<le> length bs" "k < 2 ^ 31"
  shows "Read_at a k n (Write a bs m) = take n (drop k bs)"
  using Read_Write_part [OF assms(1,2)] assms(3) by (simp add: Read_at_step)

lemma step_in_range: "in_range a n \<Longrightarrow> k + j \<le> n \<Longrightarrow> in_range (step_addr k a) j"
  using step_addr_simps(1) [of a n k] unsigned_less [of "ga_addr (step_addr k a)", where 'a = nat]
  by (cases "k < n") (auto simp: in_range_def)

lemma step_area: "in_range a n \<Longrightarrow> k + j \<le> n \<Longrightarrow> area (step_addr k a) j \<subseteq> area a n"
  using step_addr_simps(1) [of a n k] by (cases "k < n") (auto simp: area_def step_addr_simps(2))

lemma Read_at_on:
  assumes "in_range a n" "k + j \<le> n" "k < 2 ^ 31" "same_on (area a n) m m'"
  shows "Read_at a k j m' = Read_at a k j m"
  using Read_same_on [OF step_in_range [OF assms(1,2)] same_on_mono [OF assms(4) step_area [OF assms(1,2)]]] assms(3)
  by (simp add: Read_at_step)

section \<open>Words, columns and arrays\<close>

lemma length_words [simp]: "length (words_bytes ws) = 8 * length ws"
  by (induction ws) (simp_all add: words_bytes_def)

lemma words_roundtrip: "length ws = n \<Longrightarrow> words_of_bytes n (words_bytes ws) = ws"
proof (rule nth_equalityI)
  assume n: "length ws = n"
  show "length (words_of_bytes n (words_bytes ws)) = length ws" by (simp add: words_of_bytes_def n)
  fix i assume "i < length (words_of_bytes n (words_bytes ws))"
  then have i: "i < length ws" by (simp add: words_of_bytes_def n)
  have "drop (8 * i) (words_bytes ws) = words_bytes (drop i ws)" if "i \<le> length ws" for i
    using that by (induction ws arbitrary: i) (auto simp: words_bytes_def drop_Cons split: nat.splits)
  then have "drop (8 * i) (words_bytes ws) = bytes_of 8 (ws ! i) @ words_bytes (drop (Suc i) ws)"
    using i by (simp add: words_bytes_def Cons_nth_drop_Suc [symmetric])
  then show "words_of_bytes n (words_bytes ws) ! i = ws ! i" using i n by (simp add: words_of_bytes_def of_bytes_bytes_of)
qed

definition column_ok :: "ColumnInfo \<Rightarrow> bool" where "column_ok c \<longleftrightarrow> length (column_name c) = 16"

lemma column_bytes_simps: "column_ok c \<Longrightarrow> length (column_bytes c) = 40" "column_ok c \<Longrightarrow> column_of_bytes (column_bytes c) = c"
  by (simp_all add: column_ok_def column_bytes_def column_of_bytes_def of_bytes_bytes_of)

lemma length_columns: "\<forall>c \<in> set cs. column_ok c \<Longrightarrow> length (concat (map column_bytes cs)) = 40 * length cs"
  by (induction cs) (simp_all add: column_bytes_simps(1))

lemma columns_roundtrip: "\<forall>c \<in> set cs. column_ok c \<Longrightarrow> columns_of_bytes (length cs) (concat (map column_bytes cs)) = cs"
proof (rule nth_equalityI)
  assume ok: "\<forall>c \<in> set cs. column_ok c"
  show "length (columns_of_bytes (length cs) (concat (map column_bytes cs))) = length cs" by (simp add: columns_of_bytes_def)
  fix i assume "i < length (columns_of_bytes (length cs) (concat (map column_bytes cs)))"
  then have i: "i < length cs" by (simp add: columns_of_bytes_def)
  have "drop (40 * i) (concat (map column_bytes cs)) = concat (map column_bytes (drop i cs))" if "i \<le> length cs" for i
    using that ok by (induction cs arbitrary: i) (auto simp: column_bytes_simps(1) drop_Cons split: nat.splits)
  then have "drop (40 * i) (concat (map column_bytes cs)) = column_bytes (cs ! i) @ concat (map column_bytes (drop (Suc i) cs))"
    using i by (simp add: Cons_nth_drop_Suc [symmetric])
  then show "columns_of_bytes (length cs) (concat (map column_bytes cs)) ! i = cs ! i"
    using i ok by (simp add: columns_of_bytes_def column_bytes_simps)
qed

definition array_bytes :: "GAddrArray \<Rightarrow> u8 list" where
  "array_bytes a = ga_bytes (ar_root_addr a) @ bytes_of 8 (ar_array_size a) @ bytes_of 8 (ar_element_size a)
     @ words_bytes (ar_layer_size a) @ bytes_of 8 (ar_layer_num a)"

definition index_bytes :: "HashIndex \<Rightarrow> u8 list" where
  "index_bytes ix = array_bytes (ix_buckets ix) @ bytes_of 8 (ix_buckets_count ix) @ bytes_of 8 (ix_record_count ix)"

definition index_wf :: "HashIndex \<Rightarrow> bool" where "index_wf ix \<longleftrightarrow> length (ar_layer_size (ix_buckets ix)) = 4"

lemma length_index: "index_wf ix \<Longrightarrow> length (array_bytes (ix_buckets ix)) = 66" "index_wf ix \<Longrightarrow> length (index_bytes ix) = 82"
  by (simp_all add: array_bytes_def index_bytes_def index_wf_def)

lemma Write_at_0: "Write_at a 0 bs m = Write a bs m"
  by (simp add: Write_at_step step_addr_simps(3))

lemma in_range_less: "in_range a n \<Longrightarrow> k \<le> n \<Longrightarrow> in_range a k"
  by (simp add: in_range_def)

lemma index_Serialize_bytes:
  assumes "index_wf ix" "in_range a 82"
  shows "index_Serialize a ix m = Write a (index_bytes ix) m"
  using assms in_range_less [OF assms(2)]
  by (simp add: index_Serialize_def array_Serialize_def Write_at_0 Write_at_append array_SerializeSize_def index_wf_def
      index_bytes_def array_bytes_def words_bytes_def [symmetric])

lemma index_roundtrip:
  assumes "index_wf ix" "in_range a 82"
  shows "index_Deserialize a (index_Serialize a ix m) = ix"
proof -
  have rd: "Read_at a k n (Write a (index_bytes ix) m) = take n (drop k (index_bytes ix))" if "k + n \<le> 82" for k n
    using that assms length_index by (intro Read_at_part) simp_all
  have "array_Deserialize a (Write a (index_bytes ix) m) = ix_buckets ix"
    using assms(1) words_roundtrip [of "ar_layer_size (ix_buckets ix)" 4]
    by (simp add: array_Deserialize_def rd) (simp add: index_bytes_def array_bytes_def index_wf_def of_bytes_bytes_of words_of_bytes_def)
  then show ?thesis
    using assms(1) unfolding index_Serialize_bytes [OF assms]
    by (simp add: index_Deserialize_def array_SerializeSize_def rd) (simp add: index_bytes_def length_index of_bytes_bytes_of)
qed

section \<open>Schemas\<close>

definition schema_wf :: "RecordSchema \<Rightarrow> bool" where
  "schema_wf sc \<longleftrightarrow> unat (rs_column_count sc) = length (rs_columns sc) \<and> length (rs_columns sc) \<le> kMaxColumnNum \<and> (\<forall>c \<in> set (rs_columns sc). column_ok c)
     \<and> length (rs_primary_ids sc) = 5 \<and> length (rs_secondary_nums sc) = 3 \<and> length (rs_partition_ids sc) = 5
     \<and> (\<exists>u v w. rs_secondary_ids sc = [u, v, w] \<and> length u = 5 \<and> length v = 5 \<and> length w = 5)"

definition schema_bytes :: "RecordSchema \<Rightarrow> u8 list" where
  "schema_bytes sc = bytes_of 8 (rs_table_id sc) @ bytes_of 8 (rs_column_count sc) @ bytes_of 8 (rs_column_offset sc) @ words_bytes (rs_primary_ids sc)
     @ bytes_of 8 (rs_primary_num sc) @ words_bytes (rs_secondary_ids sc ! 0) @ words_bytes (rs_secondary_ids sc ! 1) @ words_bytes (rs_secondary_ids sc ! 2)
     @ words_bytes (rs_secondary_nums sc) @ bytes_of 8 (rs_secondary_index_num sc) @ words_bytes (rs_partition_ids sc) @ bytes_of 8 (rs_partition_num sc)
     @ concat (map column_bytes (rs_columns sc))"

lemma sizes_value: "schema_SerializeSize = 1552" "index_SerializeSize = 82" "table_SerializeSize = 1650" "storage_SerializeSize = 26408"
  by (simp_all add: schema_SerializeSize_def index_SerializeSize_def table_SerializeSize_def storage_SerializeSize_def array_SerializeSize_def
      sizeof_ColumnInfo_def kMaxColumnNum_def kMaxTableNum_def)

lemma length_schema: "schema_wf sc \<Longrightarrow> length (schema_bytes sc) = 272 + 40 * length (rs_columns sc)"
  by (auto simp: schema_bytes_def schema_wf_def length_columns)

lemma length_schema_le: "schema_wf sc \<Longrightarrow> length (schema_bytes sc) \<le> 1552"
  by (simp add: length_schema schema_wf_def kMaxColumnNum_def)

lemma schema_Serialize_bytes:
  assumes "schema_wf sc" "in_range a 1552"
  shows "schema_Serialize a sc m = Write a (schema_bytes sc) m"
proof -
  obtain u v w where s: "rs_secondary_ids sc = [u, v, w]" "length u = 5" "length v = 5" "length w = 5" using assms(1) by (auto simp: schema_wf_def)
  have "in_range a (272 + length (concat (map column_bytes (rs_columns sc))))"
    using assms length_columns [of "rs_columns sc"] by (intro in_range_less [OF assms(2)]) (simp add: schema_wf_def kMaxColumnNum_def)
  then show ?thesis
    using assms(1) in_range_less [OF assms(2)]
    by (simp add: schema_Serialize_def Let_def Write_at_0 Write_at_append schema_wf_def s schema_bytes_def)
qed

lemma schema_parse:
  assumes wf: "schema_wf sc" and rd: "\<And>k n. k + n \<le> length (schema_bytes sc) \<Longrightarrow> Read_at a k n m = take n (drop k (schema_bytes sc))"
  shows "schema_Deserialize a m = sc"
proof -
  obtain u v w where s: "rs_secondary_ids sc = [u, v, w]" "length u = 5" "length v = 5" "length w = 5" using wf by (auto simp: schema_wf_def)
  let ?c = "concat (map column_bytes (rs_columns sc))"
  have len: "length (schema_bytes sc) = 272 + 40 * length (rs_columns sc)" by (rule length_schema [OF wf])
  have lc: "length ?c = 40 * length (rs_columns sc)" using wf length_columns by (simp add: schema_wf_def)
  have rd': "Read_at a k n m = take n (drop k (schema_bytes sc))" if "k + n \<le> 272" for k n using rd that len by simp
  have count: "unat (rs_column_count sc) = length (rs_columns sc)" using wf by (simp add: schema_wf_def)
  have "Read_at a 8 8 m = bytes_of 8 (rs_column_count sc)" by (simp add: rd') (simp add: schema_bytes_def)
  then have cnt: "of_bytes (Read_at a 8 8 m) = rs_column_count sc" by (simp add: of_bytes_bytes_of)
  have "Read_at a 272 (40 * length (rs_columns sc)) m = ?c"
    using wf len lc by (simp add: rd) (simp add: schema_bytes_def schema_wf_def s)
  then have cols: "columns_of_bytes (length (rs_columns sc)) (Read_at a 272 (40 * length (rs_columns sc)) m) = rs_columns sc"
    using wf columns_roundtrip by (simp add: schema_wf_def)
  show ?thesis
    unfolding schema_Deserialize_def Let_def cnt count sizeof_ColumnInfo_def cols
    using wf s words_roundtrip [of _ 5] words_roundtrip [of _ 3]
    by (simp add: rd') (simp add: schema_bytes_def schema_wf_def of_bytes_bytes_of)
qed

section \<open>Tables and the catalogue\<close>

lemma step_apart:
  assumes "in_range a n" "k + i \<le> j" "j + l \<le> n"
  shows "area (step_addr k a) i \<inter> area (step_addr j a) l = {}"
proof (cases "i = 0 \<or> l = 0")
  case False
  then show ?thesis
    using assms step_addr_simps(1) [OF assms(1), of k] step_addr_simps(1) [OF assms(1), of j] by (auto simp: area_def)
qed (auto simp: area_def)

definition table_wf :: "Table \<Rightarrow> bool" where "table_wf tb \<longleftrightarrow> schema_wf (tb_schema tb) \<and> index_wf (tb_index tb)"

lemma GADD_sizes: "GADD a 16 = step_addr 16 a" "GADD a 1552 = step_addr 1552 a" "GADD a 1650 = step_addr 1650 a" "GADD a 8 = step_addr 8 a"
  using GADD_step [of 16 a] GADD_step [of 1552 a] GADD_step [of 1650 a] GADD_step [of 8 a] by simp_all

lemma table_Serialize_bytes:
  assumes wf: "table_wf tb" and a: "in_range a 1650"
  shows "table_Serialize a tb m = Write (step_addr 1568 a) (index_bytes (tb_index tb)) (Write (step_addr 16 a) (schema_bytes (tb_schema tb))
      (Write a (bytes_of 8 (tb_table_id tb) @ bytes_of 8 (tb_secondary_count tb)) m))"
  using wf step_in_range [OF a, of 16 1552] step_in_range [OF a, of 1568 82] in_range_less [OF a, of 16]
  by (simp add: table_Serialize_def Let_def Write_at_0 Write_at_append table_wf_def GADD_sizes sizes_value schema_Serialize_bytes
      index_Serialize_bytes step_addr_simps(4))

lemma table_outside:
  assumes wf: "table_wf tb" and a: "in_range a 1650"
  shows "same_on (- area a 1650) m (table_Serialize a tb m)"
proof -
  have "area (step_addr 1568 a) 82 \<subseteq> area a 1650" by (rule step_area [OF a]) simp
  moreover have "area (step_addr 16 a) (length (schema_bytes (tb_schema tb))) \<subseteq> area a 1650"
    using wf length_schema_le [of "tb_schema tb"] by (intro step_area [OF a]) (simp add: table_wf_def)
  moreover have "area a 16 \<subseteq> area a 1650" by (auto simp: area_def)
  ultimately show ?thesis
    unfolding table_Serialize_bytes [OF wf a] using wf by (intro same_on_Write same_on_refl) (auto simp: table_wf_def length_index)
qed

lemma table_roundtrip:
  assumes wf: "table_wf tb" and a: "in_range a 1650" and m': "same_on (area a 1650) (table_Serialize a tb m) m'"
  shows "table_Deserialize a m' = tb"
proof -
  let ?h = "bytes_of 8 (tb_table_id tb) @ bytes_of 8 (tb_secondary_count tb)" and ?sc = "tb_schema tb" and ?ix = "tb_index tb"
  let ?m1 = "Write a ?h m"
  let ?m2 = "Write (step_addr 16 a) (schema_bytes ?sc) ?m1"
  let ?m3 = "Write (step_addr 1568 a) (index_bytes ?ix) ?m2"
  have w: "schema_wf ?sc" "index_wf ?ix" using wf by (simp_all add: table_wf_def)
  have m3: "same_on (area a 1650) ?m3 m'" using m' unfolding table_Serialize_bytes [OF wf a] .
  note ls = length_schema_le [OF w(1)] and li = length_index(2) [OF w(2)]
  have ap: "area a 16 \<inter> area (step_addr 16 a) (length (schema_bytes ?sc)) = {}" "area a 16 \<inter> area (step_addr 1568 a) 82 = {}"
    "area (step_addr 16 a) (length (schema_bytes ?sc)) \<inter> area (step_addr 1568 a) 82 = {}"
    using step_apart [OF a, of 0 16 16 "length (schema_bytes ?sc)"] step_apart [OF a, of 0 16 1568 82]
      step_apart [OF a, of 16 "length (schema_bytes ?sc)" 1568 82] ls by (simp_all add: step_addr_simps(3))
  have s1: "same_on (area a 16) ?m1 m'"
  proof (rule same_on_trans)
    show "same_on (area a 16) ?m1 ?m3" using ap(1,2) li by (intro same_on_Write same_on_refl) simp_all
    show "same_on (area a 16) ?m3 m'" by (rule same_on_mono [OF m3]) (auto simp: area_def)
  qed
  have "Read_at a k n m' = take n (drop k ?h)" if "k + n \<le> 16" for k n
    using Read_at_on [OF in_range_less [OF a, of 16] that _ s1] Read_at_part [of a ?h k n m] in_range_less [OF a, of 16] that by simp
  then have hd: "of_bytes (Read_at a 0 8 m') = tb_table_id tb" "of_bytes (Read_at a 8 8 m') = tb_secondary_count tb"
    by (simp_all add: of_bytes_bytes_of)
  let ?n = "length (schema_bytes ?sc)"
  have r2: "in_range (step_addr 16 a) ?n" using ls by (intro step_in_range [OF a]) simp
  have s2: "same_on (area (step_addr 16 a) ?n) ?m2 m'"
  proof (rule same_on_trans)
    show "same_on (area (step_addr 16 a) ?n) ?m2 ?m3" using ap(3) li by (intro same_on_Write same_on_refl) simp
    show "same_on (area (step_addr 16 a) ?n) ?m3 m'" using ls by (intro same_on_mono [OF m3] step_area [OF a]) simp
  qed
  have "Read_at (step_addr 16 a) k n m' = take n (drop k (schema_bytes ?sc))" if "k + n \<le> ?n" for k n
    using Read_at_on [OF r2 that _ s2] Read_at_part [of "step_addr 16 a" "schema_bytes ?sc" k n ?m1] r2 that ls by simp
  then have sch: "schema_Deserialize (step_addr 16 a) m' = ?sc" by (rule schema_parse [OF w(1)])
  have r3: "in_range (step_addr 1568 a) 82" by (rule step_in_range [OF a]) simp
  have "same_on (area (step_addr 1568 a) 82) ?m3 m'" by (rule same_on_mono [OF m3]) (rule step_area [OF a], simp)
  then have "index_Deserialize (step_addr 1568 a) m' = index_Deserialize (step_addr 1568 a) ?m3"
    using Read_at_on [OF r3, of _ _ ?m3 m']
    by (simp add: index_Deserialize_def array_Deserialize_def array_SerializeSize_def)
  then have idx: "index_Deserialize (step_addr 1568 a) m' = ?ix"
    using index_roundtrip [OF w(2) r3] index_Serialize_bytes [OF w(2) r3] by metis
  show ?thesis
    using hd sch idx by (cases tb) (simp add: table_Deserialize_def Let_def GADD_sizes sizes_value step_addr_simps(4))
qed

lemma tables_roundtrip:
  assumes "\<forall>tb \<in> set tbs. table_wf tb" "in_range a (1650 * length tbs)"
  shows "same_on (- area a (1650 * length tbs)) m (write_tables a tbs m)"
    and "same_on (area a (1650 * length tbs)) (write_tables a tbs m) m' \<Longrightarrow> read_tables (length tbs) a m' = tbs"
  using assms
proof (induction tbs arbitrary: a m)
  case (Cons tb tbs)
  let ?n = "1650 * length tbs"
  {
    fix a :: GlobalAddress and m :: shared
    assume a: "in_range a (1650 * length (tb # tbs))"
    have "in_range a 1650" "in_range (step_addr 1650 a) ?n" "area (step_addr 1650 a) ?n \<subseteq> area a (1650 * length (tb # tbs))"
      "area a 1650 \<subseteq> area a (1650 * length (tb # tbs))" "area a 1650 \<inter> area (step_addr 1650 a) ?n = {}"
      using in_range_less [OF a] step_in_range [OF a, of 1650 ?n] step_area [OF a, of 1650 ?n] step_apart [OF a, of 0 1650 1650 ?n]
      by (auto simp: step_addr_simps(3)) (auto simp: area_def)
  } note r = this
  have step: "write_tables a (tb # tbs) m = write_tables (step_addr 1650 a) tbs (table_Serialize a tb m)" for a m
    using GADD_sizes(3) [of a] by (simp add: sizes_value)
  {
    case 1
    let ?b = "step_addr 1650 a" and ?m1 = "table_Serialize a tb m"
    have wf: "table_wf tb" "\<forall>tb \<in> set tbs. table_wf tb" using 1(1) by simp_all
    note ra = r [OF 1(2)]
    have "same_on (- area a (1650 * length (tb # tbs))) m ?m1"
      by (rule same_on_mono [OF table_outside [OF wf(1) ra(1)]]) (use ra(4) in blast)
    moreover have "same_on (- area a (1650 * length (tb # tbs))) ?m1 (write_tables ?b tbs ?m1)"
      by (rule same_on_mono [OF Cons.IH(1) [OF wf(2) ra(2)]]) (use ra(3) in blast)
    ultimately show ?case unfolding step by (rule same_on_trans)
  next
    case 2
    let ?b = "step_addr 1650 a" and ?m1 = "table_Serialize a tb m"
    have wf: "table_wf tb" "\<forall>tb \<in> set tbs. table_wf tb" using 2(2) by simp_all
    note ra = r [OF 2(3)]
    have m': "same_on (area a (1650 * length (tb # tbs))) (write_tables ?b tbs ?m1) m'" using 2(1) unfolding step .
    have "same_on (area a 1650) ?m1 (write_tables ?b tbs ?m1)" by (rule same_on_mono [OF Cons.IH(1) [OF wf(2) ra(2)]]) (use ra(5) in blast)
    then have "same_on (area a 1650) ?m1 m'" by (rule same_on_trans [OF _ same_on_mono [OF m' ra(4)]])
    then have "table_Deserialize a m' = tb" by (rule table_roundtrip [OF wf(1) ra(1)])
    moreover have "read_tables (length tbs) ?b m' = tbs" by (rule Cons.IH(2) [OF same_on_mono [OF m' ra(3)] wf(2) ra(2)])
    ultimately show ?case using GADD_sizes(3) [of a] by (simp add: sizes_value)
  }
qed simp_all

text \<open>What the code creates has the shape that this takes for granted.\<close>

lemma columns_are_ok: "ColumnInfo_Init name v len = Returned c \<Longrightarrow> column_ok c"
  by (auto simp: ColumnInfo_Init_def column_ok_def Let_def split: ValueType.splits if_splits)

lemma insert_columns_shape:
  "\<exists>ks. rs_columns (insert_columns cs sc) = rs_columns sc @ ks \<and> length ks = length cs \<and> ((\<forall>c \<in> set cs. column_ok c) \<longrightarrow> (\<forall>c \<in> set ks. column_ok c))
     \<and> rs_primary_ids (insert_columns cs sc) = rs_primary_ids sc \<and> rs_secondary_ids (insert_columns cs sc) = rs_secondary_ids sc
     \<and> rs_secondary_nums (insert_columns cs sc) = rs_secondary_nums sc \<and> rs_partition_ids (insert_columns cs sc) = rs_partition_ids sc
     \<and> rs_column_count (insert_columns cs sc) = rs_column_count sc"
proof (induction cs sc rule: insert_columns.induct)
  case (2 c cs sc)
  then obtain ks where ks: "rs_columns (insert_columns (c # cs) sc) = rs_columns sc @ (c\<lparr>column_offset := rs_column_offset sc\<rparr>) # ks"
    "length ks = length cs" "(\<forall>c \<in> set cs. column_ok c) \<longrightarrow> (\<forall>c \<in> set ks. column_ok c)" by auto
  have "column_ok c \<Longrightarrow> column_ok (c\<lparr>column_offset := rs_column_offset sc\<rparr>)" by (simp add: column_ok_def)
  then show ?case using 2 ks by (intro exI [of _ "(c\<lparr>column_offset := rs_column_offset sc\<rparr>) # ks"]) auto
qed simp

lemma schemas_wf:
  assumes "InsertColumns cols (new_RecordSchema table_id) = Returned sc" "\<forall>c \<in> set cols. column_ok c"
  shows "schema_wf sc"
proof -
  let ?sc = "(new_RecordSchema table_id)\<lparr>rs_column_count := of_nat (length cols), rs_columns := []\<rparr>"
  have l: "length cols \<le> 32" and sc: "sc = insert_columns cols ?sc"
    using assms(1) by (simp_all add: InsertColumns_def kMaxColumnNum_def split: if_splits)
  have "unat (of_nat (length cols) :: u64) = length cols" using l by (simp add: unsigned_of_nat take_bit_nat_eq_self)
  moreover have "rs_secondary_ids ?sc = [replicate 5 0, replicate 5 0, replicate 5 0]" by (simp add: new_RecordSchema_def numeral_3_eq_3)
  ultimately show ?thesis
    using insert_columns_shape [of cols ?sc] l assms(2) unfolding sc schema_wf_def kMaxColumnNum_def by (auto simp: new_RecordSchema_def)
qed

lemma keys_keep_wf:
  "schema_wf sc \<Longrightarrow> SetPrimaryColumns ids sc = Returned sc' \<Longrightarrow> schema_wf sc'"
  "schema_wf sc \<Longrightarrow> SetPartitionColumns ids sc = Returned sc' \<Longrightarrow> schema_wf sc'"
  by (auto simp: schema_wf_def SetPrimaryColumns_def SetPartitionColumns_def split: if_splits)

lemma index_init_wf: "HashIndex_Init n s = Returned (ix, s') \<Longrightarrow> index_wf ix"
  by (auto simp: HashIndex_Init_def GAddrArray_Init_def outcome_bind_def index_wf_def layer_sizes_def Let_def
      split: outcome.splits option.splits if_splits)

lemma init_tables_wf:
  "init_tables i scs s = Returned (tbs, s') \<Longrightarrow> \<forall>sc \<in> set scs. schema_wf sc \<Longrightarrow>
    map tb_schema tbs = scs \<and> (\<forall>tb \<in> set tbs. table_wf tb)"
proof (induction i scs s arbitrary: tbs rule: init_tables.induct)
  case (2 i sc scs s)
  obtain tb s1 tbs1 where t: "Table_Init (of_nat i) sc s = Returned (tb, s1)" "init_tables (i + 1) scs s1 = Returned (tbs1, s')" "tbs = tb # tbs1"
    using 2(2) by (auto simp: outcome_bind_def split: outcome.splits)
  have "tb_schema tb = sc" "index_wf (tb_index tb)"
    using t(1) index_init_wf by (auto simp: Table_Init_def outcome_bind_def split: outcome.splits)
  moreover have "map tb_schema tbs1 = scs \<and> (\<forall>tb \<in> set tbs1. table_wf tb)"
    using 2(1) [OF t(2)] 2(3) by auto
  ultimately show ?case using t(3) 2(3) by (simp add: table_wf_def)
qed simp

lemma RegisterTables_wf:
  "RegisterTables schemas s = Returned (tbs, s') \<Longrightarrow> \<forall>sc \<in> set schemas. schema_wf sc \<Longrightarrow>
    map tb_schema tbs = schemas \<and> length tbs < kMaxTableNum \<and> (\<forall>tb \<in> set tbs. table_wf tb)"
  using init_tables_wf [of 0 schemas s tbs s'] by (auto simp: RegisterTables_def split: if_splits)

text \<open>(C21) The catalogue survives the shared memory. What \<open>StorageManager::Serialize\<close> writes for at most 15 tables, each with a schema
  of at most 32 columns and an index, stays within the size that \<open>GetSerializeSize\<close> announces, and
  \<open>StorageManager::Deserialize\<close> on any node gives the same tables back: identifiers, schemas with their columns and key sets,
  and indexes.\<close>

theorem catalogue_roundtrip:
  assumes "length tbs < kMaxTableNum" "\<forall>tb \<in> set tbs. table_wf tb" "in_range a storage_SerializeSize"
  shows "storage_Deserialize a (storage_Serialize a tbs m) = tbs
    \<and> (\<forall>b. (ga_nodeID b, unat (ga_addr b)) \<notin> area a storage_SerializeSize \<longrightarrow> storage_Serialize a tbs m b = m b)"
proof -
  let ?n = "1650 * length tbs" and ?w = "bytes_of 8 (of_nat (length tbs) :: u64)"
  have l: "length tbs < 16" using assms(1) by (simp add: kMaxTableNum_def)
  have a: "in_range a 26408" using assms(3) by (simp add: sizes_value)
  have r: "in_range a 8" "in_range (step_addr 8 a) ?n" "area (step_addr 8 a) ?n \<subseteq> area a 26408" "area a 8 \<subseteq> area a 26408"
    "area a 8 \<inter> area (step_addr 8 a) ?n = {}"
    using in_range_less [OF a, of 8] step_in_range [OF a, of 8 ?n] step_area [OF a, of 8 ?n] step_apart [OF a, of 0 8 8 ?n] l
    by (auto simp: step_addr_simps(3)) (auto simp: area_def)
  let ?m = "storage_Serialize a tbs m"
  have m: "?m = write_tables (step_addr 8 a) tbs (Write a ?w m)" by (simp add: storage_Serialize_def GADD_sizes)
  note out = tables_roundtrip(1) [OF assms(2) r(2), of "Write a ?w m", folded m]
  have "same_on (area a 8) (Write a ?w m) ?m" by (rule same_on_mono [OF out]) (use r(5) in blast)
  then have "Read a 8 ?m = Read a 8 (Write a ?w m)" by (rule Read_same_on [OF r(1)])
  also have "\<dots> = ?w" using Read_Write_same [of a ?w] r(1) by simp
  finally have "unat (of_bytes (Read a 8 ?m) :: u64) = length tbs"
    using l by (simp add: of_bytes_bytes_of unsigned_of_nat take_bit_nat_eq_self)
  then have same: "storage_Deserialize a ?m = tbs"
    using tables_roundtrip(2) [OF assms(2) r(2), of "Write a ?w m" ?m, folded m] by (simp add: storage_Deserialize_def GADD_sizes)
  have "?m b = m b" if "(ga_nodeID b, unat (ga_addr b)) \<notin> area a storage_SerializeSize" for b
  proof -
    have b: "(ga_nodeID b, unat (ga_addr b)) \<notin> area a 26408" using that by (simp add: sizes_value)
    then have "?m b = Write a ?w m b" using out r(3) unfolding same_on_def by blast
    moreover have "same_on (- area a 26408) m (Write a ?w m)" using r(4) by (intro same_on_Write same_on_refl) auto
    ultimately show ?thesis using b unfolding same_on_def by simp
  qed
  then show ?thesis using same by blast
qed

definition sample_table :: Table where
  "sample_table = \<lparr>tb_table_id = 3, tb_secondary_count = 0, tb_schema = new_RecordSchema 3,
     tb_index = \<lparr>ix_buckets = \<lparr>ar_root_addr = Null, ar_array_size = 1, ar_element_size = 10, ar_layer_size = layer_sizes 0, ar_layer_num = 0\<rparr>,
       ix_buckets_count = 1, ix_record_count = 0\<rparr>\<rparr>"

theorem catalogue_roundtrip_witness:
  "storage_Deserialize \<lparr>ga_addr = 4096, ga_nodeID = 0, ga_org = 0\<rparr>
     (storage_Serialize \<lparr>ga_addr = 4096, ga_nodeID = 0, ga_org = 0\<rparr> [sample_table] (\<lambda>_. 0)) = [sample_table]"
  by (rule catalogue_roundtrip [THEN conjunct1])
    (simp_all add: kMaxTableNum_def table_wf_def sample_table_def index_wf_def layer_sizes_def schema_wf_def new_RecordSchema_def
      in_range_def sizes_value numeral_3_eq_3)

end
