(* ===== verification/Db_Array_Proof.thy ===== *)
theory Db_Array_Proof
  imports Db_Array Db_Bucket_Proof
begin

text \<open>
  Every element of a \<open>GAddrArray\<close> has its own bytes, apart from the tables of the array and from all memory in use before,
  and stays where it is whatever is written outside the tables.
\<close>

section \<open>Layers\<close>

lemma count_layers_steps:
  assumes "n \<le> 1073741824"
  shows "count_layers (of_nat n) 1 0 = Some (if n \<le> 1 then 0 else if n \<le> 1024 then 1 else if n \<le> 1048576 then 2 else 3)"
proof -
  have u: "unat (of_nat n :: u64) = n" using assms by (simp add: unsigned_of_nat take_bit_nat_eq_self)
  have lt: "(b < (of_nat n :: u64)) \<longleftrightarrow> unat b < n" for b by (simp add: word_less_nat_alt u)
  have step: "count_layers (of_nat n) b l = (if unat b < n then count_layers (of_nat n) (b * N) (l + 1) else Some l)" for b l
    by (subst count_layers.simps) (simp only: lt)
  show ?thesis using assms by (simp add: step)
qed

lemma layer_sizes_nth: "i \<le> unat l \<Longrightarrow> i < 4 \<Longrightarrow> layer_sizes l ! i = 1024 ^ i"
  by (simp add: layer_sizes_def)

section \<open>Paths\<close>

lemma path_nonempty: "path (Suc l) pos \<noteq> []"
  by simp

lemma fold_path: "fold f (tl (path (Suc (Suc l)) pos)) r = f (pos div N mod N) (fold f (tl (path (Suc l) (pos div N))) r)"
proof -
  obtain y ys where y: "path (Suc l) (pos div N) = y # ys" by (cases "path (Suc l) (pos div N)") simp_all
  have "path (Suc (Suc l)) pos = path (Suc l) (pos div N) @ [pos div N mod N]" by (rule path.simps(2))
  then show ?thesis unfolding y by simp
qed

section \<open>The tree\<close>

text \<open>The nodes of the tree so far, each a layer and a position in it, with their addresses.\<close>

type_synonym tree = "nat \<times> nat \<Rightarrow> GlobalAddress"

definition node_size :: "GAddrArray \<Rightarrow> nat \<Rightarrow> nat" where
  "node_size a l = (if l + 1 < unat (ar_layer_num a) \<or> ar_layer_num a = 0 then 10240 else unat (ar_element_size a * N))"

abbreviation node_area :: "GAddrArray \<Rightarrow> tree \<Rightarrow> nat \<times> nat \<Rightarrow> (u8 \<times> nat) set" where
  "node_area a t x \<equiv> area (t x) (node_size a (fst x))"

definition tree_at :: "GAddrArray \<Rightarrow> tree \<Rightarrow> (nat \<times> nat) set \<Rightarrow> shared \<Rightarrow> bool" where
  "tree_at a t D m \<longleftrightarrow> t (0, 0) = ar_root_addr a \<and> (0, 0) \<in> D \<and> (\<forall>(l, p) \<in> D. p < 1024 ^ l \<and> (l = 0 \<or> l < unat (ar_layer_num a))) \<and> (\<forall>x \<in> D. in_range (t x) (node_size a (fst x)))
     \<and> (\<forall>x \<in> D. \<forall>y \<in> D. x \<noteq> y \<longrightarrow> node_area a t x \<inter> node_area a t y = {})
     \<and> (\<forall>(l, p) \<in> D. 0 < l \<longrightarrow> (l - 1, p div 1024) \<in> D \<and> read_slot m (of_nat (p mod 1024)) (t (l - 1, p div 1024)) = t (l, p))"

text \<open>The parts of a node that are read on the way to others.\<close>

definition tables :: "GAddrArray \<Rightarrow> tree \<Rightarrow> (nat \<times> nat) set \<Rightarrow> (u8 \<times> nat) set" where
  "tables a t D = (\<Union>x \<in> {x \<in> D. fst x + 1 < unat (ar_layer_num a)}. area (t x) 10240)"

lemma small_offset: "p < 1024 \<Longrightarrow> unat (of_nat p :: u64) = p" "p < 1024 \<Longrightarrow> (of_nat (p * 10) :: u32) = of_nat (p * 10)"
  by (simp_all add: unsigned_of_nat take_bit_nat_eq_self)

lemma read_slot_eq: "p < 1024 \<Longrightarrow> read_slot m (of_nat p) c = ga_of_bytes (Read (step_addr (p * 10) c) 10 m)"
  using GADD_step [of "p * 10" c] by (simp add: read_slot_def Read_at_def small_offset)

lemma slot_area: "p < 1024 \<Longrightarrow> in_range c 10240 \<Longrightarrow> area (step_addr (p * 10) c) 10 \<subseteq> area c 10240 \<and> in_range (step_addr (p * 10) c) 10"
  using step_addr_simps(1) [of c 10240 "p * 10"] by (auto simp: area_def in_range_def step_addr_simps)

lemma slot_apart:
  assumes "p < 1024" "q < 1024" "p \<noteq> q" "in_range c 10240"
  shows "area (step_addr (p * 10) c) 10 \<inter> area (step_addr (q * 10) c) 10 = {}"
  using assms step_addr_simps(1) [of c 10240 "p * 10"] step_addr_simps(1) [of c 10240 "q * 10"]
  by (cases "p < q") (auto simp: area_def)

lemma of_nat_unat: "of_nat (unat u) = (u :: u64)"
  by simp

lemma unat_numeral_N: "unat N = 1024"
  by simp

lemma locate_node:
  assumes t: "tree_at a t D m" and l: "(l, p) \<in> D" and u: "unat u div 1024 = p" and sz: "u < ar_layer_size a ! (l + 1)"
  shows "LocateParentNode a (l + 1) u m = Returned (t (l, p))"
proof -
  have "fold (read_slot m) (tl (path (Suc l) u)) (ar_root_addr a) = t (l, p)" using l u
  proof (induction l arbitrary: u p)
    case 0
    then have "p < 1024 ^ 0" using t by (fastforce simp: tree_at_def)
    then show ?case using t by (simp add: tree_at_def)
  next
    case (Suc l)
    have d: "(l, p div 1024) \<in> D" "read_slot m (of_nat (p mod 1024)) (t (l, p div 1024)) = t (Suc l, p)"
      using t Suc.prems(1) by (fastforce simp: tree_at_def)+
    have w: "unat (u div N) = p" using Suc.prems(2) by (simp add: unat_div)
    then have "unat (u div N mod N) = p mod 1024" by (simp add: unat_mod)
    then have "u div N mod N = of_nat (p mod 1024)" by (metis of_nat_unat)
    moreover have "fold (read_slot m) (tl (path (Suc l) (u div N))) (ar_root_addr a) = t (l, p div 1024)"
      by (rule Suc.IH [OF d(1)]) (simp add: w)
    ultimately show ?case using d(2) by (simp only: fold_path)
  qed
  then show ?thesis using sz by (simp add: LocateParentNode_def)
qed

lemma locate_root: "tree_at a t D m \<Longrightarrow> u < ar_layer_size a ! 0 \<Longrightarrow> LocateParentNode a 0 u m = Returned (t (0, 0))"
  by (simp add: LocateParentNode_def tree_at_def)

lemma tree_at_mem:
  assumes "tree_at a t D m" "\<And>l p. (l, p) \<in> D \<Longrightarrow> 0 < l \<Longrightarrow>
    read_slot m' (of_nat (p mod 1024)) (t (l - 1, p div 1024)) = read_slot m (of_nat (p mod 1024)) (t (l - 1, p div 1024))"
  shows "tree_at a t D m'"
proof -
  have "(l - 1, p div 1024) \<in> D \<and> read_slot m' (of_nat (p mod 1024)) (t (l - 1, p div 1024)) = t (l, p)" if "(l, p) \<in> D" "0 < l" for l p
  proof -
    have "(l - 1, p div 1024) \<in> D \<and> read_slot m (of_nat (p mod 1024)) (t (l - 1, p div 1024)) = t (l, p)"
      using assms(1) that unfolding tree_at_def by blast
    then show ?thesis by (simp only: assms(2) [OF that])
  qed
  then show ?thesis using assms(1) unfolding tree_at_def by blast
qed

section \<open>Building the tree\<close>

definition array_ok :: "(u8 \<times> nat) set \<Rightarrow> GAddrArray \<Rightarrow> tree \<Rightarrow> (nat \<times> nat) set \<Rightarrow> db \<Rightarrow> bool" where
  "array_ok U a t D s \<longleftrightarrow> tree_at a t D (db_mem s) \<and> (\<forall>x \<in> D. node_area a t x \<inter> U = {}) \<and> room s (U \<union> (\<Union>x \<in> D. node_area a t x))"

lemma read_slot_same_on:
  "p < 1024 \<Longrightarrow> in_range c 10240 \<Longrightarrow> same_on (area (step_addr (p * 10) c) 10) m m' \<Longrightarrow> read_slot m' (of_nat p) c = read_slot m (of_nat p) c"
  using slot_area [of p c] Read_same_on [of "step_addr (p * 10) c" 10 m m'] by (simp add: read_slot_eq)

lemma tree_insert:
  assumes t: "tree_at a t D m" and x: "0 < l" "l < unat (ar_layer_num a)" "p < 1024 ^ l" "(l - 1, p div 1024) \<in> D" "(l, p) \<notin> D"
    and above: "\<forall>(l', p') \<in> D. l' \<le> l"
    and b: "in_range b (node_size a l)" "\<forall>x \<in> D. node_area a t x \<inter> area b (node_size a l) = {}"
  shows "tree_at a (t((l, p) := b)) (insert (l, p) D) (Write (step_addr (p mod 1024 * 10) (t (l - 1, p div 1024))) (ga_bytes b) m)"
proof -
  let ?c = "t (l - 1, p div 1024)" and ?t = "t((l, p) := b)"
  let ?m = "Write (step_addr (p mod 1024 * 10) ?c) (ga_bytes b) m"
  have size: "node_size a (k - 1) = 10240" if "0 < k" "k < unat (ar_layer_num a)" for k using that by (simp add: node_size_def)
  have c: "in_range ?c 10240" using t x(4) size [OF x(1,2)] by (fastforce simp: tree_at_def)
  have D: "k \<le> l \<and> q < 1024 ^ k \<and> (k = 0 \<or> k < unat (ar_layer_num a)) \<and> (k, q) \<noteq> (l, p)
      \<and> (0 < k \<longrightarrow> (k - 1, q div 1024) \<in> D \<and> read_slot m (of_nat (q mod 1024)) (t (k - 1, q div 1024)) = t (k, q))" if "(k, q) \<in> D" for k q
    using t above x(5) that by (fastforce simp: tree_at_def)
  have new: "read_slot ?m (of_nat (p mod 1024)) ?c = b"
    using slot_area [of "p mod 1024" ?c] c Read_Write_same [of "step_addr (p mod 1024 * 10) ?c" "ga_bytes b" m] by (simp add: read_slot_eq)
  have old: "read_slot ?m (of_nat (q mod 1024)) (t (k - 1, q div 1024)) = t (k, q)" if kq: "(k, q) \<in> D" "0 < k" for k q
  proof -
    let ?d = "t (k - 1, q div 1024)"
    note dk = D [OF kq(1)]
    have d: "in_range ?d 10240" using t dk kq(2) size [of k] by (fastforce simp: tree_at_def)
    have "area (step_addr (q mod 1024 * 10) ?d) 10 \<inter> area (step_addr (p mod 1024 * 10) ?c) 10 = {}"
    proof (cases "(k - 1, q div 1024) = (l - 1, p div 1024)")
      case True
      then have "k = l" "q div 1024 = p div 1024" using kq(2) x(1) by auto
      then have "q mod 1024 \<noteq> p mod 1024" using kq(1) x(5) by (metis div_mult_mod_eq)
      then show ?thesis using True c by (simp add: slot_apart)
    next
      case False
      then have "node_area a t (k - 1, q div 1024) \<inter> node_area a t (l - 1, p div 1024) = {}"
        using t dk kq(2) x(4) unfolding tree_at_def by blast
      then have "area ?d 10240 \<inter> area ?c 10240 = {}" using size dk kq(2) x(1,2) by simp
      then show ?thesis using slot_area [OF _ d, of "q mod 1024"] slot_area [OF _ c, of "p mod 1024"] by fastforce
    qed
    then have "same_on (area (step_addr (q mod 1024 * 10) ?d) 10) m ?m" by (intro same_on_Write) simp_all
    then show ?thesis using read_slot_same_on [OF _ d] dk kq(2) by simp
  qed
  have parents: "(k - 1, q div 1024) \<in> insert (l, p) D \<and> read_slot ?m (of_nat (q mod 1024)) (?t (k - 1, q div 1024)) = ?t (k, q)"
    if "(k, q) \<in> insert (l, p) D" "0 < k" for k q
  proof (cases "(k, q) = (l, p)")
    case True
    then show ?thesis using new x(1,4) by auto
  next
    case False
    then have kq: "(k, q) \<in> D" using that(1) by blast
    have "(k - 1, q div 1024) \<noteq> (l, p)" using D [OF kq] that(2) by auto
    then show ?thesis using old [OF kq that(2)] D [OF kq] that(2) False by auto
  qed
  have ap: "node_area a ?t y \<inter> node_area a ?t z = {}" if "y \<in> insert (l, p) D" "z \<in> insert (l, p) D" "y \<noteq> z" for y z
    using that t b(2) x(5) unfolding tree_at_def by (cases "y = (l, p)"; cases "z = (l, p)") (auto simp: Int_commute)
  have rg: "in_range (?t y) (node_size a (fst y))" if "y \<in> insert (l, p) D" for y
    using that t b(1) unfolding tree_at_def by auto
  have ly: "q < 1024 ^ k \<and> (k = 0 \<or> k < unat (ar_layer_num a))" if "(k, q) \<in> insert (l, p) D" for k q
    using that D x(2,3) by auto
  have root: "?t (0, 0) = ar_root_addr a" "(0, 0) \<in> insert (l, p) D" using t x(1) by (simp_all add: tree_at_def)
  show ?thesis
    unfolding tree_at_def
  proof (intro conjI)
    show "\<forall>(k, q) \<in> insert (l, p) D. q < 1024 ^ k \<and> (k = 0 \<or> k < unat (ar_layer_num a))" using ly by blast
    show "\<forall>y \<in> insert (l, p) D. in_range (?t y) (node_size a (fst y))" using rg by blast
    show "\<forall>y \<in> insert (l, p) D. \<forall>z \<in> insert (l, p) D. y \<noteq> z \<longrightarrow> node_area a ?t y \<inter> node_area a ?t z = {}"
      by (intro ballI impI ap)
    show "\<forall>(k, q) \<in> insert (l, p) D. 0 < k \<longrightarrow> (k - 1, q div 1024) \<in> insert (l, p) D
        \<and> read_slot ?m (of_nat (q mod 1024)) (?t (k - 1, q div 1024)) = ?t (k, q)"
      by (intro ballI, clarify, rule parents)
  qed (fact root)+
qed

lemma Write_slot: "Write_at c (p mod 1024 * 10) bs m = Write (step_addr (p mod 1024 * 10) c) bs m"
  unfolding Write_at_def by (subst GADD_step) (auto intro: le_less_trans [of _ "1023 * 10"])

lemma add_segment_ok:
  assumes ok: "array_ok U a t D s" and run: "add_segment a l (of_nat p) s = Returned s'"
    and x: "0 < l" "l < unat (ar_layer_num a)" "p < 1024 ^ l" "(l - 1, p div 1024) \<in> D" "(l, p) \<notin> D" "l < 4"
    and above: "\<forall>(l', p') \<in> D. l' \<le> l" and es: "unat (ar_element_size a * N) \<le> chunk_bytes" "10240 \<le> chunk_bytes"
  obtains b where "array_ok U a (t((l, p) := b)) (insert (l, p) D) s'" "same_on U (db_mem s) (db_mem s')"
proof -
  let ?c = "t (l - 1, p div 1024)"
  have t: "tree_at a t D (db_mem s)" and U: "\<forall>x \<in> D. node_area a t x \<inter> U = {}" and rm: "room s (U \<union> (\<Union>x \<in> D. node_area a t x))"
    using ok by (simp_all add: array_ok_def)
  have L: "0 < unat (ar_layer_num a)" "ar_layer_num a \<noteq> 0" using x(2) by auto
  have size: "unat ((if l + 1 < unat (ar_layer_num a) then 10 else ar_element_size a) * N) = node_size a l" "node_size a l \<le> chunk_bytes"
    using es L by (simp_all add: node_size_def)
  have "(1024 :: nat) ^ l \<le> 1024 ^ 3" using x(6) by (intro power_increasing) simp_all
  then have p: "p < 1073741824" using x(3) by simp
  then have up: "unat (of_nat p :: u64) = p" by (simp add: unsigned_of_nat take_bit_nat_eq_self)
  have pm: "unat ((of_nat p :: u64) mod N) = p mod 1024" by (simp add: unat_mod up)
  obtain b s1 parent where run': "AlignedMalloc (node_size a l) s = Returned (b, s1)" "LocateParentNode a l (of_nat p) (db_mem s1) = Returned parent"
    "s' = set_mem (Write_at parent (p mod 1024 * 10) (ga_bytes b)) s1"
    using run unfolding add_segment_def Let_def size(1) pm by (auto simp: outcome_bind_def split: outcome.splits)
  note mal = db_malloc_room [OF rm run'(1) size(2)]
  have "of_nat p < ar_layer_size a ! (l - 1 + 1)" using run'(2) x(1) by (simp add: LocateParentNode_def split: if_splits)
  then have parent: "parent = ?c" using locate_node [OF t x(4), of "of_nat p"] up run'(2) x(1) mal(3) by simp
  have m': "db_mem s' = Write (step_addr (p mod 1024 * 10) ?c) (ga_bytes b) (db_mem s)"
    unfolding run'(3) set_mem_def parent Write_slot by (simp add: mal(3))
  have c: "node_size a (l - 1) = 10240" using x(1,2) by (simp add: node_size_def)
  have "in_range ?c (node_size a (l - 1))" using t x(4) unfolding tree_at_def by (metis fst_conv)
  moreover have "node_area a t (l - 1, p div 1024) \<inter> U = {}" using U x(4) by blast
  ultimately have cr: "in_range ?c 10240" "area ?c 10240 \<inter> U = {}" by (simp_all only: c fst_conv)
  have t': "tree_at a (t((l, p) := b)) (insert (l, p) D) (db_mem s')"
    unfolding m' by (rule tree_insert [OF t x(1-5) above mal(4)]) (use mal(1) in blast)
  have areas: "(\<Union>y \<in> insert (l, p) D. node_area a (t((l, p) := b)) y) = area b (node_size a l) \<union> (\<Union>y \<in> D. node_area a t y)"
  proof -
    have "(\<Union>y \<in> D. node_area a (t((l, p) := b)) y) = (\<Union>y \<in> D. node_area a t y)" by (rule SUP_cong) (use x(5) in auto)
    then show ?thesis by simp
  qed
  have "room s' (U \<union> (\<Union>y \<in> insert (l, p) D. node_area a (t((l, p) := b)) y))"
    unfolding areas using mal(2) by (simp add: run'(3) set_mem_def Un_ac)
  moreover have "\<forall>y \<in> insert (l, p) D. node_area a (t((l, p) := b)) y \<inter> U = {}" using U mal(1) x(5) by auto
  ultimately have "array_ok U a (t((l, p) := b)) (insert (l, p) D) s'" using t' by (simp add: array_ok_def)
  moreover have "same_on U (db_mem s) (db_mem s')"
    unfolding m' using slot_area [OF _ cr(1), of "p mod 1024"] cr(2) by (intro same_on_Write) auto
  ultimately show thesis using that by blast
qed

text \<open>The nodes of the layers below \<open>l\<close>.\<close>

definition layers :: "nat \<Rightarrow> (nat \<times> nat) set" where
  "layers l = {(k, p). k < l \<and> p < 1024 ^ k}"

lemma layers_simps: "layers (Suc l) = layers l \<union> {l} \<times> {..<1024 ^ l}" "layers 1 = {(0, 0)}"
  by (auto simp: layers_def less_Suc_eq)

lemma add_segments_append: "add_segments a (xs @ ys) s = outcome_bind (add_segments a xs s) (add_segments a ys)"
  by (induction a xs s rule: add_segments.induct) (auto simp: outcome_bind_def split: outcome.splits)

lemma add_layer_ok:
  assumes "array_ok U a t (layers l) s" "add_segments a (map (\<lambda>p. (l, of_nat p)) [0..<n]) s = Returned s'"
    and "0 < l" "l < unat (ar_layer_num a)" "l < 4" "n \<le> 1024 ^ l"
    and es: "unat (ar_element_size a * N) \<le> chunk_bytes" "10240 \<le> chunk_bytes"
  shows "\<exists>t'. array_ok U a t' (layers l \<union> {l} \<times> {..<n}) s' \<and> same_on U (db_mem s) (db_mem s')"
  using assms(2,6)
proof (induction n arbitrary: s')
  case 0
  then show ?case using assms(1) by auto
next
  case (Suc n)
  obtain s1 where s1: "add_segments a (map (\<lambda>p. (l, of_nat p)) [0..<n]) s = Returned s1" "add_segment a l (of_nat n) s1 = Returned s'"
    using Suc.prems(1) by (auto simp: add_segments_append outcome_bind_def split: outcome.splits)
  obtain t1 where t1: "array_ok U a t1 (layers l \<union> {l} \<times> {..<n}) s1" "same_on U (db_mem s) (db_mem s1)"
    using Suc.IH [OF s1(1)] Suc.prems(2) by auto
  have "n div 1024 < 1024 ^ (l - 1)" using Suc.prems(2) assms(3) by (cases l) (simp_all add: less_mult_imp_div_less mult.commute)
  then have "(l - 1, n div 1024) \<in> layers l \<union> {l} \<times> {..<n}" using assms(3) by (simp add: layers_def)
  moreover have "(l, n) \<notin> layers l \<union> {l} \<times> {..<n}" "\<forall>(l', p') \<in> layers l \<union> {l} \<times> {..<n}. l' \<le> l" "n < 1024 ^ l"
    using Suc.prems(2) by (auto simp: layers_def)
  ultimately obtain b where b: "array_ok U a (t1((l, n) := b)) (insert (l, n) (layers l \<union> {l} \<times> {..<n})) s'"
    "same_on U (db_mem s1) (db_mem s')"
    using add_segment_ok [OF t1(1) s1(2) assms(3,4) _ _ _ assms(5) _ es] by blast
  have "insert (l, n) (layers l \<union> {l} \<times> {..<n}) = layers l \<union> {l} \<times> {..<Suc n}" by auto
  then show ?case using b same_on_trans [OF t1(2) b(2)] by auto
qed

lemma add_layers_ok:
  assumes "array_ok U a t (layers 1) s" "add_segments a (concat (map (\<lambda>l. map (\<lambda>p. (l, of_nat p)) [0..<1024 ^ l]) [1..<l])) s = Returned s'"
    and "0 < l" "l \<le> unat (ar_layer_num a)" "l \<le> 4"
    and es: "unat (ar_element_size a * N) \<le> chunk_bytes" "10240 \<le> chunk_bytes"
  shows "\<exists>t'. array_ok U a t' (layers l) s' \<and> same_on U (db_mem s) (db_mem s')"
  using assms(2-5)
proof (induction l arbitrary: s')
  case (Suc l)
  show ?case
  proof (cases "l = 0")
    case True
    then show ?thesis using assms(1) Suc.prems(1) by auto
  next
    case False
    then obtain s1 where s1: "add_segments a (concat (map (\<lambda>l. map (\<lambda>p. (l, of_nat p)) [0..<1024 ^ l]) [1..<l])) s = Returned s1"
      "add_segments a (map (\<lambda>p. (l, of_nat p)) [0..<1024 ^ l]) s1 = Returned s'"
      using Suc.prems(1) by (auto simp: add_segments_append outcome_bind_def split: outcome.splits)
    obtain t1 where t1: "array_ok U a t1 (layers l) s1" "same_on U (db_mem s) (db_mem s1)"
      using Suc.IH [OF s1(1)] False Suc.prems by auto
    obtain t2 where "array_ok U a t2 (layers l \<union> {l} \<times> {..<1024 ^ l}) s'" "same_on U (db_mem s1) (db_mem s')"
      using add_layer_ok [OF t1(1) s1(2) _ _ _ _ es] False Suc.prems by auto
    then show ?thesis using same_on_trans [OF t1(2)] by (auto simp: layers_simps(1))
  qed
qed simp

section \<open>The finished array\<close>

lemma array_init:
  assumes room: "room s U" and run: "GAddrArray_Init (of_nat n) es s = Returned (a, s')"
    and n: "n \<le> 1073741824" and es: "unat (es * N) \<le> chunk_bytes" "10240 \<le> chunk_bytes"
  obtains t where "array_ok U a t (layers (max 1 (unat (ar_layer_num a)))) s'" "same_on U (db_mem s) (db_mem s')"
    "ar_array_size a = of_nat n" "ar_element_size a = es" "ar_layer_size a = layer_sizes (ar_layer_num a)" "unat (ar_layer_num a) < 4"
    "n \<le> 1024 ^ unat (ar_layer_num a)"
proof -
  define L where "L = (if n \<le> 1 then 0 else if n \<le> 1024 then 1 else if n \<le> 1048576 then 2 else 3 :: nat)"
  have L: "L < 4" "n \<le> 1024 ^ L" using n by (auto simp: L_def)
  have uL: "unat (of_nat L :: u64) = L" using L by (simp add: unsigned_of_nat take_bit_nat_eq_self)
  have cnt: "count_layers (of_nat n) 1 0 = Some (of_nat L)" unfolding count_layers_steps [OF n] L_def by simp
  have one: "of_nat L = (1 :: u64) \<longleftrightarrow> L = 1" using uL by (metis of_nat_1 unat_1)
  have zero: "of_nat L = (0 :: u64) \<longleftrightarrow> L = 0" by (simp only: unat_eq_zero [symmetric] uL)
  define a0 where "a0 = (\<lambda>root. \<lparr>ar_root_addr = root, ar_array_size = of_nat n, ar_element_size = es,
      ar_layer_size = layer_sizes (of_nat L), ar_layer_num = of_nat L\<rparr>)"
  have size: "unat (if L = 1 then es * N else 10 * N) = node_size (a0 root) 0" for root
    unfolding node_size_def a0_def GAddrArray.simps uL zero by auto
  obtain root s1 where s1: "AlignedMalloc (unat (if L = 1 then es * N else 10 * N)) s = Returned (root, s1)" "a = a0 root"
    "(if L = 1 then Returned s1 else add_segments a (segments a) s1) = Returned s'"
    using run unfolding GAddrArray_Init_def cnt
    by (auto simp: outcome_bind_def a0_def Let_def one split: outcome.splits if_splits)
  have sz: "unat (if L = 1 then es * N else 10 * N) \<le> chunk_bytes" using es by simp
  note mal = db_malloc_room [OF room s1(1) sz, unfolded size [of root]]
  have la: "unat (ar_layer_num a) = L" by (simp add: s1(2) a0_def uL)
  let ?t = "\<lambda>_. root"
  have "tree_at a ?t {(0, 0)} (db_mem s1)" using mal(4) by (simp add: tree_at_def s1(2) a0_def)
  then have start: "array_ok U a ?t (layers 1) s1"
    using mal(1,2) unfolding layers_simps(2) by (simp add: array_ok_def s1(2) Un_ac)
  have "\<exists>t. array_ok U a t (layers (max 1 L)) s' \<and> same_on U (db_mem s1) (db_mem s')"
  proof (cases "L < 2")
    case True
    then have "s' = s1" using s1(3) la by (auto simp: segments_def split: if_splits)
    moreover have "max 1 L = 1" using True by auto
    ultimately show ?thesis using start by auto
  next
    case False
    have "unat (ar_layer_size a ! l) = 1024 ^ l" if "l < L" for l
    proof -
      have "ar_layer_size a ! l = of_nat (1024 ^ l)" using that L by (simp add: s1(2) a0_def layer_sizes_nth uL)
      moreover have "(1024 :: nat) ^ l \<le> 1024 ^ 3" using that L by (intro power_increasing) simp_all
      then have "1024 ^ l < (2 :: nat) ^ 64" by simp
      ultimately show ?thesis by (simp only: unsigned_of_nat take_bit_nat_eq_self len_of_numeral_defs) (simp add: take_bit_nat_eq_self)
    qed
    then have "segments a = concat (map (\<lambda>l. map (\<lambda>p. (l, of_nat p)) [0..<1024 ^ l]) [1..<L])"
      unfolding segments_def la by (intro arg_cong [where f = concat] map_cong) simp_all
    then show ?thesis
      using add_layers_ok [OF start, of L s'] s1(3) False L la es by (auto simp: s1(2) a0_def max_def)
  qed
  then show thesis using that mal(3) la L s1(2) uL by (auto simp: a0_def)
qed

text \<open>Element \<open>k\<close> of the array.\<close>

definition leaf :: "GAddrArray \<Rightarrow> nat" where "leaf a = unat (ar_layer_num a) - 1"

definition element :: "GAddrArray \<Rightarrow> tree \<Rightarrow> nat \<Rightarrow> GlobalAddress" where
  "element a t k = step_addr (k mod 1024 * unat (ar_element_size a)) (t (leaf a, k div 1024))"

definition array_built :: "GAddrArray \<Rightarrow> tree \<Rightarrow> nat \<Rightarrow> nat \<Rightarrow> shared \<Rightarrow> bool" where
  "array_built a t n es m \<longleftrightarrow> tree_at a t (layers (max 1 (unat (ar_layer_num a)))) m \<and> ar_array_size a = of_nat n \<and> n \<le> 1073741824
     \<and> ar_element_size a = of_nat es \<and> 0 < es \<and> es * 1024 < 2 ^ 31 \<and> (n \<le> 1 \<longrightarrow> es \<le> 10240)
     \<and> ar_layer_size a = layer_sizes (ar_layer_num a) \<and> unat (ar_layer_num a) < 4 \<and> n \<le> 1024 ^ unat (ar_layer_num a)"

abbreviation array_tables :: "GAddrArray \<Rightarrow> tree \<Rightarrow> (u8 \<times> nat) set" where
  "array_tables a t \<equiv> tables a t (layers (max 1 (unat (ar_layer_num a))))"

lemma tree_at_on: "tree_at a t D m \<Longrightarrow> same_on (tables a t D) m m' \<Longrightarrow> tree_at a t D m'"
proof -
  assume t: "tree_at a t D m" and same: "same_on (tables a t D) m m'"
  have "read_slot m' (of_nat (p mod 1024)) (t (l - 1, p div 1024)) = read_slot m (of_nat (p mod 1024)) (t (l - 1, p div 1024))"
    if lp: "(l, p) \<in> D" "0 < l" for l p
  proof (rule read_slot_same_on)
    have par: "(l - 1, p div 1024) \<in> D" "l < unat (ar_layer_num a)" using t lp by (fastforce simp: tree_at_def)+
    then have sz: "node_size a (l - 1) = 10240" using lp(2) by (simp add: node_size_def)
    have "in_range (t (l - 1, p div 1024)) (node_size a (l - 1))" using t par(1) unfolding tree_at_def by (metis fst_conv)
    then show c: "in_range (t (l - 1, p div 1024)) 10240" by (simp only: sz)
    have "area (t (l - 1, p div 1024)) 10240 \<subseteq> tables a t D" using par lp(2) unfolding tables_def by (intro UN_upper) auto
    then show "same_on (area (step_addr (p mod 1024 * 10) (t (l - 1, p div 1024))) 10) m m'"
      using slot_area [OF _ c, of "p mod 1024"] by (intro same_on_mono [OF same]) auto
  qed simp
  then show ?thesis by (rule tree_at_mem [OF t])
qed

lemma element_node:
  assumes b: "array_built a t n es m" and k: "k < n"
  shows "(leaf a, k div 1024) \<in> layers (max 1 (unat (ar_layer_num a)))"
    and "node_size a (leaf a) = (if ar_layer_num a = 0 then 10240 else es * 1024)" and "unat (ar_element_size a) = es"
    and "(k mod 1024 + 1) * es \<le> node_size a (leaf a)" and "in_range (t (leaf a, k div 1024)) (node_size a (leaf a))"
proof -
  let ?L = "unat (ar_layer_num a)"
  have B: "n \<le> 1024 ^ ?L" "es * 1024 < 2 ^ 31" "n \<le> 1 \<longrightarrow> es \<le> 10240" "ar_element_size a = of_nat es"
    "tree_at a t (layers (max 1 ?L)) m" using b by (simp_all add: array_built_def)
  show es: "unat (ar_element_size a) = es" using B(2) by (simp add: B(4) unsigned_of_nat take_bit_nat_eq_self)
  have "k div 1024 < 1024 ^ (?L - 1)"
  proof (cases ?L)
    case 0
    then show ?thesis using k B(1) by simp
  next
    case (Suc l)
    then show ?thesis using k B(1) by (simp add: less_mult_imp_div_less mult.commute)
  qed
  then show l: "(leaf a, k div 1024) \<in> layers (max 1 ?L)" by (auto simp: layers_def leaf_def)
  have u: "unat (ar_element_size a * N) = es * 1024" using B(2) es by (simp add: unat_mult_lem [THEN iffD1])
  then show size: "node_size a (leaf a) = (if ar_layer_num a = 0 then 10240 else es * 1024)"
    by (auto simp: node_size_def leaf_def unat_eq_zero)
  show "(k mod 1024 + 1) * es \<le> node_size a (leaf a)"
  proof (cases "ar_layer_num a = 0")
    case True
    then have "n \<le> 1" "k = 0" using B(1) k by simp_all
    then show ?thesis using B(3) size True by simp
  next
    case False
    have "(k mod 1024 + 1) * es \<le> 1024 * es" by (intro mult_right_mono) (simp_all add: Suc_leI)
    then show ?thesis using size False by simp
  qed
  show "in_range (t (leaf a, k div 1024)) (node_size a (leaf a))" using B(5) l unfolding tree_at_def by (metis fst_conv)
qed

lemma element_area:
  assumes b: "array_built a t n es m" and k: "k < n"
  shows "area (element a t k) es = {ga_nodeID (t (leaf a, k div 1024))} \<times>
      {unat (ga_addr (t (leaf a, k div 1024))) + k mod 1024 * es..<unat (ga_addr (t (leaf a, k div 1024))) + (k mod 1024 + 1) * es}"
    and "area (element a t k) es \<subseteq> node_area a t (leaf a, k div 1024)" and "in_range (element a t k) es"
proof -
  note e = element_node [OF b k]
  have "0 < es" using b by (simp add: array_built_def)
  then have lt: "k mod 1024 * es < node_size a (leaf a)" using e(4) by simp
  have u: "unat (ga_addr (element a t k)) = unat (ga_addr (t (leaf a, k div 1024))) + k mod 1024 * es"
    "ga_nodeID (element a t k) = ga_nodeID (t (leaf a, k div 1024))"
    using step_addr_simps(1) [OF e(5) lt] step_addr_simps(2) by (simp_all add: element_def e(3))
  then show "area (element a t k) es = {ga_nodeID (t (leaf a, k div 1024))} \<times>
      {unat (ga_addr (t (leaf a, k div 1024))) + k mod 1024 * es..<unat (ga_addr (t (leaf a, k div 1024))) + (k mod 1024 + 1) * es}"
    by (auto simp: area_def algebra_simps)
  then show "area (element a t k) es \<subseteq> node_area a t (leaf a, k div 1024)" using e(4) by (auto simp: area_def)
  show "in_range (element a t k) es" using e(4,5) u by (simp add: in_range_def algebra_simps)
qed

lemma ucast_small: "x < 2 ^ 31 \<Longrightarrow> (ucast (of_nat x :: u64) :: u32) = of_nat x"
  by (rule unsigned_word_eqI [where 'a = nat]) (simp add: unsigned_ucast_eq unsigned_of_nat take_bit_nat_eq_self del: of_nat_mult)

lemma element_found:
  assumes b: "array_built a t n es m" and k: "k < n"
  shows "GetElementGAddr a (of_nat k) m = Returned (element a t k)"
proof -
  note e = element_node [OF b k]
  let ?L = "unat (ar_layer_num a)"
  have B: "n \<le> 1073741824" "es * 1024 < 2 ^ 31" "ar_array_size a = of_nat n" "tree_at a t (layers (max 1 ?L)) m"
    "ar_layer_size a = layer_sizes (ar_layer_num a)" "?L < 4" "n \<le> 1024 ^ ?L" using b by (simp_all add: array_built_def)
  have uk: "unat (of_nat k :: u64) = k" "unat (of_nat n :: u64) = n" using k B(1) by (simp_all add: unsigned_of_nat take_bit_nat_eq_self)
  have lt: "of_nat k < ar_array_size a" using k uk by (simp add: B(3) word_less_nat_alt)
  have P: "(1024 :: nat) ^ ?L \<le> 1024 ^ 3" using B(6) by (intro power_increasing) simp_all
  have "ar_layer_size a ! ?L = of_nat (1024 ^ ?L)" using B(5,6) by (simp add: layer_sizes_nth)
  moreover have "unat (of_nat (1024 ^ ?L) :: u64) = 1024 ^ ?L"
    using P by (simp only: unsigned_of_nat) (subst take_bit_nat_eq_self; simp)
  ultimately have sz: "of_nat k < ar_layer_size a ! ?L" using k uk(1) B(7) by (simp add: word_less_nat_alt)
  have loc: "LocateParentNode a ?L (of_nat k) m = Returned (t (leaf a, k div 1024))"
  proof (cases ?L)
    case 0
    then have "k = 0" using B(7) k by simp
    then show ?thesis using locate_root [OF B(4)] sz 0 by (simp add: leaf_def)
  next
    case (Suc l)
    then have "leaf a = l" by (simp add: leaf_def)
    then show ?thesis using locate_node [OF B(4), of l "k div 1024" "of_nat k"] e(1) sz uk Suc by simp
  qed
  have less: "k mod 1024 * es < 2 ^ 31" using B(2) by (rule le_less_trans [rotated]) (metis mult.commute mult_le_mono2 less_imp_le mod_less_divisor zero_less_numeral)
  have "ar_element_size a = of_nat es" using b by (simp add: array_built_def)
  moreover have "(of_nat k :: u64) mod N = of_nat (k mod 1024)" by (metis of_nat_unat uk(1) unat_mod unat_numeral_N)
  ultimately have "of_nat k mod N * ar_element_size a = of_nat (k mod 1024 * es)" by simp
  then have "(ucast (of_nat k mod N * ar_element_size a) :: u32) = of_nat (k mod 1024 * es)"
    using ucast_small [OF less] by (simp only:)
  then show ?thesis using GADD_step [OF less, of "t (leaf a, k div 1024)"] lt loc e(3)
    by (simp add: GetElementGAddr_def outcome_bind_def element_def del: of_nat_mult)
qed

lemma elements_apart:
  assumes b: "array_built a t n es m" and jk: "j < n" "k < n" "j \<noteq> k"
  shows "area (element a t j) es \<inter> area (element a t k) es = {}"
proof (cases "j div 1024 = k div 1024")
  case True
  then have "j mod 1024 \<noteq> k mod 1024" using jk(3) by (metis div_mult_mod_eq)
  then have "(j mod 1024 + 1) * es \<le> k mod 1024 * es \<or> (k mod 1024 + 1) * es \<le> j mod 1024 * es"
    by (metis Suc_eq_plus1 Suc_leI mult_le_mono1 nat_neq_iff)
  then show ?thesis unfolding element_area(1) [OF b jk(1)] element_area(1) [OF b jk(2)] True by auto
next
  case False
  have "tree_at a t (layers (max 1 (unat (ar_layer_num a)))) m" using b by (simp add: array_built_def)
  then have "node_area a t (leaf a, j div 1024) \<inter> node_area a t (leaf a, k div 1024) = {}"
    using element_node(1) [OF b jk(1)] element_node(1) [OF b jk(2)] False unfolding tree_at_def by blast
  then show ?thesis using element_area(2) [OF b jk(1)] element_area(2) [OF b jk(2)] by blast
qed

lemma element_not_table:
  assumes b: "array_built a t n es m" and k: "k < n"
  shows "area (element a t k) es \<inter> array_tables a t = {}"
proof -
  let ?D = "layers (max 1 (unat (ar_layer_num a)))"
  have t: "tree_at a t ?D m" using b by (simp add: array_built_def)
  have "area (element a t k) es \<inter> area (t x) 10240 = {}" if x: "x \<in> ?D" "fst x + 1 < unat (ar_layer_num a)" for x
  proof -
    have "x \<noteq> (leaf a, k div 1024)" using x(2) by (auto simp: leaf_def)
    then have "node_area a t x \<inter> node_area a t (leaf a, k div 1024) = {}"
      using t x(1) element_node(1) [OF b k] unfolding tree_at_def by blast
    moreover have "node_size a (fst x) = 10240" using x(2) by (simp add: node_size_def)
    ultimately show ?thesis using element_area(2) [OF b k] by auto
  qed
  then show ?thesis unfolding tables_def by blast
qed

end
