(* ===== verification/Db_Bucket_Spec.thy ===== *)
theory Db_Bucket_Spec
  imports Db_Bucket_Proof
begin

text \<open>
  A bucket of the hash index is a map from keys to the addresses of their records: what \<open>SearchNode\<close> and the iterator
  return after any sequence of insertions.
\<close>

section \<open>One insertion\<close>

abbreviation blocks_of :: "nodes \<Rightarrow> u64 \<Rightarrow> blocks" where
  "blocks_of ns key \<equiv> (case map_of (contents ns) key of None \<Rightarrow> [] | Some bs \<Rightarrow> bs)"

lemma contents_append [simp]: "contents (xs @ ys) = contents xs @ contents ys" "contents [(b, key, bs)] = [(key, bs)]"
    "contents ((b, key, bs) # ns) = (key, bs) # contents ns" "contents [] = []"
  by (simp_all add: contents_def)

lemma map_of_contents_None: "map_of (contents ns) key = None \<longleftrightarrow> key \<notin> set (keys ns)"
  by (simp add: map_of_eq_None_iff keys_def contents_def image_image comp_def)

lemma contents_update:
  assumes "locate key prev ns = (p, Some b)"
  shows "map_of (contents (update_key key bs' ns)) = (map_of (contents ns))(key \<mapsto> bs')"
proof -
  obtain xs bs ys where sp: "ns = xs @ (b, key, bs) # ys" "key \<notin> set (keys xs)" "\<And>bs'. update_key key bs' ns = xs @ (b, key, bs') # ys"
    using located_split [OF assms] by metis
  have "map_of (contents xs) key = None" using sp(2) by (simp add: map_of_contents_None)
  then show ?thesis unfolding sp(3) by (auto simp: sp(1) fun_eq_iff map_add_def split: option.split)
qed

lemma InsertNode_returns: "bucket_ok U head ns s \<Longrightarrow> InsertNode key r head s \<noteq> None"
  using find_node_locate [of "db_mem s" head ns key Null "BucketNode_Init 0"]
  by (auto simp: bucket_ok_def InsertNode_def split: prod.splits option.splits)

lemma InsertNode_adds:
  assumes ok: "bucket_ok U head ns s" and run: "InsertNode key r head s = Some (Returned (new, head', s'))"
  obtains c ns' where "bucket_ok U head' ns' s'" "same_on U (db_mem s) (db_mem s')"
    "map_of (contents ns') = (map_of (contents ns))(key \<mapsto> add_ptr c r (blocks_of ns key))" "new \<longleftrightarrow> map_of (contents ns) key = None"
proof (cases "locate key Null ns")
  case (Pair p f)
  have na: "nodes_at (db_mem s) head ns" using ok by (simp add: bucket_ok_def)
  note fnd = find_node_locate [OF na, where key = key and prev = Null and nd = "BucketNode_Init 0"]
  show thesis
  proof (cases f)
    case None
    then obtain c nd' where f: "find_node key Null head (BucketNode_Init 0) (db_mem s) = Some (p, c, nd')" "is_null c"
      using fnd Pair by auto
    have new: "new" "insert_new key r p head s = Returned (head', s')"
      using run f by (auto simp: InsertNode_def outcome_bind_def split: outcome.splits)
    have no: "map_of (contents ns) key = None"
      using locate_None [of key Null ns] Pair None by (simp add: map_of_contents_None)
    obtain na ia where r: "bucket_ok U head' (ns @ [(na, key, [(ia, [r])])]) s'" "same_on U (db_mem s) (db_mem s')"
      using insert_new_ok [OF ok _ new(2)] Pair None by auto
    have "map_of (contents (ns @ [(na, key, [(ia, [r])])])) = (map_of (contents ns))(key \<mapsto> add_ptr ia r (blocks_of ns key))"
      using no by (auto simp: fun_eq_iff map_add_def split: option.split)
    then show thesis using that r new(1) no by blast
  next
    case (Some b)
    then have loc: "locate key Null ns = (p, Some b)" using Pair by simp
    obtain bs where bs: "map_of (contents ns) key = Some bs" "bs \<noteq> []" "\<not> is_null b" using located [OF na loc] by blast
    have f: "find_node key Null head (BucketNode_Init 0) (db_mem s) = Some (p, b, read_node b (db_mem s))" using fnd loc by auto
    have ex: "\<not> new" "head' = head" "insert_existing r b (read_node b (db_mem s)) s = Returned s'"
      using run f bs(3) by (auto simp: InsertNode_def outcome_bind_def split: outcome.splits)
    obtain c ps cs where b: "bs = (c, ps) # cs" using bs(2) by (cases bs) auto
    show thesis
    proof (cases "length ps < 2")
      case True
      obtain s'' where "insert_existing r b (read_node b (db_mem s)) s = Returned s''"
        "bucket_ok U head (update_key key ((c, ps @ [r]) # cs) ns) s''" "same_on U (db_mem s) (db_mem s'')"
        using insert_room_left [OF ok loc bs(1) [unfolded b] True] by blast
      then show thesis using that [of "update_key key ((c, ps @ [r]) # cs) ns" c] ex bs b True by (simp add: contents_update [OF loc])
    next
      case False
      obtain a where "bucket_ok U head (update_key key ((a, [r]) # (c, ps) # cs) ns) s'" "same_on U (db_mem s) (db_mem s')"
        using insert_full [OF ok loc bs(1) [unfolded b] False ex(3)] by blast
      then show thesis using that [of "update_key key ((a, [r]) # (c, ps) # cs) ns" a] ex bs b False by (simp add: contents_update [OF loc])
    qed
  qed
qed

section \<open>The order of the records of a key\<close>

text \<open>Records fill blocks of two, and the newest block is in front.\<close>

fun pairs :: "'a list \<Rightarrow> 'a list list" where
  "pairs [] = []"
| "pairs [a] = [[a]]"
| "pairs (a # b # xs) = [a, b] # pairs xs"

fun add_pair :: "'a \<Rightarrow> 'a list list \<Rightarrow> 'a list list" where
  "add_pair r [] = [[r]]"
| "add_pair r (p # ps) = (if length p < 2 then (p @ [r]) # ps else [r] # p # ps)"

lemma add_ptr_pair: "map snd (add_ptr c r bs) = add_pair r (map snd bs)"
  by (cases "(c, r, bs)" rule: add_ptr.cases) auto

lemma pairs_snoc: "rev (pairs (xs @ [r])) = add_pair r (rev (pairs xs))"
proof (induction xs rule: pairs.induct)
  case (3 a b xs)
  have "add_pair r (ys @ [z]) = add_pair r ys @ [z]" if "ys \<noteq> []" for ys and z :: "'a list" using that by (cases ys) auto
  moreover have "pairs xs = [] \<longleftrightarrow> xs = []" by (cases xs rule: pairs.cases) auto
  ultimately show ?case using 3 by (cases "xs = []") auto
qed simp_all

lemma mset_pairs: "mset (concat (rev (pairs xs))) = mset xs"
  by (induction xs rule: pairs.induct) auto

lemma hd_pairs: "xs \<noteq> [] \<Longrightarrow> hd (concat (rev (pairs xs))) = xs ! (2 * ((length xs - 1) div 2))"
proof (induction xs rule: pairs.induct)
  case (3 a b xs)
  have ne: "concat (rev (pairs xs)) \<noteq> []" if "xs \<noteq> []" using that mset_pairs [of xs] by (metis mset_zero_iff)
  show ?case
  proof (cases "xs = []")
    case False
    then obtain n where n: "length xs = Suc n" by (cases xs) auto
    have "2 * ((length (a # b # xs) - 1) div 2) = Suc (Suc (2 * ((length xs - 1) div 2)))" by (simp add: n)
    then show ?thesis using 3 False ne by simp
  qed simp
qed simp_all

section \<open>The iterator\<close>

text \<open>Calls of \<open>GetNext\<close>, one after the other.\<close>

fun next_n :: "nat \<Rightarrow> shared \<Rightarrow> ItemsIter \<Rightarrow> (GlobalAddress list \<times> ItemsIter) option" where
  "next_n 0 m i = Some ([], i)"
| "next_n (Suc n) m i = (case GetNext m i of None \<Rightarrow> None
     | Some (r, i') \<Rightarrow> (case next_n n m i' of None \<Rightarrow> None | Some (rs, i'') \<Rightarrow> Some (r # rs, i'')))"

lemma two_list: "length xs = 2 \<Longrightarrow> \<exists>p q. xs = [p, q]"
  by (auto simp: length_Suc_conv numeral_2_eq_2)

lemma GetNext_block:
  assumes "items_at m a ((b, ps) # bs)" "ii_items_addr i = a" "ii_pos i < 0"
  shows "\<exists>i'. next_n (length ps) m i = Some (ps, i') \<and> ii_pos i' < 0 \<and> items_at m (ii_items_addr i') bs"
proof -
  have h: "\<not> is_null a" "holds_ptrs (read_items a m) ps" "items_at m (it_next (read_items a m)) bs" using assms(1) by auto
  let ?it = "read_items a m"
  have c: "it_record_ptrs_count ?it = of_nat (length ps)" "take (length ps) (it_record_ptrs ?it) = ps" "ps \<noteq> []" "length ps \<le> 2"
    using h(2) by (simp_all add: holds_ptrs_def)
  obtain p q where pq: "it_record_ptrs ?it = [p, q]" using two_list [OF length_ptrs] by blast
  consider (one) x where "ps = [x]" | (two) x y where "ps = [x, y]"
    using c(3,4) by (cases ps rule: pairs.cases) auto
  then show ?thesis
  proof cases
    case one
    then show ?thesis using h c pq assms(2,3) by (auto simp: GetNext_def Let_def)
  next
    case two
    then show ?thesis using h c pq assms(2,3) by (auto simp: GetNext_def Let_def)
  qed
qed

lemma next_n_append:
  "next_n n m i = Some (rs, i') \<Longrightarrow> next_n k m i' = Some (qs, i'') \<Longrightarrow> next_n (n + k) m i = Some (rs @ qs, i'')"
  by (induction n arbitrary: i rs) (auto split: option.splits)

lemma iterate:
  assumes "items_at m a bs" "ii_items_addr i = a" "ii_pos i < 0"
  shows "\<exists>i'. next_n (length (concat (map snd bs))) m i = Some (concat (map snd bs), i') \<and> is_null (ii_items_addr i')"
  using assms
proof (induction bs arbitrary: a i)
  case (Cons x bs)
  obtain b ps where x: "x = (b, ps)" by (cases x)
  obtain i1 where i1: "next_n (length ps) m i = Some (ps, i1)" "ii_pos i1 < 0" "items_at m (ii_items_addr i1) bs"
    using GetNext_block [of m a b ps bs i] Cons.prems x by blast
  obtain i2 where "next_n (length (concat (map snd bs))) m i1 = Some (concat (map snd bs), i2)" "is_null (ii_items_addr i2)"
    using Cons.IH [OF i1(3) refl i1(2)] by blast
  then show ?case using next_n_append [OF i1(1)] x by auto
qed simp

section \<open>A sequence of insertions\<close>

fun InsertAll :: "(u64 \<times> GlobalAddress) list \<Rightarrow> GlobalAddress \<Rightarrow> db \<Rightarrow> (bool list \<times> GlobalAddress \<times> db) outcome option" where
  "InsertAll [] head s = Some (Returned ([], head, s))"
| "InsertAll ((key, r) # kvs) head s =
     (case InsertNode key r head s of
        None \<Rightarrow> None
      | Some (Returned (new, head, s)) \<Rightarrow>
          (case InsertAll kvs head s of
             None \<Rightarrow> None
           | Some o2 \<Rightarrow> Some (outcome_bind o2 (\<lambda>(news, head, s). Returned (new # news, head, s))))
      | Some Waits \<Rightarrow> Some Waits | Some Hangs \<Rightarrow> Some Hangs | Some Aborts \<Rightarrow> Some Aborts)"

definition records_of :: "u64 \<Rightarrow> (u64 \<times> GlobalAddress) list \<Rightarrow> GlobalAddress list" where
  "records_of key kvs = map snd (filter (\<lambda>kv. fst kv = key) kvs)"

lemma records_of_snoc: "records_of key (kvs @ [(k, r)]) = records_of key kvs @ (if k = key then [r] else [])"
  by (simp add: records_of_def)

lemma records_of_Nil: "records_of key kvs = [] \<longleftrightarrow> key \<notin> set (map fst kvs)"
  by (auto simp: records_of_def filter_empty_conv)

definition holds_records :: "nodes \<Rightarrow> (u64 \<times> GlobalAddress) list \<Rightarrow> bool" where
  "holds_records ns kvs \<longleftrightarrow> (\<forall>key. map snd (blocks_of ns key) = rev (pairs (records_of key kvs))
     \<and> (map_of (contents ns) key = None \<longleftrightarrow> records_of key kvs = []))"

lemma InsertNode_records:
  assumes ok: "bucket_ok U head ns s" and hr: "holds_records ns kvs" and run: "InsertNode key r head s = Some (Returned (new, head', s'))"
  obtains ns' where "bucket_ok U head' ns' s'" "same_on U (db_mem s) (db_mem s')" "holds_records ns' (kvs @ [(key, r)])"
    "new \<longleftrightarrow> key \<notin> set (map fst kvs)"
proof -
  obtain c ns' where r: "bucket_ok U head' ns' s'" "same_on U (db_mem s) (db_mem s')"
    "map_of (contents ns') = (map_of (contents ns))(key \<mapsto> add_ptr c r (blocks_of ns key))" "new \<longleftrightarrow> map_of (contents ns) key = None"
    using InsertNode_adds [OF ok run] by blast
  have "holds_records ns' (kvs @ [(key, r)])"
    unfolding holds_records_def
  proof (intro allI)
    fix k
    show "map snd (blocks_of ns' k) = rev (pairs (records_of k (kvs @ [(key, r)])))
      \<and> (map_of (contents ns') k = None \<longleftrightarrow> records_of k (kvs @ [(key, r)]) = [])"
      using hr [unfolded holds_records_def, rule_format, of k] r(3)
      by (cases "k = key") (simp_all add: records_of_snoc add_ptr_pair pairs_snoc)
  qed
  moreover have "new \<longleftrightarrow> key \<notin> set (map fst kvs)" using r(4) hr unfolding holds_records_def records_of_Nil by blast
  ultimately show thesis using that r(1,2) by blast
qed

lemma InsertAll_records:
  assumes "bucket_ok U head ns s" "holds_records ns kvs"
  shows "InsertAll kws head s \<noteq> None"
    and "InsertAll kws head s = Some (Returned (news, head', s')) \<Longrightarrow>
      (\<exists>ns'. bucket_ok U head' ns' s' \<and> holds_records ns' (kvs @ kws)) \<and> same_on U (db_mem s) (db_mem s')
      \<and> news = map (\<lambda>i. fst (kws ! i) \<notin> set (map fst (kvs @ take i kws))) [0..<length kws]"
  using assms
proof (induction kws arbitrary: head ns s kvs news)
  case (Cons kw kws)
  obtain key r where kw: "kw = (key, r)" by (cases kw)
  {
    case 1
    have "InsertNode key r head s \<noteq> None" by (rule InsertNode_returns [OF 1(1)])
    then obtain o1 where o1: "InsertNode key r head s = Some o1" by blast
    show ?case
    proof (cases o1)
      case (Returned p)
      obtain new head1 s1 where p: "p = (new, head1, s1)" by (cases p)
      obtain ns1 where "bucket_ok U head1 ns1 s1" "holds_records ns1 (kvs @ [(key, r)])"
        using InsertNode_records [OF 1 o1 [unfolded Returned p]] by blast
      then show ?thesis using Cons.IH(1) o1 Returned p kw by fastforce
    qed (use o1 kw in simp_all)
  next
    case 2
    obtain new head1 s1 news1 where i: "InsertNode key r head s = Some (Returned (new, head1, s1))"
      "InsertAll kws head1 s1 = Some (Returned (news1, head', s'))" "news = new # news1"
      using 2(1) kw by (auto simp: outcome_bind_def split: option.splits outcome.splits)
    obtain ns1 where n1: "bucket_ok U head1 ns1 s1" "same_on U (db_mem s) (db_mem s1)" "holds_records ns1 (kvs @ [(key, r)])"
      "new \<longleftrightarrow> key \<notin> set (map fst kvs)"
      using InsertNode_records [OF 2(2,3) i(1)] by blast
    note ih = Cons.IH(2) [OF i(2) n1(1,3)]
    have "map (\<lambda>i. fst ((kw # kws) ! i) \<notin> set (map fst (kvs @ take i (kw # kws)))) [0..<length (kw # kws)]
        = new # map (\<lambda>i. fst (kws ! i) \<notin> set (map fst ((kvs @ [(key, r)]) @ take i kws))) [0..<length kws]"
      using n1(4) kw by (auto simp: upt_conv_Cons map_Suc_upt [symmetric] simp del: upt_Suc)
    then show ?case using ih i(3) n1(2) same_on_trans kw by auto
  }
qed (simp_all, blast)

lemma holds_records_search:
  assumes na: "nodes_at m head ns" and hr: "holds_records ns kvs"
  shows "let rs = records_of key kvs in
      if rs = [] then SearchNode key head m = Some None
      else \<exists>a i. SearchNode key head m = Some (Some a) \<and> next_n (length rs) m (new_ItemsIter a) = Some (concat (rev (pairs rs)), i)
         \<and> GetNext m i = Some (Null, i)"
proof (cases "map_of (contents ns) key")
  case None
  then have "records_of key kvs = []" using hr by (simp add: holds_records_def)
  then show ?thesis using SearchNode_list [OF na, of key] None by simp
next
  case (Some bs)
  then have rs: "records_of key kvs \<noteq> []" "map snd bs = rev (pairs (records_of key kvs))"
    using hr by (force simp: holds_records_def split: option.splits)+
  obtain a where a: "SearchNode key head m = Some (Some a)" "items_at m a bs"
    using SearchNode_list [OF na, of key] Some by auto
  have "length (concat (rev (pairs (records_of key kvs)))) = length (records_of key kvs)"
    using mset_pairs [of "records_of key kvs"] by (metis size_mset)
  then obtain i where "next_n (length (records_of key kvs)) m (new_ItemsIter a) = Some (concat (rev (pairs (records_of key kvs))), i)"
    "is_null (ii_items_addr i)"
    using iterate [OF a(2), of "new_ItemsIter a"] rs(2) by (auto simp: new_ItemsIter_def)
  then show ?thesis using rs(1) a(1) by (auto simp: Let_def GetNext_def)
qed

text \<open>A bucket is a map from keys to records, in the memory shared by the nodes. Any sequence of \<open>InsertNode\<close> calls on
  an empty bucket comes to an end, each with its result whether the key was new. If none of them fails for want of memory,
  \<open>SearchNode\<close> then finds exactly the keys inserted; for a key with records the iterator returns every record once and
  then null, the newest block of two first; and the bytes that other structures use have not changed.\<close>

theorem bucket_is_multimap:
  assumes room: "room s U" "(0, 0) \<in> U"
  shows "\<exists>res. InsertAll kvs Null s = Some res \<and> (\<forall>news head s'. res = Returned (news, head, s') \<longrightarrow>
      news = map (\<lambda>i. fst (kvs ! i) \<notin> set (map fst (take i kvs))) [0..<length kvs]
      \<and> (\<forall>a. (ga_nodeID a, unat (ga_addr a)) \<in> U \<longrightarrow> db_mem s' a = db_mem s a)
      \<and> (\<forall>key. let rs = records_of key kvs in
          if rs = [] then SearchNode key head (db_mem s') = Some None
          else \<exists>a i. SearchNode key head (db_mem s') = Some (Some a)
             \<and> next_n (length rs) (db_mem s') (new_ItemsIter a) = Some (concat (rev (pairs rs)), i)
             \<and> GetNext (db_mem s') i = Some (Null, i)))"
proof -
  have start: "bucket_ok U Null [] s" "holds_records [] []"
    using room by (simp_all add: bucket_ok_def ga_eq_def holds_records_def records_of_def)
  obtain res where res: "InsertAll kvs Null s = Some res" using InsertAll_records(1) [OF start] by blast
  show ?thesis
  proof (intro exI conjI allI impI)
    show "InsertAll kvs Null s = Some res" by (rule res)
    fix news head s'
    assume run: "res = Returned (news, head, s')"
    obtain ns where ns: "bucket_ok U head ns s'" "holds_records ns kvs" "same_on U (db_mem s) (db_mem s')"
      "news = map (\<lambda>i. fst (kvs ! i) \<notin> set (map fst (take i kvs))) [0..<length kvs]"
      using InsertAll_records(2) [OF start res [unfolded run]] by auto
    show "news = map (\<lambda>i. fst (kvs ! i) \<notin> set (map fst (take i kvs))) [0..<length kvs]" by (rule ns(4))
    show "db_mem s' a = db_mem s a" if "(ga_nodeID a, unat (ga_addr a)) \<in> U" for a
      using ns(3) that by (simp add: same_on_def)
    show "let rs = records_of key kvs in
          if rs = [] then SearchNode key head (db_mem s') = Some None
          else \<exists>a i. SearchNode key head (db_mem s') = Some (Some a)
             \<and> next_n (length rs) (db_mem s') (new_ItemsIter a) = Some (concat (rev (pairs rs)), i)
             \<and> GetNext (db_mem s') i = Some (Null, i)" for key
      by (rule holds_records_search [OF _ ns(2)]) (use ns(1) in \<open>simp add: bucket_ok_def\<close>)
  qed
qed

text \<open>A node whose thread has one chunk, the second of node 0.\<close>

definition sample_chunk :: GlobalAddress where "sample_chunk = \<lparr>ga_addr = 0x4000000, ga_nodeID = 0, ga_org = 0\<rparr>"

definition sample_db :: db where
  "sample_db = \<lparr>db_mem = \<lambda>_. 0, db_thread = \<lparr>mt_alloc = \<lparr>lc_head = sample_chunk, lc_cur = sample_chunk, lc_log_heads = [sample_chunk]\<rparr>,
      mt_next_allocator_node = 1\<rparr>, db_chunks = [], db_nodes = 2\<rparr>"

lemma sample_room: "room sample_db {(0, 0)}"
  by (simp add: room_def sample_db_def local_ok_def available_def sample_chunk_def Let_def)

lemma sample_insert: "\<exists>new head s'. InsertNode 7 r Null sample_db = Some (Returned (new, head, s'))"
  by (subst InsertNode_def, subst find_node.simps)
    (simp add: ga_eq_def insert_new_def AddRecordPtr_def Items_Init_def SLOT_NUM_def outcome_bind_def Let_def db_malloc_def
      sample_db_def sample_chunk_def cache_malloc_def local_malloc_def kChunkSize_value GB_def MB_def set_mem_def Null_def exI [of "\<lambda>x. x" True])

theorem bucket_is_multimap_witness:
  "\<exists>head s' a i. InsertAll [(7, sample_chunk)] Null sample_db = Some (Returned ([True], head, s'))
     \<and> SearchNode 8 head (db_mem s') = Some None \<and> SearchNode 7 head (db_mem s') = Some (Some a)
     \<and> next_n 1 (db_mem s') (new_ItemsIter a) = Some ([sample_chunk], i) \<and> GetNext (db_mem s') i = Some (Null, i)"
proof -
  obtain new head s' where r: "InsertAll [(7, sample_chunk)] Null sample_db = Some (Returned ([new], head, s'))"
    using sample_insert [of sample_chunk] by (auto simp: outcome_bind_def)
  have rec: "records_of 8 [(7, sample_chunk)] = []" "records_of 7 [(7, sample_chunk)] = [sample_chunk]"
    by (simp_all add: records_of_def)
  note m = bucket_is_multimap [OF sample_room, of "[(7, sample_chunk)]", unfolded r, simplified]
  have "new" using m by simp
  moreover have "SearchNode 8 head (db_mem s') = Some None" using m by (auto simp: Let_def rec)
  moreover have "\<exists>a i. SearchNode 7 head (db_mem s') = Some (Some a)
     \<and> next_n 1 (db_mem s') (new_ItemsIter a) = Some ([sample_chunk], i) \<and> GetNext (db_mem s') i = Some (Null, i)"
    using m [THEN conjunct2, THEN conjunct2, rule_format, of 7] by (simp only: rec Let_def) simp
  ultimately show ?thesis using r by auto
qed

end
