(* ===== verification/Db_Index_Proof.thy ===== *)
theory Db_Index_Proof
  imports Db_Index Db_Array_Proof Db_Bucket_Spec
begin

text \<open>
  An index that has taken any sequence of records finds them, in any number of buckets; but no record gets into it through
  \<open>InsertRecord\<close>, because the lock it asks for is not implemented.
\<close>

section \<open>The index in memory\<close>

abbreviation array_area :: "GAddrArray \<Rightarrow> tree \<Rightarrow> (u8 \<times> nat) set" where
  "array_area a t \<equiv> (\<Union>x \<in> layers (max 1 (unat (ar_layer_num a))). node_area a t x)"

abbreviation bucket_area :: "nodes \<Rightarrow> (u8 \<times> nat) set" where "bucket_area ns \<equiv> \<Union> (set (areas ns))"

definition index_ok :: "(u8 \<times> nat) set \<Rightarrow> nat \<Rightarrow> HashIndex \<Rightarrow> tree \<Rightarrow> (nat \<Rightarrow> GlobalAddress) \<Rightarrow> (nat \<Rightarrow> nodes) \<Rightarrow> db \<Rightarrow> bool" where
  "index_ok U n ix t hds nss s \<longleftrightarrow>
     (let a = ix_buckets ix; E = U \<union> array_area a t in
      array_built a t n 10 (db_mem s) \<and> ix_buckets_count ix = of_nat n \<and> 0 < n \<and> (0, 0) \<in> U \<and> U \<inter> array_area a t = {}
      \<and> (\<forall>k<n. header_Deserialize (element a t k) (db_mem s) = hds k \<and> nodes_at (db_mem s) (hds k) (nss k)
           \<and> apart (areas (nss k)) \<and> E \<inter> bucket_area (nss k) = {})
      \<and> (\<forall>j<n. \<forall>k<n. j \<noteq> k \<longrightarrow> bucket_area (nss j) \<inter> bucket_area (nss k) = {})
      \<and> room s (E \<union> (\<Union>k \<in> {..<n}. bucket_area (nss k))))"

lemma index_okI:
  assumes "array_built (ix_buckets ix) t n 10 (db_mem s)" "ix_buckets_count ix = of_nat n" "0 < n" "(0, 0) \<in> U" "U \<inter> array_area (ix_buckets ix) t = {}"
    and "\<And>k. k < n \<Longrightarrow> header_Deserialize (element (ix_buckets ix) t k) (db_mem s) = hds k \<and> nodes_at (db_mem s) (hds k) (nss k)
       \<and> apart (areas (nss k)) \<and> (U \<union> array_area (ix_buckets ix) t) \<inter> bucket_area (nss k) = {}"
    and "\<And>j k. j < n \<Longrightarrow> k < n \<Longrightarrow> j \<noteq> k \<Longrightarrow> bucket_area (nss j) \<inter> bucket_area (nss k) = {}"
    and "room s (U \<union> array_area (ix_buckets ix) t \<union> (\<Union>k \<in> {..<n}. bucket_area (nss k)))"
  shows "index_ok U n ix t hds nss s"
  unfolding index_ok_def Let_def using assms by simp

text \<open>The bytes that are not those of bucket \<open>k\<close>.\<close>

abbreviation rest_area :: "(u8 \<times> nat) set \<Rightarrow> nat \<Rightarrow> HashIndex \<Rightarrow> tree \<Rightarrow> (nat \<Rightarrow> nodes) \<Rightarrow> nat \<Rightarrow> (u8 \<times> nat) set" where
  "rest_area U n ix t nss k \<equiv> U \<union> array_area (ix_buckets ix) t \<union> (\<Union>j \<in> {..<n} - {k}. bucket_area (nss j))"

lemma apart_Cons: "apart (A # As) \<longleftrightarrow> A \<inter> \<Union> (set As) = {} \<and> apart As"
  by auto

lemma index_bucket:
  assumes ok: "index_ok U n ix t hds nss s" and k: "k < n"
  shows "bucket_ok (rest_area U n ix t nss k) (hds k) (nss k) s"
proof -
  let ?a = "ix_buckets ix"
  have I: "nodes_at (db_mem s) (hds k) (nss k)" "apart (areas (nss k))" "(U \<union> array_area ?a t) \<inter> bucket_area (nss k) = {}"
    "\<forall>j<n. j \<noteq> k \<longrightarrow> bucket_area (nss j) \<inter> bucket_area (nss k) = {}" "(0, 0) \<in> U"
    "room s (U \<union> array_area ?a t \<union> (\<Union>k \<in> {..<n}. bucket_area (nss k)))"
    using ok k by (simp_all add: index_ok_def Let_def)
  have "(\<Union>j \<in> {..<n}. bucket_area (nss j)) = bucket_area (nss k) \<union> (\<Union>j \<in> {..<n} - {k}. bucket_area (nss j))" using k by auto
  then have "room s (\<Union> (set (rest_area U n ix t nss k # areas (nss k))))" using I(6) by (simp add: Un_ac)
  moreover have "rest_area U n ix t nss k \<inter> bucket_area (nss k) = {}" using I(3,4) by blast
  ultimately show ?thesis using I(1,2,5) unfolding bucket_ok_def apart_Cons by blast
qed

section \<open>One record\<close>

lemma tables_in_array: "array_tables a t \<subseteq> array_area a t"
proof
  fix y assume "y \<in> array_tables a t"
  then obtain x where "x \<in> layers (max 1 (unat (ar_layer_num a)))" "fst x + 1 < unat (ar_layer_num a)" "y \<in> area (t x) 10240"
    by (auto simp: tables_def)
  moreover then have "node_size a (fst x) = 10240" by (simp add: node_size_def)
  ultimately show "y \<in> array_area a t" by (intro UN_I [of x]) simp_all
qed

lemma built_write:
  assumes b: "array_built a t n es m" and same: "same_on (array_area a t) m m'" and k: "k < n" and bs: "length bs = es"
  shows "array_built a t n es (Write (element a t k) bs m')"
proof -
  have "same_on (array_tables a t) m (Write (element a t k) bs m')"
    using element_not_table [OF b k] bs tables_in_array [of a t] by (intro same_on_Write same_on_mono [OF same]) auto
  then show ?thesis using b tree_at_on [of a t _ m] by (simp add: array_built_def)
qed

lemma element_in_array: "array_built a t n es m \<Longrightarrow> k < n \<Longrightarrow> area (element a t k) es \<subseteq> array_area a t"
  using element_area(2) [of a t n es m k] element_node(1) [of a t n es m k] by blast

lemma header_other:
  assumes b: "array_built a t n 10 m" and jk: "j < n" "k < n" "j \<noteq> k" and same: "same_on (array_area a t) m m'"
  shows "header_Deserialize (element a t j) (Write (element a t k) (ga_bytes h) m') = header_Deserialize (element a t j) m"
proof -
  have "same_on (area (element a t j) 10) m (Write (element a t k) (ga_bytes h) m')"
    using elements_apart [OF b jk] element_in_array [OF b jk(1)] by (intro same_on_Write same_on_mono [OF same]) auto
  then show ?thesis using Read_same_on [OF element_area(3) [OF b jk(1)]] by (simp add: header_Deserialize_def)
qed

lemma header_same:
  assumes b: "array_built a t n 10 m" and k: "k < n"
  shows "header_Deserialize (element a t k) (Write (element a t k) (ga_bytes h) m') = h"
  using Read_Write_same [of "element a t k" "ga_bytes h"] element_area(3) [OF b k] by (simp add: header_Deserialize_def)

lemma disjoint_part: "R \<inter> B = {} \<Longrightarrow> A \<subseteq> R \<Longrightarrow> B \<inter> A = {}"
  by blast

lemma index_insert:
  assumes ok: "index_ok U n ix t hds nss s" and k: "k < n"
    and bk: "bucket_ok (rest_area U n ix t nss k) head ns s1" and same: "same_on (rest_area U n ix t nss k) (db_mem s) (db_mem s1)"
    and s': "db_mem s' = Write (element (ix_buckets ix) t k) (ga_bytes head) (db_mem s1)" "\<And>V. room s' V = room s1 V"
    and ix': "ix_buckets ix' = ix_buckets ix" "ix_buckets_count ix' = ix_buckets_count ix"
  shows "index_ok U n ix' t (hds(k := head)) (nss(k := ns)) s'" "same_on U (db_mem s) (db_mem s')"
proof -
  let ?a = "ix_buckets ix" and ?R = "rest_area U n ix t nss k"
  have I: "array_built ?a t n 10 (db_mem s)" "ix_buckets_count ix = of_nat n" "0 < n" "(0, 0) \<in> U" "U \<inter> array_area ?a t = {}"
    "\<And>j. j < n \<Longrightarrow> header_Deserialize (element ?a t j) (db_mem s) = hds j \<and> nodes_at (db_mem s) (hds j) (nss j)
       \<and> apart (areas (nss j)) \<and> (U \<union> array_area ?a t) \<inter> bucket_area (nss j) = {}"
    "\<And>i j. i < n \<Longrightarrow> j < n \<Longrightarrow> i \<noteq> j \<Longrightarrow> bucket_area (nss i) \<inter> bucket_area (nss j) = {}"
    using ok by (simp_all add: index_ok_def Let_def)
  have B: "nodes_at (db_mem s1) head ns" "?R \<inter> bucket_area ns = {}" "apart (areas ns)" "room s1 (?R \<union> bucket_area ns)"
    using bk unfolding bucket_ok_def apart_Cons by simp_all
  have el: "area (element ?a t k) 10 \<subseteq> array_area ?a t" by (rule element_in_array [OF I(1) k])
  have arr: "same_on (array_area ?a t) (db_mem s) (db_mem s1)" by (rule same_on_mono [OF same]) blast
  have built: "array_built ?a t n 10 (db_mem s')" unfolding s'(1) by (rule built_write [OF I(1) arr k]) simp
  have others: "header_Deserialize (element ?a t j) (db_mem s') = hds j \<and> nodes_at (db_mem s') (hds j) (nss j)" if "j < n" "j \<noteq> k" for j
  proof
    show "header_Deserialize (element ?a t j) (db_mem s') = hds j"
      using header_other [OF I(1) that(1) k that(2) arr] I(6) [OF that(1)] by (simp add: s'(1))
    have "same_on (bucket_area (nss j)) (db_mem s) (db_mem s1)" by (rule same_on_mono [OF same]) (use that in blast)
    then have "same_on (bucket_area (nss j)) (db_mem s) (db_mem s')"
      unfolding s'(1) using I(6) [OF that(1)] el by (intro same_on_Write) auto
    then show "nodes_at (db_mem s') (hds j) (nss j)" using I(6) [OF that(1)] nodes_at_on by blast
  qed
  have own: "header_Deserialize (element ?a t k) (db_mem s') = head" "nodes_at (db_mem s') head ns"
  proof -
    show "header_Deserialize (element ?a t k) (db_mem s') = head" unfolding s'(1) by (rule header_same [OF I(1) k])
    have "area (element ?a t k) 10 \<subseteq> ?R" by (rule subset_trans [OF el]) (rule le_supI1, rule sup_ge2)
    then have "bucket_area ns \<inter> area (element ?a t k) (length (ga_bytes head)) = {}" unfolding length_ga_bytes by (rule disjoint_part [OF B(2)])
    then show "nodes_at (db_mem s') head ns" unfolding s'(1) by (intro nodes_at_on [OF B(1)] same_on_Write same_on_refl)
  qed
  have each: "header_Deserialize (element ?a t j) (db_mem s') = (hds(k := head)) j \<and> nodes_at (db_mem s') ((hds(k := head)) j) ((nss(k := ns)) j)
       \<and> apart (areas ((nss(k := ns)) j)) \<and> (U \<union> array_area ?a t) \<inter> bucket_area ((nss(k := ns)) j) = {}" if "j < n" for j
  proof (cases "j = k")
    case True
    have "(U \<union> array_area ?a t) \<inter> bucket_area ns = {}" using B(2) by blast
    then show ?thesis using own B(3) by (simp only: True fun_upd_same simp_thms)
  next
    case False
    then show ?thesis using others [OF that] I(6) [OF that] by (simp only: fun_upd_other simp_thms)
  qed
  have pair: "bucket_area ((nss(k := ns)) i) \<inter> bucket_area ((nss(k := ns)) j) = {}" if "i < n" "j < n" "i \<noteq> j" for i j
  proof -
    have new: "bucket_area ns \<inter> bucket_area (nss l) = {}" if "l < n" "l \<noteq> k" for l using B(2) that by blast
    show ?thesis
    proof (cases "i = k")
      case True
      then show ?thesis using new [of j] that by (simp only: fun_upd_same fun_upd_other)
    next
      case False
      show ?thesis
      proof (cases "j = k")
        case True
        have "bucket_area (nss i) \<inter> bucket_area ns = {}" using new [OF that(1) \<open>i \<noteq> k\<close>] by blast
        then show ?thesis using True \<open>i \<noteq> k\<close> by (simp only: fun_upd_same fun_upd_other not_False_eq_True)
      next
        case False
        then show ?thesis using I(7) [OF that] \<open>i \<noteq> k\<close> by (simp only: fun_upd_other not_False_eq_True)
      qed
    qed
  qed
  have "(\<Union>j \<in> {..<n}. bucket_area ((nss(k := ns)) j)) = bucket_area ns \<union> (\<Union>j \<in> {..<n} - {k}. bucket_area (nss j))"
  proof -
    have n: "{..<n} = insert k ({..<n} - {k})" using k by auto
    then have "(\<Union>j \<in> {..<n}. bucket_area ((nss(k := ns)) j))
        = bucket_area ((nss(k := ns)) k) \<union> (\<Union>j \<in> {..<n} - {k}. bucket_area ((nss(k := ns)) j))" by (subst n) (rule UN_insert)
    also have "(\<Union>j \<in> {..<n} - {k}. bucket_area ((nss(k := ns)) j)) = (\<Union>j \<in> {..<n} - {k}. bucket_area (nss j))"
      by (rule SUP_cong) simp_all
    finally show ?thesis by (simp only: fun_upd_same)
  qed
  then have rest: "U \<union> array_area ?a t \<union> (\<Union>j \<in> {..<n}. bucket_area ((nss(k := ns)) j)) = ?R \<union> bucket_area ns"
    by (simp only: Un_ac)
  show "index_ok U n ix' t (hds(k := head)) (nss(k := ns)) s'"
  proof (rule index_okI, unfold ix')
    show "room s' (U \<union> array_area ?a t \<union> (\<Union>j \<in> {..<n}. bucket_area ((nss(k := ns)) j)))" unfolding rest s'(2) by (rule B(4))
  qed (fact built I(2-5) | erule each | erule (2) pair)+
  have "same_on U (db_mem s) (db_mem s1)" by (rule same_on_mono [OF same]) blast
  then show "same_on U (db_mem s) (db_mem s')" unfolding s'(1) using el I(5) by (intro same_on_Write) auto
qed

section \<open>Any sequence of records\<close>

text \<open>What \<open>InsertRecord\<close> would do if the lock were granted, for a sequence of records.\<close>

definition insert_granted :: "HashIndex \<Rightarrow> u64 \<Rightarrow> GlobalAddress \<Rightarrow> db \<Rightarrow> (bool \<times> HashIndex \<times> db) outcome option" where
  "insert_granted ix key record_ptr s =
     (case header_addr ix key (db_mem s) of
        Returned hd_addr \<Rightarrow> insert_locked ix key record_ptr hd_addr s
      | Waits \<Rightarrow> Some Waits | Hangs \<Rightarrow> Some Hangs | Aborts \<Rightarrow> Some Aborts)"

fun insert_all :: "(u64 \<times> GlobalAddress) list \<Rightarrow> HashIndex \<Rightarrow> db \<Rightarrow> (bool list \<times> HashIndex \<times> db) outcome option" where
  "insert_all [] ix s = Some (Returned ([], ix, s))"
| "insert_all ((key, r) # kvs) ix s =
     (case insert_granted ix key r s of
        None \<Rightarrow> None
      | Some (Returned (new, ix, s)) \<Rightarrow>
          (case insert_all kvs ix s of
             None \<Rightarrow> None
           | Some o2 \<Rightarrow> Some (outcome_bind o2 (\<lambda>(news, ix, s). Returned (new # news, ix, s))))
      | Some Waits \<Rightarrow> Some Waits | Some Hangs \<Rightarrow> Some Hangs | Some Aborts \<Rightarrow> Some Aborts)"

abbreviation bucket_no :: "nat \<Rightarrow> u64 \<Rightarrow> nat" where "bucket_no n key \<equiv> unat key mod n"

definition index_holds :: "nat \<Rightarrow> (nat \<Rightarrow> nodes) \<Rightarrow> (u64 \<times> GlobalAddress) list \<Rightarrow> bool" where
  "index_holds n nss kvs \<longleftrightarrow> (\<forall>k<n. holds_records (nss k) (filter (\<lambda>kv. bucket_no n (fst kv) = k) kvs))"

lemma header_addr_eq:
  assumes ok: "index_ok U n ix t hds nss s"
  shows "header_addr ix key (db_mem s) = Returned (element (ix_buckets ix) t (bucket_no n key))" "bucket_no n key < n"
    "header_Deserialize (element (ix_buckets ix) t (bucket_no n key)) (db_mem s) = hds (bucket_no n key)"
proof -
  have I: "array_built (ix_buckets ix) t n 10 (db_mem s)" "ix_buckets_count ix = of_nat n" "0 < n"
    "\<forall>k<n. header_Deserialize (element (ix_buckets ix) t k) (db_mem s) = hds k"
    using ok by (simp_all add: index_ok_def Let_def)
  then have n: "n \<le> 1073741824" by (simp add: array_built_def)
  then have u: "unat (of_nat n :: u64) = n" by (simp add: unsigned_of_nat take_bit_nat_eq_self)
  show k: "bucket_no n key < n" using I(3) by simp
  have "unat (key mod of_nat n) = bucket_no n key" by (simp add: unat_mod u)
  then have "key mod of_nat n = of_nat (bucket_no n key)" by (metis of_nat_unat)
  moreover have "(of_nat n :: u64) \<noteq> 0" using u I(3) by (metis less_numeral_extra(3) unat_0)
  ultimately show "header_addr ix key (db_mem s) = Returned (element (ix_buckets ix) t (bucket_no n key))"
    using element_found [OF I(1) k] by (simp add: header_addr_def I(2))
  show "header_Deserialize (element (ix_buckets ix) t (bucket_no n key)) (db_mem s) = hds (bucket_no n key)" using I(4) k by blast
qed

lemma insert_granted_returns: "index_ok U n ix t hds nss s \<Longrightarrow> insert_granted ix key r s \<noteq> None"
  using header_addr_eq [of U n ix t hds nss s key] InsertNode_returns [OF index_bucket [of U n ix t hds nss s "bucket_no n key"], of key r]
  by (auto simp: insert_granted_def insert_locked_def split: option.splits)

lemma insert_granted_ok:
  assumes ok: "index_ok U n ix t hds nss s" and holds: "index_holds n nss kvs"
    and run: "insert_granted ix key r s = Some (Returned (new, ix', s'))"
  obtains hds' nss' where "index_ok U n ix' t hds' nss' s'" "index_holds n nss' (kvs @ [(key, r)])" "same_on U (db_mem s) (db_mem s')"
    "new \<longleftrightarrow> key \<notin> set (map fst kvs)" "ix_record_count ix' = ix_record_count ix + 1"
proof -
  note h = header_addr_eq [OF ok, of key]
  let ?k = "bucket_no n key" and ?el = "element (ix_buckets ix) t (bucket_no n key)"
  note bk = index_bucket [OF ok h(2)]
  have hr: "holds_records (nss ?k) (filter (\<lambda>kv. bucket_no n (fst kv) = ?k) kvs)" using holds h(2) by (simp add: index_holds_def)
  obtain head s1 where i: "InsertNode key r (hds ?k) s = Some (Returned (new, head, s1))"
    "s' = set_mem (header_Serialize ?el head) s1" "ix' = ix\<lparr>ix_record_count := ix_record_count ix + 1\<rparr>"
    using run h by (auto simp: insert_granted_def insert_locked_def UnLock_def set_mem_def outcome_bind_def Let_def
        split: option.splits outcome.splits)
  obtain ns where ns: "bucket_ok (rest_area U n ix t nss ?k) head ns s1" "same_on (rest_area U n ix t nss ?k) (db_mem s) (db_mem s1)"
    "holds_records ns (filter (\<lambda>kv. bucket_no n (fst kv) = ?k) kvs @ [(key, r)])"
    "new \<longleftrightarrow> key \<notin> set (map fst (filter (\<lambda>kv. bucket_no n (fst kv) = ?k) kvs))"
    by (rule InsertNode_records [OF bk hr i(1)])
  have m: "db_mem s' = Write ?el (ga_bytes head) (db_mem s1)" by (simp add: i(2) set_mem_def header_Serialize_def)
  have rm: "room s' V = room s1 V" for V by (simp add: i(2) set_mem_def)
  have ixs: "ix_buckets ix' = ix_buckets ix" "ix_buckets_count ix' = ix_buckets_count ix" by (simp_all add: i(3))
  note ins = index_insert [OF ok h(2) ns(1,2) m rm ixs]
  have "index_holds n (nss(?k := ns)) (kvs @ [(key, r)])" using holds ns(3) by (simp add: index_holds_def)
  moreover have "new \<longleftrightarrow> key \<notin> set (map fst kvs)" using ns(4) by auto
  ultimately show thesis using that ins i(3) by simp
qed

lemma insert_all_ok:
  assumes "index_ok U n ix t hds nss s" "index_holds n nss kvs"
  shows "insert_all kws ix s \<noteq> None"
    and "insert_all kws ix s = Some (Returned (news, ix', s')) \<Longrightarrow>
      (\<exists>hds' nss'. index_ok U n ix' t hds' nss' s' \<and> index_holds n nss' (kvs @ kws)) \<and> same_on U (db_mem s) (db_mem s')
      \<and> news = map (\<lambda>i. fst (kws ! i) \<notin> set (map fst (kvs @ take i kws))) [0..<length kws]
      \<and> ix_record_count ix' = ix_record_count ix + of_nat (length kws)"
  using assms
proof (induction kws arbitrary: ix hds nss s kvs news)
  case (Cons kw kws)
  obtain key r where kw: "kw = (key, r)" by (cases kw)
  {
    case 1
    obtain o1 where o1: "insert_granted ix key r s = Some o1" using insert_granted_returns [OF 1(1)] by blast
    show ?case
    proof (cases o1)
      case (Returned p)
      obtain new ix1 s1 where p: "p = (new, ix1, s1)" by (cases p)
      obtain hds1 nss1 where "index_ok U n ix1 t hds1 nss1 s1" "index_holds n nss1 (kvs @ [(key, r)])"
        using insert_granted_ok [OF 1 o1 [unfolded Returned p]] by blast
      then show ?thesis using Cons.IH(1) o1 Returned p kw by fastforce
    qed (use o1 kw in simp_all)
  next
    case 2
    obtain new ix1 s1 news1 where i: "insert_granted ix key r s = Some (Returned (new, ix1, s1))"
      "insert_all kws ix1 s1 = Some (Returned (news1, ix', s'))" "news = new # news1"
      using 2(1) kw by (auto simp: outcome_bind_def split: option.splits outcome.splits)
    obtain hds1 nss1 where n1: "index_ok U n ix1 t hds1 nss1 s1" "index_holds n nss1 (kvs @ [(key, r)])" "same_on U (db_mem s) (db_mem s1)"
      "new \<longleftrightarrow> key \<notin> set (map fst kvs)" "ix_record_count ix1 = ix_record_count ix + 1"
      by (rule insert_granted_ok [OF 2(2,3) i(1)])
    note ih = Cons.IH(2) [OF i(2) n1(1,2)]
    have "map (\<lambda>i. fst ((kw # kws) ! i) \<notin> set (map fst (kvs @ take i (kw # kws)))) [0..<length (kw # kws)]
        = new # map (\<lambda>i. fst (kws ! i) \<notin> set (map fst ((kvs @ [(key, r)]) @ take i kws))) [0..<length kws]"
      using n1(4) kw by (auto simp: upt_conv_Cons map_Suc_upt [symmetric] simp del: upt_Suc)
    moreover have "\<exists>hds' nss'. index_ok U n ix' t hds' nss' s' \<and> index_holds n nss' (kvs @ kw # kws)" using ih kw by simp
    ultimately show ?case using ih i(3) n1(3,5) same_on_trans by (simp add: algebra_simps)
  }
qed (simp_all, blast)

section \<open>The new index\<close>

lemma init_headers_ok:
  assumes b: "array_built a t n 10 (db_mem s)" and k: "k \<le> n" and run: "init_headers a (map of_nat [k - j..<k]) s = Returned s'" and j: "j \<le> k"
  shows "array_built a t n 10 (db_mem s') \<and> same_on (- array_area a t) (db_mem s) (db_mem s') \<and> (\<forall>V. room s' V = room s V)
     \<and> (\<forall>i<n. header_Deserialize (element a t i) (db_mem s') =
          (if k - j \<le> i \<and> i < k then Null else header_Deserialize (element a t i) (db_mem s)))"
  using run j b
proof (induction j arbitrary: s)
  case 0
  then show ?case by auto
next
  case (Suc j)
  let ?i = "k - Suc j"
  have i: "?i < k" "?i < n" "Suc ?i = k - j" "k - j \<le> k" using Suc.prems(2) k by auto
  then have "[k - Suc j..<k] = ?i # [k - j..<k]" by (simp add: upt_conv_Cons)
  then have run: "init_headers a (map of_nat [k - j..<k]) (set_mem (header_Serialize (element a t ?i) Null) s) = Returned s'"
    using Suc.prems(1) element_found [OF Suc.prems(3) i(2)] by (simp add: outcome_bind_def)
  let ?s = "set_mem (header_Serialize (element a t ?i) Null) s"
  have m: "db_mem ?s = Write (element a t ?i) (ga_bytes Null) (db_mem s)" by (simp add: set_mem_def header_Serialize_def)
  have b: "array_built a t n 10 (db_mem ?s)" unfolding m by (rule built_write [OF Suc.prems(3) same_on_refl i(2)]) simp
  note ih = Suc.IH [OF run _ b]
  have "same_on (- array_area a t) (db_mem s) (db_mem ?s)"
    unfolding m using element_in_array [OF Suc.prems(3) i(2)] by (intro same_on_Write same_on_refl) auto
  moreover have "header_Deserialize (element a t l) (db_mem ?s) =
      (if l = ?i then Null else header_Deserialize (element a t l) (db_mem s))" if "l < n" for l
    using header_same [OF Suc.prems(3) i(2)] header_other [OF Suc.prems(3) that i(2) _ same_on_refl] by (simp add: m)
  ultimately show ?case using ih Suc.prems(2) i same_on_trans by (auto simp: set_mem_def)
qed

lemma index_init:
  assumes room: "room s U" "(0, 0) \<in> U" and n: "0 < n" "n \<le> 1073741824" and run: "HashIndex_Init (of_nat n) s = Returned (ix, s')"
  obtains t hds nss where "index_ok U n ix t hds nss s'" "index_holds n nss []" "same_on U (db_mem s) (db_mem s')" "ix_record_count ix = 0"
proof -
  have un: "unat (of_nat n :: u64) = n" using n(2) by (simp add: unsigned_of_nat take_bit_nat_eq_self)
  obtain a s1 where a: "GAddrArray_Init (of_nat n) 10 s = Returned (a, s1)" "init_headers a (map of_nat [0..<n]) s1 = Returned s'"
    "ix = \<lparr>ix_buckets = a, ix_buckets_count = of_nat n, ix_record_count = 0\<rparr>"
    using run by (auto simp: HashIndex_Init_def outcome_bind_def header_SerializeSize_def un split: outcome.splits)
  have small: "unat ((10 :: u64) * N) \<le> chunk_bytes" "10240 \<le> chunk_bytes" by simp_all
  obtain t where t: "array_ok U a t (layers (max 1 (unat (ar_layer_num a)))) s1" "same_on U (db_mem s) (db_mem s1)"
    "ar_array_size a = of_nat n" "ar_element_size a = 10" "ar_layer_size a = layer_sizes (ar_layer_num a)" "unat (ar_layer_num a) < 4"
    "n \<le> 1024 ^ unat (ar_layer_num a)"
    by (rule array_init [OF room(1) a(1) n(2) small])
  have b1: "array_built a t n 10 (db_mem s1)" using t n by (simp add: array_ok_def array_built_def)
  have ap: "U \<inter> array_area a t = {}" "room s1 (U \<union> array_area a t)" using t(1) by (auto simp: array_ok_def)
  have h: "array_built a t n 10 (db_mem s')" "same_on (- array_area a t) (db_mem s1) (db_mem s')" "\<And>V. room s' V = room s1 V"
    "\<And>i. i < n \<Longrightarrow> header_Deserialize (element a t i) (db_mem s') = Null"
    using init_headers_ok [OF b1 order_refl, of n s'] a(2) by auto
  have "same_on U (db_mem s) (db_mem s')" by (rule same_on_trans [OF t(2) same_on_mono [OF h(2)]]) (use ap(1) in blast)
  moreover have "index_ok U n ix t (\<lambda>_. Null) (\<lambda>_. []) s'"
    using h ap room(2) n(1) by (simp add: index_ok_def a(3) Let_def ga_eq_def)
  moreover have "index_holds n (\<lambda>_. []) []" by (simp add: index_holds_def holds_records_def records_of_def)
  ultimately show thesis using that a(3) by simp
qed

lemma records_of_bucket: "records_of key (filter (\<lambda>kv. bucket_no n (fst kv) = bucket_no n key) kvs) = records_of key kvs"
  unfolding records_of_def filter_filter by (rule arg_cong [where f = "map snd"], rule filter_cong) auto

lemma index_search:
  assumes ok: "index_ok U n ix t hds nss s" and holds: "index_holds n nss kvs"
  shows "SearchRecord ix key (db_mem s) = Some (Returned (let rs = records_of key kvs in
      if rs = [] then Null else rs ! (2 * ((length rs - 1) div 2))))"
proof -
  note h = header_addr_eq [OF ok, of key]
  let ?k = "bucket_no n key" and ?m = "db_mem s"
  have na: "nodes_at ?m (hds ?k) (nss ?k)" using ok h(2) by (simp add: index_ok_def Let_def)
  have hr: "map snd (blocks_of (nss ?k) key) = rev (pairs (records_of key kvs))"
    "map_of (contents (nss ?k)) key = None \<longleftrightarrow> records_of key kvs = []"
    using holds h(2) records_of_bucket [of key n kvs] by (auto simp: index_holds_def holds_records_def)
  show ?thesis
  proof (cases "map_of (contents (nss ?k)) key")
    case None
    then show ?thesis using SearchNode_list [OF na, of key] hr h by (simp add: SearchRecord_def)
  next
    case (Some bs)
    obtain ad where ad: "SearchNode key (hds ?k) ?m = Some (Some ad)" "items_at ?m ad bs" "bs \<noteq> []"
      using SearchNode_list [OF na, of key] Some by auto
    obtain b ps rest where bs: "bs = (b, ps) # rest" using ad(3) by (cases bs) auto
    have ps: "ps \<noteq> []" "take (length ps) (it_record_ptrs (read_items ad ?m)) = ps" using ad(2) bs by (auto simp: holds_ptrs_def)
    have "it_record_ptrs (read_items ad ?m) ! 0 = hd ps"
      using ps length_ptrs [of ad ?m] by (cases "it_record_ptrs (read_items ad ?m)"; cases ps) auto
    also have "\<dots> = hd (concat (map snd bs))" using ps(1) by (simp add: bs)
    also have "\<dots> = records_of key kvs ! (2 * ((length (records_of key kvs) - 1) div 2))"
      using hr Some hd_pairs [of "records_of key kvs"] by simp
    finally show ?thesis using ad(1) h hr(2) Some by (simp add: SearchRecord_def Let_def)
  qed
qed


lemma sample_index:
  "\<exists>ix s0. HashIndex_Init 1 sample_db = Returned (ix, s0) \<and> (\<forall>r. \<exists>p. insert_all [(7, r)] ix s0 = Some (Returned p))"
proof -
  let ?root = "\<lparr>ga_addr = 0x4000000, ga_nodeID = 0, ga_org = 0\<rparr>"
  let ?a = "\<lparr>ar_root_addr = ?root, ar_array_size = 1, ar_element_size = 10, ar_layer_size = layer_sizes 0, ar_layer_num = 0\<rparr>"
  let ?s1 = "\<lambda>m. \<lparr>db_mem = m, db_thread = \<lparr>mt_alloc = \<lparr>lc_head = ?root, lc_cur = \<lparr>ga_addr = 0x4002800, ga_nodeID = 0, ga_org = 0\<rparr>, lc_log_heads = [?root]\<rparr>,
      mt_next_allocator_node = 1\<rparr>, db_chunks = [], db_nodes = 2\<rparr>"
  have cnt: "count_layers 1 1 0 = Some 0" by (subst count_layers.simps) simp
  have ls: "layer_sizes 0 ! 0 = 1" by (simp add: layer_sizes_def)
  have el: "GetElementGAddr ?a 0 m = Returned ?root" for m
    by (simp add: GetElementGAddr_def LocateParentNode_def ls outcome_bind_def GADD_def)
  have mal: "AlignedMalloc 10240 sample_db = Returned (?root, ?s1 (\<lambda>_. 0))"
    by (simp add: db_malloc_def sample_db_def sample_chunk_def cache_malloc_def local_malloc_def kChunkSize_value GB_def MB_def
        align_up_def DSM_CACHE_LINE_SIZE_def DSM_CACHE_LINE_WIDTH_def Let_def)
  let ?m = "Write ?root (ga_bytes Null) (\<lambda>_. 0)"
  have i: "HashIndex_Init 1 sample_db = Returned (\<lparr>ix_buckets = ?a, ix_buckets_count = 1, ix_record_count = 0\<rparr>, ?s1 ?m)"
    using mal by (simp add: HashIndex_Init_def GAddrArray_Init_def cnt ls outcome_bind_def segments_def header_SerializeSize_def el set_mem_def
        header_Serialize_def Let_def)
  have rd: "header_Deserialize ?root ?m = Null"
    using Read_Write_same [of ?root "ga_bytes Null"] by (simp add: header_Deserialize_def in_range_def)
  have "\<exists>new head s'. InsertNode 7 r Null (?s1 ?m) = Some (Returned (new, head, s'))" for r
    by (subst InsertNode_def, subst find_node.simps)
      (simp add: ga_eq_def insert_new_def AddRecordPtr_def Items_Init_def SLOT_NUM_def outcome_bind_def Let_def db_malloc_def
        cache_malloc_def local_malloc_def kChunkSize_value GB_def MB_def set_mem_def Null_def exI [of "\<lambda>x. x" True])
  note ins = this
  have "\<exists>p. insert_all [(7, r)] \<lparr>ix_buckets = ?a, ix_buckets_count = 1, ix_record_count = 0\<rparr> (?s1 ?m) = Some (Returned p)" for r
  proof -
    obtain new head s' where "InsertNode 7 r Null (?s1 ?m) = Some (Returned (new, head, s'))" using ins [of r] by blast
    then show ?thesis using rd by (simp add: insert_granted_def header_addr_def el insert_locked_def outcome_bind_def Let_def)
  qed
  then show ?thesis using i by blast
qed

lemma sample_run:
  obtains ix s0 news ix' s1 where "HashIndex_Init 1 sample_db = Returned (ix, s0)" "insert_all [(7, r)] ix s0 = Some (Returned (news, ix', s1))"
proof -
  obtain ix s0 where i: "HashIndex_Init 1 sample_db = Returned (ix, s0)" "\<forall>r. \<exists>p. insert_all [(7, r)] ix s0 = Some (Returned p)"
    using sample_index by blast
  obtain p where p: "insert_all [(7, r)] ix s0 = Some (Returned p)" using i(2) by blast
  obtain news ix' s1 where "p = (news, ix', s1)" by (cases p)
  then show ?thesis using that [OF i(1)] p by blast
qed

lemma sample_search:
  assumes "room sample_db U" "(0, 0) \<in> U"
  shows "\<exists>ix s0 news ix' s1. HashIndex_Init 1 sample_db = Returned (ix, s0) \<and> insert_all [(7, r)] ix s0 = Some (Returned (news, ix', s1))
     \<and> (\<forall>key. SearchRecord ix' key (db_mem s1) = Some (Returned (if key = 7 then r else Null)))"
proof -
  obtain ix s0 news ix' s1 where i: "HashIndex_Init 1 sample_db = Returned (ix, s0)" "insert_all [(7, r)] ix s0 = Some (Returned (news, ix', s1))"
    by (rule sample_run)
  have h: "HashIndex_Init (of_nat 1) sample_db = Returned (ix, s0)" using i(1) by simp
  obtain t hds nss where n: "index_ok U 1 ix t hds nss s0" "index_holds 1 nss []"
    by (rule index_init [OF assms _ _ h]) simp_all
  obtain hds' nss' where "index_ok U 1 ix' t hds' nss' s1" "index_holds 1 nss' [(7, r)]"
    using insert_all_ok(2) [OF n i(2)] by auto
  from index_search [OF this] have "SearchRecord ix' key (db_mem s1) = Some (Returned (if key = 7 then r else Null))" for key
    by (auto simp: Let_def records_of_def)
  then show ?thesis using i by auto
qed

end
