(* ===== verification/Db_Txn_Proof.thy ===== *)
theory Db_Txn_Proof
  imports Db_Txn Db_Storage_Proof Db_Index_Proof
begin

text \<open>
  What transactions do to the shared memory and to each other: the locks they take do not exclude anybody, a procedure that
  fails does not abort its transaction, and the records that are inserted never get into an index.
\<close>

section \<open>Operations of a transaction\<close>

lemma locks_granted: "TryWLockRecord a n m = (True, m)" "TryRLockRecord a n m = (True, m)" "UnLockRecord a n m = m"
  by (simp_all add: TryWLockRecord_def TryRLockRecord_def UnLockRecord_def kTryLockLimit_def Try_WLock_def Try_RLock_def UnLock_def)

lemma put_bytes_length: "put_bytes off bs r = Returned r' \<Longrightarrow> length (rec_data r') = length (rec_data r) \<and> rec_schema r' = rec_schema r"
  by (auto simp: put_bytes_def split: if_splits)

lemma SetColumn_length: "SetColumn col bs r = Returned r' \<Longrightarrow> length (rec_data r') = length (rec_data r) \<and> rec_schema r' = rec_schema r"
  using put_bytes_length by (auto simp: SetColumn_def outcome_bind_def split: outcome.splits if_splits)

lemma SetVisible_length: "SetVisible v r = Returned r' \<Longrightarrow> length (rec_data r') = length (rec_data r) \<and> rec_schema r' = rec_schema r"
  using SetColumn_length by (auto simp: SetVisible_def outcome_bind_def split: outcome.splits if_splits)

text \<open>The accesses whose records a commit writes lie in \<open>U\<close>.\<close>

definition writes_in :: "(u8 \<times> nat) set \<Rightarrow> access_list \<Rightarrow> bool" where
  "writes_in U al \<longleftrightarrow> (\<forall>a \<in> set al. ac_access_type a \<in> {READ_WRITE, DELETE_ONLY} \<longrightarrow> area (ac_access_addr a) (length (rec_data (ac_access_record a))) \<subseteq> U)"

definition records_in :: "(u8 \<times> nat) set \<Rightarrow> Table list \<Rightarrow> shared \<Rightarrow> bool" where
  "records_in U tbs m \<longleftrightarrow> (\<forall>t<length tbs. \<forall>key a. Table_SearchRecord key (tbs ! t) m = Some (Returned a) \<longrightarrow>
     is_null a \<or> area a (unat (GetSchemaSize (tb_schema (tbs ! t)))) \<subseteq> U)"

lemma SelectRecordCC_inv:
  assumes "SelectRecordCC heap sc a ty al m = Returned (ok, al', m')" "writes_in U al" "area a (unat (GetSchemaSize sc)) \<subseteq> U"
  shows "m' = m \<and> ok \<and> writes_in U al'"
proof -
  let ?r = "record_Deserialize a (new_Record sc heap) m"
  obtain r where r: "(if ty = DELETE_ONLY then SetVisible False ?r else Returned ?r) = Returned r" "m' = m" "ok"
    "al' = al @ [\<lparr>ac_access_type = ty, ac_access_record = r, ac_access_addr = a\<rparr>]"
    using assms(1) by (auto simp: SelectRecordCC_def locks_granted outcome_bind_def NewAccess_def Let_def split: outcome.splits if_splits)
  have "length (rec_data r) = unat (GetSchemaSize sc)"
    using r(1) SetVisible_length [of False ?r r] by (auto simp: record_Deserialize_def new_Record_def split: if_splits)
  then show ?thesis using r assms(2,3) by (auto simp: writes_in_def)
qed

lemma txn_step_inv:
  assumes "txn_step heap tbs op al m = Some (Returned (ok, al', m'))" "records_in U tbs m" "writes_in U al"
  shows "m' = m \<and> writes_in U al'"
proof (cases op)
  case (Search t key ty)
  have t: "t < length tbs" using assms(1) Search by (auto simp: txn_step_def txn_SearchRecord_def split: if_splits)
  obtain z where z: "Table_SearchRecord key (tbs ! t) m = Some z"
    using assms(1) Search t by (auto simp: txn_step_def txn_SearchRecord_def)
  obtain a where a: "t < length tbs" "Table_SearchRecord key (tbs ! t) m = Some (Returned a)"
    "(if \<not> is_null a then SelectRecordCC heap (tb_schema (tbs ! t)) a ty al m else Returned (False, al, m)) = Returned (ok, al', m')"
    using assms(1) Search t z by (cases z) (auto simp: txn_step_def txn_SearchRecord_def outcome_bind_def)
  show ?thesis
  proof (cases "is_null a")
    case False
    then have "area a (unat (GetSchemaSize (tb_schema (tbs ! t)))) \<subseteq> U" using assms(2) a(1,2) by (auto simp: records_in_def)
    then show ?thesis using SelectRecordCC_inv a(3) False assms(3) by (metis (no_types, lifting))
  qed (use a(3) assms(3) in simp)
next
  case (Insert t keys r a)
  then show ?thesis
    using assms(1,3) by (auto simp: txn_step_def txn_InsertRecord_def locks_granted outcome_bind_def NewAccess_def writes_in_def Let_def
        split: outcome.splits if_splits)
next
  case (Change i col bs)
  then obtain r where r: "i < length al" "SetColumn col bs (ac_access_record (al ! i)) = Returned r" "m' = m"
    "al' = al[i := (al ! i)\<lparr>ac_access_record := r\<rparr>]"
    using assms(1) by (auto simp: txn_step_def outcome_bind_def split: if_splits outcome.splits)
  have "writes_in U al'"
    unfolding writes_in_def
  proof (intro ballI impI)
    fix a
    assume a: "a \<in> set al'" "ac_access_type a \<in> {READ_WRITE, DELETE_ONLY}"
    then consider "a \<in> set al" | "a = (al ! i)\<lparr>ac_access_record := r\<rparr>" using r(4) set_update_subset_insert by fastforce
    then show "area (ac_access_addr a) (length (rec_data (ac_access_record a))) \<subseteq> U"
    proof cases
      case 1
      then show ?thesis using assms(3) a(2) unfolding writes_in_def by blast
    next
      case 2
      then have "ac_access_type (al ! i) \<in> {READ_WRITE, DELETE_ONLY}" using a(2) by simp
      then have "area (ac_access_addr (al ! i)) (length (rec_data (ac_access_record (al ! i)))) \<subseteq> U"
        using assms(3) nth_mem [OF r(1)] unfolding writes_in_def by blast
      then show ?thesis using 2 SetColumn_length [OF r(2)] by simp
    qed
  qed
  then show ?thesis using r(3) by simp
qed

lemma commit_outside: "writes_in U al \<Longrightarrow> same_on (- U) m (commit_accesses al m)"
proof (induction al m rule: commit_accesses.induct)
  case (2 a al m)
  let ?m = "if ac_access_type a = READ_WRITE \<or> ac_access_type a = DELETE_ONLY
     then record_Serialize (ac_access_addr a) (ac_access_record a) m else m"
  have c: "commit_accesses (a # al) m = commit_accesses al ?m" by (simp add: Let_def locks_granted)
  have "same_on (- U) m ?m"
    using 2(2) by (auto simp: record_Serialize_def writes_in_def intro!: same_on_Write)
  moreover have "same_on (- U) ?m (commit_accesses al ?m)"
    using 2(1) 2(2) by (auto simp: Let_def locks_granted writes_in_def split: if_splits)
  ultimately show ?case unfolding c by (rule same_on_trans)
qed simp

lemma run_txn_outside:
  assumes "run_txn heap tbs ops al m = Some (Returned (ok, al', m'))" "records_in U tbs m" "writes_in U al"
  shows "same_on (- U) m m' \<and> (ok \<longrightarrow> al' = []) \<and> (\<not> ok \<longrightarrow> m' = m)"
  using assms
proof (induction ops arbitrary: al)
  case Nil
  then show ?case using commit_outside by (auto simp: CommitTransaction_def)
next
  case (Cons op ops)
  then obtain ok1 al1 m1 where s: "txn_step heap tbs op al m = Some (Returned (ok1, al1, m1))"
    by (auto split: option.splits outcome.splits)
  have "m1 = m" "writes_in U al1" using txn_step_inv [OF s Cons.prems(2,3)] by auto
  then show ?case using Cons s by (cases ok1) auto
qed

section \<open>Inserted records are not found\<close>

lemma index_ok_on:
  assumes ok: "index_ok U n ix t hds nss s" and same: "same_on (- U) (db_mem s) m"
  shows "index_ok U n ix t hds nss (s\<lparr>db_mem := m\<rparr>)"
proof (rule index_okI)
  let ?a = "ix_buckets ix"
  have I: "array_built ?a t n 10 (db_mem s)" "ix_buckets_count ix = of_nat n" "0 < n" "(0, 0) \<in> U" "U \<inter> array_area ?a t = {}"
    "\<And>j. j < n \<Longrightarrow> header_Deserialize (element ?a t j) (db_mem s) = hds j \<and> nodes_at (db_mem s) (hds j) (nss j)
       \<and> apart (areas (nss j)) \<and> (U \<union> array_area ?a t) \<inter> bucket_area (nss j) = {}"
    "\<And>i j. i < n \<Longrightarrow> j < n \<Longrightarrow> i \<noteq> j \<Longrightarrow> bucket_area (nss i) \<inter> bucket_area (nss j) = {}"
    "room s (U \<union> array_area ?a t \<union> (\<Union>j \<in> {..<n}. bucket_area (nss j)))"
    using ok by (simp_all add: index_ok_def Let_def)
  have arr: "same_on (array_area ?a t) (db_mem s) m" by (rule same_on_mono [OF same]) (use I(5) in blast)
  have "same_on (array_tables ?a t) (db_mem s) m" by (rule same_on_mono [OF arr tables_in_array])
  then show "array_built ?a t n 10 (db_mem (s\<lparr>db_mem := m\<rparr>))" using I(1) tree_at_on [of ?a t _ "db_mem s"] by (simp add: array_built_def)
  show "header_Deserialize (element ?a t k) (db_mem (s\<lparr>db_mem := m\<rparr>)) = hds k \<and> nodes_at (db_mem (s\<lparr>db_mem := m\<rparr>)) (hds k) (nss k)
       \<and> apart (areas (nss k)) \<and> (U \<union> array_area ?a t) \<inter> bucket_area (nss k) = {}" if k: "k < n" for k
  proof -
    have "same_on (area (element ?a t k) 10) (db_mem s) m" by (rule same_on_mono [OF arr element_in_array [OF I(1) k]])
    then have "header_Deserialize (element ?a t k) m = header_Deserialize (element ?a t k) (db_mem s)"
      using Read_same_on [OF element_area(3) [OF I(1) k]] by (simp add: header_Deserialize_def)
    moreover have "nodes_at m (hds k) (nss k)"
      by (rule nodes_at_on [of "db_mem s", OF _ same_on_mono [OF same]]) (use I(6) [OF k] in blast)+
    ultimately show ?thesis using I(6) [OF k] by simp
  qed
  show "room (s\<lparr>db_mem := m\<rparr>) (U \<union> array_area ?a t \<union> (\<Union>k \<in> {..<n}. bucket_area (nss k)))" using I(8) by simp
qed (use ok in \<open>simp_all add: index_ok_def Let_def\<close>)

text \<open>(C19) Records inserted by transactions are never found. After any set-up of a table's index and any sequence of records put into
  it, a transaction of any searches, insertions and changes that runs to its end, or ends early because a search fails, leaves the
  index as it was: the table's search returns for every key what it returned before, also for the keys the transaction
  inserted. It changes no byte outside the memory \<open>U\<close> of the records, and none at all if it ends early.\<close>

theorem inserts_never_indexed:
  assumes "room s U" "(0, 0) \<in> U" "0 < n" "n \<le> 1073741824" "HashIndex_Init (of_nat n) s = Returned (ix, s0)"
    and "insert_all kvs ix s0 = Some (Returned (news, tb_index tb, s1))" "tb \<in> set tbs" "records_in U tbs (db_mem s1)"
    and run: "run_txn heap tbs ops [] (db_mem s1) = Some (Returned (ok, al, m))"
  shows "(\<forall>key. Table_SearchRecord key tb m = Some (Returned (let rs = records_of key kvs in
           if rs = [] then Null else rs ! (2 * ((length rs - 1) div 2)))))
    \<and> (\<forall>a. (ga_nodeID a, unat (ga_addr a)) \<notin> U \<longrightarrow> m a = db_mem s1 a) \<and> (\<not> ok \<longrightarrow> m = db_mem s1)"
proof -
  obtain t hds nss where i: "index_ok U n ix t hds nss s0" "index_holds n nss []"
    by (rule index_init [OF assms(1-5)])
  obtain hds' nss' where x: "index_ok U n (tb_index tb) t hds' nss' s1" "index_holds n nss' kvs"
    using insert_all_ok(2) [OF i assms(6)] by auto
  have out: "same_on (- U) (db_mem s1) m" "\<not> ok \<longrightarrow> m = db_mem s1"
    using run_txn_outside [OF run assms(8)] by (simp_all add: writes_in_def)
  have "SearchRecord (tb_index tb) key m = Some (Returned (let rs = records_of key kvs in
           if rs = [] then Null else rs ! (2 * ((length rs - 1) div 2))))" for key
    using index_search [OF index_ok_on [OF x(1) out(1)] x(2)] by simp
  then show ?thesis using out by (simp add: Table_SearchRecord_def same_on_def)
qed

section \<open>Transactions that overlap\<close>

lemma search_returns:
  assumes "t < length tbs" "Table_SearchRecord key (tbs ! t) m = Some (Returned a)" "\<not> is_null a" "length al < 256"
  shows "txn_step heap tbs (Search t key READ_WRITE) al m = Some (Returned (True,
      al @ [\<lparr>ac_access_type = READ_WRITE, ac_access_record = record_Deserialize a (new_Record (tb_schema (tbs ! t)) heap) m, ac_access_addr = a\<rparr>], m))"
  using assms by (simp add: txn_step_def txn_SearchRecord_def SelectRecordCC_def locks_granted outcome_bind_def NewAccess_def kMaxAccessLimit_def Let_def)

text \<open>A record as a transaction reads it.\<close>

abbreviation record_at :: "RecordSchema \<Rightarrow> (nat \<Rightarrow> u8) \<Rightarrow> GlobalAddress \<Rightarrow> shared \<Rightarrow> Record" where
  "record_at sc heap a m \<equiv> record_Deserialize a (new_Record sc heap) m"

lemma record_at_ok:
  assumes "schema_ok sc"
  shows "record_ok (record_at sc heap a m)" "rec_schema (record_at sc heap a m) = sc"
  using assms by (simp_all add: record_ok_def record_Deserialize_def new_Record_def schema_ok_def)

lemma record_at_write:
  assumes "record_ok r" "rec_schema r = sc" "in_range a (unat (GetSchemaSize sc))"
  shows "record_at sc heap a (record_Serialize a r m) = r"
  using assms by (intro record_roundtrip) (auto simp: record_ok_def schema_ok_def new_Record_def)

text \<open>One access for reading and writing, one changed column, and the commit.\<close>

lemma change_and_commit:
  assumes sc: "schema_ok sc" and i: "unat i < length (rs_columns sc)" "unat (column_size (rs_columns sc ! unat i)) \<le> length bs"
    and al: "al = [\<lparr>ac_access_type = READ_WRITE, ac_access_record = record_at sc heap a m, ac_access_addr = a\<rparr>]"
    and a: "in_range a (unat (GetSchemaSize sc))"
  obtains m' where "run_txn heap tbs [Change 0 i bs] al mm = Some (Returned (True, [], m'))"
    "\<And>heap j. unat j < length (rs_columns sc) \<Longrightarrow> GetColumn j (record_at sc heap a m') =
       (if j = i then Returned (take (unat (column_size (rs_columns sc ! unat i))) bs) else GetColumn j (record_at sc heap a m))"
proof -
  let ?r = "record_at sc heap a m"
  note ok = record_at_ok [OF sc, where heap = heap and a = a and m = m]
  have irr: "record_at sc h a m = ?r" for h by (simp add: record_Deserialize_def new_Record_def)
  have i': "unat i < column_count ?r" "size_of ?r (unat i) \<le> length bs" using i ok(2) by simp_all
  obtain r' where r': "SetColumn i bs ?r = Returned r'" "record_ok r'" "rec_schema r' = sc"
    by (rule SetColumn_GetColumn [OF ok(1) i' i'(1)]) (use ok(2) in simp)
  let ?m' = "record_Serialize a r' mm"
  have run: "run_txn heap tbs [Change 0 i bs] al mm = Some (Returned (True, [], ?m'))"
    using r'(1) by (simp add: txn_step_def al outcome_bind_def CommitTransaction_def Let_def locks_granted)
  have "GetColumn j (record_at sc h a ?m') =
       (if j = i then Returned (take (unat (column_size (rs_columns sc ! unat i))) bs) else GetColumn j (record_at sc h a m))"
    if j: "unat j < length (rs_columns sc)" for h j
  proof -
    have "record_at sc h a ?m' = r'" by (rule record_at_write [OF r'(2,3) a])
    moreover obtain r'' where "SetColumn i bs ?r = Returned r''"
      "GetColumn j r'' = (if j = i then Returned (take (size_of ?r (unat i)) bs) else GetColumn j ?r)"
      by (rule SetColumn_GetColumn [OF ok(1) i', of j]) (use j ok(2) in auto)
    ultimately show ?thesis unfolding irr [of h] using r'(1) ok(2) by simp
  qed
  then show thesis using that run by blast
qed

text \<open>(C17) The locks of two-phase locking do not isolate transactions. Two transactions that read the same record for writing are
  both given their lock. When both then change a column each and commit, both are told that they succeeded, and the change of the
  first is lost, although the second changed another column.\<close>

theorem lost_update:
  assumes sc: "InsertColumns cols (new_RecordSchema table_id) = Returned sc" "total cols < 2 ^ 64"
    and t: "t < length tbs" "tb_schema (tbs ! t) = sc" "Table_SearchRecord key (tbs ! t) m = Some (Returned a)" "\<not> is_null a"
    and a: "in_range a (unat (GetSchemaSize sc))"
    and ij: "i < length cols" "j < length cols" "i \<noteq> j" "unat (column_size (cols ! i)) \<le> length bs" "unat (column_size (cols ! j)) \<le> length cs"
  shows "\<exists>al1 al2 m1 m2. txn_step heap tbs (Search t key READ_WRITE) [] m = Some (Returned (True, al1, m))
    \<and> txn_step heap tbs (Search t key READ_WRITE) [] m = Some (Returned (True, al2, m))
    \<and> run_txn heap tbs [Change 0 (of_nat i) bs] al1 m = Some (Returned (True, [], m1))
    \<and> run_txn heap tbs [Change 0 (of_nat j) cs] al2 m1 = Some (Returned (True, [], m2))
    \<and> GetColumn (of_nat i) (record_at sc heap a m1) = Returned (take (unat (column_size (cols ! i))) bs)
    \<and> GetColumn (of_nat i) (record_at sc heap a m2) = GetColumn (of_nat i) (record_at sc heap a m)
    \<and> GetColumn (of_nat j) (record_at sc heap a m2) = Returned (take (unat (column_size (cols ! j))) cs)"
proof -
  note k = InsertColumns_ok [OF sc]
  have u: "unat (of_nat n :: u64) = n" if "n < length cols" for n using that k(4) by (simp add: unsigned_of_nat take_bit_nat_eq_self)
  have sz: "unat (column_size (rs_columns sc ! n)) = unat (column_size (cols ! n))" if "n < length cols" for n
    using arg_cong [OF k(2), of "\<lambda>l. l ! n"] that k(3) by (simp add: sizes_def)
  let ?al = "[\<lparr>ac_access_type = READ_WRITE, ac_access_record = record_at sc heap a m, ac_access_addr = a\<rparr>]"
  have s: "txn_step heap tbs (Search t key READ_WRITE) [] m = Some (Returned (True, ?al, m))"
    using search_returns [OF t(1,3,4), of "[]"] t(2) by simp
  have ne: "of_nat i \<noteq> (of_nat j :: u64)" using u ij(1-3) by metis
  obtain m1 where m1: "run_txn heap tbs [Change 0 (of_nat i) bs] ?al m = Some (Returned (True, [], m1))"
    "\<And>h l. unat l < length (rs_columns sc) \<Longrightarrow> GetColumn l (record_at sc h a m1) =
       (if l = of_nat i then Returned (take (unat (column_size (rs_columns sc ! unat (of_nat i :: u64)))) bs) else GetColumn l (record_at sc h a m))"
    by (rule change_and_commit [OF k(1) _ _ refl a, where i = "of_nat i" and bs = bs and heap = heap and m = m and tbs = tbs and mm = m]) (use ij u sz k(3) in auto)
  obtain m2 where m2: "run_txn heap tbs [Change 0 (of_nat j) cs] ?al m1 = Some (Returned (True, [], m2))"
    "\<And>h l. unat l < length (rs_columns sc) \<Longrightarrow> GetColumn l (record_at sc h a m2) =
       (if l = of_nat j then Returned (take (unat (column_size (rs_columns sc ! unat (of_nat j :: u64)))) cs) else GetColumn l (record_at sc h a m))"
    by (rule change_and_commit [OF k(1) _ _ refl a, where i = "of_nat j" and bs = cs and heap = heap and m = m and tbs = tbs and mm = m1]) (use ij u sz k(3) in auto)
  have "GetColumn (of_nat i) (record_at sc heap a m1) = Returned (take (unat (column_size (cols ! i))) bs)"
    "GetColumn (of_nat i) (record_at sc heap a m2) = GetColumn (of_nat i) (record_at sc heap a m)"
    "GetColumn (of_nat j) (record_at sc heap a m2) = Returned (take (unat (column_size (cols ! j))) cs)"
    using m1(2) [of "of_nat i" heap] m2(2) [of "of_nat i" heap] m2(2) [of "of_nat j" heap] u ij sz k(3) ne by simp_all
  then show ?thesis using s m1(1) m2(1) by blast
qed

text \<open>(C18) A failed transaction is committed by the next. A procedure that changes a record and then looks for a key that has no record
  is told of the failure and has written nothing, but its transaction is not aborted: the next commit of the same thread,
  even of a transaction without any operation, writes the change.\<close>

theorem failed_transaction_committed:
  assumes sc: "InsertColumns cols (new_RecordSchema table_id) = Returned sc" "total cols < 2 ^ 64"
    and t: "t < length tbs" "tb_schema (tbs ! t) = sc" "Table_SearchRecord key (tbs ! t) m = Some (Returned a)" "\<not> is_null a"
    and missing: "Table_SearchRecord key' (tbs ! t) m = Some (Returned Null)"
    and a: "in_range a (unat (GetSchemaSize sc))" and i: "i < length cols" "unat (column_size (cols ! i)) \<le> length bs"
  shows "\<exists>al m'. run_txn heap tbs [Search t key READ_WRITE, Change 0 (of_nat i) bs, Search t key' ty] [] m = Some (Returned (False, al, m))
    \<and> run_txn heap tbs [] al m = Some (Returned (True, [], m'))
    \<and> GetColumn (of_nat i) (record_at sc heap a m') = Returned (take (unat (column_size (cols ! i))) bs)"
proof -
  note k = InsertColumns_ok [OF sc]
  have u: "unat (of_nat i :: u64) = i" using i k(4) by (simp add: unsigned_of_nat take_bit_nat_eq_self)
  have sz: "unat (column_size (rs_columns sc ! i)) = unat (column_size (cols ! i))"
    using arg_cong [OF k(2), of "\<lambda>l. l ! i"] i k(3) by (simp add: sizes_def)
  let ?al = "[\<lparr>ac_access_type = READ_WRITE, ac_access_record = record_at sc heap a m, ac_access_addr = a\<rparr>]"
  have s: "txn_step heap tbs (Search t key READ_WRITE) [] m = Some (Returned (True, ?al, m))"
    using search_returns [OF t(1,3,4), of "[]"] t(2) by simp
  obtain m' where m': "run_txn heap tbs [Change 0 (of_nat i) bs] ?al m = Some (Returned (True, [], m'))"
    "\<And>h l. unat l < length (rs_columns sc) \<Longrightarrow> GetColumn l (record_at sc h a m') =
       (if l = of_nat i then Returned (take (unat (column_size (rs_columns sc ! unat (of_nat i :: u64)))) bs) else GetColumn l (record_at sc h a m))"
    by (rule change_and_commit [OF k(1) _ _ refl a, where i = "of_nat i" and bs = bs and heap = heap and m = m and tbs = tbs and mm = m]) (use i u sz k(3) in auto)
  obtain al1 where al1: "txn_step heap tbs (Change 0 (of_nat i) bs) ?al m = Some (Returned (True, al1, m))"
    "run_txn heap tbs [] al1 m = Some (Returned (True, [], m'))"
    using m'(1) by (auto simp: txn_step_def outcome_bind_def split: outcome.splits)
  have miss: "txn_step heap tbs (Search t key' ty) al1 m = Some (Returned (False, al1, m))"
    using missing t(1) by (simp add: txn_step_def txn_SearchRecord_def outcome_bind_def ga_eq_def)
  have "run_txn heap tbs [Search t key READ_WRITE, Change 0 (of_nat i) bs, Search t key' ty] [] m = Some (Returned (False, al1, m))"
    using s al1(1) miss by simp
  moreover have "GetColumn (of_nat i) (record_at sc heap a m') = Returned (take (unat (column_size (cols ! i))) bs)"
    using m'(2) [of "of_nat i" heap] u i sz k(3) by simp
  ultimately show ?thesis using al1(2) by blast
qed

section \<open>Instances\<close>

definition sample_record :: GlobalAddress where "sample_record = \<lparr>ga_addr = 0x1000, ga_nodeID = 0, ga_org = 0\<rparr>"

definition sample_column :: "u64 \<Rightarrow> ColumnInfo" where
  "sample_column sz = \<lparr>column_name = replicate 16 0, column_type = 0, column_size = sz, column_offset = 0\<rparr>"

definition sample_columns :: "ColumnInfo list" where "sample_columns = [sample_column 4, sample_column 8, sample_column 1]"

definition sample_schema :: RecordSchema where
  "sample_schema = insert_columns sample_columns ((new_RecordSchema 0)\<lparr>rs_column_count := 3, rs_columns := []\<rparr>)"

lemma sample_schema: "InsertColumns sample_columns (new_RecordSchema 0) = Returned sample_schema" "total sample_columns < 2 ^ 64"
    "GetSchemaSize sample_schema = 13" "length sample_columns = 3"
  by (simp_all add: InsertColumns_def sample_columns_def sample_schema_def kMaxColumnNum_def sample_column_def new_RecordSchema_def)

definition sample_used :: "(u8 \<times> nat) set" where "sample_used = {(0, 0)} \<union> area sample_record 13"

lemma sample_used: "room sample_db sample_used" "(0, 0) \<in> sample_used"
  by (auto simp: room_def sample_db_def local_ok_def available_def sample_chunk_def sample_used_def sample_record_def area_def Let_def)

definition db_table :: "HashIndex \<Rightarrow> Table" where
  "db_table ix = \<lparr>tb_table_id = 0, tb_secondary_count = 0, tb_schema = sample_schema, tb_index = ix\<rparr>"

lemma sample_table_search:
  "\<exists>ix s0 news ix' s1. HashIndex_Init 1 sample_db = Returned (ix, s0) \<and> insert_all [(7, sample_record)] ix s0 = Some (Returned (news, ix', s1))
     \<and> (\<forall>key. Table_SearchRecord key (db_table ix') (db_mem s1) = Some (Returned (if key = 7 then sample_record else Null)))"
  using sample_search [OF sample_used, of sample_record] by (simp add: Table_SearchRecord_def db_table_def)

theorem inserts_never_indexed_witness:
  "\<exists>ix' m. run_txn (\<lambda>_. 0) [db_table ix'] [Insert 0 [8] (new_Record sample_schema (\<lambda>_. 0)) sample_record] [] m = Some (Returned (True, [], m))
     \<and> Table_SearchRecord 8 (db_table ix') m = Some (Returned Null)"
proof -
  obtain ix s0 news ix' s1 where i: "HashIndex_Init (of_nat 1) sample_db = Returned (ix, s0)"
    "insert_all [(7, sample_record)] ix s0 = Some (Returned (news, ix', s1))"
    "\<And>key. Table_SearchRecord key (db_table ix') (db_mem s1) = Some (Returned (if key = 7 then sample_record else Null))"
    using sample_table_search by auto
  have rec: "records_in sample_used [db_table ix'] (db_mem s1)"
    unfolding records_in_def
  proof (intro allI impI)
    fix t key a
    assume t: "t < length [db_table ix']" and a: "Table_SearchRecord key ([db_table ix'] ! t) (db_mem s1) = Some (Returned a)"
    have tb: "[db_table ix'] ! t = db_table ix'" using t by simp
    have "a = (if key = 7 then sample_record else Null)" using a i(3) [of key] unfolding tb by simp
    then show "is_null a \<or> area a (unat (GetSchemaSize (tb_schema ([db_table ix'] ! t)))) \<subseteq> sample_used"
      unfolding tb by (auto simp: db_table_def sample_schema sample_used_def ga_eq_def)
  qed
  note k = InsertColumns_ok [OF sample_schema(1,2)]
  have ok: "record_ok (new_Record sample_schema (\<lambda>_. 0))" by (rule new_Record_ok [OF k(1)])
  have "GetMetaColumnId sample_schema = 2" by (simp add: GetMetaColumnId_def sample_schema_def sample_columns_def sample_column_def)
  moreover have "size_of (new_Record sample_schema (\<lambda>_. 0)) 2 = 1"
    by (simp add: new_Record_def sample_schema_def sample_columns_def sample_column_def new_RecordSchema_def)
  moreover have "offset_of (new_Record sample_schema (\<lambda>_. 0)) 2 + 1 \<le> length (rec_data (new_Record sample_schema (\<lambda>_. 0)))"
    by (simp add: new_Record_def sample_schema_def sample_columns_def sample_column_def new_RecordSchema_def)
  moreover have "(2 :: nat) < column_count (new_Record sample_schema (\<lambda>_. 0))" using k(3) sample_schema(4) by (simp add: new_Record_def)
  ultimately obtain r where r: "SetVisible True (new_Record sample_schema (\<lambda>_. 0)) = Returned r"
    using GetColumn_eq [OF ok, of 2] SetColumn_eq [OF ok, of 2 "[1]"] by (simp add: SetVisible_def outcome_bind_def new_Record_def)
  have run: "run_txn (\<lambda>_. 0) [db_table ix'] [Insert 0 [8] (new_Record sample_schema (\<lambda>_. 0)) sample_record] [] (db_mem s1)
      = Some (Returned (True, [], db_mem s1))"
    by (simp add: txn_step_def txn_InsertRecord_def locks_granted outcome_bind_def r NewAccess_def kMaxAccessLimit_def CommitTransaction_def Let_def)
  have tb: "insert_all [(7, sample_record)] ix s0 = Some (Returned (news, tb_index (db_table ix'), s1))" using i(2) by (simp add: db_table_def)
  have "Table_SearchRecord 8 (db_table ix') (db_mem s1) = Some (Returned Null)"
    using inserts_never_indexed [OF sample_used _ _ i(1) tb _ rec run] by (simp add: records_of_def)
  then show ?thesis using run by blast
qed

lemma sample_found:
  "\<exists>ix' m. Table_SearchRecord 7 (db_table ix') m = Some (Returned sample_record) \<and> Table_SearchRecord 8 (db_table ix') m = Some (Returned Null)"
proof -
  obtain ix s0 news ix' s1 where "insert_all [(7, sample_record)] ix s0 = Some (Returned (news, ix', s1))" and
    "\<forall>key. Table_SearchRecord key (db_table ix') (db_mem s1) = Some (Returned (if key = 7 then sample_record else Null))"
    using sample_table_search by blast
  from spec [OF this(2), of 7] spec [OF this(2), of 8] show ?thesis by auto
qed

lemma sample_sizes: "in_range sample_record (unat (GetSchemaSize sample_schema))" "\<not> is_null sample_record"
  by (simp_all add: sample_schema in_range_def sample_record_def ga_eq_def Null_def)

theorem lost_update_witness:
  "\<exists>ix' m m1 m2 al. run_txn (\<lambda>_. 0) [db_table ix'] [Change 0 0 [1, 2, 3, 4]] al m = Some (Returned (True, [], m1))
     \<and> run_txn (\<lambda>_. 0) [db_table ix'] [Change 0 1 [1, 2, 3, 4, 5, 6, 7, 8]] al m1 = Some (Returned (True, [], m2))
     \<and> GetColumn 0 (record_at sample_schema (\<lambda>_. 0) sample_record m1) = Returned [1, 2, 3, 4]
     \<and> GetColumn 0 (record_at sample_schema (\<lambda>_. 0) sample_record m2) = GetColumn 0 (record_at sample_schema (\<lambda>_. 0) sample_record m)"
proof -
  obtain ix' m where i: "Table_SearchRecord 7 ([db_table ix'] ! 0) m = Some (Returned sample_record)" using sample_found by auto
  have tb: "tb_schema ([db_table ix'] ! 0) = sample_schema" by (simp add: db_table_def)
  have c: "column_size (sample_columns ! 0) = 4" "column_size (sample_columns ! 1) = 8" by (simp_all add: sample_columns_def sample_column_def)
  obtain al1 al2 m1 m2 where "txn_step (\<lambda>_. 0) [db_table ix'] (Search 0 7 READ_WRITE) [] m = Some (Returned (True, al1, m))"
    "txn_step (\<lambda>_. 0) [db_table ix'] (Search 0 7 READ_WRITE) [] m = Some (Returned (True, al2, m))"
    "run_txn (\<lambda>_. 0) [db_table ix'] [Change 0 (of_nat 0) [1, 2, 3, 4]] al1 m = Some (Returned (True, [], m1))"
    "run_txn (\<lambda>_. 0) [db_table ix'] [Change 0 (of_nat 1) [1, 2, 3, 4, 5, 6, 7, 8]] al2 m1 = Some (Returned (True, [], m2))"
    "GetColumn (of_nat 0) (record_at sample_schema (\<lambda>_. 0) sample_record m1) = Returned (take (unat (column_size (sample_columns ! 0))) [1, 2, 3, 4])"
    "GetColumn (of_nat 0) (record_at sample_schema (\<lambda>_. 0) sample_record m2) = GetColumn (of_nat 0) (record_at sample_schema (\<lambda>_. 0) sample_record m)"
    using lost_update [OF sample_schema(1,2) _ tb i sample_sizes(2,1), of 0 1 "[1, 2, 3, 4]" "[1, 2, 3, 4, 5, 6, 7, 8]" "\<lambda>_. 0"]
      sample_schema(4) c by auto
  then show ?thesis by (intro exI [of _ ix'] exI [of _ m] exI [of _ m1] exI [of _ m2] exI [of _ al1]) (simp add: c)
qed

theorem failed_transaction_committed_witness:
  "\<exists>ix' m al m'. run_txn (\<lambda>_. 0) [db_table ix'] [Search 0 7 READ_WRITE, Change 0 0 [1, 2, 3, 4], Search 0 8 READ_ONLY] [] m = Some (Returned (False, al, m))
     \<and> run_txn (\<lambda>_. 0) [db_table ix'] [] al m = Some (Returned (True, [], m'))
     \<and> GetColumn 0 (record_at sample_schema (\<lambda>_. 0) sample_record m') = Returned [1, 2, 3, 4]"
proof -
  obtain ix' m where i: "Table_SearchRecord 7 ([db_table ix'] ! 0) m = Some (Returned sample_record)"
    "Table_SearchRecord 8 ([db_table ix'] ! 0) m = Some (Returned Null)" using sample_found by auto
  have tb: "tb_schema ([db_table ix'] ! 0) = sample_schema" by (simp add: db_table_def)
  have c: "column_size (sample_columns ! 0) = 4" by (simp add: sample_columns_def sample_column_def)
  show ?thesis
    using failed_transaction_committed [OF sample_schema(1,2) _ tb i(1) sample_sizes(2) i(2) sample_sizes(1), of 0 "[1, 2, 3, 4]" "\<lambda>_. 0" READ_ONLY]
      sample_schema(4) c by fastforce
qed

end
