(* ===== verification/Spec2Isabelle.thy ===== *)
theory Spec2Isabelle
  imports Dir_Protocol Dir_Pipeline Fabric C2h_Ring Locks Allocators Dsm Coh_Safety Dsm_Setup Db_Txn_Proof
begin

text \<open>
  \<^bold>\<open>Ting: a distributed shared memory with its directory on an FPGA.\<close>

  Every node has a part of the shared memory, a cache of lines of all nodes' memory, and an FPGA on the
  network. An application thread reads and writes the shared memory through \<open>DSM::read\<close> and \<open>DSM::write\<close>,
  which cut the access into lines. The software cache finds the line or sends a request to the FPGA of the
  line's home node. There the directory looks up the block's entry in the DDR memory, changes it,
  and answers the requester or notifies the nodes that have copies; the cache controller of a notified
  node acknowledges for its host, and an agent thread of the host applies the notice to the line. The
  messages pass the network as packets, and between host and FPGA through rings in host memory.

  \<^bold>\<open>Theories and code.\<close> Paths are under \<open>src/\<close>; \<open>hls\<close> is \<open>hard_multi_node/hls/highPara/src\<close> and \<open>soft\<close> is
  \<open>soft_multi_node\<close>.

  \<^item> \<open>Prelude\<close>: words, packed bit fields, bytes, streams; \<open>Messages\<close>: the structs and conversions of
    \<open>hls/utils.cpp\<close>, \<open>io.hpp\<close>, \<open>dsmtype.hpp\<close>. Its lemmas are the round trips of the formats.
  \<^item> \<open>Directory\<close>: \<open>hls/dir\<close>, one definition per handler; \<open>Dir_Protocol\<close>: the abstract directory
    and the proof that the handlers implement it; \<open>Dir_Lock\<close>, \<open>Dir_Pipeline\<close>: the lock table, and the proof
    that the pipelined directory behaves as if messages were handled one by one.
  \<^item> \<open>Fabric\<close>: \<open>hls/cache\<close> and \<open>hls/net\<close>: the cache controller, the arbiter, the fetch of line data, the
    sender and the receiver of packets.
  \<^item> \<open>Ring\<close>, \<open>Qdma\<close>, \<open>C2h_Ring\<close>: \<open>hls/qdma\<close>, \<open>soft/include/qdma_include/ring_buffer.h\<close> and
    \<open>channel_context.h\<close>: the rings between FPGA and host, from both sides.
  \<^item> \<open>Host_Types\<close>: \<open>Common.h\<close>, \<open>GlobalAddress.h\<close>, \<open>Config.h\<close>, \<open>RawMessageConnection.h\<close>; \<open>Hashing\<close>: \<open>Hash.h\<close>;
    \<open>Locks\<close>: \<open>WRLock.h\<close>, \<open>spinlock.h\<close>; \<open>Allocators\<close>: the chunk and block allocators.
  \<^item> \<open>Cache_Line\<close>: the atomic tag of a line and the swaps of threads and agents; \<open>Cache_Set\<close>: lookup, slots and
    eviction; \<open>Cache_Effects\<close>: what each operation does to places and buffers; \<open>Cache_Threads\<close>:
    \<open>readLine\<close> and \<open>writeLine\<close> of all threads of a node interleaved, with the invariant of the reachable states;
    \<open>Cache_Safety\<close>: its consequences; \<open>Cache_Access\<close>: one thread's whole access with the bytes it copies.
  \<^item> \<open>Coh_Node\<close>, \<open>Coherence\<close>, \<open>Coh_Safety\<close>: the whole protocol of one block: directory, cache controllers, and the
    threads and agents of all nodes, with the messages between them; the invariant that ties the directory's entry to the
    nodes' lines, and what follows for copies, notices and replies.
  \<^item> \<open>Slabs\<close>: \<open>slabs.cpp\<close>, the allocator of DMA memory; \<open>Slabs_Proof\<close>: its invariant, one operation at a time;
    \<open>Slabs_Spec\<close>: its contract over sequences of calls; \<open>Dsm_Setup\<close>: the set-up of a node (\<open>DSM::DSM\<close>,
    \<open>Cache::initLine\<close>) with three of these allocators, and the layout of the node's memory that results.
  \<^item> \<open>Dsm\<close>: \<open>DSM::read\<close> and \<open>DSM::write\<close> over the interface \<open>line_access\<close>, interpreted on the software cache.
  \<^item> \<open>Db_Memory\<close> to \<open>Db_Txn_Proof\<close>: the database of \<open>soft/database\<close> over flat shared memory. \<open>Db_Memory\<close>: reads,
    writes and blocks as the database sees them; \<open>Db_Bucket\<close> (\<open>HashIndexHelper.h\<close>), \<open>Db_Array\<close> (\<open>GAddrArray.h\<close>) and
    \<open>Db_Index\<close> (\<open>HashIndex.h\<close>): the hash index, whose bytes in memory \<open>Db_Bucket_Proof\<close>, \<open>Db_Bucket_Spec\<close>,
    \<open>Db_Array_Proof\<close> and \<open>Db_Index_Proof\<close> relate to a map from keys to records; \<open>Db_Schema\<close> (\<open>ColumnInfo.h\<close>,
    \<open>RecordSchema.h\<close>, \<open>Record.h\<close>, \<open>Records.h\<close>): the layout of records, with its laws in \<open>Db_Schema_Proof\<close>;
    \<open>Db_Storage\<close> (\<open>Table.h\<close>, \<open>StorageManager.h\<close>): tables and the catalogue, whose round trip is in \<open>Db_Storage_Proof\<close>;
    \<open>Db_Txn\<close> (\<open>TransactionManager.h\<close>, \<open>TransactionManager2PL.cpp\<close>, \<open>TxnAccess.h\<close>): transactions, and in \<open>Db_Txn_Proof\<close>
    what they do to each other and to the index.

  \<^bold>\<open>Interfaces.\<close> A locale states what one part relies on in another, and is interpreted on the model of
  the part that provides it; the properties use the interpreted facts. \<open>ticket_lock\<close> (table of block locks), \<open>rw_lock\<close>
  (reader-writer locks), \<open>chunk_source\<close> (where a local allocator has its chunks from), \<open>region_allocator\<close> (blocks of a
  region), \<open>line_access\<close> (what the shared memory needs of the cache).

  \<^bold>\<open>Bounds and fuel.\<close> Machine integers keep their width, wrap-around included. Loops that end are recursive with a measure;
  \<open>access_loop\<close>, which need not end, is a partial function whose value \<open>None\<close> is not returning. Waiting for
  a message that does not come is \<open>Waits\<close>, a loop that prints forever is \<open>Hangs\<close>, a failed assertion \<open>Aborts\<close>.
  A list of cycles or steps stands for time.

  \<^bold>\<open>Not modelled.\<close> Of the database the executor's threads, the single-threaded variant of the transaction manager, and the
  load, parameters and procedures of the TPC-C benchmark; the device library, sockets and RPC, timing and statistics, NUMA binding and logging,
  the Chisel shell, the HLS test benches, the vendored libraries, and weak memory orders (the interleavings are
  sequentially consistent).
\<close>

end
